(* ===== verification/Ton_Prelude.thy ===== *)
theory Ton_Prelude
  imports Main "HOL-Library.Word" "HOL-Library.Sublist"
begin

text \<open>
  Shared vocabulary of the development.

  Every fallible routine of the C++ sources is a HOL function into a sum type:
  \<open>Inl\<close> carries the error (a thrown exception, a failed \<open>CHECK\<close>, an access outside a
  container), \<open>Inr\<close> the normal result.  \<open>rbind\<close> sequences two such computations the way
  C++ statements are sequenced: an error of the first one is the error of both.

  The theory also holds the generic facts on lists and words that several components
  use: the longest common prefix of two bit strings, big-endian bit strings of
  unsigned numbers, and the bits of the words that \<open>td/utils/bits.h\<close> computes with.
\<close>

unbundle bit_operations_syntax

type_synonym u32 = "32 word"
type_synonym u64 = "64 word"
type_synonym bits = "bool list"

section \<open>Results\<close>

named_theorems rsimps \<open>rewrite rules that push case distinctions through results\<close>

definition rbind :: "'e + 'a \<Rightarrow> ('a \<Rightarrow> 'e + 'b) \<Rightarrow> 'e + 'b" where
  "rbind m f = (case m of Inl e \<Rightarrow> Inl e | Inr x \<Rightarrow> f x)"

definition rguard :: "bool \<Rightarrow> 'e \<Rightarrow> 'e + unit" where
  "rguard b e = (if b then Inr () else Inl e)"

lemma rbind_Inl [simp]: "rbind (Inl e) f = Inl e"
  by (simp add: rbind_def)

lemma rbind_Inr [simp]: "rbind (Inr x) f = f x"
  by (simp add: rbind_def)

lemma rguard_True [simp]: "rguard True e = Inr ()"
  by (simp add: rguard_def)

lemma rguard_False [simp]: "rguard False e = Inl e"
  by (simp add: rguard_def)

lemma rbind_eq_Inr_iff [rsimps]: "rbind m f = Inr y \<longleftrightarrow> (\<exists>x. m = Inr x \<and> f x = Inr y)"
  by (cases m) auto

lemma rbind_eq_Inl_iff [rsimps]: "rbind m f = Inl e \<longleftrightarrow> m = Inl e \<or> (\<exists>x. m = Inr x \<and> f x = Inl e)"
  by (cases m) auto

lemma rguard_eq_Inr_iff [rsimps]: "rguard b e = Inr u \<longleftrightarrow> b"
  by (cases b) auto

lemma rguard_eq_Inl_iff [rsimps]: "rguard b e = Inl e' \<longleftrightarrow> \<not> b \<and> e' = e"
  by (cases b) auto

lemma rbind_assoc: "rbind (rbind m f) g = rbind m (\<lambda>x. rbind (f x) g)"
  by (cases m) auto

lemma rbind_rguard: "rbind (rguard b e) f = (if b then f () else Inl e)"
  by (cases b) auto

lemma rbind_cong [fundef_cong]:
  "m = m' \<Longrightarrow> (\<And>x. m' = Inr x \<Longrightarrow> f x = f' x) \<Longrightarrow> rbind m f = rbind m' f'"
  by (cases m') auto

section \<open>Longest common prefixes\<close>

text \<open>
  \<open>common_prefix_length xs ys\<close> is what \<open>td::bitstring::bits_memcmp\<close> reports through its
  \<open>same_upto\<close> argument: the number of leading positions in which two bit strings agree.
\<close>

fun common_prefix_length :: "'a list \<Rightarrow> 'a list \<Rightarrow> nat" where
  "common_prefix_length (x # xs) (y # ys) = (if x = y then Suc (common_prefix_length xs ys) else 0)"
| "common_prefix_length _ _ = 0"

lemma common_prefix_length_le1: "common_prefix_length xs ys \<le> length xs"
  by (induction xs ys rule: common_prefix_length.induct) auto

lemma common_prefix_length_le2: "common_prefix_length xs ys \<le> length ys"
  by (induction xs ys rule: common_prefix_length.induct) auto

lemma common_prefix_length_take:
  "take (common_prefix_length xs ys) xs = take (common_prefix_length xs ys) ys"
  by (induction xs ys rule: common_prefix_length.induct) auto

lemma common_prefix_length_differ:
  "common_prefix_length xs ys < length xs \<Longrightarrow> common_prefix_length xs ys < length ys \<Longrightarrow>
   xs ! common_prefix_length xs ys \<noteq> ys ! common_prefix_length xs ys"
  by (induction xs ys rule: common_prefix_length.induct) auto

lemma common_prefix_length_full: "common_prefix_length xs ys = length xs \<longleftrightarrow> prefix xs ys"
  by (induction xs ys rule: common_prefix_length.induct) auto

lemma common_prefix_length_append [simp]:
  "common_prefix_length (zs @ xs) (zs @ ys) = length zs + common_prefix_length xs ys"
  by (induction zs) auto

lemma common_prefix_length_self [simp]: "common_prefix_length xs xs = length xs"
  by (induction xs) auto

lemma common_prefix_length_commute: "common_prefix_length xs ys = common_prefix_length ys xs"
  by (induction xs ys rule: common_prefix_length.induct) auto

lemma prefix_longer_eq: "prefix xs ys \<Longrightarrow> length ys \<le> length xs \<Longrightarrow> xs = ys"
  by (auto simp: prefix_def)

section \<open>Big-endian bit strings of unsigned numbers\<close>

text \<open>
  \<open>nat_to_bits w n\<close> are the \<open>w\<close> low bits of \<open>n\<close>, most significant bit first, as
  \<open>bits_store_long_top\<close> lays them out; \<open>bits_to_nat\<close> reads them back.
\<close>

fun nat_to_bits :: "nat \<Rightarrow> nat \<Rightarrow> bits" where
  "nat_to_bits 0 n = []"
| "nat_to_bits (Suc w) n = nat_to_bits w (n div 2) @ [odd n]"

definition bits_to_nat :: "bits \<Rightarrow> nat" where
  "bits_to_nat bs = foldl (\<lambda>n b. 2 * n + of_bool b) 0 bs"

lemma length_nat_to_bits [simp]: "length (nat_to_bits w n) = w"
  by (induction w arbitrary: n) auto

lemma bits_to_nat_Nil [simp]: "bits_to_nat [] = 0"
  by (simp add: bits_to_nat_def)

lemma bits_to_nat_snoc [simp]: "bits_to_nat (bs @ [b]) = 2 * bits_to_nat bs + of_bool b"
  by (simp add: bits_to_nat_def)

lemma bits_to_nat_append: "bits_to_nat (xs @ ys) = bits_to_nat xs * 2 ^ length ys + bits_to_nat ys"
proof (induction ys rule: rev_induct)
  case (snoc y ys)
  have "bits_to_nat (xs @ ys @ [y]) = 2 * bits_to_nat (xs @ ys) + of_bool y"
    using bits_to_nat_snoc [of "xs @ ys" y] by simp
  with snoc show ?case by (simp add: algebra_simps)
qed simp

lemma bits_to_nat_less: "bits_to_nat bs < 2 ^ length bs"
proof (induction bs rule: rev_induct)
  case (snoc b bs)
  then have "2 * bits_to_nat bs + 1 < 2 * 2 ^ length bs" by linarith
  then show ?case by (cases b) auto
qed simp

lemma bits_to_nat_nat_to_bits: "bits_to_nat (nat_to_bits w n) = n mod 2 ^ w"
proof (induction w arbitrary: n)
  case (Suc w)
  have "n mod 2 ^ Suc w = 2 * (n div 2 mod 2 ^ w) + n mod 2"
    by (metis mod_mult2_eq power_Suc add.commute)
  with Suc show ?case by (simp add: mod_2_eq_odd)
qed simp

lemma nat_to_bits_bits_to_nat: "nat_to_bits (length bs) (bits_to_nat bs) = bs"
  by (induction bs rule: rev_induct) auto

lemma bits_to_nat_id: "n < 2 ^ w \<Longrightarrow> bits_to_nat (nat_to_bits w n) = n"
  by (simp add: bits_to_nat_nat_to_bits)

lemma nat_to_bits_mod: "nat_to_bits w (n mod 2 ^ w) = nat_to_bits w n"
  by (metis bits_to_nat_nat_to_bits length_nat_to_bits nat_to_bits_bits_to_nat)

lemma bits_to_nat_inject:
  "length xs = length ys \<Longrightarrow> bits_to_nat xs = bits_to_nat ys \<Longrightarrow> xs = ys"
  by (metis nat_to_bits_bits_to_nat)

end
