(* ===== verification/Shard.thy ===== *)
theory Shard
  imports Ton_Prelude
begin

text \<open>
  Shard identifiers (\<open>ton/ton-shard.h\<close>, with the word primitives of
  \<open>tdutils/td/utils/bits.h\<close>).

  A shard of a workchain is a 64-bit word: the bits of its prefix, most significant bit
  first, then a single 1, then zeros.  The operations are bit tricks on that word; the
  meaning of a shard is the prefix itself, \<open>shard_path\<close>, a bit string of length at most
  63.  The lemmas show that each trick computes the obvious operation on prefixes.
  \<open>shard_prefix\<close>, \<open>shard_parent\<close> and \<open>shard_child\<close> contain \<open>CHECK\<close>s, so they are partial:
  \<open>None\<close> is the failed check.
\<close>

section \<open>Word primitives\<close>

definition bits_negate64 :: "u64 \<Rightarrow> u64" where
  "bits_negate64 x = NOT x + 1"

definition lower_bit64 :: "u64 \<Rightarrow> u64" where
  "lower_bit64 x = x AND bits_negate64 x"

definition count_trailing_zeroes64 :: "u64 \<Rightarrow> nat" where
  "count_trailing_zeroes64 x =
     (if x = 0 then 64 else length (takeWhile (\<lambda>i. \<not> bit x i) [0..<64]))"

definition count_leading_zeroes64 :: "u64 \<Rightarrow> nat" where
  "count_leading_zeroes64 x =
     (if x = 0 then 64 else length (takeWhile (\<lambda>i. \<not> bit x (63 - i)) [0..<64]))"

definition count_leading_zeroes32 :: "u32 \<Rightarrow> nat" where
  "count_leading_zeroes32 x =
     (if x = 0 then 32 else length (takeWhile (\<lambda>i. \<not> bit x (31 - i)) [0..<32]))"

section \<open>Operations on shard identifiers\<close>

definition rootShardId :: u64 where
  "rootShardId = push_bit 63 1"

definition count_matching_bits :: "u64 \<Rightarrow> u64 \<Rightarrow> nat" where
  "count_matching_bits x y = (if x = y then 64 else count_leading_zeroes64 (x XOR y))"

definition shard_prefix_length :: "u64 \<Rightarrow> nat" where
  "shard_prefix_length shard = (if shard \<noteq> 0 then 63 - count_trailing_zeroes64 shard else 0)"

definition shard_is_ancestor :: "u64 \<Rightarrow> u64 \<Rightarrow> bool" where
  "shard_is_ancestor parent child =
     (let x = lower_bit64 parent; y = lower_bit64 child
      in y \<le> x \<and> (parent XOR child) AND (push_bit 1 (bits_negate64 x)) = 0)"

definition shard_is_proper_ancestor :: "u64 \<Rightarrow> u64 \<Rightarrow> bool" where
  "shard_is_proper_ancestor parent child =
     (let x = lower_bit64 parent; y = lower_bit64 child
      in y < x \<and> (parent XOR child) AND (push_bit 1 (bits_negate64 x)) = 0)"

definition shard_contains :: "u64 \<Rightarrow> u64 \<Rightarrow> bool" where
  "shard_contains parent child =
     (let x = lower_bit64 parent
      in (parent XOR child) AND (push_bit 1 (bits_negate64 x)) = 0)"

definition shard_intersects :: "u64 \<Rightarrow> u64 \<Rightarrow> bool" where
  "shard_intersects x y =
     (let z = max (lower_bit64 x) (lower_bit64 y)
      in (x XOR y) AND (push_bit 1 (bits_negate64 z)) = 0)"

definition shard_intersection :: "u64 \<Rightarrow> u64 \<Rightarrow> u64" where
  "shard_intersection x y = (if lower_bit64 x < lower_bit64 y then x else y)"

definition is_right_child :: "u64 \<Rightarrow> bool" where
  "is_right_child x \<longleftrightarrow> x AND push_bit 1 (lower_bit64 x) \<noteq> 0"

definition is_left_child :: "u64 \<Rightarrow> bool" where
  "is_left_child x \<longleftrightarrow> \<not> is_right_child x"

definition shard_prefix :: "u64 \<Rightarrow> nat \<Rightarrow> u64 option" where
  "shard_prefix ident len =
     (if \<not> len \<le> 63 then None
      else let x = lower_bit64 ident; y = push_bit (63 - len) 1
           in if \<not> x \<le> y then None
              else Some ((ident AND bits_negate64 y) OR y))"

definition shard_parent :: "u64 \<Rightarrow> u64 option" where
  "shard_parent shard =
     (let x = lower_bit64 shard
      in if x = 0 then None else Some ((shard - x) OR push_bit 1 x))"

definition shard_is_parent :: "u64 \<Rightarrow> u64 \<Rightarrow> bool" where
  "shard_is_parent parent child =
     (let y = lower_bit64 child in y \<noteq> 0 \<and> shard_parent child = Some parent)"

definition shard_child :: "u64 \<Rightarrow> bool \<Rightarrow> u64 option" where
  "shard_child shard left =
     (let x = drop_bit 1 (lower_bit64 shard)
      in if x = 0 then None else Some (if left then shard - x else shard + x))"

definition shard_is_sibling :: "u64 \<Rightarrow> u64 \<Rightarrow> bool" where
  "shard_is_sibling x y \<longleftrightarrow>
     x XOR y \<noteq> 0 \<and> x XOR y = push_bit 1 (x AND bits_negate64 x)"

definition shard_sibling :: "u64 \<Rightarrow> u64" where
  "shard_sibling x = x XOR push_bit 1 (x AND bits_negate64 x)"

subsection \<open>Shards qualified by a workchain\<close>

record shard_id_full =
  workchain :: u32
  shard :: u64

record account_id_prefix_full =
  acc_workchain :: u32
  account_id_prefix :: u64

definition count_matching_bits_full :: "account_id_prefix_full \<Rightarrow> account_id_prefix_full \<Rightarrow> nat" where
  "count_matching_bits_full x y =
     (if acc_workchain x \<noteq> acc_workchain y
      then count_leading_zeroes32 (acc_workchain x XOR acc_workchain y)
      else 32 + count_matching_bits (account_id_prefix x) (account_id_prefix y))"

definition shard_is_ancestor_full :: "shard_id_full \<Rightarrow> shard_id_full \<Rightarrow> bool" where
  "shard_is_ancestor_full parent child \<longleftrightarrow>
     workchain parent = workchain child \<and> shard_is_ancestor (shard parent) (shard child)"

definition shard_contains_full :: "shard_id_full \<Rightarrow> account_id_prefix_full \<Rightarrow> bool" where
  "shard_contains_full parent child \<longleftrightarrow>
     workchain parent = acc_workchain child \<and> shard_contains (shard parent) (account_id_prefix child)"

definition shard_intersects_full :: "shard_id_full \<Rightarrow> shard_id_full \<Rightarrow> bool" where
  "shard_intersects_full x y \<longleftrightarrow>
     workchain x = workchain y \<and> shard_intersects (shard x) (shard y)"

definition shard_intersection_full :: "shard_id_full \<Rightarrow> shard_id_full \<Rightarrow> shard_id_full" where
  "shard_intersection_full x y =
     \<lparr>workchain = workchain x, shard = shard_intersection (shard x) (shard y)\<rparr>"

definition shard_prefix_full :: "account_id_prefix_full \<Rightarrow> nat \<Rightarrow> shard_id_full" where
  "shard_prefix_full ident len =
     (let y = push_bit (63 - len) 1
      in \<lparr>workchain = acc_workchain ident,
          shard = (account_id_prefix ident AND bits_negate64 y) OR y\<rparr>)"

section \<open>The prefix of a shard\<close>

text \<open>The prefix that a shard identifier denotes, and the prefix of an account address.\<close>

definition shard_path :: "u64 \<Rightarrow> bits" where
  "shard_path x = map (\<lambda>i. bit x (63 - i)) [0..<shard_prefix_length x]"

definition account_path :: "u64 \<Rightarrow> bits" where
  "account_path x = map (\<lambda>i. bit x (63 - i)) [0..<64]"

section \<open>Bits of the word primitives\<close>

abbreviation (input) tz :: "u64 \<Rightarrow> nat" where
  "tz \<equiv> count_trailing_zeroes64"

lemma word64_eq_0_iff: "(w :: u64) = 0 \<longleftrightarrow> (\<forall>i. \<not> bit w i)"
  by (auto intro: bit_eqI)

lemma word64_neq_bit:
  assumes "x \<noteq> (y :: u64)"
  obtains m where "m < 64" "bit x m \<noteq> bit y m"
proof -
  obtain m where "bit (x XOR y) m"
    using assms by (metis word64_eq_0_iff xor_self_eq xor.right_neutral xor.left_commute)
  moreover from this have "m < 64" using bit_imp_le_length by fastforce
  ultimately show ?thesis using that by (simp add: bit_xor_iff)
qed

lemma takeWhile_upt_first:
  assumes "k < n" "P k" "\<And>i. i < k \<Longrightarrow> \<not> P i"
  shows "length (takeWhile (\<lambda>i. \<not> P i) [0..<n]) = k"
proof -
  have "[0..<n] = [0..<k] @ k # [Suc k..<n]"
    using assms(1) by (metis le0 le_add_diff_inverse less_imp_le_nat upt_add_eq_append upt_conv_Cons)
  then show ?thesis using assms(2,3) by (simp add: takeWhile_append takeWhile_eq_all_conv)
qed

lemma tz_eq:
  assumes "bit x k" "\<And>i. i < k \<Longrightarrow> \<not> bit (x :: u64) i"
  shows "tz x = k"
proof -
  have "k < 64" using bit_imp_le_length [OF assms(1)] by simp
  moreover have "x \<noteq> 0" using assms(1) by auto
  ultimately show ?thesis
    using takeWhile_upt_first [of k 64 "bit x"] assms by (simp add: count_trailing_zeroes64_def)
qed

lemma tz_props:
  assumes "x \<noteq> (0 :: u64)"
  shows "bit x (tz x)" and "i < tz x \<Longrightarrow> \<not> bit x i" and "tz x < 64"
proof -
  obtain n where "bit x n" using assms by (auto simp: bit_eq_iff)
  define k where "k = (LEAST n. bit x n)"
  have 1: "bit x k" unfolding k_def by (rule LeastI) fact
  have 2: "\<not> bit x i" if "i < k" for i using not_less_Least that unfolding k_def by blast
  have "tz x = k" using tz_eq [OF 1 2] .
  with 1 2 show "bit x (tz x)" "i < tz x \<Longrightarrow> \<not> bit x i" "tz x < 64"
    using bit_imp_le_length [OF 1] by auto
qed

lemma tz_unique: "x \<noteq> 0 \<Longrightarrow> tz x = k \<longleftrightarrow> bit x k \<and> (\<forall>i<k. \<not> bit x i)"
  using tz_eq tz_props by blast

lemma word64_decomp:
  assumes "x \<noteq> (0 :: u64)"
  shows "x = (x AND NOT (mask (Suc (tz x)))) + 2 ^ tz x"
proof -
  have "x = (x AND NOT (mask (Suc (tz x)))) OR 2 ^ tz x"
    using tz_props [OF assms]
    by (intro bit_eqI) (auto simp: bit_simps less_Suc_eq not_less_eq, metis linorder_neqE_nat)
  also have "\<dots> = (x AND NOT (mask (Suc (tz x)))) + 2 ^ tz x"
    by (rule disjunctive_add_eq_or [symmetric], rule bit_eqI) (auto simp: bit_simps)
  finally show ?thesis .
qed

lemma bit_bits_negate64:
  assumes "x \<noteq> 0"
  shows "bit (bits_negate64 x) i \<longleftrightarrow> i < 64 \<and> (i = tz x \<or> tz x < i \<and> \<not> bit x i)"
proof -
  let ?k = "tz x" and ?h = "x AND NOT (mask (Suc (tz x)))"
  have "x - 1 = ?h + (2 ^ ?k - 1)"
    using word64_decomp [OF assms] by (metis add_diff_eq)
  also have "2 ^ ?k - 1 = (mask ?k :: u64)"
    by (simp add: mask_eq_exp_minus_1)
  also have "?h + mask ?k = ?h OR mask ?k"
    by (rule disjunctive_add_eq_or, rule bit_eqI) (auto simp: bit_simps)
  finally have eq: "x - 1 = ?h OR mask ?k" .
  have "bits_negate64 x = NOT (x - 1)"
    by (simp add: bits_negate64_def not_diff_distrib)
  then show ?thesis
    using tz_props [OF assms] unfolding eq
    by (auto simp: bit_simps less_Suc_eq not_less_eq not_less)
qed


lemma lower_bit64_eq: "x \<noteq> 0 \<Longrightarrow> lower_bit64 x = 2 ^ tz x"
  using tz_props [of x] unfolding lower_bit64_def
  by (intro bit_eqI) (auto simp: bit_simps bit_bits_negate64)

lemma lower_bit64_zero [simp]: "lower_bit64 0 = 0"
  by (simp add: lower_bit64_def)

lemma tz_exp [simp]: "k < 64 \<Longrightarrow> tz (2 ^ k) = k"
  by (rule tz_eq) (auto simp: bit_simps)

lemma bit_neg_exp: "k < 64 \<Longrightarrow> bit (bits_negate64 (2 ^ k)) i \<longleftrightarrow> k \<le> i \<and> i < 64"
  by (auto simp: bit_bits_negate64 bit_simps)

lemma bit_times_2_word: "bit (x * 2 :: u64) i \<longleftrightarrow> i < 64 \<and> 0 < i \<and> bit x (i - 1)"
proof -
  have "x * 2 = push_bit 1 x" by simp
  then show ?thesis by (simp only: bit_push_bit_iff) auto
qed

lemma agree_above_iff:
  assumes "k < 64"
  shows "(x XOR y) AND (bits_negate64 (2 ^ k) * 2) = 0 \<longleftrightarrow>
         (\<forall>i. k < i \<and> i < 64 \<longrightarrow> bit x i = bit (y :: u64) i)"
proof -
  have "bit ((x XOR y) AND (bits_negate64 (2 ^ k) * 2)) i \<longleftrightarrow>
        k < i \<and> i < 64 \<and> bit x i \<noteq> bit y i" for i
    using assms by (auto simp: bit_simps bit_neg_exp bit_times_2_word)
  then show ?thesis by (auto simp: bit_eq_iff)
qed

lemma unat_exp64: "k < 64 \<Longrightarrow> unat (2 ^ k :: u64) = 2 ^ k"
  using unat_of_nat [of "2 ^ k", where 'a = 64] power_strict_increasing [of k 64 "2 :: nat"]
  by simp

lemma exp_le_exp_iff: "j < 64 \<Longrightarrow> k < 64 \<Longrightarrow> (2 ^ j :: u64) \<le> 2 ^ k \<longleftrightarrow> j \<le> k"
  by (simp add: word_le_nat_alt unat_exp64)

lemma exp_less_exp_iff: "j < 64 \<Longrightarrow> k < 64 \<Longrightarrow> (2 ^ j :: u64) < 2 ^ k \<longleftrightarrow> j < k"
  using exp_le_exp_iff [of k j] by (auto simp: not_le [symmetric])

lemma exp_eq_exp_iff: "j < 64 \<Longrightarrow> k < 64 \<Longrightarrow> (2 ^ j :: u64) = 2 ^ k \<longleftrightarrow> j = k"
  by (metis tz_exp)

lemmas word_shift_simps = lower_bit64_eq agree_above_iff exp_le_exp_iff exp_less_exp_iff
  exp_eq_exp_iff tz_props(3)

subsection \<open>Prefixes\<close>

lemma shard_prefix_length_eq: "x \<noteq> 0 \<Longrightarrow> shard_prefix_length x = 63 - tz x"
  by (simp add: shard_prefix_length_def)

lemma length_shard_path [simp]: "length (shard_path x) = shard_prefix_length x"
  by (simp add: shard_path_def)

lemma length_account_path [simp]: "length (account_path x) = 64"
  by (simp add: account_path_def)

lemma nth_shard_path: "i < shard_prefix_length x \<Longrightarrow> shard_path x ! i = bit x (63 - i)"
  by (simp add: shard_path_def)

lemma nth_account_path: "i < 64 \<Longrightarrow> account_path x ! i = bit x (63 - i)"
  by (simp add: account_path_def)

lemma prefix_iff_nth:
  "prefix xs ys \<longleftrightarrow> length xs \<le> length ys \<and> (\<forall>i < length xs. xs ! i = ys ! i)"
  by (metis dual_order.refl nth_append nth_take_lemma prefix_def prefix_length_le take_all take_is_prefix)

lemma all_high_bits_iff:
  assumes "k < (64 :: nat)"
  shows "(\<forall>i. k < i \<and> i < 64 \<longrightarrow> P i) \<longleftrightarrow> (\<forall>j < 63 - k. P (63 - j))"
proof
  assume L: "\<forall>i. k < i \<and> i < 64 \<longrightarrow> P i"
  show "\<forall>j < 63 - k. P (63 - j)"
  proof (intro allI impI)
    fix j assume "j < 63 - k"
    then have "k < 63 - j \<and> 63 - j < 64" by auto
    with L show "P (63 - j)" by blast
  qed
next
  assume R: "\<forall>j < 63 - k. P (63 - j)"
  show "\<forall>i. k < i \<and> i < 64 \<longrightarrow> P i"
  proof (intro allI impI)
    fix i assume "k < i \<and> i < 64"
    then have "63 - i < 63 - k" "63 - (63 - i) = i" by auto
    with R show "P i" by metis
  qed
qed

text \<open>A shard identifier is determined by its prefix.\<close>

lemma shard_path_inject:
  assumes "x \<noteq> 0" "y \<noteq> 0" "shard_path x = shard_path y"
  shows "x = y"
proof (rule bit_eqI)
  fix i
  have len: "shard_prefix_length x = shard_prefix_length y"
    using assms(3) by (metis length_shard_path)
  then have tz: "tz x = tz y"
    using assms tz_props [of x] tz_props [of y] by (simp add: shard_prefix_length_eq)
  have high: "\<forall>i. tz x < i \<and> i < 64 \<longrightarrow> bit x i = bit y i"
    using assms len tz_props(3) [of x] nth_shard_path [of _ x] nth_shard_path [of _ y]
    by (subst all_high_bits_iff) (auto simp: shard_prefix_length_eq)
  consider "i < tz x" | "i = tz x" | "tz x < i" "i < 64" | "64 \<le> i" by linarith
  then show "bit x i = bit y i"
    using high tz tz_props [OF assms(1)] tz_props [OF assms(2)]
    by cases (auto dest: bit_imp_le_length)
qed

section \<open>The operations on prefixes\<close>

lemma shard_is_ancestor_iff_prefix:
  assumes "p \<noteq> 0" "c \<noteq> 0"
  shows "shard_is_ancestor p c \<longleftrightarrow> prefix (shard_path p) (shard_path c)"
proof -
  have "shard_is_ancestor p c \<longleftrightarrow>
        tz c \<le> tz p \<and> (\<forall>j < 63 - tz p. bit p (63 - j) = bit c (63 - j))"
    using assms tz_props(3)
    by (simp add: shard_is_ancestor_def word_shift_simps all_high_bits_iff)
  also have "\<dots> \<longleftrightarrow> prefix (shard_path p) (shard_path c)"
    using assms tz_props(3) [of p] tz_props(3) [of c]
    by (auto simp: prefix_iff_nth nth_shard_path shard_prefix_length_eq)
  finally show ?thesis .
qed

lemma shard_is_proper_ancestor_iff_strict_prefix:
  assumes "p \<noteq> 0" "c \<noteq> 0"
  shows "shard_is_proper_ancestor p c \<longleftrightarrow> strict_prefix (shard_path p) (shard_path c)"
proof -
  have "shard_is_proper_ancestor p c \<longleftrightarrow> shard_is_ancestor p c \<and> lower_bit64 p \<noteq> lower_bit64 c"
    by (auto simp: shard_is_proper_ancestor_def shard_is_ancestor_def Let_def)
  also have "lower_bit64 p = lower_bit64 c \<longleftrightarrow> tz p = tz c"
    using assms by (simp add: word_shift_simps)
  also have "\<dots> \<longleftrightarrow> shard_prefix_length p = shard_prefix_length c"
    using assms tz_props(3) [of p] tz_props(3) [of c] by (auto simp: shard_prefix_length_eq)
  finally show ?thesis
    using assms
    by (metis le_refl length_shard_path prefix_longer_eq prefix_order.less_le
        shard_is_ancestor_iff_prefix)
qed

lemma shard_contains_iff_prefix:
  assumes "p \<noteq> 0"
  shows "shard_contains p a \<longleftrightarrow> prefix (shard_path p) (account_path a)"
  using assms tz_props(3) [of p]
  by (auto simp: shard_contains_def word_shift_simps all_high_bits_iff
      prefix_iff_nth nth_shard_path nth_account_path shard_prefix_length_eq)


lemma shard_intersects_eq:
  "shard_intersects x y \<longleftrightarrow> (if lower_bit64 x < lower_bit64 y then shard_is_ancestor y x else shard_is_ancestor x y)"
  by (auto simp: shard_intersects_def shard_is_ancestor_def Let_def max_def xor.commute)

lemma lower_bit64_less_iff:
  assumes "x \<noteq> 0" "y \<noteq> 0"
  shows "lower_bit64 x < lower_bit64 y \<longleftrightarrow> shard_prefix_length y < shard_prefix_length x"
proof -
  have "tz x < 64" "tz y < 64" using assms tz_props(3) by auto
  then show ?thesis using assms by (auto simp: lower_bit64_eq exp_less_exp_iff shard_prefix_length_eq)
qed

lemma shard_intersects_iff_prefix:
  assumes "x \<noteq> 0" "y \<noteq> 0"
  shows "shard_intersects x y \<longleftrightarrow>
         prefix (shard_path x) (shard_path y) \<or> prefix (shard_path y) (shard_path x)"
proof -
  have "\<not> prefix (shard_path y) (shard_path x) \<or> prefix (shard_path x) (shard_path y)"
    if "\<not> shard_prefix_length y < shard_prefix_length x"
    using that by (metis length_shard_path not_less prefix_longer_eq prefix_order.refl)
  moreover have "\<not> prefix (shard_path x) (shard_path y)"
    if "shard_prefix_length y < shard_prefix_length x"
    using that prefix_length_le by fastforce
  ultimately show ?thesis
    using assms
    by (auto simp: shard_intersects_eq lower_bit64_less_iff shard_is_ancestor_iff_prefix)
qed

text \<open>Bits of the words that the tree operations produce.\<close>

lemma tz_path_eqI:
  assumes "bit x k" "\<And>i. i < k \<Longrightarrow> \<not> bit x i" "length p = 63 - k"
    and "\<And>i. i < 63 - k \<Longrightarrow> bit x (63 - i) = p ! i"
  shows "shard_path x = p"
proof -
  have "tz x = k" by (rule tz_eq) (use assms in auto)
  moreover have "x \<noteq> 0" using assms(1) by auto
  ultimately show ?thesis
    using assms(3,4) by (intro nth_equalityI) (auto simp: shard_prefix_length_eq nth_shard_path)
qed


lemma minus_lower_bit:
  assumes "x \<noteq> 0"
  shows "x - 2 ^ tz x = x AND NOT (mask (Suc (tz x)))"
  using word64_decomp [OF assms] by (metis add_diff_cancel_right')

lemma shard_parent_path:
  assumes "x \<noteq> 0" "0 < shard_prefix_length x"
  obtains y where "shard_parent x = Some y" "y \<noteq> 0" "shard_path y = butlast (shard_path x)"
proof -
  let ?k = "tz x" and ?y = "(x - 2 ^ tz x) OR (2 ^ tz x * 2)"
  have k: "?k < 63" using assms by (simp add: shard_prefix_length_eq)
  have bit: "bit ?y i \<longleftrightarrow> bit x i \<and> ?k < i \<or> i = Suc ?k" for i
    using assms(1) k
    by (auto simp: minus_lower_bit bit_simps bit_times_2_word less_Suc_eq not_less_eq
        dest: bit_imp_le_length)
  have "shard_parent x = Some ?y"
    using assms tz_props(3) [OF assms(1)] by (simp add: shard_parent_def lower_bit64_eq Let_def)
  moreover have "?y \<noteq> 0" using bit [of "Suc ?k"] by auto
  moreover have "shard_path ?y = butlast (shard_path x)"
    using assms k
    by (intro tz_path_eqI [of _ "Suc ?k"])
       (auto simp: bit nth_butlast nth_shard_path shard_prefix_length_eq)
  ultimately show ?thesis using that by blast
qed

lemma shard_child_path:
  assumes "x \<noteq> 0" "shard_prefix_length x < 63"
  obtains y where "shard_child x left = Some y" "y \<noteq> 0" "shard_path y = shard_path x @ [\<not> left]"
proof -
  let ?k = "tz x" and ?h = "x AND NOT (mask (Suc (tz x)))"
  have k: "0 < ?k" "?k < 64" using assms tz_props(3) [of x] by (auto simp: shard_prefix_length_eq)
  then obtain j where j: "?k = Suc j" by (cases ?k) auto
  have shr: "drop_bit 1 (lower_bit64 x) = 2 ^ j"
    using assms(1) k j
    by (intro bit_eqI) (auto simp: lower_bit64_eq bit_simps)
  have "x - 2 ^ j = ?h + 2 ^ j"
    using word64_decomp [OF assms(1)] j by (simp add: algebra_simps)
  also have "\<dots> = ?h OR 2 ^ j"
    using j by (intro disjunctive_add_eq_or bit_eqI) (auto simp: bit_simps)
  finally have L: "x - 2 ^ j = ?h OR 2 ^ j" .
  have R: "x + 2 ^ j = x OR 2 ^ j"
    using tz_props(2) [OF assms(1), of j] j
    by (intro disjunctive_add_eq_or bit_eqI) (auto simp: bit_simps)
  define y where "y = (if left then x - 2 ^ j else x + 2 ^ j)"
  have low: "\<not> bit x i" if "i \<le> j" for i
    using tz_props(2) [OF assms(1), of i] that j by simp
  have bit: "bit y i \<longleftrightarrow> i = j \<or> bit x i \<and> (i \<noteq> ?k \<or> \<not> left)" for i
    using tz_props(1,3) [OF assms(1)] j low [of i]
    by (auto simp: y_def L R bit_simps dest: bit_imp_le_length)
  have "bit y (63 - i) = (shard_path x @ [\<not> left]) ! i" if "i < 63 - j" for i
  proof (cases "i = 62 - j")
    case True
    then have "63 - i = ?k" "i = shard_prefix_length x"
      using that j assms(1) by (auto simp: shard_prefix_length_eq)
    then show ?thesis using j tz_props(1) [OF assms(1)] by (simp add: bit nth_append)
  next
    case False
    then have "i < shard_prefix_length x" "63 - i \<noteq> ?k" "63 - i \<noteq> j"
      using that j assms(1) by (auto simp: shard_prefix_length_eq)
    then show ?thesis by (simp add: bit nth_append nth_shard_path)
  qed
  then have "shard_path y = shard_path x @ [\<not> left]"
    using bit low j k assms(1)
    by (intro tz_path_eqI [of _ j]) (auto simp: shard_prefix_length_eq)
  moreover have "shard_child x left = Some y"
    using k j shr by (simp add: shard_child_def y_def)
  moreover have "y \<noteq> 0" using bit [of j] by auto
  ultimately show ?thesis using that by blast
qed


lemma shard_sibling_path:
  assumes "x \<noteq> 0" "0 < shard_prefix_length x"
  shows "shard_sibling x \<noteq> 0"
    and "shard_path (shard_sibling x) = butlast (shard_path x) @ [\<not> last (shard_path x)]"
proof -
  let ?k = "tz x"
  have k: "?k < 63" using assms by (simp add: shard_prefix_length_eq)
  have "shard_sibling x = x XOR (2 ^ ?k * 2)"
    using assms(1) by (simp add: shard_sibling_def lower_bit64_def [symmetric] lower_bit64_eq)
  then have bit: "bit (shard_sibling x) i \<longleftrightarrow> bit x i \<noteq> (i = Suc ?k)" for i
    using k by (auto simp: bit_simps bit_times_2_word dest: bit_imp_le_length)
  have set: "bit (shard_sibling x) ?k" using bit tz_props(1) [OF assms(1)] by auto
  then show "shard_sibling x \<noteq> 0" by auto
  have len: "shard_prefix_length x = Suc (62 - ?k)" using assms(1) k by (simp add: shard_prefix_length_eq)
  have "bit (shard_sibling x) (63 - i) = (butlast (shard_path x) @ [\<not> last (shard_path x)]) ! i"
    if "i < 63 - ?k" for i
  proof (cases "i = 62 - ?k")
    case True
    moreover have "last (shard_path x) = bit x (63 - (62 - ?k))"
      using len by (simp add: last_conv_nth nth_shard_path flip: length_greater_0_conv)
    ultimately show ?thesis using len k by (simp add: bit nth_append)
  next
    case False
    with that have "i < 62 - ?k" by auto
    then show ?thesis using len by (auto simp: bit nth_append nth_butlast nth_shard_path)
  qed
  then show "shard_path (shard_sibling x) = butlast (shard_path x) @ [\<not> last (shard_path x)]"
    using set bit tz_props(2) [OF assms(1)] len k
    by (intro tz_path_eqI [of _ ?k]) auto
qed

lemma is_right_child_iff_last:
  assumes "x \<noteq> 0" "0 < shard_prefix_length x"
  shows "is_right_child x \<longleftrightarrow> last (shard_path x)"
proof -
  let ?k = "tz x"
  have k: "?k < 63" using assms by (simp add: shard_prefix_length_eq)
  have len: "shard_prefix_length x = Suc (62 - ?k)" using assms(1) k by (simp add: shard_prefix_length_eq)
  have "bit (x AND (2 ^ ?k * 2)) i \<longleftrightarrow> bit x i \<and> i = Suc ?k" for i
    using k by (auto simp: bit_simps bit_times_2_word)
  then have "x AND (2 ^ ?k * 2) \<noteq> 0 \<longleftrightarrow> bit x (Suc ?k)"
    by (simp add: word64_eq_0_iff)
  moreover have "last (shard_path x) = bit x (63 - (62 - ?k))"
    using len by (simp add: last_conv_nth nth_shard_path flip: length_greater_0_conv)
  moreover have "63 - (62 - ?k) = Suc ?k" using k by simp
  ultimately show ?thesis using assms(1) by (simp add: is_right_child_def lower_bit64_eq)
qed

lemma shard_prefix_path:
  assumes "x \<noteq> 0" "n \<le> shard_prefix_length x"
  obtains y where "shard_prefix x n = Some y" "y \<noteq> 0" "shard_path y = take n (shard_path x)"
proof -
  let ?k = "63 - n" and ?y = "(x AND bits_negate64 (2 ^ (63 - n))) OR 2 ^ (63 - n)"
  have n: "n \<le> 63" "tz x \<le> ?k" "tz x < 64"
    using assms tz_props(3) [OF assms(1)] by (auto simp: shard_prefix_length_eq)
  have bit: "bit ?y i \<longleftrightarrow> i = ?k \<or> ?k < i \<and> bit x i" for i
    by (auto simp: bit_simps bit_neg_exp dest: bit_imp_le_length)
  have "shard_prefix x n = Some ?y"
    using n assms(1) by (simp add: shard_prefix_def lower_bit64_eq exp_le_exp_iff Let_def)
  moreover have "?y \<noteq> 0" using bit [of ?k] by auto
  moreover have "shard_path ?y = take n (shard_path x)"
    using n assms
    by (intro tz_path_eqI [of _ ?k]) (auto simp: bit nth_shard_path)
  ultimately show ?thesis using that by blast
qed

lemma shard_prefix_too_long:
  assumes "x \<noteq> 0" "shard_prefix_length x < n"
  shows "shard_prefix x n = None"
proof -
  have "tz x < 64" using tz_props(3) [OF assms(1)] .
  moreover have "\<not> tz x \<le> 63 - n" if "n \<le> 63"
    using assms that \<open>tz x < 64\<close> by (simp add: shard_prefix_length_eq)
  ultimately show ?thesis
    using assms by (auto simp: shard_prefix_def lower_bit64_eq exp_le_exp_iff Let_def)
qed

lemma count_matching_bits_eq:
  "count_matching_bits x y = common_prefix_length (account_path x) (account_path y)"
proof (cases "x = y")
  case False
  then obtain m where m: "m < 64" "bit x m \<noteq> bit y m" by (rule word64_neq_bit)
  let ?P = "\<lambda>i. bit x (63 - i) \<noteq> bit y (63 - i)"
  define k where "k = (LEAST i. ?P i)"
  have "?P (63 - m)" using m by simp
  then have P: "?P k" and "k \<le> 63 - m" unfolding k_def by (rule LeastI, rule Least_le)
  then have k: "k < 64" by simp
  have low: "\<not> ?P i" if "i < k" for i using not_less_Least that unfolding k_def by blast
  have "x XOR y \<noteq> 0" using P by (auto simp: word64_eq_0_iff bit_xor_iff)
  then have "count_leading_zeroes64 (x XOR y) = k"
    using P low k takeWhile_upt_first [of k 64 "\<lambda>i. bit (x XOR y) (63 - i)"]
    by (simp add: count_leading_zeroes64_def bit_simps)
  moreover have "common_prefix_length (account_path x) (account_path y) = k"
  proof -
    let ?c = "common_prefix_length (account_path x) (account_path y)"
    have "?c \<le> 64" using common_prefix_length_le1 [of "account_path x"] by simp
    have "\<not> ?c < k"
      using P k low common_prefix_length_differ [of "account_path x" "account_path y"] \<open>?c \<le> 64\<close>
      by (auto simp: nth_account_path)
    moreover have "\<not> k < ?c"
    proof
      assume "k < ?c"
      then have "account_path x ! k = account_path y ! k"
        by (metis common_prefix_length_take nth_take)
      with P k show False by (simp add: nth_account_path)
    qed
    ultimately show ?thesis by simp
  qed
  ultimately show ?thesis using False by (simp add: count_matching_bits_def)
qed (simp add: count_matching_bits_def)


section \<open>Properties of shard identifiers\<close>

text \<open>
  C9. On shard identifiers (non-zero words) the bit tricks decide the relations of the
  prefixes: ancestor is prefix, proper ancestor is strict prefix, containing an account is
  being a prefix of its address, and intersecting is being comparable.
\<close>

theorem shard_tests_are_prefix_tests:
  assumes "x \<noteq> 0" "y \<noteq> 0"
  shows "(shard_is_ancestor x y \<longleftrightarrow> prefix (shard_path x) (shard_path y)) \<and>
         (shard_is_proper_ancestor x y \<longleftrightarrow> strict_prefix (shard_path x) (shard_path y)) \<and>
         (shard_contains x a \<longleftrightarrow> prefix (shard_path x) (account_path a)) \<and>
         (shard_intersects x y \<longleftrightarrow>
            prefix (shard_path x) (shard_path y) \<or> prefix (shard_path y) (shard_path x))"
  using assms
  by (simp add: shard_is_ancestor_iff_prefix shard_is_proper_ancestor_iff_strict_prefix
      shard_contains_iff_prefix shard_intersects_iff_prefix)

theorem shard_tests_are_prefix_tests_witness:
  "shard_is_ancestor 0xC000000000000000 0xE000000000000000 \<longleftrightarrow>
     prefix (shard_path 0xC000000000000000) (shard_path 0xE000000000000000)"
  using shard_tests_are_prefix_tests [of "0xC000000000000000" "0xE000000000000000"] by simp

text \<open>
  C10. Splitting and merging are inverse: every shard with a prefix shorter than 63 bits has
  two children, a child's parent is the shard it came from, its side is the one asked for,
  and the two children are siblings of each other.
\<close>

theorem shard_child_parent_roundtrip:
  assumes "x \<noteq> 0" "shard_prefix_length x < 63"
  shows "\<exists>y z. shard_child x left = Some y \<and> shard_child x (\<not> left) = Some z \<and>
           shard_parent y = Some x \<and> (is_left_child y \<longleftrightarrow> left) \<and>
           shard_prefix_length y = Suc (shard_prefix_length x) \<and>
           shard_sibling y = z \<and> shard_sibling z = y"
proof -
  obtain y where y: "shard_child x left = Some y" "y \<noteq> 0" "shard_path y = shard_path x @ [\<not> left]"
    using shard_child_path [OF assms] by blast
  obtain z where z: "shard_child x (\<not> left) = Some z" "z \<noteq> 0" "shard_path z = shard_path x @ [left]"
    using shard_child_path [OF assms, of "\<not> left"] by auto
  have len: "shard_prefix_length y = Suc (shard_prefix_length x)"
    "shard_prefix_length z = Suc (shard_prefix_length x)"
    using y(3) z(3) by (metis length_append_singleton length_shard_path)+
  obtain p where p: "shard_parent y = Some p" "p \<noteq> 0" "shard_path p = butlast (shard_path y)"
    using shard_parent_path [of y] y(2) len by auto
  have "p = x" using p y assms(1) by (intro shard_path_inject) auto
  moreover have "is_left_child y \<longleftrightarrow> left"
    using is_right_child_iff_last [of y] y len by (simp add: is_left_child_def)
  moreover have "shard_sibling y = z"
    using shard_sibling_path [of y] y z len by (intro shard_path_inject) auto
  moreover have "shard_sibling z = y"
    using shard_sibling_path [of z] y z len by (intro shard_path_inject) auto
  ultimately show ?thesis using y z p len by auto
qed

theorem shard_child_parent_roundtrip_witness:
  "\<exists>y z. shard_child rootShardId True = Some y \<and> shard_child rootShardId (\<not> True) = Some z \<and>
     shard_parent y = Some rootShardId \<and> (is_left_child y \<longleftrightarrow> True) \<and>
     shard_prefix_length y = Suc (shard_prefix_length rootShardId) \<and>
     shard_sibling y = z \<and> shard_sibling z = y"
proof (rule shard_child_parent_roundtrip)
  show "rootShardId \<noteq> 0" by (simp add: rootShardId_def)
  have "rootShardId = 2 ^ 63" by (simp add: rootShardId_def)
  then show "shard_prefix_length rootShardId < 63"
    using tz_exp [of 63] by (simp only: shard_prefix_length_def) simp
qed

text \<open>
  C11. The two children of a shard partition its accounts: an account belongs to the shard
  exactly when it belongs to one of the children, and never to both.
\<close>

theorem shard_children_partition:
  assumes "x \<noteq> 0" "shard_child x True = Some l" "shard_child x False = Some r"
  shows "(shard_contains x a \<longleftrightarrow> (shard_contains l a \<noteq> shard_contains r a)) \<and>
         \<not> (shard_contains l a \<and> shard_contains r a)"
proof -
  have "drop_bit 1 (lower_bit64 x) \<noteq> 0"
    using assms(2) by (auto simp: shard_child_def Let_def split: if_splits)
  then have "0 < tz x" using assms(1) by (auto simp: lower_bit64_eq intro: ccontr)
  then have len: "shard_prefix_length x < 63" using assms(1) by (simp add: shard_prefix_length_eq)
  have l: "l \<noteq> 0" "shard_path l = shard_path x @ [False]"
    using shard_child_path [OF assms(1) len, of True] assms(2) by auto
  have r: "r \<noteq> 0" "shard_path r = shard_path x @ [True]"
    using shard_child_path [OF assms(1) len, of False] assms(3) by auto
  let ?n = "shard_prefix_length x"
  have step: "prefix (shard_path x @ [b]) (account_path a) \<longleftrightarrow>
      prefix (shard_path x) (account_path a) \<and> account_path a ! ?n = b" for b
    using len by (auto simp: prefix_iff_nth nth_append less_Suc_eq)
  show ?thesis
    using assms(1) l r by (auto simp: shard_contains_iff_prefix step)
qed

theorem shard_children_partition_witness:
  "(shard_contains 0x8000000000000000 5 \<longleftrightarrow>
     (shard_contains 0x4000000000000000 5 \<noteq> shard_contains 0xC000000000000000 5)) \<and>
   \<not> (shard_contains 0x4000000000000000 5 \<and> shard_contains 0xC000000000000000 5)"
  by (rule shard_children_partition)
     (simp_all add: shard_child_def lower_bit64_def bits_negate64_def)

end
