(* ===== verification/Simplex_Types.thy ===== *)
theory Simplex_Types
  imports Ton_Prelude "HOL-Library.Option_ord"
begin

text \<open>
  The data of the Simplex consensus (\<^verbatim>\<open>validator/consensus/simplex\<close>): candidate identifiers
  with their ordering (\<^verbatim>\<open>consensus/types.h\<close>), votes (\<^verbatim>\<open>votes.h\<close>), certificates and their
  validation (\<^verbatim>\<open>certificate.h\<close>, \<^verbatim>\<open>certificate.cpp\<close>), and the part of the bus the actors
  read (\<^verbatim>\<open>bus.h\<close>).  Slots are naturals (the code's \<^verbatim>\<open>uint32\<close> never wraps within a
  session), weights are 64-bit words.  A serialised TL object is represented by the object;
  signing and the check of an Ed25519 signature are functions of the bus.
\<close>

section \<open>Candidate identifiers\<close>

datatype candidate_id = CandidateId (cid_slot: nat) (cid_hash: "256 word")

type_synonym parent_id = "candidate_id option"

text \<open>The defaulted three-way comparison is lexicographic: first the slot, then the hash.\<close>

instantiation candidate_id :: linorder
begin

definition less_eq_candidate_id :: "candidate_id \<Rightarrow> candidate_id \<Rightarrow> bool" where
  "less_eq_candidate_id x y \<longleftrightarrow>
     cid_slot x < cid_slot y \<or> cid_slot x = cid_slot y \<and> cid_hash x \<le> cid_hash y"

definition less_candidate_id :: "candidate_id \<Rightarrow> candidate_id \<Rightarrow> bool" where
  "less_candidate_id x y \<longleftrightarrow>
     cid_slot x < cid_slot y \<or> cid_slot x = cid_slot y \<and> cid_hash x < cid_hash y"

instance
proof
  fix x y z :: candidate_id
  show "x < y \<longleftrightarrow> x \<le> y \<and> \<not> y \<le> x"
    by (auto simp: less_eq_candidate_id_def less_candidate_id_def)
  show "x \<le> x" by (simp add: less_eq_candidate_id_def)
  show "x \<le> y \<Longrightarrow> y \<le> z \<Longrightarrow> x \<le> z"
    by (auto simp: less_eq_candidate_id_def)
  show "x \<le> y \<Longrightarrow> y \<le> x \<Longrightarrow> x = y"
    by (cases x; cases y) (auto simp: less_eq_candidate_id_def)
  show "x \<le> y \<or> y \<le> x"
    by (auto simp: less_eq_candidate_id_def)
qed

end

lemma less_eq_candidate_id_slot: "x \<le> y \<Longrightarrow> cid_slot x \<le> cid_slot y"
  for x y :: candidate_id
  by (auto simp: less_eq_candidate_id_def)

section \<open>Votes\<close>

type_synonym signature = "8 word list"

datatype notarize_vote = NotarizeVote (nv_id: candidate_id)
datatype finalize_vote = FinalizeVote (fv_id: candidate_id)
datatype skip_vote = SkipVote (sv_slot: nat)

datatype vote =
    VNotarize notarize_vote
  | VFinalize finalize_vote
  | VSkip skip_vote

abbreviation Notar :: "candidate_id \<Rightarrow> vote" where "Notar c \<equiv> VNotarize (NotarizeVote c)"
abbreviation Final :: "candidate_id \<Rightarrow> vote" where "Final c \<equiv> VFinalize (FinalizeVote c)"
abbreviation Skip :: "nat \<Rightarrow> vote" where "Skip s \<equiv> VSkip (SkipVote s)"

fun referenced_slot :: "vote \<Rightarrow> nat" where
  "referenced_slot (VNotarize v) = cid_slot (nv_id v)"
| "referenced_slot (VFinalize v) = cid_slot (fv_id v)"
| "referenced_slot (VSkip v) = sv_slot v"

record 't signed =
  sg_validator :: nat
  sg_vote :: 't
  sg_signature :: signature

record 't certificate =
  ct_vote :: 't
  ct_signatures :: "(nat \<times> signature) list"

text \<open>The TL objects exchanged: a vote with its signature, a vote with a set of signatures.\<close>

datatype message =
    TlVote vote signature
  | TlCertificate vote "(nat \<times> signature) list"
  | TlOther

definition signed_serialize :: "('t \<Rightarrow> vote) \<Rightarrow> 't signed \<Rightarrow> message" where
  "signed_serialize up s = TlVote (up (sg_vote s)) (sg_signature s)"

definition certificate_serialize :: "('t \<Rightarrow> vote) \<Rightarrow> 't certificate \<Rightarrow> message" where
  "certificate_serialize up c = TlCertificate (up (ct_vote c)) (ct_signatures c)"

definition consume_and_upcast :: "('t \<Rightarrow> vote) \<Rightarrow> 't certificate \<Rightarrow> vote certificate" where
  "consume_and_upcast up c = \<lparr>ct_vote = up (ct_vote c), ct_signatures = ct_signatures c\<rparr>"

definition downcast_with :: "'t \<Rightarrow> vote certificate \<Rightarrow> 't certificate" where
  "downcast_with v c = \<lparr>ct_vote = v, ct_signatures = ct_signatures c\<rparr>"

section \<open>The bus\<close>

record peer_validator =
  pv_idx :: nat
  pv_weight :: u64

record bus =
  validator_set :: "peer_validator list"
  local_id :: peer_validator
  total_weight :: u64
  slots_per_leader_window :: nat
  max_leader_window_desync :: nat
  bad_signature_ban_duration :: nat
  bootstrap_certificates :: "vote certificate list"
  bootstrap_votes :: "vote list"
  bus_first_nonannounced_window :: nat
  check_signature :: "nat \<Rightarrow> vote \<Rightarrow> signature \<Rightarrow> bool"
  sign_message :: "vote \<Rightarrow> signature"

text \<open>The loop of the bridge that numbers the validators and adds up their weights.\<close>

fun fill_validator_set :: "u64 list \<Rightarrow> nat \<Rightarrow> u64 \<Rightarrow> peer_validator list \<times> u64" where
  "fill_validator_set [] idx acc = ([], acc)"
| "fill_validator_set (w # ws) idx acc =
     (let (vs, t) = fill_validator_set ws (idx + 1) (acc + w)
      in (\<lparr>pv_idx = idx, pv_weight = w\<rparr> # vs, t))"

text \<open>\<^verbatim>\<open>SimplexCollatorSchedule::expected_collator_for\<close>.\<close>

definition expected_collator_for :: "bus \<Rightarrow> nat \<Rightarrow> nat" where
  "expected_collator_for b slot =
     slot div slots_per_leader_window b mod length (validator_set b)"

section \<open>Certificates\<close>

datatype cert_error =
    Invalid_validator_index nat
  | Duplicate_validator_index nat
  | Not_enough_signatures
  | Invalid_vote_signature nat

text \<open>The first loop of \<^verbatim>\<open>Certificate::from_tl\<close>; \<^verbatim>\<open>voted\<close> is the vector of flags.\<close>

fun collect_signatures ::
  "bus \<Rightarrow> (nat \<times> signature) list \<Rightarrow> bool list \<Rightarrow> (nat \<times> signature) list \<Rightarrow> u64 \<Rightarrow>
     cert_error + (nat \<times> signature) list \<times> u64" where
  "collect_signatures b [] voted sigs weight = Inr (sigs, weight)"
| "collect_signatures b ((who, sig) # rest) voted sigs weight =
     (if length (validator_set b) \<le> who then Inl (Invalid_validator_index who)
      else if voted ! who then Inl (Duplicate_validator_index who)
      else let v = validator_set b ! who
           in collect_signatures b rest (voted[who := True]) (sigs @ [(pv_idx v, sig)])
                (weight + pv_weight v))"

fun check_signatures :: "bus \<Rightarrow> vote \<Rightarrow> (nat \<times> signature) list \<Rightarrow> cert_error + unit" where
  "check_signatures b v [] = Inr ()"
| "check_signatures b v ((who, sig) # rest) =
     (if check_signature b who v sig then check_signatures b v rest
      else Inl (Invalid_vote_signature who))"

definition required_weight :: "bus \<Rightarrow> u64" where
  "required_weight b = (total_weight b * 2) div 3 + 1"

definition certificate_from_tl ::
  "bus \<Rightarrow> vote \<Rightarrow> (nat \<times> signature) list \<Rightarrow> cert_error + vote certificate" where
  "certificate_from_tl b v votes =
     rbind (collect_signatures b votes (replicate (length (validator_set b)) False) [] 0)
       (\<lambda>(sigs, voted_weight).
          if voted_weight < required_weight b then Inl Not_enough_signatures
          else rbind (check_signatures b v sigs)
                 (\<lambda>_. Inr \<lparr>ct_vote = v, ct_signatures = sigs\<rparr>))"

definition signed_from_tl :: "bus \<Rightarrow> vote \<Rightarrow> signature \<Rightarrow> nat \<Rightarrow> (vote signed) option" where
  "signed_from_tl b v sig validator =
     (if check_signature b validator v sig
      then Some \<lparr>sg_validator = validator, sg_vote = v, sg_signature = sig\<rparr> else None)"

section \<open>Weights as numbers\<close>

text \<open>
  The weight of a set of validators as a natural number, the well-formedness of the bus that
  the bridge establishes (indices are positions, the total is the sum of the weights and is
  capped at \<^verbatim>\<open>2^61\<close> when the validator set is loaded), and what a valid certificate is.
\<close>

definition vweight :: "bus \<Rightarrow> nat \<Rightarrow> nat" where
  "vweight b i = (if i < length (validator_set b) then unat (pv_weight (validator_set b ! i)) else 0)"

definition weight_of :: "bus \<Rightarrow> nat set \<Rightarrow> nat" where
  "weight_of b S = (\<Sum>i\<in>S \<inter> {..<length (validator_set b)}. vweight b i)"

definition validators :: "bus \<Rightarrow> nat set" where
  "validators b = {..<length (validator_set b)}"

definition bus_ok :: "bus \<Rightarrow> bool" where
  "bus_ok b \<longleftrightarrow>
     (\<forall>i<length (validator_set b). pv_idx (validator_set b ! i) = i) \<and>
     total_weight b = sum_list (map pv_weight (validator_set b)) \<and>
     sum_list (map (unat \<circ> pv_weight) (validator_set b)) \<le> 2 ^ 61 \<and>
     0 < slots_per_leader_window b"

definition total_nat :: "bus \<Rightarrow> nat" where
  "total_nat b = weight_of b (validators b)"

lemma finite_validators [simp]: "finite (validators b)"
  by (simp add: validators_def)

lemma weight_of_mono: "S \<subseteq> T \<Longrightarrow> weight_of b S \<le> weight_of b T"
  unfolding weight_of_def by (intro sum_mono2) auto

lemma weight_of_le_total: "weight_of b S \<le> total_nat b"
  unfolding weight_of_def total_nat_def validators_def by (intro sum_mono2) auto

lemma weight_of_empty [simp]: "weight_of b {} = 0"
  by (simp add: weight_of_def)

lemma weight_of_Int_validators [simp]: "weight_of b (S \<inter> validators b) = weight_of b S"
  by (simp add: weight_of_def validators_def Int_assoc)

lemma weight_of_insert:
  assumes "v \<notin> S" "v < length (validator_set b)"
  shows "weight_of b (insert v S) = weight_of b S + vweight b v"
proof -
  have "insert v S \<inter> {..<length (validator_set b)} = insert v (S \<inter> {..<length (validator_set b)})"
    using assms by auto
  then show ?thesis using assms by (simp add: weight_of_def)
qed

lemma weight_of_Un_Int: "weight_of b (S \<union> T) + weight_of b (S \<inter> T) = weight_of b S + weight_of b T"
  unfolding weight_of_def
  using sum.union_inter [of "S \<inter> {..<length (validator_set b)}" "T \<inter> {..<length (validator_set b)}" "vweight b"]
  by (simp add: Int_Un_distrib2 Int_ac)

lemma total_nat_eq: "total_nat b = sum_list (map (unat \<circ> pv_weight) (validator_set b))"
proof -
  have "total_nat b = (\<Sum>i<length (validator_set b). unat (pv_weight (validator_set b ! i)))"
    unfolding total_nat_def weight_of_def validators_def by (intro sum.cong) (auto simp: vweight_def)
  then show ?thesis
    by (simp add: sum_list_sum_nth atLeast0LessThan)
qed

lemma unat_sum_list:
  assumes "sum_list (map unat ws) < 2 ^ LENGTH('a::len)"
  shows "unat (sum_list ws :: 'a word) = sum_list (map unat ws)"
  using assms
proof (induction ws)
  case (Cons w ws)
  then have "unat (sum_list ws) = sum_list (map unat ws)" by simp
  then show ?case using Cons.prems by (simp add: unat_word_ariths)
qed simp

lemma bus_ok_total:
  assumes "bus_ok b"
  shows "unat (total_weight b) = total_nat b" and "total_nat b \<le> 2 ^ 61"
proof -
  have le: "sum_list (map unat (map pv_weight (validator_set b))) \<le> 2 ^ 61"
    using assms by (simp add: bus_ok_def)
  then have "sum_list (map unat (map pv_weight (validator_set b))) < 2 ^ LENGTH(64)" by simp
  from unat_sum_list [OF this] show "unat (total_weight b) = total_nat b"
    using assms by (simp add: bus_ok_def total_nat_eq)
  show "total_nat b \<le> 2 ^ 61" using le by (simp add: total_nat_eq)
qed

lemma unat_required_weight:
  assumes "bus_ok b"
  shows "unat (required_weight b) = total_nat b * 2 div 3 + 1"
proof -
  have "total_nat b * 2 < 2 ^ 64" using bus_ok_total(2) [OF assms] by simp
  then have m: "unat (total_weight b * 2) = total_nat b * 2"
    using bus_ok_total(1) [OF assms] by (simp add: unat_word_ariths)
  then have d: "unat (total_weight b * 2 div 3) = total_nat b * 2 div 3"
    by (simp add: unat_div)
  have "total_nat b * 2 div 3 + 1 < 2 ^ 64" using bus_ok_total(2) [OF assms] by simp
  then show ?thesis using d by (simp add: required_weight_def unat_word_ariths)
qed

lemma fill_validator_set_spec:
  "fill_validator_set ws idx acc = (vs, t) \<Longrightarrow>
     map pv_weight vs = ws \<and> t = acc + sum_list ws \<and>
     (\<forall>i<length vs. pv_idx (vs ! i) = idx + i)"
proof (induction ws arbitrary: idx acc vs t)
  case (Cons w ws)
  obtain vs' where vs: "vs = \<lparr>pv_idx = idx, pv_weight = w\<rparr> # vs'"
    and f: "fill_validator_set ws (idx + 1) (acc + w) = (vs', t)"
    using Cons.prems by (auto simp: Let_def split: prod.splits)
  from Cons.IH [OF f] show ?case
    by (auto simp: vs nth_Cons' add.assoc)
qed auto

section \<open>Validation of certificates\<close>

definition signers :: "(nat \<times> signature) list \<Rightarrow> nat set" where
  "signers sigs = fst ` set sigs"

definition cert_ok :: "bus \<Rightarrow> vote \<Rightarrow> (nat \<times> signature) list \<Rightarrow> bool" where
  "cert_ok b v sigs \<longleftrightarrow>
     distinct (map fst sigs) \<and> signers sigs \<subseteq> validators b \<and>
     (\<forall>(who, sig)\<in>set sigs. check_signature b who v sig) \<and>
     total_nat b * 2 div 3 + 1 \<le> weight_of b (signers sigs)"

lemma signers_simps [simp]:
  "signers [] = {}" "signers ((w, s) # xs) = insert w (signers xs)"
  "signers (xs @ ys) = signers xs \<union> signers ys"
  by (auto simp: signers_def)

lemma collect_signatures_spec:
  assumes "bus_ok b" "length voted = length (validator_set b)"
    and "\<forall>i<length (validator_set b). voted ! i \<longleftrightarrow> i \<in> S" "S \<subseteq> validators b"
    and "unat weight = weight_of b S"
  shows "case collect_signatures b rest voted sigs weight of
      Inr (sigs', weight') \<Rightarrow> sigs' = sigs @ rest \<and> distinct (map fst rest) \<and>
        signers rest \<subseteq> validators b - S \<and> unat weight' = weight_of b (S \<union> signers rest)
    | Inl e \<Rightarrow> \<not> (distinct (map fst rest) \<and> signers rest \<subseteq> validators b - S)"
  using assms(2-5)
proof (induction rest arbitrary: voted sigs weight S)
  case (Cons x rest)
  obtain who sig where x: "x = (who, sig)" by force
  show ?case
  proof (cases "who < length (validator_set b) \<and> who \<notin> S")
    case True
    let ?v = "validator_set b ! who"
    have idx: "pv_idx ?v = who" using assms(1) True by (simp add: bus_ok_def)
    have wi: "weight_of b (insert who S) = weight_of b S + unat (pv_weight ?v)"
      using True by (simp add: weight_of_insert vweight_def)
    have "weight_of b (insert who S) < 2 ^ 64"
      using weight_of_le_total [of b "insert who S"] bus_ok_total(2) [OF assms(1)] by simp
    then have "unat (weight + pv_weight ?v) = weight_of b (insert who S)"
      using wi Cons.prems(4) by (simp add: unat_word_ariths)
    moreover have "insert who S \<subseteq> validators b" using True Cons.prems(3) by (simp add: validators_def)
    ultimately have "case collect_signatures b rest (voted[who := True]) (sigs @ [(who, sig)])
        (weight + pv_weight ?v) of
      Inr (sigs', weight') \<Rightarrow> sigs' = (sigs @ [(who, sig)]) @ rest \<and> distinct (map fst rest) \<and>
        signers rest \<subseteq> validators b - insert who S \<and> unat weight' = weight_of b (insert who S \<union> signers rest)
    | Inl e \<Rightarrow> \<not> (distinct (map fst rest) \<and> signers rest \<subseteq> validators b - insert who S)"
      using Cons.prems True by (intro Cons.IH) (auto simp: nth_list_update)
    moreover have "voted ! who = False" using True Cons.prems by simp
    ultimately show ?thesis using True
      by (auto simp: x idx Let_def validators_def signers_def split: sum.splits)
  next
    case False
    then show ?thesis using Cons.prems by (auto simp: x validators_def)
  qed
qed auto

lemma check_signatures_iff:
  "check_signatures b v sigs = Inr () \<longleftrightarrow> (\<forall>(who, sig)\<in>set sigs. check_signature b who v sig)"
  by (induction b v sigs rule: check_signatures.induct) auto

lemma certificate_from_tl_iff:
  assumes "bus_ok b"
  shows "certificate_from_tl b v sigs = Inr c \<longleftrightarrow>
    cert_ok b v sigs \<and> c = \<lparr>ct_vote = v, ct_signatures = sigs\<rparr>"
proof -
  let ?n = "length (validator_set b)"
  have spec: "case collect_signatures b sigs (replicate ?n False) [] 0 of
      Inr (sigs', weight') \<Rightarrow> sigs' = [] @ sigs \<and> distinct (map fst sigs) \<and>
        signers sigs \<subseteq> validators b - {} \<and> unat weight' = weight_of b ({} \<union> signers sigs)
    | Inl e \<Rightarrow> \<not> (distinct (map fst sigs) \<and> signers sigs \<subseteq> validators b - {})"
    by (rule collect_signatures_spec [OF assms]) auto
  show ?thesis
  proof (cases "collect_signatures b sigs (replicate ?n False) [] 0")
    case (Inr r)
    obtain w where w: "r = (sigs, w)" "unat w = weight_of b (signers sigs)"
      using spec by (cases r) (auto simp: Inr)
    have "w < required_weight b \<longleftrightarrow> weight_of b (signers sigs) < total_nat b * 2 div 3 + 1"
      using unat_required_weight [OF assms] w(2) by (simp add: word_less_nat_alt)
    then show ?thesis
      using spec w by (auto simp: certificate_from_tl_def Inr rsimps cert_ok_def check_signatures_iff)
  qed (use spec in \<open>auto simp: certificate_from_tl_def cert_ok_def\<close>)
qed

end
