(* ===== verification/Simplex_State.thy ===== *)
theory Simplex_State
  imports Simplex_Types "HOL-Library.Finite_Map"
begin

text \<open>
  \<^verbatim>\<open>ConsensusState\<close> (\<^verbatim>\<open>simplex/state.h\<close>): the slots that are not finalised yet, created on
  demand.  The code hands out \<^verbatim>\<open>SlotRef\<close>s, shared pointers to the slot objects, which
  coroutines keep over suspension points; an object that was erased from the map lives on in
  \<^verbatim>\<open>cs_dropped\<close>, where only the holders of a reference see it.  A reference is the index of
  its slot, since a slot that was erased is never created again.
\<close>

record 's cstate =
  cs_first :: nat
  cs_slots :: "(nat, 's) fmap"
  cs_dropped :: "(nat, 's) fmap"

definition cs_init :: "'s cstate" where
  "cs_init = \<lparr>cs_first = 0, cs_slots = fmempty, cs_dropped = fmempty\<rparr>"

definition slot_at :: "'s \<Rightarrow> nat \<Rightarrow> 's cstate \<Rightarrow> 's cstate option" where
  "slot_at fresh i st =
     (if i < cs_first st then None
      else case fmlookup (cs_slots st) i of
             None \<Rightarrow> Some (st\<lparr>cs_slots := fmupd i fresh (cs_slots st)\<rparr>)
           | Some _ \<Rightarrow> Some st)"

definition notify_finalized :: "nat \<Rightarrow> 's cstate \<Rightarrow> 's cstate" where
  "notify_finalized slot st =
     (let f = max (cs_first st) (slot + 1)
      in st\<lparr>cs_first := f,
            cs_slots := fmfilter (\<lambda>i. f \<le> i) (cs_slots st),
            cs_dropped := cs_dropped st ++\<^sub>f fmfilter (\<lambda>i. i < f) (cs_slots st)\<rparr>)"

definition tracked_slots_interval :: "'s cstate \<Rightarrow> nat \<times> nat" where
  "tracked_slots_interval st =
     (cs_first st,
      if fmdom (cs_slots st) = {||} then cs_first st else fMax (fmdom (cs_slots st)) + 1)"

text \<open>Reading and writing through a reference.  A slot nobody asked for yet is as good as fresh.\<close>

definition deref :: "'s \<Rightarrow> nat \<Rightarrow> 's cstate \<Rightarrow> 's" where
  "deref fresh i st =
     (case fmlookup (cs_slots st) i of
        Some s \<Rightarrow> s
      | None \<Rightarrow> (case fmlookup (cs_dropped st) i of Some s \<Rightarrow> s | None \<Rightarrow> fresh))"

definition assign :: "nat \<Rightarrow> 's \<Rightarrow> 's cstate \<Rightarrow> 's cstate" where
  "assign i s st =
     (if i \<in> fset (fmdom (cs_slots st)) then st\<lparr>cs_slots := fmupd i s (cs_slots st)\<rparr>
      else st\<lparr>cs_dropped := fmupd i s (cs_dropped st)\<rparr>)"

text \<open>The map holds no finalised slot, and every dropped object belongs to a finalised slot.\<close>

definition cs_wf :: "'s cstate \<Rightarrow> bool" where
  "cs_wf st \<longleftrightarrow>
     (\<forall>i\<in>fset (fmdom (cs_slots st)). cs_first st \<le> i) \<and>
     (\<forall>i\<in>fset (fmdom (cs_dropped st)). i < cs_first st)"

lemma cs_wf_init [simp]: "cs_wf cs_init" "cs_first cs_init = 0" "deref fresh i cs_init = fresh"
  by (simp_all add: cs_wf_def cs_init_def deref_def)

lemma slot_at_None_iff [simp]: "slot_at fresh i st = None \<longleftrightarrow> i < cs_first st"
  by (simp add: slot_at_def split: option.splits)

lemma cs_wfD:
  assumes "cs_wf st"
  shows "fmlookup (cs_slots st) i = Some s \<Longrightarrow> cs_first st \<le> i"
    and "fmlookup (cs_dropped st) i = Some s \<Longrightarrow> i < cs_first st"
    and "cs_first st \<le> i \<Longrightarrow> fmlookup (cs_dropped st) i = None"
    and "i < cs_first st \<Longrightarrow> fmlookup (cs_slots st) i = None"
proof -
  show 1: "fmlookup (cs_slots st) i = Some s \<Longrightarrow> cs_first st \<le> i" for s
    using assms by (auto simp: cs_wf_def dest!: fmdomI)
  show 2: "fmlookup (cs_dropped st) i = Some s \<Longrightarrow> i < cs_first st" for s
    using assms by (auto simp: cs_wf_def dest!: fmdomI)
  show "cs_first st \<le> i \<Longrightarrow> fmlookup (cs_dropped st) i = None"
    using 2 by (cases "fmlookup (cs_dropped st) i") auto
  show "i < cs_first st \<Longrightarrow> fmlookup (cs_slots st) i = None"
    using 1 by (cases "fmlookup (cs_slots st) i") auto
qed

lemma slot_at_Some:
  assumes "slot_at fresh i st = Some st'"
  shows "cs_first st \<le> i" "i \<in> fset (fmdom (cs_slots st'))" "cs_first st' = cs_first st"
    "cs_wf st \<Longrightarrow> cs_wf st'" "cs_wf st \<Longrightarrow> deref fresh j st' = deref fresh j st"
proof -
  have i: "cs_first st \<le> i" and st': "st' = (case fmlookup (cs_slots st) i of
      None \<Rightarrow> st\<lparr>cs_slots := fmupd i fresh (cs_slots st)\<rparr> | Some _ \<Rightarrow> st)"
    using assms by (auto simp: slot_at_def split: if_splits option.splits)
  show "cs_first st \<le> i" by (rule i)
  show "i \<in> fset (fmdom (cs_slots st'))" "cs_first st' = cs_first st"
    by (auto simp: st' fmdomI split: option.splits)
  show "cs_wf st'" if "cs_wf st"
    using that i by (auto simp: st' cs_wf_def split: option.splits)
  show "deref fresh j st' = deref fresh j st" if "cs_wf st"
    using cs_wfD(3) [OF that i] by (auto simp: st' deref_def split: option.splits)
qed

lemma deref_assign:
  assumes "cs_wf st" "i \<in> fset (fmdom (cs_slots st)) \<or> i < cs_first st"
  shows "deref fresh j (assign i s st) = (if j = i then s else deref fresh j st)"
proof (cases "i \<in> fset (fmdom (cs_slots st))")
  case False
  then have "i < cs_first st" using assms(2) by simp
  with cs_wfD(4) [OF assms(1) this] show ?thesis
    using False by (simp add: deref_def assign_def split: option.splits)
qed (auto simp: deref_def assign_def split: option.splits)

lemma cs_wf_assign:
  assumes "cs_wf st" "i \<in> fset (fmdom (cs_slots st)) \<or> i < cs_first st"
  shows "cs_wf (assign i s st)"
  using assms by (auto simp: cs_wf_def assign_def)

lemma cs_first_assign [simp]: "cs_first (assign i s st) = cs_first st"
  by (simp add: assign_def)

lemma fmdom_slots_assign [simp]: "fset (fmdom (cs_slots (assign i s st))) = fset (fmdom (cs_slots st))"
  by (auto simp: assign_def)

lemma cs_first_notify [simp]: "cs_first (notify_finalized n st) = max (cs_first st) (Suc n)"
  by (simp add: notify_finalized_def Let_def)

lemma cs_wf_notify: "cs_wf st \<Longrightarrow> cs_wf (notify_finalized n st)"
  unfolding cs_wf_def notify_finalized_def Let_def
  by (auto simp: fmdom_filter less_max_iff_disj)

lemma deref_notify:
  assumes "cs_wf st"
  shows "deref fresh j (notify_finalized n st) = deref fresh j st"
proof (cases "fmlookup (cs_slots st) j")
  case (Some s)
  from cs_wfD(3) [OF assms cs_wfD(1) [OF assms Some]]
  have "fmlookup (cs_dropped st) j = None" .
  with Some fmdomI [OF Some] show ?thesis
    by (simp add: deref_def notify_finalized_def Let_def not_less split: option.splits)
qed (simp add: deref_def notify_finalized_def Let_def fmdom_notI split: option.splits)

end
