(* ===== verification/Simplex_Pool.thy ===== *)
theory Simplex_Pool
  imports Simplex_State
begin

text \<open>
  The vote pool of the Simplex consensus (\<^verbatim>\<open>simplex/pool.cpp\<close>): votes of a validator in a slot
  (\<^verbatim>\<open>Tsentrizbirkom\<close>), the certificates of a slot (\<^verbatim>\<open>CertificateBundle\<close>), the slot
  (\<^verbatim>\<open>SlotState\<close>) and the actor (\<^verbatim>\<open>PoolImpl\<close>).  A handler maps the state of the actor to a
  new state or to the failure that would abort the process: a \<^verbatim>\<open>CHECK\<close>, the dereferencing of
  an empty optional or end iterator, an index out of range.  Events published on the bus are
  appended to \<^verbatim>\<open>pl_published\<close>; coroutines that wait for the database or the keyring are the
  lists \<^verbatim>\<open>pl_saving\<close> and \<^verbatim>\<open>pl_signing\<close>.
\<close>

datatype abort = Check_failed | Null_deref | Out_of_range

definition check :: "bool \<Rightarrow> abort + unit" where
  "check c = rguard c Check_failed"

definition vec_get :: "'a list \<Rightarrow> nat \<Rightarrow> abort + 'a" where
  "vec_get xs i = (if i < length xs then Inr (xs ! i) else Inl Out_of_range)"

datatype misbehavior =
    ConflictingVotes message message
  | ConflictingCandidateAndCertificate

section \<open>Proven votes\<close>

datatype 't vote_proof = PSigned "'t signed" | PCert "'t certificate"

record 't proven =
  pr_vote :: 't
  pr_proof :: "'t vote_proof"

definition proven_signed :: "'t signed \<Rightarrow> 't proven" where
  "proven_signed s = \<lparr>pr_vote = sg_vote s, pr_proof = PSigned s\<rparr>"

definition proven_cert :: "'t certificate \<Rightarrow> 't proven" where
  "proven_cert c = \<lparr>pr_vote = ct_vote c, pr_proof = PCert c\<rparr>"

definition serialize_as_proof :: "('t \<Rightarrow> vote) \<Rightarrow> 't proven \<Rightarrow> message" where
  "serialize_as_proof up p =
     (case pr_proof p of PSigned s \<Rightarrow> signed_serialize up s | PCert c \<Rightarrow> certificate_serialize up c)"

definition as_signed_vote :: "'t proven \<Rightarrow> abort + 't signed" where
  "as_signed_vote p = (case pr_proof p of PSigned s \<Rightarrow> Inr s | PCert _ \<Rightarrow> Inl Check_failed)"

definition proven_to_signature :: "'t \<Rightarrow> 't proven \<Rightarrow> abort + (nat \<times> signature) option" where
  "proven_to_signature v p =
     (if v \<noteq> pr_vote p then Inr None
      else rbind (as_signed_vote p) (\<lambda>s. Inr (Some (sg_validator s, sg_signature s))))"

definition proven_serialize_to ::
  "('t \<Rightarrow> vote) \<Rightarrow> 't proven \<Rightarrow> message list \<Rightarrow> abort + message list" where
  "proven_serialize_to up p messages =
     rbind (as_signed_vote p) (\<lambda>s. Inr (messages @ [signed_serialize up s]))"

section \<open>Certificates of a slot\<close>

record 't cert_and_flag =
  being_saved :: bool
  stored_cert :: "'t certificate option"

record certificate_bundle =
  cb_notar :: "notarize_vote cert_and_flag"
  cb_skip :: "skip_vote cert_and_flag"
  cb_final :: "finalize_vote cert_and_flag"

definition no_cert :: "'t cert_and_flag" where
  "no_cert = \<lparr>being_saved = False, stored_cert = None\<rparr>"

definition empty_bundle :: certificate_bundle where
  "empty_bundle = \<lparr>cb_notar = no_cert, cb_skip = no_cert, cb_final = no_cert\<rparr>"

definition flag_needs :: "'t cert_and_flag \<Rightarrow> bool" where
  "flag_needs f \<longleftrightarrow> stored_cert f = None \<and> \<not> being_saved f"

fun needs :: "certificate_bundle \<Rightarrow> vote \<Rightarrow> bool" where
  "needs b (VNotarize _) = flag_needs (cb_notar b)"
| "needs b (VSkip _) = flag_needs (cb_skip b)"
| "needs b (VFinalize _) = flag_needs (cb_final b)"

fun remember_prospective :: "vote \<Rightarrow> certificate_bundle \<Rightarrow> abort + certificate_bundle" where
  "remember_prospective (VNotarize _) b =
     rbind (check (flag_needs (cb_notar b)))
       (\<lambda>_. Inr (b\<lparr>cb_notar := (cb_notar b)\<lparr>being_saved := True\<rparr>\<rparr>))"
| "remember_prospective (VSkip _) b =
     rbind (check (flag_needs (cb_skip b)))
       (\<lambda>_. Inr (b\<lparr>cb_skip := (cb_skip b)\<lparr>being_saved := True\<rparr>\<rparr>))"
| "remember_prospective (VFinalize _) b =
     rbind (check (flag_needs (cb_final b)))
       (\<lambda>_. Inr (b\<lparr>cb_final := (cb_final b)\<lparr>being_saved := True\<rparr>\<rparr>))"

text \<open>\<^verbatim>\<open>store\<close>: the new entry and the result of the call.\<close>

definition store_cert :: "'t certificate \<Rightarrow> 't cert_and_flag \<Rightarrow> 't cert_and_flag \<times> bool" where
  "store_cert c f =
     (if stored_cert f \<noteq> None then (f, False) else (f\<lparr>stored_cert := Some c\<rparr>, True))"

definition cert_serialize_to ::
  "('t \<Rightarrow> vote) \<Rightarrow> 't cert_and_flag \<Rightarrow> message list \<Rightarrow> message list" where
  "cert_serialize_to up f messages =
     (case stored_cert f of None \<Rightarrow> messages | Some c \<Rightarrow> messages @ [certificate_serialize up c])"

definition bundle_serialize_to :: "certificate_bundle \<Rightarrow> message list \<Rightarrow> message list" where
  "bundle_serialize_to b messages =
     cert_serialize_to VFinalize (cb_final b)
       (cert_serialize_to VSkip (cb_skip b)
         (cert_serialize_to VNotarize (cb_notar b) messages))"

section \<open>The votes of one validator in one slot\<close>

record add_vote_result =
  is_applied :: bool
  misbehavior_of :: "misbehavior option"

definition applied :: "bool \<Rightarrow> add_vote_result" where
  "applied a = \<lparr>is_applied = a, misbehavior_of = None\<rparr>"

definition misbehaved :: "misbehavior \<Rightarrow> add_vote_result" where
  "misbehaved m = \<lparr>is_applied = False, misbehavior_of = Some m\<rparr>"

record tsentrizbirkom =
  tb_notarize :: "notarize_vote proven option"
  tb_skip :: "skip_vote proven option"
  tb_finalize :: "finalize_vote proven option"

definition no_votes :: tsentrizbirkom where
  "no_votes = \<lparr>tb_notarize = None, tb_skip = None, tb_finalize = None\<rparr>"

fun wants :: "tsentrizbirkom \<Rightarrow> vote \<Rightarrow> bool" where
  "wants t (VNotarize _) \<longleftrightarrow> tb_notarize t = None"
| "wants t (VSkip _) \<longleftrightarrow> tb_skip t = None"
| "wants t (VFinalize _) \<longleftrightarrow> tb_finalize t = None"

definition check_invariants :: "tsentrizbirkom \<Rightarrow> misbehavior option" where
  "check_invariants t =
     (case (tb_notarize t, tb_finalize t) of
        (Some n, Some f) \<Rightarrow>
          if nv_id (pr_vote n) \<noteq> fv_id (pr_vote f)
          then Some (ConflictingVotes (serialize_as_proof VNotarize n) (serialize_as_proof VFinalize f))
          else (case tb_skip t of
                  Some s \<Rightarrow> Some (ConflictingVotes (serialize_as_proof VFinalize f) (serialize_as_proof VSkip s))
                | None \<Rightarrow> None)
      | (None, Some f) \<Rightarrow>
          (case tb_skip t of
             Some s \<Rightarrow> Some (ConflictingVotes (serialize_as_proof VFinalize f) (serialize_as_proof VSkip s))
           | None \<Rightarrow> None)
      | (_, None) \<Rightarrow> None)"

definition add_vote_notarize ::
  "notarize_vote proven \<Rightarrow> tsentrizbirkom \<Rightarrow> tsentrizbirkom \<times> add_vote_result" where
  "add_vote_notarize v t =
     (case tb_notarize t of
        Some n \<Rightarrow>
          if pr_vote n \<noteq> pr_vote v
          then (t, misbehaved (ConflictingVotes (serialize_as_proof VNotarize v) (serialize_as_proof VNotarize n)))
          else (t, applied False)
      | None \<Rightarrow>
          (let t' = t\<lparr>tb_notarize := Some v\<rparr>
           in case check_invariants t' of
                Some m \<Rightarrow> (t'\<lparr>tb_notarize := None\<rparr>, misbehaved m)
              | None \<Rightarrow> (t', applied True)))"

definition add_vote_skip ::
  "skip_vote proven \<Rightarrow> tsentrizbirkom \<Rightarrow> tsentrizbirkom \<times> add_vote_result" where
  "add_vote_skip v t =
     (case tb_skip t of
        Some _ \<Rightarrow> (t, applied False)
      | None \<Rightarrow>
          (let t' = t\<lparr>tb_skip := Some v\<rparr>
           in case check_invariants t' of
                Some m \<Rightarrow> (t'\<lparr>tb_skip := None\<rparr>, misbehaved m)
              | None \<Rightarrow> (t', applied True)))"

definition add_vote_finalize ::
  "finalize_vote proven \<Rightarrow> tsentrizbirkom \<Rightarrow> tsentrizbirkom \<times> add_vote_result" where
  "add_vote_finalize v t =
     (case tb_finalize t of
        Some f \<Rightarrow>
          if pr_vote f \<noteq> pr_vote v
          then (t, misbehaved (ConflictingVotes (serialize_as_proof VFinalize v) (serialize_as_proof VFinalize f)))
          else (t, applied False)
      | None \<Rightarrow>
          (let t' = t\<lparr>tb_finalize := Some v\<rparr>
           in case check_invariants t' of
                Some m \<Rightarrow> (t'\<lparr>tb_finalize := None\<rparr>, misbehaved m)
              | None \<Rightarrow> (t', applied True)))"

definition stored_to_signature ::
  "'t \<Rightarrow> 't proven option \<Rightarrow> abort + (nat \<times> signature) option" where
  "stored_to_signature v p = (case p of Some q \<Rightarrow> proven_to_signature v q | None \<Rightarrow> Inr None)"

fun to_signature :: "vote \<Rightarrow> tsentrizbirkom \<Rightarrow> abort + (nat \<times> signature) option" where
  "to_signature (VNotarize v) t = stored_to_signature v (tb_notarize t)"
| "to_signature (VSkip v) t = stored_to_signature v (tb_skip t)"
| "to_signature (VFinalize v) t = stored_to_signature v (tb_finalize t)"

definition vote_serialize_to ::
  "('t \<Rightarrow> vote) \<Rightarrow> 't proven option \<Rightarrow> 't cert_and_flag \<Rightarrow> message list \<Rightarrow> abort + message list" where
  "vote_serialize_to up p f messages =
     (case p of
        Some q \<Rightarrow> if stored_cert f = None then proven_serialize_to up q messages else Inr messages
      | None \<Rightarrow> Inr messages)"

definition votes_serialize_to ::
  "tsentrizbirkom \<Rightarrow> certificate_bundle \<Rightarrow> message list \<Rightarrow> abort + message list" where
  "votes_serialize_to t b messages =
     rbind (vote_serialize_to VNotarize (tb_notarize t) (cb_notar b) messages)
       (\<lambda>m. rbind (vote_serialize_to VSkip (tb_skip t) (cb_skip b) m)
          (\<lambda>m. vote_serialize_to VFinalize (tb_finalize t) (cb_final b) m))"

section \<open>Slots\<close>

record slot_state =
  ss_votes :: "tsentrizbirkom list"
  ss_certs :: certificate_bundle
  ss_skip_weight :: u64
  ss_notarize_weight :: "candidate_id \<rightharpoonup> u64"
  ss_finalize_weight :: "candidate_id \<rightharpoonup> u64"
  ss_available_base :: "parent_id option"

definition fresh_slot :: "bus \<Rightarrow> slot_state" where
  "fresh_slot b =
     \<lparr>ss_votes = replicate (length (validator_set b)) no_votes, ss_certs = empty_bundle,
      ss_skip_weight = 0, ss_notarize_weight = Map.empty, ss_finalize_weight = Map.empty,
      ss_available_base = None\<rparr>"

fun collect_vote_signatures :: "vote \<Rightarrow> tsentrizbirkom list \<Rightarrow> abort + (nat \<times> signature) list" where
  "collect_vote_signatures v [] = Inr []"
| "collect_vote_signatures v (t # ts) =
     rbind (to_signature v t)
       (\<lambda>sig. rbind (collect_vote_signatures v ts)
          (\<lambda>sigs. Inr (case sig of None \<Rightarrow> sigs | Some x \<Rightarrow> x # sigs)))"

definition create_cert :: "vote \<Rightarrow> slot_state \<Rightarrow> abort + vote certificate" where
  "create_cert v s =
     rbind (collect_vote_signatures v (ss_votes s))
       (\<lambda>sigs. Inr \<lparr>ct_vote = v, ct_signatures = sigs\<rparr>)"

definition is_notarized :: "slot_state \<Rightarrow> bool" where
  "is_notarized s \<longleftrightarrow> stored_cert (cb_notar (ss_certs s)) \<noteq> None"

definition will_be_notarized :: "slot_state \<Rightarrow> bool" where
  "will_be_notarized s \<longleftrightarrow> is_notarized s \<or> being_saved (cb_notar (ss_certs s))"

definition notarized_block :: "slot_state \<Rightarrow> candidate_id option" where
  "notarized_block s =
     (case stored_cert (cb_notar (ss_certs s)) of
        Some c \<Rightarrow> Some (nv_id (ct_vote c))
      | None \<Rightarrow> (case stored_cert (cb_final (ss_certs s)) of
                   Some c \<Rightarrow> Some (fv_id (ct_vote c))
                 | None \<Rightarrow> None))"

definition is_skipped :: "slot_state \<Rightarrow> bool" where
  "is_skipped s \<longleftrightarrow> stored_cert (cb_skip (ss_certs s)) \<noteq> None"

definition will_be_skipped :: "slot_state \<Rightarrow> bool" where
  "will_be_skipped s \<longleftrightarrow> is_skipped s \<or> being_saved (cb_skip (ss_certs s))"

definition is_finalized :: "slot_state \<Rightarrow> bool" where
  "is_finalized s \<longleftrightarrow> stored_cert (cb_final (ss_certs s)) \<noteq> None"

definition will_be_finalized :: "slot_state \<Rightarrow> bool" where
  "will_be_finalized s \<longleftrightarrow> is_finalized s \<or> being_saved (cb_final (ss_certs s))"

definition add_available_base :: "parent_id \<Rightarrow> slot_state \<Rightarrow> slot_state" where
  "add_available_base parent s =
     (case ss_available_base s of
        None \<Rightarrow> s\<lparr>ss_available_base := Some parent\<rparr>
      | Some cur \<Rightarrow> if parent \<ge> cur then s\<lparr>ss_available_base := Some parent\<rparr> else s)"

section \<open>The actor\<close>

datatype resolution = Slot_already_finalized | Conflicts misbehavior | Parent_ok

record request =
  rq_id :: candidate_id
  rq_parent :: parent_id

datatype event =
    NotarizationObserved candidate_id "notarize_vote certificate"
  | FinalizationObserved candidate_id "finalize_vote certificate"
  | LeaderWindowObserved nat parent_id
  | OutgoingProtocolMessage message
  | MisbehaviorReport nat misbehavior
  | SaveCertificate "vote certificate"
  | RequestResolved request resolution

record pool =
  pl_state :: "slot_state cstate"
  pl_weight_threshold :: u64
  pl_suppress_certificate_broadcast :: bool
  pl_is_started :: bool
  pl_now :: nat
  pl_skip_intervals :: "nat list"
  pl_first_nonannounced_window :: nat
  pl_last_finalized_block :: parent_id
  pl_last_final_cert :: "finalize_vote certificate option"
  pl_first_nonfinalized_slot :: nat
  pl_bad_signature_bans :: "nat \<rightharpoonup> nat"
  pl_requests :: "request list"
  pl_seen_broadcasts :: "nat \<rightharpoonup> 256 word"
  pl_saving :: "vote certificate list"
  pl_signing :: "(vote \<times> bool \<times> bool) list"
  pl_published :: "event list"

definition publish :: "event \<Rightarrow> pool \<Rightarrow> pool" where
  "publish e p = p\<lparr>pl_published := pl_published p @ [e]\<rparr>"

definition pool_slot_at :: "bus \<Rightarrow> nat \<Rightarrow> pool \<Rightarrow> pool option" where
  "pool_slot_at b i p = map_option (\<lambda>st. p\<lparr>pl_state := st\<rparr>) (slot_at (fresh_slot b) i (pl_state p))"

text \<open>\<^verbatim>\<open>state_->slot_at(i)->\<close>, which dereferences the optional.\<close>

definition get_slot_at :: "bus \<Rightarrow> nat \<Rightarrow> pool \<Rightarrow> abort + pool" where
  "get_slot_at b i p = (case pool_slot_at b i p of None \<Rightarrow> Inl Null_deref | Some p' \<Rightarrow> Inr p')"

definition slot_of :: "bus \<Rightarrow> nat \<Rightarrow> pool \<Rightarrow> slot_state" where
  "slot_of b i p = deref (fresh_slot b) i (pl_state p)"

definition set_slot :: "nat \<Rightarrow> slot_state \<Rightarrow> pool \<Rightarrow> pool" where
  "set_slot i s p = p\<lparr>pl_state := assign i s (pl_state p)\<rparr>"

text \<open>\<^verbatim>\<open>skip_intervals_\<close> is an ordered set, kept as a sorted list.\<close>

definition lower_bound :: "nat \<Rightarrow> nat list \<Rightarrow> nat option" where
  "lower_bound i xs = List.find (\<lambda>x. i \<le> x) xs"

definition deref_iter :: "'a option \<Rightarrow> abort + 'a" where
  "deref_iter it = (case it of None \<Rightarrow> Inl Null_deref | Some x \<Rightarrow> Inr x)"

subsection \<open>Bookkeeping\<close>

definition passed :: "(nat, slot_state) fmap \<Rightarrow> nat \<Rightarrow> bool" where
  "passed slots i = (case fmlookup slots i of None \<Rightarrow> False | Some s \<Rightarrow> is_notarized s \<or> is_skipped s)"

lemma passed_dom: "passed slots i \<Longrightarrow> i \<in> fset (fmdom slots)"
  by (cases "fmlookup slots i") (auto simp: passed_def dest: fmdomI)

function advance_now :: "(nat, slot_state) fmap \<Rightarrow> nat \<Rightarrow> nat" where
  "advance_now slots i = (if passed slots i then advance_now slots (Suc i) else i)"
  by pat_completeness auto

termination
proof (relation "measure (\<lambda>(slots, i). card (fset (fmdom slots) \<inter> {i..}))")
  fix slots :: "(nat, slot_state) fmap" and i
  assume "passed slots i"
  then have "i \<in> fset (fmdom slots) \<inter> {i..}" using passed_dom by simp
  moreover have "i \<notin> fset (fmdom slots) \<inter> {Suc i..}" by simp
  moreover have "fset (fmdom slots) \<inter> {Suc i..} \<subseteq> fset (fmdom slots) \<inter> {i..}" by auto
  ultimately have "fset (fmdom slots) \<inter> {Suc i..} \<subset> fset (fmdom slots) \<inter> {i..}" by blast
  then have "card (fset (fmdom slots) \<inter> {Suc i..}) < card (fset (fmdom slots) \<inter> {i..})"
    by (intro psubset_card_mono finite_Int disjI1 finite_fset)
  then show "((slots, Suc i), slots, i) \<in> measure (\<lambda>(slots, i). card (fset (fmdom slots) \<inter> {i..}))"
    by simp
qed simp

declare advance_now.simps [simp del]

definition advance_present :: "bus \<Rightarrow> pool \<Rightarrow> abort + pool" where
  "advance_present b p =
     (if \<not> pl_is_started p then Inr p
      else rbind (get_slot_at b (pl_now p) p)
        (\<lambda>p. let p = p\<lparr>pl_now := advance_now (cs_slots (pl_state p)) (pl_now p)\<rparr>
             in rbind (get_slot_at b (pl_now p) p)
        (\<lambda>p. let new_window = pl_now p div slots_per_leader_window b
             in if new_window < pl_first_nonannounced_window p then Inr p
                else let p = p\<lparr>pl_first_nonannounced_window := new_window + 1\<rparr>
                     in if pl_now p \<noteq> 0
                        then case ss_available_base (slot_of b (pl_now p) p) of
                               None \<Rightarrow> Inl Check_failed
                             | Some base \<Rightarrow> Inr (publish (LeaderWindowObserved (pl_now p) base) p)
                        else Inr (publish (LeaderWindowObserved (pl_now p) None) p))))"

definition next_nonskipped_slot_after :: "bus \<Rightarrow> nat \<Rightarrow> pool \<Rightarrow> abort + nat \<times> pool" where
  "next_nonskipped_slot_after b slot p =
     rbind (get_slot_at b (slot + 1) p)
       (\<lambda>p. if is_skipped (slot_of b (slot + 1) p)
            then rbind (deref_iter (lower_bound (slot + 1) (pl_skip_intervals p)))
                   (\<lambda>i. rbind (get_slot_at b i p) (\<lambda>p. Inr (i, p)))
            else Inr (slot + 1, p))"

subsection \<open>Requests\<close>

text \<open>
  \<^verbatim>\<open>maybe_resolve_request\<close>: \<^verbatim>\<open>Some r\<close> when the promise is fulfilled with \<^verbatim>\<open>r\<close>, \<^verbatim>\<open>None\<close> when
  the request has to wait.
\<close>

definition wait_for_skips :: "bus \<Rightarrow> nat \<Rightarrow> candidate_id \<Rightarrow> pool \<Rightarrow> abort + resolution option \<times> pool" where
  "wait_for_skips b next_slot_after_parent ident p =
     (if next_slot_after_parent = cid_slot ident then Inr (Some Parent_ok, p)
      else rbind (get_slot_at b next_slot_after_parent p)
        (\<lambda>p. if \<not> is_skipped (slot_of b next_slot_after_parent p) then Inr (None, p)
             else rbind (deref_iter (lower_bound next_slot_after_parent (pl_skip_intervals p)))
               (\<lambda>i. if cid_slot ident \<le> i then Inr (Some Parent_ok, p) else Inr (None, p))))"

definition maybe_resolve_request :: "bus \<Rightarrow> request \<Rightarrow> pool \<Rightarrow> abort + resolution option \<times> pool" where
  "maybe_resolve_request b r p =
     (let ident = rq_id r; parent = rq_parent r;
          next_slot_after_parent = (case parent of Some c \<Rightarrow> cid_slot c + 1 | None \<Rightarrow> 0);
          conflict = Some (Conflicts ConflictingCandidateAndCertificate)
      in if cid_slot ident < pl_first_nonfinalized_slot p then Inr (Some Slot_already_finalized, p)
         else if next_slot_after_parent < pl_first_nonfinalized_slot p then Inr (conflict, p)
         else rbind (get_slot_at b (cid_slot ident) p)
           (\<lambda>p. let nb = notarized_block (slot_of b (cid_slot ident) p)
                in if nb \<noteq> None \<and> nb \<noteq> Some ident then Inr (conflict, p)
                   else if next_slot_after_parent = pl_first_nonfinalized_slot p
                   then if pl_last_finalized_block p \<noteq> parent
                        then rbind (check (pl_first_nonfinalized_slot p \<noteq> 0)) (\<lambda>_. Inr (conflict, p))
                        else wait_for_skips b next_slot_after_parent ident p
                   else case parent of
                          None \<Rightarrow> Inl Check_failed
                        | Some c \<Rightarrow>
                            rbind (get_slot_at b (cid_slot c) p)
                              (\<lambda>p. if is_notarized (slot_of b (cid_slot c) p)
                                   then if notarized_block (slot_of b (cid_slot c) p) \<noteq> parent
                                        then Inr (conflict, p)
                                        else wait_for_skips b next_slot_after_parent ident p
                                   else Inr (None, p))))"

text \<open>The loop over the requests: a resolved request is replaced by the last one.\<close>

function resolve_requests_loop ::
  "bus \<Rightarrow> request list \<Rightarrow> nat \<Rightarrow> pool \<Rightarrow> abort + request list \<times> pool" where
  "resolve_requests_loop b rs i p =
     (if i < length rs
      then rbind (maybe_resolve_request b (rs ! i) p)
        (\<lambda>(res, p). case res of
             Some r \<Rightarrow> resolve_requests_loop b (butlast (rs[i := last rs])) i
                        (publish (RequestResolved (rs ! i) r) p)
           | None \<Rightarrow> resolve_requests_loop b rs (Suc i) p)
      else Inr (rs, p))"
  by pat_completeness auto

termination
  by (relation "measure (\<lambda>(b, rs, i, p). length rs - i)") auto

declare resolve_requests_loop.simps [simp del]

definition maybe_resolve_requests :: "bus \<Rightarrow> pool \<Rightarrow> abort + pool" where
  "maybe_resolve_requests b p =
     rbind (resolve_requests_loop b (pl_requests p) 0 p)
       (\<lambda>(rs, p). Inr (p\<lparr>pl_requests := rs\<rparr>))"

subsection \<open>Certificates\<close>

definition handle_certificate :: "bus \<Rightarrow> vote certificate \<Rightarrow> pool \<Rightarrow> abort + pool" where
  "handle_certificate b cert p =
     (let i = referenced_slot (ct_vote cert)
      in case pool_slot_at b i p of
           None \<Rightarrow> Inr p
         | Some p \<Rightarrow>
             (let s = slot_of b i p
              in if \<not> needs (ss_certs s) (ct_vote cert) then Inr p
                 else rbind (remember_prospective (ct_vote cert) (ss_certs s))
                   (\<lambda>certs. Inr (publish (SaveCertificate cert)
                      ((set_slot i (s\<lparr>ss_certs := certs\<rparr>) p)
                         \<lparr>pl_saving := pl_saving p @ [cert]\<rparr>)))))"

definition handle_typed_saved_notar ::
  "bus \<Rightarrow> nat \<Rightarrow> notarize_vote certificate \<Rightarrow> pool \<Rightarrow> abort + pool" where
  "handle_typed_saved_notar b i cert p =
     (let ident = nv_id (ct_vote cert); p = publish (NotarizationObserved ident cert) p
      in rbind (next_nonskipped_slot_after b (cid_slot ident) p)
           (\<lambda>(j, p). advance_present b (set_slot j (add_available_base (Some ident) (slot_of b j p)) p)))"

definition handle_typed_saved_skip ::
  "bus \<Rightarrow> nat \<Rightarrow> skip_vote certificate \<Rightarrow> pool \<Rightarrow> abort + pool" where
  "handle_typed_saved_skip b i cert p =
     rbind (next_nonskipped_slot_after b i p)
       (\<lambda>(j, p).
          let ivs = removeAll i (pl_skip_intervals p);
              p = p\<lparr>pl_skip_intervals := (if j = i + 1 then insort_insert (i + 1) ivs else ivs)\<rparr>
          in advance_present b
               (case ss_available_base (slot_of b i p) of
                  Some base \<Rightarrow> set_slot j (add_available_base base (slot_of b j p)) p
                | None \<Rightarrow> p))"

definition handle_typed_saved_final ::
  "bus \<Rightarrow> nat \<Rightarrow> finalize_vote certificate \<Rightarrow> pool \<Rightarrow> abort + pool" where
  "handle_typed_saved_final b i cert p =
     (let ident = fv_id (ct_vote cert); s = slot_of b i p
      in rbind (check (\<not> is_skipped s)) (\<lambda>_.
         rbind (check ((case notarized_block s of Some c \<Rightarrow> c | None \<Rightarrow> ident) = ident)) (\<lambda>_.
         rbind (if is_notarized s then Inr p
                else rbind (next_nonskipped_slot_after b (cid_slot ident) p)
                  (\<lambda>(j, p). Inr (set_slot j (add_available_base (Some ident) (slot_of b j p)) p))) (\<lambda>p.
         let p = publish (FinalizationObserved ident cert)
                   (p\<lparr>pl_last_finalized_block := Some ident,
                      pl_last_final_cert := Some cert,
                      pl_first_nonfinalized_slot := cid_slot ident + 1\<rparr>)
         in rbind (if pl_now p \<le> cid_slot ident
                   then advance_present b (p\<lparr>pl_now := cid_slot ident + 1\<rparr>)
                   else Inr p) (\<lambda>p.
         Inr (p\<lparr>pl_skip_intervals := dropWhile (\<lambda>x. x \<le> cid_slot ident) (pl_skip_intervals p),
                pl_state := notify_finalized (cid_slot ident) (pl_state p)\<rparr>))))))"

definition broadcast_cert :: "message \<Rightarrow> pool \<Rightarrow> pool" where
  "broadcast_cert m p =
     (if pl_suppress_certificate_broadcast p then p else publish (OutgoingProtocolMessage m) p)"

definition handle_saved_notar ::
  "bus \<Rightarrow> nat \<Rightarrow> notarize_vote certificate \<Rightarrow> pool \<Rightarrow> abort + pool" where
  "handle_saved_notar b i cert p =
     (let s = slot_of b i p; (f, rc) = store_cert cert (cb_notar (ss_certs s))
      in rbind (check rc) (\<lambda>_.
         rbind (handle_typed_saved_notar b i cert
            (broadcast_cert (certificate_serialize VNotarize cert)
              (set_slot i (s\<lparr>ss_certs := (ss_certs s)\<lparr>cb_notar := f\<rparr>\<rparr>) p)))
         (maybe_resolve_requests b)))"

definition handle_saved_skip ::
  "bus \<Rightarrow> nat \<Rightarrow> skip_vote certificate \<Rightarrow> pool \<Rightarrow> abort + pool" where
  "handle_saved_skip b i cert p =
     (let s = slot_of b i p; (f, rc) = store_cert cert (cb_skip (ss_certs s))
      in rbind (check rc) (\<lambda>_.
         rbind (handle_typed_saved_skip b i cert
            (broadcast_cert (certificate_serialize VSkip cert)
              (set_slot i (s\<lparr>ss_certs := (ss_certs s)\<lparr>cb_skip := f\<rparr>\<rparr>) p)))
         (maybe_resolve_requests b)))"

definition handle_saved_final ::
  "bus \<Rightarrow> nat \<Rightarrow> finalize_vote certificate \<Rightarrow> pool \<Rightarrow> abort + pool" where
  "handle_saved_final b i cert p =
     (let s = slot_of b i p; (f, rc) = store_cert cert (cb_final (ss_certs s))
      in rbind (check rc) (\<lambda>_.
         rbind (handle_typed_saved_final b i cert
            (broadcast_cert (certificate_serialize VFinalize cert)
              (set_slot i (s\<lparr>ss_certs := (ss_certs s)\<lparr>cb_final := f\<rparr>\<rparr>) p)))
         (maybe_resolve_requests b)))"

text \<open>
  The loops of \<^verbatim>\<open>handle_prospective_certificate\<close> that credit the votes of a certificate to
  their validators.
\<close>

definition report :: "nat \<Rightarrow> add_vote_result \<Rightarrow> pool \<Rightarrow> pool" where
  "report idx res p =
     (case misbehavior_of res of None \<Rightarrow> p | Some m \<Rightarrow> publish (MisbehaviorReport idx m) p)"

fun credit_votes ::
  "bus \<Rightarrow> nat \<Rightarrow> (tsentrizbirkom \<Rightarrow> tsentrizbirkom \<times> add_vote_result) \<Rightarrow>
     (nat \<times> signature) list \<Rightarrow> pool \<Rightarrow> abort + pool" where
  "credit_votes b i add [] p = Inr p"
| "credit_votes b i add ((idx, _) # rest) p =
     (let s = slot_of b i p
      in rbind (vec_get (ss_votes s) idx)
           (\<lambda>t. let (t', res) = add t
                in credit_votes b i add rest
                     (report idx res (set_slot i (s\<lparr>ss_votes := (ss_votes s)[idx := t']\<rparr>) p))))"

text \<open>The part of \<^verbatim>\<open>handle_prospective_certificate\<close> that runs once the certificate is saved.\<close>

definition handle_prospective_certificate :: "bus \<Rightarrow> vote certificate \<Rightarrow> pool \<Rightarrow> abort + pool" where
  "handle_prospective_certificate b cert p =
     (let i = referenced_slot (ct_vote cert)
      in case pool_slot_at b i p of
           None \<Rightarrow> Inr p
         | Some p \<Rightarrow>
             (case ct_vote cert of
                VNotarize v \<Rightarrow>
                  (let c = downcast_with v cert
                   in rbind (credit_votes b i (add_vote_notarize (proven_cert c)) (ct_signatures c) p)
                        (handle_saved_notar b i c))
              | VSkip v \<Rightarrow>
                  (let c = downcast_with v cert
                   in rbind (credit_votes b i (add_vote_skip (proven_cert c)) (ct_signatures c) p)
                        (handle_saved_skip b i c))
              | VFinalize v \<Rightarrow>
                  (let c = downcast_with v cert
                   in rbind (credit_votes b i (add_vote_finalize (proven_cert c)) (ct_signatures c) p)
                        (handle_saved_final b i c))))"

subsection \<open>Votes\<close>

definition add_weight :: "candidate_id \<Rightarrow> u64 \<Rightarrow> (candidate_id \<rightharpoonup> u64) \<Rightarrow> (candidate_id \<rightharpoonup> u64)" where
  "add_weight c w m = m(c \<mapsto> (case m c of None \<Rightarrow> 0 | Some x \<Rightarrow> x) + w)"

definition handle_typed_vote_notarize ::
  "bus \<Rightarrow> peer_validator \<Rightarrow> notarize_vote \<Rightarrow> nat \<Rightarrow> pool \<Rightarrow> abort + pool" where
  "handle_typed_vote_notarize b validator v i p =
     (let s = slot_of b i p;
          s' = s\<lparr>ss_notarize_weight := add_weight (nv_id v) (pv_weight validator) (ss_notarize_weight s)\<rparr>;
          p = set_slot i s' p
      in if \<not> will_be_notarized s' \<and> the (ss_notarize_weight s' (nv_id v)) \<ge> pl_weight_threshold p
         then rbind (create_cert (VNotarize v) s') (\<lambda>c. handle_certificate b c p)
         else Inr p)"

definition handle_typed_vote_skip ::
  "bus \<Rightarrow> peer_validator \<Rightarrow> skip_vote \<Rightarrow> nat \<Rightarrow> pool \<Rightarrow> abort + pool" where
  "handle_typed_vote_skip b validator v i p =
     (let s = slot_of b i p;
          s' = s\<lparr>ss_skip_weight := ss_skip_weight s + pv_weight validator\<rparr>;
          p = set_slot i s' p
      in if \<not> will_be_skipped s' \<and> ss_skip_weight s' \<ge> pl_weight_threshold p
         then rbind (create_cert (VSkip v) s') (\<lambda>c. handle_certificate b c p)
         else Inr p)"

definition handle_typed_vote_finalize ::
  "bus \<Rightarrow> peer_validator \<Rightarrow> finalize_vote \<Rightarrow> nat \<Rightarrow> pool \<Rightarrow> abort + pool" where
  "handle_typed_vote_finalize b validator v i p =
     (let s = slot_of b i p;
          s' = s\<lparr>ss_finalize_weight := add_weight (fv_id v) (pv_weight validator) (ss_finalize_weight s)\<rparr>;
          p = set_slot i s' p
      in if \<not> will_be_finalized s' \<and> the (ss_finalize_weight s' (fv_id v)) \<ge> pl_weight_threshold p
         then rbind (create_cert (VFinalize v) s') (\<lambda>c. handle_certificate b c p)
         else Inr p)"

definition signed_downcast :: "'t \<Rightarrow> vote signed \<Rightarrow> 't signed" where
  "signed_downcast v s =
     \<lparr>sg_validator = sg_validator s, sg_vote = v, sg_signature = sg_signature s\<rparr>"

text \<open>
  The vote is added to the votes of its validator; a conflict is reported, unless it is our
  own vote, which aborts; an applied vote is counted by \<^verbatim>\<open>continue\<close>.
\<close>

definition handle_vote_with ::
  "bus \<Rightarrow> peer_validator \<Rightarrow> bool \<Rightarrow> nat \<Rightarrow> (tsentrizbirkom \<Rightarrow> tsentrizbirkom \<times> add_vote_result) \<Rightarrow>
     (pool \<Rightarrow> abort + pool) \<Rightarrow> pool \<Rightarrow> abort + bool \<times> pool" where
  "handle_vote_with b validator tolerate_conflicts i add continue p =
     (case pool_slot_at b i p of
        None \<Rightarrow> Inr (False, p)
      | Some p \<Rightarrow>
          (let s = slot_of b i p
           in rbind (vec_get (ss_votes s) (pv_idx validator)) (\<lambda>t.
              let (t', res) = add t;
                  p = set_slot i (s\<lparr>ss_votes := (ss_votes s)[pv_idx validator := t']\<rparr>) p
              in case misbehavior_of res of
                   Some m \<Rightarrow>
                     rbind (check (validator \<noteq> local_id b \<or> tolerate_conflicts))
                       (\<lambda>_. Inr (False, publish (MisbehaviorReport (pv_idx validator) m) p))
                 | None \<Rightarrow>
                     if is_applied res then rbind (continue p) (\<lambda>p. Inr (True, p))
                     else Inr (False, p))))"

definition handle_vote ::
  "bus \<Rightarrow> peer_validator \<Rightarrow> vote signed \<Rightarrow> bool \<Rightarrow> pool \<Rightarrow> abort + bool \<times> pool" where
  "handle_vote b validator vote tolerate_conflicts p =
     (let i = referenced_slot (sg_vote vote)
      in case sg_vote vote of
           VNotarize v \<Rightarrow>
             handle_vote_with b validator tolerate_conflicts i
               (add_vote_notarize (proven_signed (signed_downcast v vote)))
               (handle_typed_vote_notarize b validator v i) p
         | VSkip v \<Rightarrow>
             handle_vote_with b validator tolerate_conflicts i
               (add_vote_skip (proven_signed (signed_downcast v vote)))
               (handle_typed_vote_skip b validator v i) p
         | VFinalize v \<Rightarrow>
             handle_vote_with b validator tolerate_conflicts i
               (add_vote_finalize (proven_signed (signed_downcast v vote)))
               (handle_typed_vote_finalize b validator v i) p)"

text \<open>Our own vote: it waits for the keyring, then it is handled and broadcast.\<close>

definition handle_our_vote :: "vote \<Rightarrow> bool \<Rightarrow> bool \<Rightarrow> pool \<Rightarrow> pool" where
  "handle_our_vote v tolerate_conflicts suppress_vote_broadcast p =
     p\<lparr>pl_signing := pl_signing p @ [(v, tolerate_conflicts, suppress_vote_broadcast)]\<rparr>"

definition our_vote_signed :: "bus \<Rightarrow> vote \<times> bool \<times> bool \<Rightarrow> pool \<Rightarrow> abort + pool" where
  "our_vote_signed b task p =
     (case task of (v, tolerate_conflicts, suppress_vote_broadcast) \<Rightarrow>
        let signed_vote = \<lparr>sg_validator = pv_idx (local_id b), sg_vote = v, sg_signature = sign_message b v\<rparr>
        in rbind (handle_vote b (local_id b) signed_vote tolerate_conflicts p)
             (\<lambda>(ok, p). Inr (if ok \<and> \<not> suppress_vote_broadcast
                then publish (OutgoingProtocolMessage (signed_serialize (\<lambda>x. x) signed_vote)) p
                else p)))"

subsection \<open>Bad signature bans\<close>

definition ban :: "bus \<Rightarrow> nat \<Rightarrow> nat \<Rightarrow> pool \<Rightarrow> pool" where
  "ban b t peer p =
     p\<lparr>pl_bad_signature_bans := (pl_bad_signature_bans p)(peer \<mapsto> t + bad_signature_ban_duration b)\<rparr>"

definition is_banned :: "nat \<Rightarrow> nat \<Rightarrow> pool \<Rightarrow> bool \<times> pool" where
  "is_banned t peer p =
     (case pl_bad_signature_bans p peer of
        None \<Rightarrow> (False, p)
      | Some until \<Rightarrow>
          if until \<le> t then (False, p\<lparr>pl_bad_signature_bans := (pl_bad_signature_bans p)(peer := None)\<rparr>)
          else (True, p))"

subsection \<open>Event handlers\<close>

definition first_too_new_slot :: "bus \<Rightarrow> pool \<Rightarrow> nat" where
  "first_too_new_slot b p =
     (pl_now p div slots_per_leader_window b + max_leader_window_desync b + 1)
       * slots_per_leader_window b"

definition incoming_vote ::
  "bus \<Rightarrow> nat \<Rightarrow> nat \<Rightarrow> vote \<Rightarrow> signature \<Rightarrow> pool \<Rightarrow> abort + pool" where
  "incoming_vote b t source v sig p =
     (let slot = referenced_slot v
      in if first_too_new_slot b p \<le> slot then Inr p
         else if slot < pl_first_nonfinalized_slot p then Inr p
         else case pool_slot_at b slot p of
                None \<Rightarrow> Inl Check_failed
              | Some p \<Rightarrow>
                  rbind (vec_get (ss_votes (slot_of b slot p)) source) (\<lambda>votes.
                  if \<not> wants votes v then Inr p
                  else case signed_from_tl b v sig source of
                         None \<Rightarrow> Inr (ban b t source p)
                       | Some sv \<Rightarrow>
                           rbind (vec_get (validator_set b) source) (\<lambda>validator.
                           rbind (handle_vote b validator sv False p) (\<lambda>(_, p). Inr p))))"

definition incoming_certificate ::
  "bus \<Rightarrow> nat \<Rightarrow> nat \<Rightarrow> vote \<Rightarrow> (nat \<times> signature) list \<Rightarrow> pool \<Rightarrow> abort + pool" where
  "incoming_certificate b t source v sigs p =
     (let slot = referenced_slot v; is_too_new = first_too_new_slot b p \<le> slot;
          validate = (\<lambda>p continue. case certificate_from_tl b v sigs of
                        Inl _ \<Rightarrow> Inr (ban b t source p)
                      | Inr cert \<Rightarrow> continue cert p)
      in if is_too_new
         then validate p (\<lambda>cert p. case pool_slot_at b slot p of
                None \<Rightarrow> Inl Check_failed
              | Some p \<Rightarrow> if \<not> needs (ss_certs (slot_of b slot p)) v then Inr p
                          else handle_certificate b cert p)
         else case pool_slot_at b slot p of
                None \<Rightarrow> Inr p
              | Some p \<Rightarrow> if \<not> needs (ss_certs (slot_of b slot p)) v then Inr p
                          else validate p (handle_certificate b))"

definition handle_incoming_message ::
  "bus \<Rightarrow> nat \<Rightarrow> nat \<Rightarrow> message \<Rightarrow> pool \<Rightarrow> abort + pool" where
  "handle_incoming_message b t source m p =
     (let (banned, p) = is_banned t source p
      in if banned then Inr p
         else case m of
                TlVote v sig \<Rightarrow> incoming_vote b t source v sig p
              | TlCertificate v sigs \<Rightarrow> incoming_certificate b t source v sigs p
              | TlOther \<Rightarrow> Inr p)"

definition handle_broadcast_vote :: "vote \<Rightarrow> pool \<Rightarrow> pool" where
  "handle_broadcast_vote v p = handle_our_vote v False False p"

definition handle_wait_for_parent :: "bus \<Rightarrow> request \<Rightarrow> pool \<Rightarrow> abort + pool" where
  "handle_wait_for_parent b r p =
     rbind (check (case rq_parent r of None \<Rightarrow> True | Some c \<Rightarrow> cid_slot c < cid_slot (rq_id r)))
       (\<lambda>_. rbind (maybe_resolve_request b r p)
          (\<lambda>(res, p). Inr (case res of
               Some x \<Rightarrow> publish (RequestResolved r x) p
             | None \<Rightarrow> p\<lparr>pl_requests := pl_requests p @ [r]\<rparr>)))"

datatype precheck_error = Slot_is_finalized | Slot_too_far | Duplicate_broadcast

definition precheck_candidate_broadcast ::
  "bus \<Rightarrow> nat \<Rightarrow> 256 word \<Rightarrow> bool \<Rightarrow> pool \<Rightarrow> (precheck_error + unit) \<times> pool" where
  "precheck_candidate_broadcast b slot broadcast_id signature_checked p =
     (if slot < pl_first_nonfinalized_slot p then (Inl Slot_is_finalized, p)
      else if pl_now p + max_leader_window_desync b * slots_per_leader_window b < slot
      then (Inl Slot_too_far, p)
      else case pl_seen_broadcasts p slot of
             Some seen \<Rightarrow> (if seen \<noteq> broadcast_id then Inl Duplicate_broadcast else Inr (), p)
           | None \<Rightarrow>
               (Inr (), if signature_checked
                        then p\<lparr>pl_seen_broadcasts := (pl_seen_broadcasts p)(slot \<mapsto> broadcast_id)\<rparr>
                        else p))"

definition handle_start :: "bus \<Rightarrow> pool \<Rightarrow> abort + pool" where
  "handle_start b p = advance_present b (p\<lparr>pl_is_started := True\<rparr>)"

text \<open>The messages that standstill resolution broadcasts for a slot.\<close>

definition standstill_messages :: "bus \<Rightarrow> nat \<Rightarrow> pool \<Rightarrow> abort + message list" where
  "standstill_messages b i p =
     rbind (get_slot_at b i p) (\<lambda>p.
     let s = slot_of b i p
     in rbind (vec_get (ss_votes s) (pv_idx (local_id b)))
          (\<lambda>t. votes_serialize_to t (ss_certs s) (bundle_serialize_to (ss_certs s) [])))"

subsection \<open>Start up\<close>

definition pool_init :: "bus \<Rightarrow> pool" where
  "pool_init b =
     \<lparr>pl_state = cs_init, pl_weight_threshold = required_weight b,
      pl_suppress_certificate_broadcast = True, pl_is_started = False, pl_now = 0,
      pl_skip_intervals = [], pl_first_nonannounced_window = bus_first_nonannounced_window b,
      pl_last_finalized_block = None, pl_last_final_cert = None, pl_first_nonfinalized_slot = 0,
      pl_bad_signature_bans = Map.empty, pl_requests = [], pl_seen_broadcasts = Map.empty,
      pl_saving = [], pl_signing = [], pl_published = []\<rparr>"

definition handle_bootstrap_certificate :: "bus \<Rightarrow> vote certificate \<Rightarrow> pool \<Rightarrow> abort + pool" where
  "handle_bootstrap_certificate b cert p =
     (let i = referenced_slot (ct_vote cert)
      in case pool_slot_at b i p of
           None \<Rightarrow> Inr p
         | Some p \<Rightarrow>
             (case ct_vote cert of
                VNotarize v \<Rightarrow> handle_saved_notar b i (downcast_with v cert) p
              | VSkip v \<Rightarrow> handle_saved_skip b i (downcast_with v cert) p
              | VFinalize v \<Rightarrow> handle_saved_final b i (downcast_with v cert) p))"

fun handle_bootstrap_certificates :: "bus \<Rightarrow> vote certificate list \<Rightarrow> pool \<Rightarrow> abort + pool" where
  "handle_bootstrap_certificates b [] p = Inr p"
| "handle_bootstrap_certificates b (c # cs) p =
     rbind (handle_bootstrap_certificate b c p) (handle_bootstrap_certificates b cs)"

fun handle_bootstrap_votes :: "bus \<Rightarrow> vote list \<Rightarrow> pool \<Rightarrow> pool" where
  "handle_bootstrap_votes b [] p = p"
| "handle_bootstrap_votes b (v # vs) p =
     handle_bootstrap_votes b vs
       (case pool_slot_at b (referenced_slot v) p of
          None \<Rightarrow> p
        | Some p \<Rightarrow> handle_our_vote v True True p)"

definition pool_start_up :: "bus \<Rightarrow> abort + pool" where
  "pool_start_up b =
     rbind (get_slot_at b 0 (pool_init b)) (\<lambda>p.
     let p = set_slot 0 ((slot_of b 0 p)\<lparr>ss_available_base := Some None\<rparr>) p
     in rbind (handle_bootstrap_certificates b (bootstrap_certificates b) p) (\<lambda>p.
     let p = p\<lparr>pl_suppress_certificate_broadcast := False\<rparr>
     in Inr (handle_bootstrap_votes b (bootstrap_votes b) p)))"

subsection \<open>The actor as a whole\<close>

text \<open>
  What the actor reacts to: the events of the bus and of the overlay, with the time of
  arrival, and the completion or failure of the \<^verbatim>\<open>k\<close>-th suspended task.
\<close>

datatype pool_input =
    Incoming_message nat nat message
  | Broadcast_vote vote
  | Wait_for_parent request
  | Precheck_broadcast nat "256 word" bool
  | Start
  | Vote_signed nat
  | Vote_sign_failed nat
  | Certificate_saved nat
  | Certificate_save_cancelled nat

definition remove_nth :: "nat \<Rightarrow> 'a list \<Rightarrow> 'a list" where
  "remove_nth k xs = take k xs @ drop (Suc k) xs"

fun pool_step :: "bus \<Rightarrow> pool_input \<Rightarrow> pool \<Rightarrow> abort + pool" where
  "pool_step b (Incoming_message t source m) p = handle_incoming_message b t source m p"
| "pool_step b (Broadcast_vote v) p = Inr (handle_broadcast_vote v p)"
| "pool_step b (Wait_for_parent r) p = handle_wait_for_parent b r p"
| "pool_step b (Precheck_broadcast slot ident checked) p =
     Inr (snd (precheck_candidate_broadcast b slot ident checked p))"
| "pool_step b Start p = handle_start b p"
| "pool_step b (Vote_signed k) p =
     (if k < length (pl_signing p)
      then our_vote_signed b (pl_signing p ! k) (p\<lparr>pl_signing := remove_nth k (pl_signing p)\<rparr>)
      else Inr p)"
| "pool_step b (Vote_sign_failed k) p = Inr (p\<lparr>pl_signing := remove_nth k (pl_signing p)\<rparr>)"
| "pool_step b (Certificate_saved k) p =
     (if k < length (pl_saving p)
      then handle_prospective_certificate b (pl_saving p ! k) (p\<lparr>pl_saving := remove_nth k (pl_saving p)\<rparr>)
      else Inr p)"
| "pool_step b (Certificate_save_cancelled k) p = Inr (p\<lparr>pl_saving := remove_nth k (pl_saving p)\<rparr>)"

fun pool_steps :: "bus \<Rightarrow> pool_input list \<Rightarrow> pool \<Rightarrow> abort + pool" where
  "pool_steps b [] p = Inr p"
| "pool_steps b (x # xs) p = rbind (pool_step b x p) (pool_steps b xs)"

definition pool_run :: "bus \<Rightarrow> pool_input list \<Rightarrow> abort + pool" where
  "pool_run b xs = rbind (pool_start_up b) (pool_steps b xs)"

end
