(* ===== verification/Simplex_Consensus.thy ===== *)
theory Simplex_Consensus
  imports Complex_Main Simplex_Pool
begin

text \<open>
  The voting actor of the Simplex consensus (\<^verbatim>\<open>simplex/consensus.cpp\<close>): it decides which votes
  the node casts.  The coroutine \<^verbatim>\<open>try_notarize\<close> is a task with a stage for each of its
  suspension points; it keeps a reference to its slot, which may be dropped from the state in
  the meantime.  Time is a rational number that comes with the inputs; an armed alarm is its
  deadline.  What the actor publishes is appended to \<^verbatim>\<open>cn_published\<close>.
\<close>

section \<open>State\<close>

record candidate =
  cd_id :: candidate_id
  cd_parent :: parent_id
  cd_leader :: nat
  cd_empty :: bool

record cons_slot =
  pending_block :: "candidate option"
  voted_notar :: "candidate_id option"
  notar_cert :: "candidate_id option"
  voted_skip :: bool
  voted_final :: bool

definition fresh_cons_slot :: cons_slot where
  "fresh_cons_slot =
     \<lparr>pending_block = None, voted_notar = None, notar_cert = None, voted_skip = False, voted_final = False\<rparr>"

record cons_params =
  first_block_timeout :: rat
  first_block_timeout_multiplier :: rat
  first_block_timeout_cap :: rat
  target_rate :: rat
  min_block_interval :: rat

datatype cons_event =
    BroadcastVote vote
  | StoreCandidate candidate
  | WaitForParent candidate
  | ResolveState parent_id
  | ValidationRequest candidate
  | CandidateMisbehavior nat misbehavior
  | OurLeaderWindowStarted parent_id nat nat

datatype stage = Awaits_parent | Awaits_state | Sleeps | Awaits_validation | Awaits_store

record notarize_task =
  nt_slot :: nat
  nt_stage :: stage

record consensus =
  cn_params :: cons_params
  cn_timeout_base :: rat
  cn_timeout_slot :: nat
  cn_first_block_timeout :: rat
  cn_previous_window_had_skip :: bool
  cn_state :: "cons_slot cstate"
  cn_current_window :: nat
  cn_alarm :: "rat option"
  cn_tasks :: "notarize_task list"
  cn_generations :: "(parent_id \<times> nat) list"
  cn_published :: "cons_event list"

abbreviation cslot :: "nat \<Rightarrow> consensus \<Rightarrow> cons_slot" where
  "cslot i c \<equiv> deref fresh_cons_slot i (cn_state c)"

definition set_cslot :: "nat \<Rightarrow> cons_slot \<Rightarrow> consensus \<Rightarrow> consensus" where
  "set_cslot i s c = c\<lparr>cn_state := assign i s (cn_state c)\<rparr>"

definition cslot_at :: "nat \<Rightarrow> consensus \<Rightarrow> consensus option" where
  "cslot_at i c = map_option (\<lambda>st. c\<lparr>cn_state := st\<rparr>) (slot_at fresh_cons_slot i (cn_state c))"

definition emit :: "cons_event \<Rightarrow> consensus \<Rightarrow> consensus" where
  "emit e c = c\<lparr>cn_published := cn_published c @ [e]\<rparr>"

section \<open>Voting\<close>

definition try_vote_final :: "nat \<Rightarrow> consensus \<Rightarrow> abort + consensus" where
  "try_vote_final i c =
     (let s = cslot i c
      in rbind (check (voted_notar s \<noteq> None \<or> notar_cert s \<noteq> None)) (\<lambda>_.
         if \<not> voted_skip s \<and> \<not> voted_final s \<and> voted_notar s = notar_cert s
         then (case voted_notar s of
                 None \<Rightarrow> Inl Null_deref
               | Some ident \<Rightarrow>
                   Inr (set_cslot i (s\<lparr>voted_final := True\<rparr>) (emit (BroadcastVote (Final ident)) c)))
         else Inr c))"

definition process_notarization_observed :: "bus \<Rightarrow> candidate_id \<Rightarrow> consensus \<Rightarrow> abort + consensus" where
  "process_notarization_observed b ident c =
     (case cslot_at (cid_slot ident) c of
        None \<Rightarrow> Inr c
      | Some c \<Rightarrow>
          (let c = (if cn_timeout_slot c \<le> cid_slot ident + 1
                    then let ts = (if (cid_slot ident + 1) mod slots_per_leader_window b = 0
                                   then cid_slot ident + 1 else cid_slot ident + 2)
                         in c\<lparr>cn_timeout_slot := ts,
                              cn_alarm := Some (cn_timeout_base c +
                                rat_of_nat (ts - cn_current_window c * slots_per_leader_window b) *
                                target_rate (cn_params c))\<rparr>
                    else c);
               c = set_cslot (cid_slot ident) ((cslot (cid_slot ident) c)\<lparr>notar_cert := Some ident\<rparr>) c
           in try_vote_final (cid_slot ident) c))"

text \<open>The coroutine \<^verbatim>\<open>try_notarize\<close>, from one suspension point to the next.\<close>

definition pending_of :: "nat \<Rightarrow> consensus \<Rightarrow> abort + candidate" where
  "pending_of i c = (case pending_block (cslot i c) of None \<Rightarrow> Inl Null_deref | Some x \<Rightarrow> Inr x)"

definition start_try_notarize :: "nat \<Rightarrow> consensus \<Rightarrow> abort + consensus" where
  "start_try_notarize i c =
     rbind (pending_of i c) (\<lambda>cand.
       let c = emit (WaitForParent cand) (emit (StoreCandidate cand) c)
       in Inr (c\<lparr>cn_tasks := cn_tasks c @ [\<lparr>nt_slot = i, nt_stage = Awaits_parent\<rparr>]\<rparr>))"

definition parent_waited :: "nat \<Rightarrow> misbehavior option \<Rightarrow> consensus \<Rightarrow> abort + consensus" where
  "parent_waited i maybe_misbehavior c =
     rbind (pending_of i c) (\<lambda>cand.
       case maybe_misbehavior of
         Some m \<Rightarrow> Inr (emit (CandidateMisbehavior (cd_leader cand) m) c)
       | None \<Rightarrow>
           let c = emit (ResolveState (cd_parent cand)) c
           in Inr (c\<lparr>cn_tasks := cn_tasks c @ [\<lparr>nt_slot = i, nt_stage = Awaits_state\<rparr>]\<rparr>))"

definition start_validation :: "nat \<Rightarrow> consensus \<Rightarrow> abort + consensus" where
  "start_validation i c =
     rbind (pending_of i c) (\<lambda>cand.
       let c = emit (ValidationRequest cand) c
       in Inr (c\<lparr>cn_tasks := cn_tasks c @ [\<lparr>nt_slot = i, nt_stage = Awaits_validation\<rparr>]\<rparr>))"

definition state_resolved :: "rat \<Rightarrow> nat \<Rightarrow> rat option \<Rightarrow> consensus \<Rightarrow> abort + consensus" where
  "state_resolved now i gen_utime_exact c =
     rbind (pending_of i c) (\<lambda>cand.
       case gen_utime_exact of
         Some t \<Rightarrow>
           if \<not> cd_empty cand \<and> \<not> t + min_block_interval (cn_params c) \<le> now
           then Inr (c\<lparr>cn_tasks := cn_tasks c @ [\<lparr>nt_slot = i, nt_stage = Sleeps\<rparr>]\<rparr>)
           else start_validation i c
       | None \<Rightarrow> start_validation i c)"

definition validated :: "nat \<Rightarrow> bool \<Rightarrow> consensus \<Rightarrow> consensus" where
  "validated i reject c =
     (if reject then c else c\<lparr>cn_tasks := cn_tasks c @ [\<lparr>nt_slot = i, nt_stage = Awaits_store\<rparr>]\<rparr>)"

definition candidate_stored :: "nat \<Rightarrow> consensus \<Rightarrow> abort + consensus" where
  "candidate_stored i c =
     rbind (pending_of i c) (\<lambda>cand.
       let c = set_cslot i ((cslot i c)\<lparr>voted_notar := Some (cd_id cand)\<rparr>) c;
           c = emit (BroadcastVote (Notar (cd_id cand))) c
       in try_vote_final i c)"

section \<open>Event handlers\<close>

definition handle_finalization_observed :: "candidate_id \<Rightarrow> consensus \<Rightarrow> consensus" where
  "handle_finalization_observed ident c = c\<lparr>cn_state := notify_finalized (cid_slot ident) (cn_state c)\<rparr>"

definition handle_leader_window_observed ::
  "bus \<Rightarrow> rat \<Rightarrow> nat \<Rightarrow> parent_id \<Rightarrow> consensus \<Rightarrow> consensus" where
  "handle_leader_window_observed b now start_slot base c =
     (let w = slots_per_leader_window b; ps = cn_params c;
          c = c\<lparr>cn_current_window := start_slot div w\<rparr>;
          c = c\<lparr>cn_first_block_timeout :=
                  if cn_previous_window_had_skip c
                  then min (cn_first_block_timeout c * first_block_timeout_multiplier ps) (first_block_timeout_cap ps)
                  else first_block_timeout ps\<rparr>;
          c = (if start_slot mod w = 0
               then let c = c\<lparr>cn_previous_window_had_skip := False\<rparr>
                    in if expected_collator_for b start_slot = pv_idx (local_id b)
                       then (emit (ResolveState base) c)\<lparr>cn_generations := cn_generations c @ [(base, start_slot)]\<rparr>
                       else c
               else c)
      in if cn_timeout_slot c \<le> start_slot
         then c\<lparr>cn_timeout_slot := start_slot + 1,
                cn_timeout_base := now + cn_first_block_timeout c,
                cn_alarm := Some (now + cn_first_block_timeout c + target_rate ps)\<rparr>
         else c)"

text \<open>The base of a window we lead is resolved; the window may be over by then.\<close>

definition generation_resolved :: "bus \<Rightarrow> parent_id \<Rightarrow> nat \<Rightarrow> consensus \<Rightarrow> consensus" where
  "generation_resolved b base start_slot c =
     (if cn_current_window c \<noteq> start_slot div slots_per_leader_window b then c
      else emit (OurLeaderWindowStarted base start_slot (start_slot + slots_per_leader_window b)) c)"

fun alarm_skips :: "nat list \<Rightarrow> consensus \<Rightarrow> consensus" where
  "alarm_skips [] c = c"
| "alarm_skips (i # is) c =
     alarm_skips is
       (case cslot_at i c of
          None \<Rightarrow> c
        | Some c \<Rightarrow>
            if voted_final (cslot i c) then c
            else (set_cslot i ((cslot i c)\<lparr>voted_skip := True\<rparr>) (emit (BroadcastVote (Skip i)) c))
                   \<lparr>cn_previous_window_had_skip := True\<rparr>)"

definition alarm :: "bus \<Rightarrow> consensus \<Rightarrow> consensus" where
  "alarm b c =
     (let range_start = cn_timeout_slot c - 1;
          window_start = range_start - range_start mod slots_per_leader_window b;
          window_end = window_start + slots_per_leader_window b
      in (alarm_skips [range_start..<window_end] c)\<lparr>cn_timeout_slot := window_end\<rparr>)"

definition handle_candidate_received :: "bus \<Rightarrow> candidate \<Rightarrow> consensus \<Rightarrow> abort + consensus" where
  "handle_candidate_received b cand c =
     (let i = cid_slot (cd_id cand);
          too_new = (cn_current_window c + max_leader_window_desync b + 1) * slots_per_leader_window b
      in if too_new \<le> i then Inr c
         else case cslot_at i c of
                None \<Rightarrow> Inr c
              | Some c \<Rightarrow>
                  if voted_notar (cslot i c) \<noteq> None then Inr c
                  else if (case cd_parent cand of None \<Rightarrow> False | Some par \<Rightarrow> i \<le> cid_slot par) then Inr c
                  else if pending_block (cslot i c) \<noteq> None then Inr c
                  else start_try_notarize i (set_cslot i ((cslot i c)\<lparr>pending_block := Some cand\<rparr>) c))"

section \<open>Start up\<close>

definition cons_init :: "cons_params \<Rightarrow> consensus" where
  "cons_init ps =
     \<lparr>cn_params = ps, cn_timeout_base = 0, cn_timeout_slot = 0,
      cn_first_block_timeout = first_block_timeout ps, cn_previous_window_had_skip = False,
      cn_state = cs_init, cn_current_window = 0, cn_alarm = None, cn_tasks = [],
      cn_generations = [], cn_published = []\<rparr>"

text \<open>A vote of the database; a vote that contradicts the earlier ones is dropped.\<close>

fun restore_vote :: "vote \<Rightarrow> cons_slot \<Rightarrow> cons_slot" where
  "restore_vote (VNotarize v) s =
     (if voted_notar s \<noteq> None \<and> voted_notar s \<noteq> Some (nv_id v) then s
      else s\<lparr>voted_notar := Some (nv_id v)\<rparr>)"
| "restore_vote (VFinalize v) s =
     (if voted_skip s \<or> voted_notar s \<noteq> None \<and> voted_notar s \<noteq> Some (fv_id v) then s
      else s\<lparr>voted_final := True\<rparr>)"
| "restore_vote (VSkip v) s = (if voted_final s then s else s\<lparr>voted_skip := True\<rparr>)"

fun restore_votes :: "vote list \<Rightarrow> consensus \<Rightarrow> consensus" where
  "restore_votes [] c = c"
| "restore_votes (v # vs) c =
     restore_votes vs
       (case cslot_at (referenced_slot v) c of
          None \<Rightarrow> c
        | Some c \<Rightarrow> set_cslot (referenced_slot v) (restore_vote v (cslot (referenced_slot v) c)) c)"

fun start_up_skips :: "nat list \<Rightarrow> consensus \<Rightarrow> consensus" where
  "start_up_skips [] c = c"
| "start_up_skips (i # is) c =
     start_up_skips is
       (case cslot_at i c of
          None \<Rightarrow> c
        | Some c \<Rightarrow>
            if voted_final (cslot i c) then c
            else emit (BroadcastVote (Skip i)) (set_cslot i ((cslot i c)\<lparr>voted_skip := True\<rparr>) c))"

definition cons_start_up :: "bus \<Rightarrow> cons_params \<Rightarrow> consensus" where
  "cons_start_up b ps =
     (let c = restore_votes (bootstrap_votes b) (cons_init ps);
          window = bus_first_nonannounced_window b
      in if window = 0 then c
         else start_up_skips
                [(window - 1) * slots_per_leader_window b ..< window * slots_per_leader_window b] c)"

section \<open>The actor as a whole\<close>

datatype cons_input =
    Finalization_observed candidate_id
  | Notarization_observed candidate_id
  | Leader_window_observed rat nat parent_id
  | Alarm rat
  | Candidate_received candidate
  | Params_updated cons_params
  | Parent_waited nat "misbehavior option"
  | State_resolved rat nat "rat option"
  | Woken nat
  | Validated nat bool
  | Candidate_stored nat
  | Task_failed nat
  | Generation_resolved nat
  | Generation_failed nat

text \<open>The task that waits in the given stage for the slot is taken out; without one nothing happens.\<close>

definition resume :: "nat \<Rightarrow> stage \<Rightarrow> (consensus \<Rightarrow> abort + consensus) \<Rightarrow> consensus \<Rightarrow> abort + consensus" where
  "resume i st f c =
     (if \<lparr>nt_slot = i, nt_stage = st\<rparr> \<in> set (cn_tasks c)
      then f (c\<lparr>cn_tasks := remove1 \<lparr>nt_slot = i, nt_stage = st\<rparr> (cn_tasks c)\<rparr>)
      else Inr c)"

fun cons_step :: "bus \<Rightarrow> cons_input \<Rightarrow> consensus \<Rightarrow> abort + consensus" where
  "cons_step b (Finalization_observed ident) c = Inr (handle_finalization_observed ident c)"
| "cons_step b (Notarization_observed ident) c = process_notarization_observed b ident c"
| "cons_step b (Leader_window_observed now slot base) c =
     Inr (handle_leader_window_observed b now slot base c)"
| "cons_step b (Alarm now) c =
     (case cn_alarm c of
        Some t \<Rightarrow> Inr (if t \<le> now then alarm b (c\<lparr>cn_alarm := None\<rparr>) else c)
      | None \<Rightarrow> Inr c)"
| "cons_step b (Candidate_received cand) c = handle_candidate_received b cand c"
| "cons_step b (Params_updated ps) c = Inr (c\<lparr>cn_params := ps\<rparr>)"
| "cons_step b (Parent_waited i m) c = resume i Awaits_parent (parent_waited i m) c"
| "cons_step b (State_resolved now i t) c = resume i Awaits_state (state_resolved now i t) c"
| "cons_step b (Woken i) c = resume i Sleeps (start_validation i) c"
| "cons_step b (Validated i reject) c = resume i Awaits_validation (\<lambda>c. Inr (validated i reject c)) c"
| "cons_step b (Candidate_stored i) c = resume i Awaits_store (candidate_stored i) c"
| "cons_step b (Task_failed i) c = Inr (c\<lparr>cn_tasks := filter (\<lambda>t. nt_slot t \<noteq> i) (cn_tasks c)\<rparr>)"
| "cons_step b (Generation_resolved k) c =
     (if k < length (cn_generations c)
      then Inr (generation_resolved b (fst (cn_generations c ! k)) (snd (cn_generations c ! k))
             (c\<lparr>cn_generations := remove_nth k (cn_generations c)\<rparr>))
      else Inr c)"
| "cons_step b (Generation_failed k) c = Inr (c\<lparr>cn_generations := remove_nth k (cn_generations c)\<rparr>)"

end
