(* ===== verification/Simplex_Intervals.thy ===== *)
theory Simplex_Intervals
  imports Simplex_Pool
begin

text \<open>
  The combinatorics behind the bookkeeping of the pool, over a predicate \<^verbatim>\<open>sk\<close> (the slot is
  skipped), a predicate \<^verbatim>\<open>nt\<close> (the slot is notarised) and a predicate \<^verbatim>\<open>hb\<close> (the slot has an
  available base): what \<^verbatim>\<open>skip_intervals_\<close> contains, that its \<^verbatim>\<open>lower_bound\<close> finds the next
  slot that is not skipped, and that this slot always has a base to build on.
\<close>

definition next_unskipped :: "(nat \<Rightarrow> bool) \<Rightarrow> nat \<Rightarrow> nat \<Rightarrow> bool" where
  "next_unskipped sk k j \<longleftrightarrow> k \<le> j \<and> \<not> sk j \<and> (\<forall>m. k \<le> m \<and> m < j \<longrightarrow> sk m)"

lemma next_unskipped_unique: "next_unskipped sk k i \<Longrightarrow> next_unskipped sk k j \<Longrightarrow> i = j"
  unfolding next_unskipped_def by (metis linorder_neqE_nat)

lemma next_unskipped_self: "next_unskipped sk k k \<longleftrightarrow> \<not> sk k"
  by (auto simp: next_unskipped_def)

lemma next_unskipped_step: "sk k \<Longrightarrow> next_unskipped sk k j \<longleftrightarrow> next_unskipped sk (Suc k) j"
proof
  assume "sk k" "next_unskipped sk k j"
  moreover from this have "k \<noteq> j" by (auto simp: next_unskipped_def)
  ultimately show "next_unskipped sk (Suc k) j" by (auto simp: next_unskipped_def)
next
  assume k: "sk k" and nx: "next_unskipped sk (Suc k) j"
  have "sk m" if "k \<le> m" "m < j" for m
    using nx k that by (cases "m = k") (auto simp: next_unskipped_def)
  then show "next_unskipped sk k j" using nx by (simp add: next_unskipped_def)
qed

text \<open>Marking slot \<^verbatim>\<open>i\<close> as skipped moves the next slot of exactly those whose next slot was \<^verbatim>\<open>i\<close>.\<close>

lemma next_unskipped_add:
  assumes "next_unskipped (sk(i := True)) k j"
  shows "next_unskipped sk k j \<or> next_unskipped sk k i \<and> next_unskipped sk (Suc i) j \<or> sk i"
proof -
  have j: "k \<le> j" "j \<noteq> i" "\<not> sk j" and below: "\<And>m. k \<le> m \<Longrightarrow> m < j \<Longrightarrow> m = i \<or> sk m"
    using assms by (auto simp: next_unskipped_def split: if_splits)
  show ?thesis
  proof (cases "k \<le> i \<and> i < j")
    case True
    have "sk m" if "Suc i \<le> m" "m < j" for m using below [of m] that True by simp
    then have "next_unskipped sk (Suc i) j" using True j by (simp add: next_unskipped_def)
    moreover have "sk m" if "k \<le> m" "m < i" for m using below [of m] that True by simp
    then have "next_unskipped sk k i \<or> sk i" using True by (simp add: next_unskipped_def)
    ultimately show ?thesis by blast
  next
    case False
    then have "sk m" if "k \<le> m" "m < j" for m using below [of m] that by auto
    then have "next_unskipped sk k j" using j by (simp add: next_unskipped_def)
    then show ?thesis by blast
  qed
qed

definition skip_ok :: "nat \<Rightarrow> (nat \<Rightarrow> bool) \<Rightarrow> nat list \<Rightarrow> bool" where
  "skip_ok F sk ivs \<longleftrightarrow>
     sorted ivs \<and> distinct ivs \<and>
     (\<forall>j. j \<in> set ivs \<longleftrightarrow> F < j \<and> sk (j - 1) \<and> \<not> sk j) \<and>
     (\<forall>k\<ge>F. sk k \<longrightarrow> (\<exists>j\<in>set ivs. k < j))"

lemma skip_ok_empty: "\<forall>i\<ge>F. \<not> sk i \<Longrightarrow> skip_ok F sk []"
  unfolding skip_ok_def by (auto dest: spec [of _ "_ - Suc 0"])

lemma skip_ok_mem: "skip_ok F sk ivs \<Longrightarrow> j \<in> set ivs \<longleftrightarrow> F < j \<and> sk (j - 1) \<and> \<not> sk j"
  by (simp add: skip_ok_def)

lemma skip_ok_end: "skip_ok F sk ivs \<Longrightarrow> F \<le> k \<Longrightarrow> sk k \<Longrightarrow> \<exists>j\<in>set ivs. k < j"
  by (simp add: skip_ok_def)

lemma skip_ok_cong: "(\<And>i. F \<le> i \<Longrightarrow> sk i = sk' i) \<Longrightarrow> skip_ok F sk ivs \<longleftrightarrow> skip_ok F sk' ivs"
proof -
  assume eq: "\<And>i. F \<le> i \<Longrightarrow> sk i = sk' i"
  have "F < j \<and> sk (j - 1) \<and> \<not> sk j \<longleftrightarrow> F < j \<and> sk' (j - 1) \<and> \<not> sk' j" for j
    using eq [of j] eq [of "j - 1"] by auto
  then show ?thesis using eq by (simp add: skip_ok_def)
qed

lemma lower_bound_least:
  assumes "sorted xs" "x \<in> set xs" "k \<le> x"
  obtains j where "lower_bound k xs = Some j" "j \<in> set xs" "k \<le> j" "\<And>m. m \<in> set xs \<Longrightarrow> k \<le> m \<Longrightarrow> j \<le> m"
proof -
  have "\<exists>j. lower_bound k xs = Some j \<and> j \<in> set xs \<and> k \<le> j \<and> (\<forall>m\<in>set xs. k \<le> m \<longrightarrow> j \<le> m)"
    using assms by (induction xs) (auto simp: lower_bound_def)
  then show thesis using that by blast
qed

text \<open>A skipped slot is followed by its interval's end.\<close>

lemma skip_ok_next:
  assumes ok: "skip_ok F sk ivs" and i: "F \<le> i" "sk i"
  shows "\<exists>j. lower_bound i ivs = Some j \<and> next_unskipped sk i j"
proof -
  obtain x where "x \<in> set ivs" "i < x" using skip_ok_end [OF ok i] by blast
  then obtain j where j: "lower_bound i ivs = Some j" "j \<in> set ivs" "i \<le> j"
      "\<And>m. m \<in> set ivs \<Longrightarrow> i \<le> m \<Longrightarrow> j \<le> m"
    using lower_bound_least [of ivs x i] ok by (auto simp: skip_ok_def)
  have "sk m" if "i \<le> m" "m < j" for m
    using that
  proof (induction m rule: dec_induct)
    case (step m)
    then have "Suc m \<notin> set ivs" using j(4) [of "Suc m"] by auto
    then show ?case using step i(1) by (auto simp: skip_ok_mem [OF ok])
  qed (rule i(2))
  then have "next_unskipped sk i j" using j(2,3) by (simp add: next_unskipped_def skip_ok_mem [OF ok])
  then show ?thesis using j(1) by blast
qed

lemma skip_ok_exists: "skip_ok F sk ivs \<Longrightarrow> F \<le> i \<Longrightarrow> \<exists>j. next_unskipped sk i j"
  using skip_ok_next [of F sk ivs i] next_unskipped_self by blast

text \<open>The update of the skip certificate handler.\<close>

lemma skip_ok_add:
  assumes ok: "skip_ok F sk ivs" and i: "F \<le> i" "\<not> sk i"
  shows "skip_ok F (sk(i := True))
           (if sk (Suc i) then removeAll i ivs else insort_insert (Suc i) (removeAll i ivs))"
proof -
  let ?ivs = "if sk (Suc i) then removeAll i ivs else insort_insert (Suc i) (removeAll i ivs)"
  have set: "set ?ivs = set ivs - {i} \<union> (if sk (Suc i) then {} else {Suc i})"
    by (auto simp: set_insort_insert)
  have "sorted ?ivs" "distinct ?ivs"
    using ok by (auto simp: skip_ok_def sorted_insort_insert distinct_insort_insert removeAll_filter_not_eq
        sorted_filter [of "\<lambda>x. x", simplified])
  moreover have "j \<in> set ?ivs \<longleftrightarrow> F < j \<and> (sk(i := True)) (j - 1) \<and> \<not> (sk(i := True)) j" for j
    using i unfolding set by (cases j) (auto simp: skip_ok_mem [OF ok])
  moreover have "\<exists>j\<in>set ?ivs. k < j" if k: "F \<le> k" "(sk(i := True)) k" for k
  proof -
    have beyond: "\<exists>j\<in>set ?ivs. i < j"
    proof (cases "sk (Suc i)")
      case True
      then obtain j where "j \<in> set ivs" "Suc i < j" using skip_ok_end [OF ok, of "Suc i"] i by auto
      then have "j \<in> set ?ivs \<and> i < j" unfolding set by simp
      then show ?thesis by blast
    next
      case False
      then have "Suc i \<in> set ?ivs" unfolding set by simp
      then show ?thesis by blast
    qed
    show ?thesis
    proof (cases "k = i")
      case False
      then obtain j where j: "j \<in> set ivs" "k < j" using skip_ok_end [OF ok, of k] k by auto
      show ?thesis
      proof (cases "j = i")
        case True
        then show ?thesis using beyond j(2) by (meson less_trans)
      next
        case False
        then have "j \<in> set ?ivs" using j unfolding set by simp
        then show ?thesis using j(2) by blast
      qed
    qed (use beyond in simp)
  qed
  ultimately show ?thesis unfolding skip_ok_def by blast
qed

text \<open>Finalisation of slot \<^verbatim>\<open>s\<close> drops the entries up to it.\<close>

lemma set_dropWhile_sorted: "sorted xs \<Longrightarrow> set (dropWhile (\<lambda>x. x \<le> s) xs) = {x \<in> set xs. s < x}"
  for s :: nat
  by (induction xs) auto

lemma skip_ok_drop:
  assumes ok: "skip_ok F sk ivs" and s: "F \<le> s" "\<not> sk s"
  shows "skip_ok (Suc s) sk (dropWhile (\<lambda>x. x \<le> s) ivs)"
proof -
  have set: "set (dropWhile (\<lambda>x. x \<le> s) ivs) = {x \<in> set ivs. s < x}"
    using ok by (intro set_dropWhile_sorted) (simp add: skip_ok_def)
  have "j \<in> set ivs \<and> s < j \<longleftrightarrow> Suc s < j \<and> sk (j - 1) \<and> \<not> sk j" for j
    using s by (cases "j = Suc s") (auto simp: skip_ok_mem [OF ok])
  moreover have "\<exists>j\<in>set (dropWhile (\<lambda>x. x \<le> s) ivs). k < j" if k: "Suc s \<le> k" "sk k" for k
  proof -
    have "F \<le> k" using s k by simp
    then obtain j where "j \<in> set ivs" "k < j" using skip_ok_end [OF ok _ k(2)] by blast
    then show ?thesis using k unfolding set by auto
  qed
  moreover have "sorted (dropWhile (\<lambda>x. x \<le> s) ivs)" "distinct (dropWhile (\<lambda>x. x \<le> s) ivs)"
    using ok by (auto simp: skip_ok_def sorted_dropWhile)
  ultimately show ?thesis unfolding skip_ok_def set by auto
qed

section \<open>Available bases\<close>

definition bases_ok :: "nat \<Rightarrow> (nat \<Rightarrow> bool) \<Rightarrow> (nat \<Rightarrow> bool) \<Rightarrow> (nat \<Rightarrow> bool) \<Rightarrow> bool" where
  "bases_ok F sk nt hb \<longleftrightarrow>
     (\<forall>j. next_unskipped sk F j \<longrightarrow> hb j) \<and>
     (\<forall>s\<ge>F. nt s \<longrightarrow> (\<forall>j. next_unskipped sk (Suc s) j \<longrightarrow> hb j))"

lemma bases_okI:
  assumes "\<And>j. next_unskipped sk F j \<Longrightarrow> hb j"
    and "\<And>s j. F \<le> s \<Longrightarrow> nt s \<Longrightarrow> next_unskipped sk (Suc s) j \<Longrightarrow> hb j"
  shows "bases_ok F sk nt hb"
  using assms by (simp add: bases_ok_def)

lemma bases_okD:
  assumes "bases_ok F sk nt hb"
  shows "next_unskipped sk F j \<Longrightarrow> hb j"
    and "F \<le> s \<Longrightarrow> nt s \<Longrightarrow> next_unskipped sk (Suc s) j \<Longrightarrow> hb j"
  using assms by (simp_all add: bases_ok_def)

lemma next_unskipped_cong:
  "(\<And>i. k \<le> i \<Longrightarrow> sk i = sk' i) \<Longrightarrow> next_unskipped sk k j \<longleftrightarrow> next_unskipped sk' k j"
  by (auto simp: next_unskipped_def)

lemma bases_ok_mono:
  assumes "bases_ok F sk nt hb" "\<And>i. F \<le> i \<Longrightarrow> sk i = sk' i" "\<And>i. F \<le> i \<Longrightarrow> nt i = nt' i"
    "\<And>i. F \<le> i \<Longrightarrow> hb i \<Longrightarrow> hb' i"
  shows "bases_ok F sk' nt' hb'"
proof (rule bases_okI)
  have eq: "next_unskipped sk k j \<longleftrightarrow> next_unskipped sk' k j" if "F \<le> k" for k j
    using assms(2) that by (intro next_unskipped_cong) auto
  have le: "F \<le> j" if "next_unskipped sk' k j" "F \<le> k" for k j
    using that by (simp add: next_unskipped_def)
  fix j
  show "hb' j" if "next_unskipped sk' F j"
    using that bases_okD(1) [OF assms(1), of j] eq [of F j] le assms(4) by simp
  show "hb' j" if "F \<le> s" "nt' s" "next_unskipped sk' (Suc s) j" for s
    using that bases_okD(2) [OF assms(1), of s j] eq [of "Suc s" j] le [of "Suc s" j] assms(3) [of s] assms(4)
    by simp
qed

lemma bases_ok_notar:
  assumes "bases_ok F sk nt hb" "next_unskipped sk (Suc s) j"
  shows "bases_ok F sk (nt(s := True)) (hb(j := True))"
proof (rule bases_okI)
  fix k
  show "(hb(j := True)) k" if "next_unskipped sk F k"
    using bases_okD(1) [OF assms(1) that] by simp
  show "(hb(j := True)) k" if "F \<le> s'" "(nt(s := True)) s'" "next_unskipped sk (Suc s') k" for s'
    using bases_okD(2) [OF assms(1) that(1) _ that(3)] that next_unskipped_unique [OF assms(2), of k]
    by (cases "s' = s") auto
qed

lemma bases_ok_skip:
  assumes ok: "bases_ok F sk nt hb" and i: "F \<le> i" "\<not> sk i" and j: "next_unskipped sk (Suc i) j"
    and hb': "hb' j \<longleftrightarrow> hb j \<or> hb i" "\<And>k. k \<noteq> j \<Longrightarrow> hb' k = hb k"
  shows "bases_ok F (sk(i := True)) nt hb'"
proof -
  have step: "hb' m" if km: "next_unskipped (sk(i := True)) k m" and hb: "\<And>x. next_unskipped sk k x \<Longrightarrow> hb x" for k m
  proof -
    consider "next_unskipped sk k m" | "next_unskipped sk k i" "next_unskipped sk (Suc i) m"
      using next_unskipped_add [OF km] i(2) by blast
    then show ?thesis
    proof cases
      case 1
      then show ?thesis using hb [of m] hb' by (cases "m = j") auto
    next
      case 2
      then show ?thesis using hb [of i] hb' next_unskipped_unique [OF j 2(2)] by simp
    qed
  qed
  show ?thesis
    by (rule bases_okI) (blast intro: step bases_okD [OF ok])+
qed

lemma bases_ok_final:
  assumes "bases_ok F sk nt hb" "F \<le> s" "nt s"
  shows "bases_ok (Suc s) sk nt hb"
  using assms(2,3) by (auto intro!: bases_okI intro: bases_okD(2) [OF assms(1)] dest: Suc_leD le_trans)

text \<open>When all slots before an unskipped one are notarised or skipped, it has a base.\<close>

lemma bases_ok_present:
  assumes ok: "bases_ok F sk nt hb" and n: "F \<le> n" "\<not> sk n" and passed: "\<And>i. F \<le> i \<Longrightarrow> i < n \<Longrightarrow> nt i \<or> sk i"
  shows "hb n"
proof (cases "\<exists>s. F \<le> s \<and> s < n \<and> nt s")
  case False
  then have "next_unskipped sk F n" using n passed by (auto simp: next_unskipped_def)
  then show ?thesis using ok by (simp add: bases_ok_def)
next
  case True
  define s where "s = Max {s. F \<le> s \<and> s < n \<and> nt s}"
  have fin: "finite {s. F \<le> s \<and> s < n \<and> nt s}" by simp
  have "{s. F \<le> s \<and> s < n \<and> nt s} \<noteq> {}" using True by blast
  then have "s \<in> {s. F \<le> s \<and> s < n \<and> nt s}" unfolding s_def by (rule Max_in [OF fin])
  then have s: "F \<le> s" "s < n" "nt s" by auto
  have "sk m" if "Suc s \<le> m" "m < n" for m
  proof (rule ccontr)
    assume "\<not> sk m"
    then have "m \<in> {s. F \<le> s \<and> s < n \<and> nt s}" using passed [of m] that s by auto
    then have "m \<le> s" unfolding s_def using fin by (rule Max_ge [rotated])
    then show False using that by simp
  qed
  then have "next_unskipped sk (Suc s) n" using n s by (auto simp: next_unskipped_def)
  then show ?thesis using ok s by (simp add: bases_ok_def)
qed

end
