(* ===== verification/Simplex_Slot_Inv.thy ===== *)
theory Simplex_Slot_Inv
  imports Simplex_Intervals
begin

text \<open>
  The invariant of a single slot of the pool, relative to the set \<^verbatim>\<open>K\<close> of votes that were
  really signed: the votes recorded for a validator are votes of that validator, do not
  contradict each other, and carry a proof of the right kind; the weight counters add up to
  the weight of the validators whose signed votes were applied; certificates are backed by
  signed votes; an available base is notarised and all slots in between are skipped.
\<close>

section \<open>Signed votes\<close>

type_synonym votes = "(nat \<times> vote) set"

definition backers :: "votes \<Rightarrow> vote \<Rightarrow> nat set" where
  "backers K v = {j. (j, v) \<in> K}"

definition threshold :: "bus \<Rightarrow> nat" where
  "threshold b = total_nat b * 2 div 3 + 1"

definition quorum :: "bus \<Rightarrow> votes \<Rightarrow> vote \<Rightarrow> bool" where
  "quorum b K v \<longleftrightarrow> threshold b \<le> weight_of b (backers K v)"

definition cert_good :: "bus \<Rightarrow> votes \<Rightarrow> vote \<Rightarrow> (nat \<times> signature) list \<Rightarrow> bool" where
  "cert_good b K v sigs \<longleftrightarrow> cert_ok b v sigs \<and> signers sigs \<subseteq> backers K v"

lemma cert_good_quorum: "cert_good b K v sigs \<Longrightarrow> quorum b K v"
  using weight_of_mono [of "signers sigs" "backers K v" b]
  by (auto simp: cert_good_def cert_ok_def quorum_def threshold_def)

lemma backers_mono: "K \<subseteq> K' \<Longrightarrow> backers K v \<subseteq> backers K' v"
  by (auto simp: backers_def)

lemma quorum_mono: "quorum b K v \<Longrightarrow> K \<subseteq> K' \<Longrightarrow> quorum b K' v"
  unfolding quorum_def by (meson backers_mono weight_of_mono le_trans)

lemma cert_good_mono: "cert_good b K v sigs \<Longrightarrow> K \<subseteq> K' \<Longrightarrow> cert_good b K' v sigs"
  by (auto simp: cert_good_def backers_def)

text \<open>Two votes of the same validator that contradict each other.\<close>

fun conflicting :: "vote \<Rightarrow> vote \<Rightarrow> bool" where
  "conflicting (VNotarize v) (VNotarize w) \<longleftrightarrow> cid_slot (nv_id v) = cid_slot (nv_id w) \<and> v \<noteq> w"
| "conflicting (VFinalize v) (VFinalize w) \<longleftrightarrow> cid_slot (fv_id v) = cid_slot (fv_id w) \<and> v \<noteq> w"
| "conflicting (VNotarize v) (VFinalize w) \<longleftrightarrow> cid_slot (nv_id v) = cid_slot (fv_id w) \<and> nv_id v \<noteq> fv_id w"
| "conflicting (VFinalize w) (VNotarize v) \<longleftrightarrow> cid_slot (nv_id v) = cid_slot (fv_id w) \<and> nv_id v \<noteq> fv_id w"
| "conflicting (VSkip v) (VFinalize w) \<longleftrightarrow> sv_slot v = cid_slot (fv_id w)"
| "conflicting (VFinalize w) (VSkip v) \<longleftrightarrow> sv_slot v = cid_slot (fv_id w)"
| "conflicting _ _ \<longleftrightarrow> False"

section \<open>Votes of a validator\<close>

definition proven_ok ::
  "bus \<Rightarrow> votes \<Rightarrow> nat \<Rightarrow> ('t \<Rightarrow> vote) \<Rightarrow> 't cert_and_flag \<Rightarrow> nat \<Rightarrow> 't proven \<Rightarrow> bool" where
  "proven_ok b K i up f j p \<longleftrightarrow>
     referenced_slot (up (pr_vote p)) = i \<and> (j, up (pr_vote p)) \<in> K \<and>
     (case pr_proof p of
        PSigned s \<Rightarrow> sg_validator s = j \<and> sg_vote s = pr_vote p \<and>
                     check_signature b j (up (pr_vote p)) (sg_signature s)
      | PCert c \<Rightarrow> \<not> flag_needs f)"

definition voter_ok :: "bus \<Rightarrow> votes \<Rightarrow> nat \<Rightarrow> certificate_bundle \<Rightarrow> nat \<Rightarrow> tsentrizbirkom \<Rightarrow> bool" where
  "voter_ok b K i cb j t \<longleftrightarrow>
     (\<forall>p. tb_notarize t = Some p \<longrightarrow> proven_ok b K i VNotarize (cb_notar cb) j p) \<and>
     (\<forall>p. tb_skip t = Some p \<longrightarrow> proven_ok b K i VSkip (cb_skip cb) j p) \<and>
     (\<forall>p. tb_finalize t = Some p \<longrightarrow> proven_ok b K i VFinalize (cb_final cb) j p) \<and>
     check_invariants t = None"

lemma check_invariants_None_iff:
  "check_invariants t = None \<longleftrightarrow>
     (\<forall>n f. tb_notarize t = Some n \<longrightarrow> tb_finalize t = Some f \<longrightarrow> nv_id (pr_vote n) = fv_id (pr_vote f)) \<and>
     \<not> (tb_finalize t \<noteq> None \<and> tb_skip t \<noteq> None)"
  by (auto simp: check_invariants_def split: option.splits)

lemma voter_ok_no_votes [simp]: "voter_ok b K i cb j no_votes"
  by (simp add: voter_ok_def no_votes_def check_invariants_def)

text \<open>
  A vote is added, known already, or in conflict with a recorded vote; in the last two cases
  nothing changes, so an accepted vote is never replaced.
\<close>

lemma add_vote_notarize_cases:
  assumes t: "voter_ok b K i cb j t" and v: "proven_ok b K i VNotarize (cb_notar cb) j v"
  obtains (added) "tb_notarize t = None" "add_vote_notarize v t = (t\<lparr>tb_notarize := Some v\<rparr>, applied True)"
      "voter_ok b K i cb j (t\<lparr>tb_notarize := Some v\<rparr>)"
  | (known) n where "tb_notarize t = Some n" "pr_vote n = pr_vote v" "add_vote_notarize v t = (t, applied False)"
  | (conflict) m w where "add_vote_notarize v t = (t, misbehaved m)" "(j, w) \<in> K"
      "conflicting (VNotarize (pr_vote v)) w"
proof (cases "tb_notarize t")
  case (Some n)
  then have "(j, VNotarize (pr_vote n)) \<in> K" "cid_slot (nv_id (pr_vote n)) = cid_slot (nv_id (pr_vote v))"
    using t v by (auto simp: voter_ok_def proven_ok_def)
  with Some show thesis
    by (cases "pr_vote n = pr_vote v")
       (auto simp: add_vote_notarize_def intro: known conflict [of _ "VNotarize (pr_vote n)"])
next
  case None
  show thesis
  proof (cases "check_invariants (t\<lparr>tb_notarize := Some v\<rparr>)")
    case None': None
    then have "voter_ok b K i cb j (t\<lparr>tb_notarize := Some v\<rparr>)"
      using t v by (simp add: voter_ok_def)
    then show thesis using None None' by (intro added) (simp_all add: add_vote_notarize_def)
  next
    case (Some m)
    then obtain f where f: "tb_finalize t = Some f" "nv_id (pr_vote v) \<noteq> fv_id (pr_vote f)"
      using t by (auto simp: voter_ok_def check_invariants_def split: option.splits if_splits)
    then have "(j, VFinalize (pr_vote f)) \<in> K" "conflicting (VNotarize (pr_vote v)) (VFinalize (pr_vote f))"
      using t v by (auto simp: voter_ok_def proven_ok_def)
    moreover have "t\<lparr>tb_notarize := Some v, tb_notarize := None\<rparr> = t" using None by simp
    ultimately show thesis using None Some
      by (intro conflict [of m "VFinalize (pr_vote f)"]) (simp_all add: add_vote_notarize_def)
  qed
qed

lemma add_vote_skip_cases:
  assumes t: "voter_ok b K i cb j t" and v: "proven_ok b K i VSkip (cb_skip cb) j v"
  obtains (added) "tb_skip t = None" "add_vote_skip v t = (t\<lparr>tb_skip := Some v\<rparr>, applied True)"
      "voter_ok b K i cb j (t\<lparr>tb_skip := Some v\<rparr>)"
  | (known) n where "tb_skip t = Some n" "pr_vote n = pr_vote v" "add_vote_skip v t = (t, applied False)"
  | (conflict) m w where "add_vote_skip v t = (t, misbehaved m)" "(j, w) \<in> K"
      "conflicting (VSkip (pr_vote v)) w"
proof (cases "tb_skip t")
  case (Some n)
  then have "sv_slot (pr_vote n) = sv_slot (pr_vote v)"
    using t v by (auto simp: voter_ok_def proven_ok_def)
  then have "pr_vote n = pr_vote v" by (metis skip_vote.expand)
  with Some show thesis by (auto simp: add_vote_skip_def intro: known)
next
  case None
  show thesis
  proof (cases "check_invariants (t\<lparr>tb_skip := Some v\<rparr>)")
    case None': None
    then have "voter_ok b K i cb j (t\<lparr>tb_skip := Some v\<rparr>)"
      using t v by (simp add: voter_ok_def)
    then show thesis using None None' by (intro added) (simp_all add: add_vote_skip_def)
  next
    case (Some m)
    then obtain f where f: "tb_finalize t = Some f"
      using t by (auto simp: voter_ok_def check_invariants_def split: option.splits if_splits)
    then have "(j, VFinalize (pr_vote f)) \<in> K" "conflicting (VSkip (pr_vote v)) (VFinalize (pr_vote f))"
      using t v by (auto simp: voter_ok_def proven_ok_def)
    moreover have "t\<lparr>tb_skip := Some v, tb_skip := None\<rparr> = t" using None by simp
    ultimately show thesis using None Some
      by (intro conflict [of m "VFinalize (pr_vote f)"]) (simp_all add: add_vote_skip_def)
  qed
qed

lemma add_vote_finalize_cases:
  assumes t: "voter_ok b K i cb j t" and v: "proven_ok b K i VFinalize (cb_final cb) j v"
  obtains (added) "tb_finalize t = None" "add_vote_finalize v t = (t\<lparr>tb_finalize := Some v\<rparr>, applied True)"
      "voter_ok b K i cb j (t\<lparr>tb_finalize := Some v\<rparr>)"
  | (known) n where "tb_finalize t = Some n" "pr_vote n = pr_vote v" "add_vote_finalize v t = (t, applied False)"
  | (conflict) m w where "add_vote_finalize v t = (t, misbehaved m)" "(j, w) \<in> K"
      "conflicting (VFinalize (pr_vote v)) w"
proof (cases "tb_finalize t")
  case (Some n)
  then have "(j, VFinalize (pr_vote n)) \<in> K" "cid_slot (fv_id (pr_vote n)) = cid_slot (fv_id (pr_vote v))"
    using t v by (auto simp: voter_ok_def proven_ok_def)
  with Some show thesis
    by (cases "pr_vote n = pr_vote v")
       (auto simp: add_vote_finalize_def intro: known conflict [of _ "VFinalize (pr_vote n)"])
next
  case None
  show thesis
  proof (cases "check_invariants (t\<lparr>tb_finalize := Some v\<rparr>)")
    case None': None
    then have "voter_ok b K i cb j (t\<lparr>tb_finalize := Some v\<rparr>)"
      using t v by (simp add: voter_ok_def)
    then show thesis using None None' by (intro added) (simp_all add: add_vote_finalize_def)
  next
    case (Some m)
    then consider (n) n where "tb_notarize t = Some n" "nv_id (pr_vote n) \<noteq> fv_id (pr_vote v)"
      | (s) s where "tb_skip t = Some s"
      by (auto simp: check_invariants_def split: option.splits if_splits)
    then obtain w where w: "(j, w) \<in> K" "conflicting (VFinalize (pr_vote v)) w"
    proof cases
      case n
      then show thesis using t v
        by (intro that [of "VNotarize (pr_vote n)"]) (auto simp: voter_ok_def proven_ok_def)
    next
      case s
      then show thesis using t v
        by (intro that [of "VSkip (pr_vote s)"]) (auto simp: voter_ok_def proven_ok_def)
    qed
    have "t\<lparr>tb_finalize := Some v, tb_finalize := None\<rparr> = t" using None by simp
    then show thesis using None Some w
      by (intro conflict [of m w]) (simp_all add: add_vote_finalize_def)
  qed
qed

section \<open>The invariant of a slot\<close>

text \<open>The validators whose signed vote \<^verbatim>\<open>v\<close> was applied; votes learnt from a certificate do not count.\<close>

definition signed_set :: "(tsentrizbirkom \<Rightarrow> 't proven option) \<Rightarrow> 't \<Rightarrow> tsentrizbirkom list \<Rightarrow> nat set" where
  "signed_set sel v ts =
     {j. j < length ts \<and> (\<exists>p sg. sel (ts ! j) = Some p \<and> pr_proof p = PSigned sg \<and> pr_vote p = v)}"

definition weight_at :: "(candidate_id \<rightharpoonup> u64) \<Rightarrow> candidate_id \<Rightarrow> nat" where
  "weight_at m c = (case m c of None \<Rightarrow> 0 | Some w \<Rightarrow> unat w)"

definition weights_ok :: "bus \<Rightarrow> nat \<Rightarrow> slot_state \<Rightarrow> bool" where
  "weights_ok b i s \<longleftrightarrow>
     (\<forall>c. weight_at (ss_notarize_weight s) c = weight_of b (signed_set tb_notarize (NotarizeVote c) (ss_votes s))) \<and>
     (\<forall>c. weight_at (ss_finalize_weight s) c = weight_of b (signed_set tb_finalize (FinalizeVote c) (ss_votes s))) \<and>
     unat (ss_skip_weight s) = weight_of b (signed_set tb_skip (SkipVote i) (ss_votes s))"

definition stored_ok :: "bus \<Rightarrow> votes \<Rightarrow> nat \<Rightarrow> ('t \<Rightarrow> vote) \<Rightarrow> 't cert_and_flag \<Rightarrow> bool" where
  "stored_ok b K i up f \<longleftrightarrow>
     (\<forall>c. stored_cert f = Some c \<longrightarrow>
        referenced_slot (up (ct_vote c)) = i \<and> cert_good b K (up (ct_vote c)) (ct_signatures c))"

definition base_ok :: "bus \<Rightarrow> votes \<Rightarrow> nat \<Rightarrow> parent_id \<Rightarrow> bool" where
  "base_ok b K i base \<longleftrightarrow>
     (case base of
        None \<Rightarrow> \<forall>k<i. quorum b K (Skip k)
      | Some c \<Rightarrow> cid_slot c < i \<and> (quorum b K (Notar c) \<or> quorum b K (Final c)) \<and>
                  (\<forall>k. cid_slot c < k \<and> k < i \<longrightarrow> quorum b K (Skip k)))"

definition slot_ok :: "bus \<Rightarrow> votes \<Rightarrow> nat \<Rightarrow> slot_state \<Rightarrow> bool" where
  "slot_ok b K i s \<longleftrightarrow>
     length (ss_votes s) = length (validator_set b) \<and>
     (\<forall>j<length (ss_votes s). voter_ok b K i (ss_certs s) j (ss_votes s ! j)) \<and>
     weights_ok b i s \<and>
     stored_ok b K i VNotarize (cb_notar (ss_certs s)) \<and>
     stored_ok b K i VSkip (cb_skip (ss_certs s)) \<and>
     stored_ok b K i VFinalize (cb_final (ss_certs s)) \<and>
     (\<forall>base. ss_available_base s = Some base \<longrightarrow> base_ok b K i base)"

lemma slot_okD:
  assumes "slot_ok b K i s"
  shows "length (ss_votes s) = length (validator_set b)"
    and "j < length (validator_set b) \<Longrightarrow> voter_ok b K i (ss_certs s) j (ss_votes s ! j)"
    and "stored_cert (cb_notar (ss_certs s)) = Some cn \<Longrightarrow> cid_slot (nv_id (ct_vote cn)) = i \<and> quorum b K (VNotarize (ct_vote cn))"
    and "stored_cert (cb_skip (ss_certs s)) = Some cs \<Longrightarrow> quorum b K (Skip i)"
    and "stored_cert (cb_final (ss_certs s)) = Some cf \<Longrightarrow> cid_slot (fv_id (ct_vote cf)) = i \<and> quorum b K (VFinalize (ct_vote cf))"
    and "ss_available_base s = Some base \<Longrightarrow> base_ok b K i base"
proof -
  have "stored_cert (cb_skip (ss_certs s)) = Some cs \<Longrightarrow> ct_vote cs = SkipVote i \<and> quorum b K (VSkip (ct_vote cs))"
    using assms by (cases "ct_vote cs") (auto simp: slot_ok_def stored_ok_def dest: cert_good_quorum)
  then show "stored_cert (cb_skip (ss_certs s)) = Some cs \<Longrightarrow> quorum b K (Skip i)" by auto
qed (use assms in \<open>auto simp: slot_ok_def stored_ok_def dest: cert_good_quorum\<close>)

lemma signed_set_replicate: "sel t = None \<Longrightarrow> signed_set sel v (replicate n t) = {}"
  by (auto simp: signed_set_def)

lemma slot_ok_fresh: "slot_ok b K i (fresh_slot b)"
proof -
  have "tb_notarize no_votes = None" "tb_skip no_votes = None" "tb_finalize no_votes = None"
    by (simp_all add: no_votes_def)
  then show ?thesis
    by (simp add: slot_ok_def fresh_slot_def weights_ok_def weight_at_def stored_ok_def
        empty_bundle_def no_cert_def signed_set_replicate)
qed

text \<open>How the counted sets change when the entry of one validator changes.\<close>

lemma signed_set_update:
  assumes "j < length ts"
  shows "signed_set sel v (ts[j := t]) =
    (if \<exists>p sg. sel t = Some p \<and> pr_proof p = PSigned sg \<and> pr_vote p = v
     then insert j (signed_set sel v ts) else signed_set sel v ts - {j})"
  using assms by (auto simp: signed_set_def nth_list_update)

lemma signed_set_same:
  assumes "j < length ts" "sel t = sel (ts ! j)"
  shows "signed_set sel v (ts[j := t]) = signed_set sel v ts"
  using assms by (auto simp: signed_set_def nth_list_update)

lemma weight_at_add:
  assumes "weight_at m c + unat w < 2 ^ 64"
  shows "weight_at (add_weight c w m) c' = (if c' = c then weight_at m c + unat w else weight_at m c')"
  using assms by (auto simp: weight_at_def add_weight_def unat_word_ariths split: option.splits)

lemma counted_bound:
  assumes "bus_ok b" "j < length (validator_set b)" "j \<notin> S"
  shows "weight_of b S + unat (pv_weight (validator_set b ! j)) < 2 ^ 64"
    and "weight_of b (insert j S) = weight_of b S + unat (pv_weight (validator_set b ! j))"
proof -
  show eq: "weight_of b (insert j S) = weight_of b S + unat (pv_weight (validator_set b ! j))"
    using assms by (simp add: weight_of_insert vweight_def)
  show "weight_of b S + unat (pv_weight (validator_set b ! j)) < 2 ^ 64"
    using weight_of_le_total [of b "insert j S"] bus_ok_total(2) [OF assms(1)] eq by simp
qed

text \<open>Counting a signed vote keeps the invariant.\<close>

lemma slot_ok_count_notarize:
  assumes "bus_ok b" "slot_ok b K i s" "j < length (validator_set b)"
    and t: "t = ss_votes s ! j" "tb_notarize t = None" "pr_proof p = PSigned sg"
      "voter_ok b K i (ss_certs s) j (t\<lparr>tb_notarize := Some p\<rparr>)"
  shows "slot_ok b K i (s\<lparr>ss_votes := (ss_votes s)[j := t\<lparr>tb_notarize := Some p\<rparr>],
    ss_notarize_weight := add_weight (nv_id (pr_vote p)) (pv_weight (validator_set b ! j)) (ss_notarize_weight s)\<rparr>)"
proof -
  let ?c = "nv_id (pr_vote p)" and ?ts = "ss_votes s" and ?t = "t\<lparr>tb_notarize := Some p\<rparr>"
  have len: "j < length ?ts" using assms(2,3) by (simp add: slot_ok_def)
  have c: "pr_vote p = NotarizeVote c \<longleftrightarrow> c = ?c" for c by (cases "pr_vote p") auto
  have "j \<notin> signed_set tb_notarize v ?ts" for v using t by (auto simp: signed_set_def)
  note notin = this and bound = counted_bound [OF assms(1,3) this]
  have w: "weight_at (ss_notarize_weight s) c = weight_of b (signed_set tb_notarize (NotarizeVote c) ?ts)" for c
    using assms(2) by (simp add: slot_ok_def weights_ok_def)
  have "weight_at (add_weight ?c (pv_weight (validator_set b ! j)) (ss_notarize_weight s)) c =
      weight_of b (signed_set tb_notarize (NotarizeVote c) (?ts[j := ?t]))" for c
    using weight_at_add [of "ss_notarize_weight s" ?c "pv_weight (validator_set b ! j)" c]
      bound(1) [of "NotarizeVote ?c"] bound(2) [of "NotarizeVote ?c"] notin [of "NotarizeVote c"]
    by (simp add: signed_set_update [OF len] c t(3) w)
  moreover have "signed_set tb_skip v (?ts[j := ?t]) = signed_set tb_skip v ?ts"
    "signed_set tb_finalize v' (?ts[j := ?t]) = signed_set tb_finalize v' ?ts" for v v'
    using len by (simp_all add: signed_set_same t(1))
  ultimately show ?thesis
    using assms(2) t(4) len by (auto simp: slot_ok_def weights_ok_def nth_list_update)
qed

lemma slot_ok_count_finalize:
  assumes "bus_ok b" "slot_ok b K i s" "j < length (validator_set b)"
    and t: "t = ss_votes s ! j" "tb_finalize t = None" "pr_proof p = PSigned sg"
      "voter_ok b K i (ss_certs s) j (t\<lparr>tb_finalize := Some p\<rparr>)"
  shows "slot_ok b K i (s\<lparr>ss_votes := (ss_votes s)[j := t\<lparr>tb_finalize := Some p\<rparr>],
    ss_finalize_weight := add_weight (fv_id (pr_vote p)) (pv_weight (validator_set b ! j)) (ss_finalize_weight s)\<rparr>)"
proof -
  let ?c = "fv_id (pr_vote p)" and ?ts = "ss_votes s" and ?t = "t\<lparr>tb_finalize := Some p\<rparr>"
  have len: "j < length ?ts" using assms(2,3) by (simp add: slot_ok_def)
  have c: "pr_vote p = FinalizeVote c \<longleftrightarrow> c = ?c" for c by (cases "pr_vote p") auto
  have "j \<notin> signed_set tb_finalize v ?ts" for v using t by (auto simp: signed_set_def)
  note notin = this and bound = counted_bound [OF assms(1,3) this]
  have w: "weight_at (ss_finalize_weight s) c = weight_of b (signed_set tb_finalize (FinalizeVote c) ?ts)" for c
    using assms(2) by (simp add: slot_ok_def weights_ok_def)
  have "weight_at (add_weight ?c (pv_weight (validator_set b ! j)) (ss_finalize_weight s)) c =
      weight_of b (signed_set tb_finalize (FinalizeVote c) (?ts[j := ?t]))" for c
    using weight_at_add [of "ss_finalize_weight s" ?c "pv_weight (validator_set b ! j)" c]
      bound(1) [of "FinalizeVote ?c"] bound(2) [of "FinalizeVote ?c"] notin [of "FinalizeVote c"]
    by (simp add: signed_set_update [OF len] c t(3) w)
  moreover have "signed_set tb_skip v (?ts[j := ?t]) = signed_set tb_skip v ?ts"
    "signed_set tb_notarize v' (?ts[j := ?t]) = signed_set tb_notarize v' ?ts" for v v'
    using len by (simp_all add: signed_set_same t(1))
  ultimately show ?thesis
    using assms(2) t(4) len by (auto simp: slot_ok_def weights_ok_def nth_list_update)
qed

lemma slot_ok_count_skip:
  assumes "bus_ok b" "slot_ok b K i s" "j < length (validator_set b)"
    and t: "t = ss_votes s ! j" "tb_skip t = None" "pr_proof p = PSigned sg" "pr_vote p = SkipVote i"
      "voter_ok b K i (ss_certs s) j (t\<lparr>tb_skip := Some p\<rparr>)"
  shows "slot_ok b K i (s\<lparr>ss_votes := (ss_votes s)[j := t\<lparr>tb_skip := Some p\<rparr>],
    ss_skip_weight := ss_skip_weight s + pv_weight (validator_set b ! j)\<rparr>)"
proof -
  let ?ts = "ss_votes s" and ?t = "t\<lparr>tb_skip := Some p\<rparr>"
  have len: "j < length ?ts" using assms(2,3) by (simp add: slot_ok_def)
  have "j \<notin> signed_set tb_skip (SkipVote i) ?ts" using t by (auto simp: signed_set_def)
  note bound = counted_bound [OF assms(1,3) this]
  have "unat (ss_skip_weight s) = weight_of b (signed_set tb_skip (SkipVote i) ?ts)"
    using assms(2) by (simp add: slot_ok_def weights_ok_def)
  then have "unat (ss_skip_weight s + pv_weight (validator_set b ! j)) =
      weight_of b (signed_set tb_skip (SkipVote i) (?ts[j := ?t]))"
    using bound by (simp add: signed_set_update [OF len] t(3,4) unat_word_ariths)
  moreover have "signed_set tb_finalize v (?ts[j := ?t]) = signed_set tb_finalize v ?ts"
    "signed_set tb_notarize v' (?ts[j := ?t]) = signed_set tb_notarize v' ?ts" for v v'
    using len by (simp_all add: signed_set_same t(1))
  ultimately show ?thesis
    using assms(2) t(5) len by (auto simp: slot_ok_def weights_ok_def nth_list_update)
qed

text \<open>Crediting the votes of a certificate leaves the counters alone.\<close>

lemma slot_ok_credit:
  assumes "slot_ok b K i s" "j < length (validator_set b)" "voter_ok b K i (ss_certs s) j t"
    and "\<And>v. signed_set tb_notarize v ((ss_votes s)[j := t]) = signed_set tb_notarize v (ss_votes s)"
    and "\<And>v. signed_set tb_skip v ((ss_votes s)[j := t]) = signed_set tb_skip v (ss_votes s)"
    and "\<And>v. signed_set tb_finalize v ((ss_votes s)[j := t]) = signed_set tb_finalize v (ss_votes s)"
  shows "slot_ok b K i (s\<lparr>ss_votes := (ss_votes s)[j := t]\<rparr>)"
  using assms by (auto simp: slot_ok_def weights_ok_def nth_list_update)

lemma slot_ok_credit_notarize:
  assumes "slot_ok b K i s" "j < length (validator_set b)" "tb_notarize (ss_votes s ! j) = None"
    "voter_ok b K i (ss_certs s) j ((ss_votes s ! j)\<lparr>tb_notarize := Some (proven_cert c)\<rparr>)"
  shows "slot_ok b K i (s\<lparr>ss_votes := (ss_votes s)[j := (ss_votes s ! j)\<lparr>tb_notarize := Some (proven_cert c)\<rparr>]\<rparr>)"
  using assms slot_okD(1) [OF assms(1)]
  by (intro slot_ok_credit) (auto simp: signed_set_def nth_list_update proven_cert_def)

lemma slot_ok_credit_skip:
  assumes "slot_ok b K i s" "j < length (validator_set b)" "tb_skip (ss_votes s ! j) = None"
    "voter_ok b K i (ss_certs s) j ((ss_votes s ! j)\<lparr>tb_skip := Some (proven_cert c)\<rparr>)"
  shows "slot_ok b K i (s\<lparr>ss_votes := (ss_votes s)[j := (ss_votes s ! j)\<lparr>tb_skip := Some (proven_cert c)\<rparr>]\<rparr>)"
  using assms slot_okD(1) [OF assms(1)]
  by (intro slot_ok_credit) (auto simp: signed_set_def nth_list_update proven_cert_def)

lemma slot_ok_credit_finalize:
  assumes "slot_ok b K i s" "j < length (validator_set b)" "tb_finalize (ss_votes s ! j) = None"
    "voter_ok b K i (ss_certs s) j ((ss_votes s ! j)\<lparr>tb_finalize := Some (proven_cert c)\<rparr>)"
  shows "slot_ok b K i (s\<lparr>ss_votes := (ss_votes s)[j := (ss_votes s ! j)\<lparr>tb_finalize := Some (proven_cert c)\<rparr>]\<rparr>)"
  using assms slot_okD(1) [OF assms(1)]
  by (intro slot_ok_credit) (auto simp: signed_set_def nth_list_update proven_cert_def)

text \<open>The flags and certificates of a slot only go one way.\<close>

definition flag_le :: "'t cert_and_flag \<Rightarrow> 't cert_and_flag \<Rightarrow> bool" where
  "flag_le f g \<longleftrightarrow> (flag_needs g \<longrightarrow> flag_needs f)"

lemma proven_ok_flag: "proven_ok b K i up f j p \<Longrightarrow> flag_le f g \<Longrightarrow> proven_ok b K i up g j p"
  by (auto simp: proven_ok_def flag_le_def split: vote_proof.splits)

lemma slot_ok_certs:
  assumes "slot_ok b K i s" "flag_le (cb_notar (ss_certs s)) (cb_notar cb)"
    "flag_le (cb_skip (ss_certs s)) (cb_skip cb)" "flag_le (cb_final (ss_certs s)) (cb_final cb)"
    "stored_ok b K i VNotarize (cb_notar cb)" "stored_ok b K i VSkip (cb_skip cb)"
    "stored_ok b K i VFinalize (cb_final cb)"
  shows "slot_ok b K i (s\<lparr>ss_certs := cb\<rparr>)"
proof -
  have "voter_ok b K i cb j t" if "voter_ok b K i (ss_certs s) j t" for j t
    using that assms(2-4) by (auto simp: voter_ok_def intro: proven_ok_flag)
  then show ?thesis using assms by (auto simp: slot_ok_def weights_ok_def)
qed

lemma slot_ok_add_base:
  assumes "slot_ok b K i s" "base_ok b K i base"
  shows "slot_ok b K i (add_available_base base s)"
  using assms by (auto simp: add_available_base_def slot_ok_def weights_ok_def split: option.splits)

lemma add_available_base_simps [simp]:
  "ss_certs (add_available_base base s) = ss_certs s"
  "ss_votes (add_available_base base s) = ss_votes s"
  "ss_available_base (add_available_base base s) \<noteq> None"
  by (auto simp: add_available_base_def split: option.splits)

lemma is_simps [simp]:
  "is_skipped (add_available_base base s) = is_skipped s"
  "is_notarized (add_available_base base s) = is_notarized s"
  by (simp_all add: is_skipped_def is_notarized_def)

section \<open>Building a certificate\<close>

lemma collect_vote_signatures_spec:
  assumes "\<And>k. k < length ts \<Longrightarrow> \<exists>r. to_signature v (ts ! k) = Inr r \<and> (\<forall>x. r = Some x \<longrightarrow> fst x = off + k)"
  shows "\<exists>sigs. collect_vote_signatures v ts = Inr sigs \<and> distinct (map fst sigs) \<and>
    (\<forall>x. x \<in> set sigs \<longleftrightarrow> (\<exists>k<length ts. to_signature v (ts ! k) = Inr (Some x))) \<and>
    (\<forall>x\<in>set sigs. off \<le> fst x)"
  using assms
proof (induction ts arbitrary: off)
  case (Cons t ts)
  obtain r where r: "to_signature v t = Inr r" "\<And>x. r = Some x \<Longrightarrow> fst x = off"
    using Cons.prems [of 0] by auto
  have "\<exists>sigs. collect_vote_signatures v ts = Inr sigs \<and> distinct (map fst sigs) \<and>
    (\<forall>x. x \<in> set sigs \<longleftrightarrow> (\<exists>k<length ts. to_signature v (ts ! k) = Inr (Some x))) \<and>
    (\<forall>x\<in>set sigs. Suc off \<le> fst x)"
    using Cons.prems [of "Suc _"] by (intro Cons.IH) auto
  then obtain sigs where sigs: "collect_vote_signatures v ts = Inr sigs" "distinct (map fst sigs)"
    "\<And>x. x \<in> set sigs \<longleftrightarrow> (\<exists>k<length ts. to_signature v (ts ! k) = Inr (Some x))"
    "\<And>x. x \<in> set sigs \<Longrightarrow> Suc off \<le> fst x" by blast
  have mem: "(\<exists>k<length (t # ts). to_signature v ((t # ts) ! k) = Inr (Some x)) \<longleftrightarrow>
      r = Some x \<or> x \<in> set sigs" for x
    using r(1) by (auto simp: sigs(3) less_Suc_eq_0_disj)
  show ?case
  proof (cases r)
    case None
    then show ?thesis
      using r sigs(1,2,4) mem by (intro exI [of _ sigs]) (auto dest: Suc_leD simp del: length_Cons)
  next
    case (Some x)
    have "off \<notin> fst ` set sigs" using sigs(4) by fastforce
    then show ?thesis
      using Some r sigs(1,2,4) mem
      by (intro exI [of _ "x # sigs"]) (auto dest: Suc_leD simp del: length_Cons)
  qed
qed simp

lemma create_cert_spec:
  assumes up: "\<And>t. to_signature (up v) t = stored_to_signature v (sel t)"
    and len: "length (ss_votes s) = length (validator_set b)"
    and ok: "\<And>j p. j < length (validator_set b) \<Longrightarrow> sel (ss_votes s ! j) = Some p \<Longrightarrow>
        proven_ok b K i up f j p"
    and needs: "flag_needs f"
    and weight: "threshold b \<le> weight_of b (signed_set sel v (ss_votes s))"
  shows "\<exists>sigs. create_cert (up v) s = Inr \<lparr>ct_vote = up v, ct_signatures = sigs\<rparr> \<and>
           cert_good b K (up v) sigs"
proof -
  let ?ts = "ss_votes s"
  have signed: "to_signature (up v) (?ts ! k) = Inr (Some x) \<longleftrightarrow>
      (\<exists>p sg. sel (?ts ! k) = Some p \<and> pr_proof p = PSigned sg \<and> pr_vote p = v \<and>
         x = (k, sg_signature sg) \<and> check_signature b k (up v) (sg_signature sg) \<and> (k, up v) \<in> K)"
    (is "?l x \<longleftrightarrow> ?r x") and total: "\<exists>r. to_signature (up v) (?ts ! k) = Inr r" if k: "k < length ?ts" for k x
  proof -
    have "(to_signature (up v) (?ts ! k) = Inr None \<and> (\<nexists>p. sel (?ts ! k) = Some p \<and> pr_vote p = v)) \<or>
      (\<exists>p sg. sel (?ts ! k) = Some p \<and> pr_proof p = PSigned sg \<and> pr_vote p = v \<and>
         check_signature b k (up v) (sg_signature sg) \<and> (k, up v) \<in> K \<and>
         to_signature (up v) (?ts ! k) = Inr (Some (k, sg_signature sg)))"
    proof (cases "sel (?ts ! k)")
      case (Some p)
      have "proven_ok b K i up f k p" using ok k len Some by simp
      then show ?thesis using Some needs
        by (cases "pr_proof p") (auto simp: up stored_to_signature_def proven_to_signature_def
            proven_ok_def as_signed_vote_def)
    qed (simp add: up stored_to_signature_def)
    then show "?l x \<longleftrightarrow> ?r x" and "\<exists>r. to_signature (up v) (?ts ! k) = Inr r" by auto
  qed
  have "\<exists>sigs. collect_vote_signatures (up v) ?ts = Inr sigs \<and> distinct (map fst sigs) \<and>
    (\<forall>x. x \<in> set sigs \<longleftrightarrow> (\<exists>k<length ?ts. to_signature (up v) (?ts ! k) = Inr (Some x))) \<and>
    (\<forall>x\<in>set sigs. 0 \<le> fst x)"
  proof (rule collect_vote_signatures_spec)
    fix k assume "k < length ?ts"
    with total [OF this] signed [OF this] show
      "\<exists>r. to_signature (up v) (?ts ! k) = Inr r \<and> (\<forall>x. r = Some x \<longrightarrow> fst x = 0 + k)"
      by (metis add_0 fst_conv)
  qed
  then obtain sigs where sigs: "collect_vote_signatures (up v) ?ts = Inr sigs" "distinct (map fst sigs)"
    "\<And>x. x \<in> set sigs \<longleftrightarrow> (\<exists>k<length ?ts. to_signature (up v) (?ts ! k) = Inr (Some x))" by blast
  have mem: "x \<in> set sigs \<longleftrightarrow> (\<exists>k<length ?ts. \<exists>p sg. sel (?ts ! k) = Some p \<and> pr_proof p = PSigned sg \<and>
      pr_vote p = v \<and> x = (k, sg_signature sg) \<and> check_signature b k (up v) (sg_signature sg) \<and> (k, up v) \<in> K)" for x
    using sigs(3) signed by metis
  have "j \<in> signers sigs" if j: "j \<in> signed_set sel v ?ts" for j
  proof -
    obtain p sg where p: "j < length ?ts" "sel (?ts ! j) = Some p" "pr_proof p = PSigned sg" "pr_vote p = v"
      using j by (auto simp: signed_set_def)
    then have "proven_ok b K i up f j p" using ok len by simp
    then have "(j, sg_signature sg) \<in> set sigs" using p by (auto simp: mem proven_ok_def)
    then show ?thesis by (force simp: signers_def)
  qed
  then have "signed_set sel v ?ts \<subseteq> signers sigs" by blast
  then have "threshold b \<le> weight_of b (signers sigs)" using weight weight_of_mono le_trans by blast
  then have "cert_good b K (up v) sigs"
    using sigs(2) len unfolding cert_good_def cert_ok_def threshold_def
    by (fastforce simp: mem signers_def validators_def backers_def)
  then show ?thesis using sigs(1) by (auto simp: create_cert_def)
qed

lemmas create_cert_notarize = create_cert_spec [of VNotarize _ tb_notarize, OF to_signature.simps(1)]
lemmas create_cert_skip = create_cert_spec [of VSkip _ tb_skip, OF to_signature.simps(2)]
lemmas create_cert_finalize = create_cert_spec [of VFinalize _ tb_finalize, OF to_signature.simps(3)]

section \<open>More votes may be signed\<close>

lemma base_ok_mono: "base_ok b K i base \<Longrightarrow> K \<subseteq> K' \<Longrightarrow> base_ok b K' i base"
  by (auto simp: base_ok_def intro: quorum_mono split: option.splits)

lemma proven_ok_mono: "proven_ok b K i up f j p \<Longrightarrow> K \<subseteq> K' \<Longrightarrow> proven_ok b K' i up f j p"
  by (auto simp: proven_ok_def)

lemma slot_ok_mono:
  assumes "slot_ok b K i s" "K \<subseteq> K'"
  shows "slot_ok b K' i s"
proof -
  have "voter_ok b K' i cb j t" if "voter_ok b K i cb j t" for cb j t
    using that by (auto simp: voter_ok_def intro: proven_ok_mono [OF _ assms(2)])
  moreover have "stored_ok b K' i VNotarize f" if "stored_ok b K i VNotarize f" for f
    using that assms(2) by (auto simp: stored_ok_def intro: cert_good_mono)
  moreover have "stored_ok b K' i VSkip f" if "stored_ok b K i VSkip f" for f
    using that assms(2) by (auto simp: stored_ok_def intro: cert_good_mono)
  moreover have "stored_ok b K' i VFinalize f" if "stored_ok b K i VFinalize f" for f
    using that assms(2) by (auto simp: stored_ok_def intro: cert_good_mono)
  ultimately show ?thesis
    using assms by (auto simp: slot_ok_def intro: base_ok_mono)
qed

end
