(* ===== verification/Simplex_Consensus_Inv.thy ===== *)
theory Simplex_Consensus_Inv
  imports Simplex_Consensus Simplex_Slot_Inv
begin

text \<open>
  The discipline of the votes a node casts, over all its restarts, and that the voting actor
  keeps it: two votes never contradict each other, a finalise vote follows the notarise vote
  for the same candidate, a notarise vote is cast only for a justified candidate.  The flags of
  a slot are shown to be exactly the record of the votes cast in it.  The identifier of a
  candidate is a hash that covers its parent, so \<^verbatim>\<open>par\<close> gives the parent of an identifier.
\<close>

section \<open>Sequences of votes\<close>

definition votes_ok :: "(candidate_id \<Rightarrow> bool) \<Rightarrow> vote list \<Rightarrow> bool" where
  "votes_ok J ws \<longleftrightarrow>
     (\<forall>v\<in>set ws. \<forall>w\<in>set ws. \<not> conflicting v w) \<and>
     (\<forall>xs c ys. ws = xs @ Final c # ys \<longrightarrow> Notar c \<in> set xs) \<and>
     (\<forall>c. Notar c \<in> set ws \<longrightarrow> J c)"

lemma conflicting_sym: "conflicting v w \<Longrightarrow> conflicting w v"
  by (cases v; cases w) auto

lemma not_conflicting_self [simp]: "\<not> conflicting v v"
  by (cases v) auto

lemma votes_ok_Nil [simp]: "votes_ok J []"
  by (simp add: votes_ok_def)

lemma votes_ok_final: "votes_ok J ws \<Longrightarrow> Final c \<in> set ws \<Longrightarrow> Notar c \<in> set ws"
  by (auto simp: votes_ok_def dest!: split_list)

lemma votes_ok_prefix: "votes_ok J (xs @ ys) \<Longrightarrow> votes_ok J xs"
  by (auto simp: votes_ok_def)

lemma votes_ok_mono: "votes_ok J ws \<Longrightarrow> (\<And>c. J c \<Longrightarrow> J' c) \<Longrightarrow> votes_ok J' ws"
  by (auto simp: votes_ok_def)

lemma votes_ok_snoc:
  assumes "votes_ok J ws" "\<And>w. w \<in> set ws \<Longrightarrow> \<not> conflicting v w"
    and "\<And>c. v = Final c \<Longrightarrow> Notar c \<in> set ws" "\<And>c. v = Notar c \<Longrightarrow> J c"
  shows "votes_ok J (ws @ [v])"
proof -
  have "Notar c \<in> set xs" if "ws @ [v] = xs @ Final c # ys" for xs c ys
  proof (cases ys rule: rev_cases)
    case Nil
    then show ?thesis using that assms(3) by simp
  next
    case (snoc zs z)
    then have "ws = xs @ Final c # zs" using that by simp
    then show ?thesis using assms(1) by (simp add: votes_ok_def)
  qed
  moreover have "\<not> conflicting w v" if "w \<in> set ws" for w
    using assms(2) [OF that] conflicting_sym by blast
  ultimately show ?thesis
    using assms(1,2,4) by (auto simp: votes_ok_def)
qed

section \<open>The invariant\<close>

fun vote_of :: "cons_event \<Rightarrow> vote list" where
  "vote_of (BroadcastVote v) = [v]"
| "vote_of _ = []"

definition cons_votes :: "consensus \<Rightarrow> vote list" where
  "cons_votes c = concat (map vote_of (cn_published c))"

definition cslot_ok :: "(candidate_id \<Rightarrow> parent_id) \<Rightarrow> vote list \<Rightarrow> nat \<Rightarrow> cons_slot \<Rightarrow> bool" where
  "cslot_ok par W i s \<longleftrightarrow>
     (\<forall>c. voted_notar s = Some c \<longleftrightarrow> cid_slot c = i \<and> Notar c \<in> set W) \<and>
     (voted_final s \<longleftrightarrow> (\<exists>c. cid_slot c = i \<and> Final c \<in> set W)) \<and>
     (voted_skip s \<longleftrightarrow> Skip i \<in> set W) \<and>
     (\<forall>c. notar_cert s = Some c \<longrightarrow> cid_slot c = i) \<and>
     (\<forall>x. pending_block s = Some x \<longrightarrow> cid_slot (cd_id x) = i \<and> cd_parent x = par (cd_id x) \<and>
        (\<forall>c. cd_parent x = Some c \<longrightarrow> cid_slot c < i))"

definition task_ok :: "(candidate_id \<Rightarrow> bool) \<Rightarrow> consensus \<Rightarrow> notarize_task \<Rightarrow> bool" where
  "task_ok J c t \<longleftrightarrow>
     (\<exists>x. pending_block (cslot (nt_slot t) c) = Some x \<and> (nt_stage t \<noteq> Awaits_parent \<longrightarrow> J (cd_id x))) \<and>
     voted_notar (cslot (nt_slot t) c) = None \<and>
     (nt_slot t \<in> fset (fmdom (cs_slots (cn_state c))) \<or> nt_slot t < cs_first (cn_state c))"

text \<open>The pool refuses a request whose parent is not older than the candidate.\<close>

fun wait_ok :: "cons_event \<Rightarrow> bool" where
  "wait_ok (WaitForParent x) \<longleftrightarrow> (\<forall>y. cd_parent x = Some y \<longrightarrow> cid_slot y < cid_slot (cd_id x))"
| "wait_ok _ \<longleftrightarrow> True"

definition cons_inv ::
  "(candidate_id \<Rightarrow> parent_id) \<Rightarrow> (candidate_id \<Rightarrow> bool) \<Rightarrow> vote list \<Rightarrow> consensus \<Rightarrow> bool" where
  "cons_inv par J L c \<longleftrightarrow>
     cs_wf (cn_state c) \<and> votes_ok J (L @ cons_votes c) \<and>
     (\<forall>i. cslot_ok par (L @ cons_votes c) i (cslot i c)) \<and>
     distinct (map nt_slot (cn_tasks c)) \<and> (\<forall>t\<in>set (cn_tasks c). task_ok J c t) \<and>
     list_all wait_ok (cn_published c)"

lemma cons_votes_emit [simp]:
  "cons_votes (emit e c) = cons_votes c @ vote_of e"
  by (simp add: cons_votes_def emit_def)

lemma emit_fields [simp]:
  "cn_state (emit e c) = cn_state c" "cn_tasks (emit e c) = cn_tasks c"
  "cn_alarm (emit e c) = cn_alarm c" "cn_params (emit e c) = cn_params c"
  "cn_generations (emit e c) = cn_generations c"
  "cn_published (emit e c) = cn_published c @ [e]"
  by (simp_all add: emit_def)

lemma set_cslot_fields [simp]:
  "cn_published (set_cslot i s c) = cn_published c"
  "cons_votes (set_cslot i s c) = cons_votes c" "cn_tasks (set_cslot i s c) = cn_tasks c"
  "cn_alarm (set_cslot i s c) = cn_alarm c" "cn_params (set_cslot i s c) = cn_params c"
  "cs_first (cn_state (set_cslot i s c)) = cs_first (cn_state c)"
  "fset (fmdom (cs_slots (cn_state (set_cslot i s c)))) = fset (fmdom (cs_slots (cn_state c)))"
  by (simp_all add: set_cslot_def cons_votes_def)

lemma cons_votes_update [simp]:
  "cons_votes (c\<lparr>cn_tasks := ts\<rparr>) = cons_votes c" "cons_votes (c\<lparr>cn_params := ps\<rparr>) = cons_votes c"
  "cons_votes (c\<lparr>cn_state := st\<rparr>) = cons_votes c" "cons_votes (c\<lparr>cn_alarm := a\<rparr>) = cons_votes c"
  "cons_votes (c\<lparr>cn_generations := g\<rparr>) = cons_votes c" "cons_votes (c\<lparr>cn_timeout_slot := k\<rparr>) = cons_votes c"
  "cons_votes (c\<lparr>cn_timeout_base := a'\<rparr>) = cons_votes c" "cons_votes (c\<lparr>cn_current_window := k\<rparr>) = cons_votes c"
  "cons_votes (c\<lparr>cn_first_block_timeout := a'\<rparr>) = cons_votes c"
  "cons_votes (c\<lparr>cn_previous_window_had_skip := h\<rparr>) = cons_votes c"
  by (simp_all add: cons_votes_def)

text \<open>The reference to a slot is held: the slot is in the map, or was dropped.\<close>

definition held :: "nat \<Rightarrow> consensus \<Rightarrow> bool" where
  "held i c \<longleftrightarrow> i \<in> fset (fmdom (cs_slots (cn_state c))) \<or> i < cs_first (cn_state c)"

lemma cslot_set_cslot:
  assumes "cs_wf (cn_state c)" "held i c"
  shows "cslot j (set_cslot i s c) = (if j = i then s else cslot j c)"
  using deref_assign [OF assms(1), of i] assms(2) by (simp add: set_cslot_def held_def)

lemma cs_wf_set_cslot: "cs_wf (cn_state c) \<Longrightarrow> held i c \<Longrightarrow> cs_wf (cn_state (set_cslot i s c))"
  by (simp add: set_cslot_def held_def cs_wf_assign)

lemma held_simps [simp]:
  "held j (set_cslot i s c) = held j c" "held j (emit e c) = held j c"
  "held j (c\<lparr>cn_tasks := ts\<rparr>) = held j c"
  by (simp_all add: held_def)

lemma cons_invD:
  assumes "cons_inv par J L c"
  shows "cs_wf (cn_state c)" "votes_ok J (L @ cons_votes c)" "cslot_ok par (L @ cons_votes c) i (cslot i c)"
    "distinct (map nt_slot (cn_tasks c))" "t \<in> set (cn_tasks c) \<Longrightarrow> task_ok J c t"
    "list_all wait_ok (cn_published c)"
  using assms by (simp_all add: cons_inv_def)

section \<open>Casting a vote\<close>

lemma vote_exhaust_ids: "(\<And>c. v = Notar c \<Longrightarrow> P) \<Longrightarrow> (\<And>c. v = Final c \<Longrightarrow> P) \<Longrightarrow> (\<And>i. v = Skip i \<Longrightarrow> P) \<Longrightarrow> P"
  by (metis finalize_vote.exhaust notarize_vote.exhaust skip_vote.exhaust vote.exhaust)

lemma cslot_ok_other:
  assumes "cslot_ok par W j s" "\<forall>v\<in>set vs. referenced_slot v \<noteq> j"
  shows "cslot_ok par (W @ vs) j s"
proof -
  have "Notar c \<notin> set vs \<and> Final c \<notin> set vs" if "cid_slot c = j" for c
    using assms(2) that by force
  moreover have "Skip j \<notin> set vs" using assms(2) by force
  ultimately show ?thesis using assms(1) by (auto simp: cslot_ok_def)
qed

lemma cslot_ok_skip:
  assumes "votes_ok J W" "cslot_ok par W i s" "\<not> voted_final s"
  shows "votes_ok J (W @ [Skip i])" "cslot_ok par (W @ [Skip i]) i (s\<lparr>voted_skip := True\<rparr>)"
proof -
  have "\<not> conflicting (Skip i) w" if "w \<in> set W" for w
    using assms(2,3) that by (cases w rule: vote_exhaust_ids) (auto simp: cslot_ok_def)
  then show "votes_ok J (W @ [Skip i])" using assms(1) by (intro votes_ok_snoc) auto
  show "cslot_ok par (W @ [Skip i]) i (s\<lparr>voted_skip := True\<rparr>)"
    using assms(2) by (auto simp: cslot_ok_def)
qed

lemma cslot_ok_notar:
  assumes W: "votes_ok J W" and s: "cslot_ok par W i s" and none: "voted_notar s = None" and c: "cid_slot c = i" "J c"
  shows "votes_ok J (W @ [Notar c])" "cslot_ok par (W @ [Notar c]) i (s\<lparr>voted_notar := Some c\<rparr>)"
proof -
  have no: "Notar d \<notin> set W \<and> Final d \<notin> set W" if "cid_slot d = i" for d
    using s none that votes_ok_final [OF W, of d] by (auto simp: cslot_ok_def)
  have "\<not> conflicting (Notar c) w" if "w \<in> set W" for w
    using no that c by (cases w rule: vote_exhaust_ids) auto
  then show "votes_ok J (W @ [Notar c])" using W c by (intro votes_ok_snoc) auto
  show "cslot_ok par (W @ [Notar c]) i (s\<lparr>voted_notar := Some c\<rparr>)"
    using s no c by (auto simp: cslot_ok_def)
qed

lemma cslot_ok_final:
  assumes W: "votes_ok J W" and s: "cslot_ok par W i s" and v: "voted_notar s = Some c" "\<not> voted_skip s" "\<not> voted_final s"
  shows "votes_ok J (W @ [Final c])" "cslot_ok par (W @ [Final c]) i (s\<lparr>voted_final := True\<rparr>)"
proof -
  have c: "cid_slot c = i" "Notar c \<in> set W" using s v by (auto simp: cslot_ok_def)
  have "\<not> conflicting (Final c) w" if "w \<in> set W" for w
    using s v that c by (cases w rule: vote_exhaust_ids) (auto simp: cslot_ok_def)
  then show "votes_ok J (W @ [Final c])" using W c by (intro votes_ok_snoc) auto
  show "cslot_ok par (W @ [Final c]) i (s\<lparr>voted_final := True\<rparr>)"
    using s c by (auto simp: cslot_ok_def)
qed

text \<open>One slot is rewritten and votes for this slot are cast.\<close>

lemma cons_inv_slot:
  assumes inv: "cons_inv par J L c" and i: "held i c"
    and c': "cn_state c' = assign i s (cn_state c)" "cons_votes c' = cons_votes c @ vs"
    and vs: "\<forall>v\<in>set vs. referenced_slot v = i" "votes_ok J (L @ cons_votes c @ vs)"
    and s: "cslot_ok par (L @ cons_votes c @ vs) i s"
    and w: "list_all wait_ok (cn_published c')"
    and tasks: "distinct (map nt_slot (cn_tasks c'))"
      "\<And>t. t \<in> set (cn_tasks c') \<Longrightarrow> nt_slot t \<noteq> i \<Longrightarrow> t \<in> set (cn_tasks c)"
      "\<And>t. t \<in> set (cn_tasks c') \<Longrightarrow> nt_slot t = i \<Longrightarrow>
         (\<exists>x. pending_block s = Some x \<and> (nt_stage t \<noteq> Awaits_parent \<longrightarrow> J (cd_id x))) \<and> voted_notar s = None"
  shows "cons_inv par J L c'"
proof -
  note D = cons_invD [OF inv]
  have view: "cslot j c' = (if j = i then s else cslot j c)" for j
    using cslot_set_cslot [OF D(1) i, of j s] by (simp add: set_cslot_def c')
  have held: "nt_slot t \<in> fset (fmdom (cs_slots (cn_state c'))) \<or> nt_slot t < cs_first (cn_state c') \<longleftrightarrow> held (nt_slot t) c" for t :: notarize_task
    by (simp add: c' held_def)
  have "task_ok J c' t" if t: "t \<in> set (cn_tasks c')" for t
    using tasks(2,3) [OF t] D(5) [of t] i unfolding task_ok_def held view
    by (cases "nt_slot t = i") (auto simp: held_def)
  moreover have "cslot_ok par (L @ cons_votes c') j (cslot j c')" for j
    using cslot_ok_other [OF D(3) [of j], of vs] vs(1) s unfolding view c'(2) by auto
  ultimately show ?thesis
    using cs_wf_set_cslot [OF D(1) i, of s] vs(2) tasks(1) w by (simp add: cons_inv_def c' set_cslot_def)
qed

text \<open>Nothing but the bookkeeping of timeouts changes.\<close>

lemma cons_inv_frame:
  assumes "cons_inv par J L c" "cn_state c' = cn_state c" "cons_votes c' = cons_votes c" "cn_tasks c' = cn_tasks c"
    "list_all wait_ok (cn_published c')"
  shows "cons_inv par J L c'"
  using assms by (simp add: cons_inv_def task_ok_def)

lemma cslot_at_inv:
  assumes inv: "cons_inv par J L c" and at: "cslot_at i c = Some c'"
  shows "cons_inv par J L c'" "held i c'" "\<And>j. cslot j c' = cslot j c" "cn_tasks c' = cn_tasks c"
    "cons_votes c' = cons_votes c" "cn_published c' = cn_published c"
proof -
  note D = cons_invD [OF inv]
  obtain st where st: "slot_at fresh_cons_slot i (cn_state c) = Some st" "c' = c\<lparr>cn_state := st\<rparr>"
    using at by (auto simp: cslot_at_def)
  note S = slot_at_Some [OF st(1)]
  have "fset (fmdom (cs_slots (cn_state c))) \<subseteq> fset (fmdom (cs_slots st))"
    using st(1) by (auto simp: slot_at_def split: if_splits option.splits)
  then have "task_ok J c' t" if "task_ok J c t" for t
    using that S(3) S(5) [OF D(1)] by (auto simp: task_ok_def st(2))
  then show "cons_inv par J L c'"
    using inv S(4,5) by (simp add: cons_inv_def st(2))
  show "held i c'" "cslot j c' = cslot j c" "cn_tasks c' = cn_tasks c" "cons_votes c' = cons_votes c"
    "cn_published c' = cn_published c" for j
    using S(2) S(5) [OF D(1)] by (simp_all add: st(2) held_def)
qed

section \<open>The steps\<close>

lemma try_vote_final_ok:
  assumes inv: "cons_inv par J L c" and i: "held i c"
    and some: "voted_notar (cslot i c) \<noteq> None \<or> notar_cert (cslot i c) \<noteq> None"
  shows "\<exists>c'. try_vote_final i c = Inr c' \<and> cons_inv par J L c'"
proof (cases "\<not> voted_skip (cslot i c) \<and> \<not> voted_final (cslot i c) \<and> voted_notar (cslot i c) = notar_cert (cslot i c)")
  case True
  then obtain x where x: "voted_notar (cslot i c) = Some x" using some by auto
  note D = cons_invD [OF inv]
  have xi: "cid_slot x = i" using D(3) [of i] x unfolding cslot_ok_def by blast
  let ?c = "set_cslot i ((cslot i c)\<lparr>voted_final := True\<rparr>) (emit (BroadcastVote (Final x)) c)"
  have "cons_inv par J L ?c"
  proof (rule cons_inv_slot [OF inv i, where vs = "[Final x]"])
    show "votes_ok J (L @ cons_votes c @ [Final x])"
      "cslot_ok par (L @ cons_votes c @ [Final x]) i ((cslot i c)\<lparr>voted_final := True\<rparr>)"
      using cslot_ok_final [OF D(2) D(3) x] True by simp_all
    show "(\<exists>y. pending_block ((cslot i c)\<lparr>voted_final := True\<rparr>) = Some y \<and> (nt_stage t \<noteq> Awaits_parent \<longrightarrow> J (cd_id y))) \<and>
        voted_notar ((cslot i c)\<lparr>voted_final := True\<rparr>) = None" if "t \<in> set (cn_tasks ?c)" "nt_slot t = i" for t
      using D(5) [of t] that by (auto simp: task_ok_def)
  qed (use D(4,6) xi in \<open>simp_all add: set_cslot_def\<close>)
  moreover have "notar_cert (cslot i c) = Some x" using True x by simp
  ultimately show ?thesis using True x by (simp add: try_vote_final_def Let_def check_def)
next
  case False
  then show ?thesis using inv some by (auto simp: try_vote_final_def Let_def check_def)
qed

lemma set_cslot_ok:
  assumes inv: "cons_inv par J L c" and i: "held i c"
    and s: "voted_notar s = voted_notar (cslot i c)" "voted_skip s = voted_skip (cslot i c)"
      "voted_final s = voted_final (cslot i c)" "pending_block s = pending_block (cslot i c)"
      "\<And>x. notar_cert s = Some x \<Longrightarrow> cid_slot x = i"
  shows "cons_inv par J L (set_cslot i s c)"
proof -
  note D = cons_invD [OF inv]
  show ?thesis
  proof (rule cons_inv_slot [OF inv i, where vs = "[]"])
    show "cslot_ok par (L @ cons_votes c @ []) i s" using D(3) [of i] s by (simp add: cslot_ok_def)
    show "(\<exists>y. pending_block s = Some y \<and> (nt_stage t \<noteq> Awaits_parent \<longrightarrow> J (cd_id y))) \<and> voted_notar s = None"
      if "t \<in> set (cn_tasks (set_cslot i s c))" "nt_slot t = i" for t
      using D(5) [of t] that s by (auto simp: task_ok_def)
  qed (use D(2,4,6) in \<open>simp_all add: set_cslot_def\<close>)
qed

lemma process_notarization_observed_ok:
  assumes inv: "cons_inv par J L c"
  shows "\<exists>c'. process_notarization_observed b x c = Inr c' \<and> cons_inv par J L c'"
proof (cases "cslot_at (cid_slot x) c")
  case None
  then show ?thesis using inv by (simp add: process_notarization_observed_def)
next
  case (Some c1)
  note A = cslot_at_inv [OF inv Some]
  define c2 where "c2 = (if cn_timeout_slot c1 \<le> cid_slot x + 1
      then let ts = (if (cid_slot x + 1) mod slots_per_leader_window b = 0 then cid_slot x + 1 else cid_slot x + 2)
           in c1\<lparr>cn_timeout_slot := ts, cn_alarm := Some (cn_timeout_base c1 +
                rat_of_nat (ts - cn_current_window c1 * slots_per_leader_window b) * target_rate (cn_params c1))\<rparr>
      else c1)"
  have c2: "cn_state c2 = cn_state c1" "cons_votes c2 = cons_votes c1" "cn_tasks c2 = cn_tasks c1"
      "list_all wait_ok (cn_published c2)"
    using cons_invD(6) [OF A(1)] by (simp_all add: c2_def Let_def)
  have inv2: "cons_inv par J L c2" and held2: "held (cid_slot x) c2"
    using cons_inv_frame [OF A(1) c2] A(2) by (simp_all add: held_def c2)
  let ?c3 = "set_cslot (cid_slot x) ((cslot (cid_slot x) c2)\<lparr>notar_cert := Some x\<rparr>) c2"
  have "cons_inv par J L ?c3" by (rule set_cslot_ok [OF inv2 held2]) auto
  then have "\<exists>c'. try_vote_final (cid_slot x) ?c3 = Inr c' \<and> cons_inv par J L c'"
    using cslot_set_cslot [OF cons_invD(1) [OF inv2] held2] held2 by (intro try_vote_final_ok) auto
  moreover have "process_notarization_observed b x c = try_vote_final (cid_slot x) ?c3"
    by (simp add: process_notarization_observed_def Some c2_def Let_def)
  ultimately show ?thesis by simp
qed

lemma skip_slot_ok:
  assumes inv: "cons_inv par J L c" and i: "held i c" and f: "\<not> voted_final (cslot i c)"
  shows "cons_inv par J L (set_cslot i ((cslot i c)\<lparr>voted_skip := True\<rparr>) (emit (BroadcastVote (Skip i)) c))"
proof -
  note D = cons_invD [OF inv]
  let ?s = "(cslot i c)\<lparr>voted_skip := True\<rparr>"
  show ?thesis
  proof (rule cons_inv_slot [OF inv i, where vs = "[Skip i]"])
    show "votes_ok J (L @ cons_votes c @ [Skip i])" "cslot_ok par (L @ cons_votes c @ [Skip i]) i ?s"
      using cslot_ok_skip [OF D(2) D(3) f] by simp_all
    show "(\<exists>y. pending_block ?s = Some y \<and> (nt_stage t \<noteq> Awaits_parent \<longrightarrow> J (cd_id y))) \<and> voted_notar ?s = None"
      if "t \<in> set (cn_tasks (set_cslot i ?s (emit (BroadcastVote (Skip i)) c)))" "nt_slot t = i" for t
      using D(5) [of t] that by (auto simp: task_ok_def)
  qed (use D(4,6) in \<open>simp_all add: set_cslot_def\<close>)
qed

lemma emit_set_cslot: "emit e (set_cslot i s c) = set_cslot i s (emit e c)"
  by (simp add: emit_def set_cslot_def)

lemma alarm_skips_ok: "cons_inv par J L c \<Longrightarrow> cons_inv par J L (alarm_skips is c)"
proof (induction "is" arbitrary: c)
  case (Cons i "is")
  show ?case
  proof (cases "cslot_at i c")
    case (Some c1)
    note A = cslot_at_inv [OF Cons.prems Some]
    have "cons_inv par J L ((set_cslot i ((cslot i c1)\<lparr>voted_skip := True\<rparr>) (emit (BroadcastVote (Skip i)) c1))
        \<lparr>cn_previous_window_had_skip := True\<rparr>)" if "\<not> voted_final (cslot i c1)"
      using cons_invD(6) [OF A(1)] by (intro cons_inv_frame [OF skip_slot_ok [OF A(1,2) that]]) simp_all
    then show ?thesis using A(1) by (auto simp: Some intro!: Cons.IH)
  qed (use Cons in simp)
qed simp

lemma start_up_skips_ok: "cons_inv par J L c \<Longrightarrow> cons_inv par J L (start_up_skips is c)"
proof (induction "is" arbitrary: c)
  case (Cons i "is")
  show ?case
  proof (cases "cslot_at i c")
    case (Some c1)
    note A = cslot_at_inv [OF Cons.prems Some]
    then show ?thesis
      using skip_slot_ok [OF A(1,2)] by (auto simp: Some emit_set_cslot intro!: Cons.IH)
  qed (use Cons in simp)
qed simp

lemma alarm_ok: "cons_inv par J L c \<Longrightarrow> cons_inv par J L (alarm b c)"
  by (rule cons_inv_frame [OF alarm_skips_ok]) (simp_all add: alarm_def Let_def cons_invD(6) [OF alarm_skips_ok])

lemma handle_leader_window_observed_ok:
  assumes inv: "cons_inv par J L c"
  shows "cons_inv par J L (handle_leader_window_observed b now slot base c)"
  by (rule cons_inv_frame [OF inv]) (simp_all add: handle_leader_window_observed_def Let_def cons_invD(6) [OF inv])

lemma generation_resolved_ok:
  assumes inv: "cons_inv par J L c"
  shows "cons_inv par J L (generation_resolved b base slot c)"
  by (rule cons_inv_frame [OF inv]) (simp_all add: generation_resolved_def cons_invD(6) [OF inv])

lemma handle_finalization_observed_ok:
  assumes "cons_inv par J L c"
  shows "cons_inv par J L (handle_finalization_observed x c)"
proof -
  note D = cons_invD [OF assms]
  let ?c = "handle_finalization_observed x c"
  have view: "cslot j ?c = cslot j c" for j
    by (simp add: handle_finalization_observed_def deref_notify [OF D(1)])
  have "held i ?c" if "held i c" for i
    using that by (auto simp: held_def handle_finalization_observed_def notify_finalized_def Let_def fmdom_filter)
  then have "task_ok J ?c t" if "task_ok J c t" for t
    using that unfolding task_ok_def view by (auto simp: held_def)
  then show ?thesis
    using assms cs_wf_notify [OF D(1)] unfolding cons_inv_def view
    by (simp add: handle_finalization_observed_def)
qed

text \<open>Tasks.\<close>

lemma cons_inv_remove_task:
  assumes inv: "cons_inv par J L c" and t: "t \<in> set (cn_tasks c)"
  defines "c1 \<equiv> c\<lparr>cn_tasks := remove1 t (cn_tasks c)\<rparr>"
  shows "cons_inv par J L c1" "held (nt_slot t) c1" "nt_slot t \<notin> nt_slot ` set (cn_tasks c1)"
    "voted_notar (cslot (nt_slot t) c1) = None"
    "\<exists>x. pending_block (cslot (nt_slot t) c1) = Some x \<and> (nt_stage t \<noteq> Awaits_parent \<longrightarrow> J (cd_id x))"
proof -
  note D = cons_invD [OF inv]
  have dist: "distinct (cn_tasks c)" using D(4) by (simp add: distinct_map)
  have inj: "inj_on nt_slot (set (cn_tasks c))" using D(4) by (simp add: distinct_map)
  have "distinct (map nt_slot (remove1 t (cn_tasks c)))"
    using dist inj by (auto simp: distinct_map intro: inj_on_subset)
  then show "cons_inv par J L c1"
    using inv by (auto simp: cons_inv_def c1_def task_ok_def dist)
  show "nt_slot t \<notin> nt_slot ` set (cn_tasks c1)"
    using inj t dist by (auto simp: c1_def inj_on_def)
  show "held (nt_slot t) c1" "voted_notar (cslot (nt_slot t) c1) = None"
    "\<exists>x. pending_block (cslot (nt_slot t) c1) = Some x \<and> (nt_stage t \<noteq> Awaits_parent \<longrightarrow> J (cd_id x))"
    using D(5) [OF t] by (simp_all add: task_ok_def held_def c1_def)
qed

lemma cons_inv_add_task:
  assumes inv: "cons_inv par J L c" and c: "held (nt_slot t) c" "nt_slot t \<notin> nt_slot ` set (cn_tasks c)"
    "voted_notar (cslot (nt_slot t) c) = None" "pending_block (cslot (nt_slot t) c) = Some x"
    "nt_stage t \<noteq> Awaits_parent \<longrightarrow> J (cd_id x)"
  shows "cons_inv par J L (c\<lparr>cn_tasks := cn_tasks c @ [t]\<rparr>)"
  using assms by (auto simp: cons_inv_def task_ok_def held_def)

lemma cons_inv_emit:
  assumes inv: "cons_inv par J L c" and e: "vote_of e = []" "wait_ok e"
  shows "cons_inv par J L (emit e c)"
  using e by (intro cons_inv_frame [OF inv]) (simp_all add: cons_invD(6) [OF inv])

text \<open>A task that was resumed, in the state without it.\<close>

definition resumed :: "(candidate_id \<Rightarrow> bool) \<Rightarrow> nat \<Rightarrow> consensus \<Rightarrow> bool" where
  "resumed J i c \<longleftrightarrow>
     held i c \<and> i \<notin> nt_slot ` set (cn_tasks c) \<and> voted_notar (cslot i c) = None \<and>
     (\<exists>x. pending_block (cslot i c) = Some x \<and> J (cd_id x))"

lemma start_validation_ok:
  assumes "cons_inv par J L c" "resumed J i c"
  shows "\<exists>c'. start_validation i c = Inr c' \<and> cons_inv par J L c'"
proof -
  obtain x where x: "pending_block (cslot i c) = Some x" "J (cd_id x)" using assms(2) by (auto simp: resumed_def)
  have "cons_inv par J L ((emit (ValidationRequest x) c)\<lparr>cn_tasks := cn_tasks (emit (ValidationRequest x) c) @
      [\<lparr>nt_slot = i, nt_stage = Awaits_validation\<rparr>]\<rparr>)"
    using assms x by (intro cons_inv_add_task [where x = x] cons_inv_emit) (auto simp: resumed_def)
  then show ?thesis by (simp add: start_validation_def pending_of_def x Let_def)
qed

lemma state_resolved_ok:
  assumes "cons_inv par J L c" "resumed J i c"
  shows "\<exists>c'. state_resolved now i t c = Inr c' \<and> cons_inv par J L c'"
proof -
  obtain x where x: "pending_block (cslot i c) = Some x" "J (cd_id x)" using assms(2) by (auto simp: resumed_def)
  have "cons_inv par J L (c\<lparr>cn_tasks := cn_tasks c @ [\<lparr>nt_slot = i, nt_stage = Sleeps\<rparr>]\<rparr>)"
    using assms x by (intro cons_inv_add_task [where x = x]) (auto simp: resumed_def)
  then show ?thesis
    using start_validation_ok [OF assms]
    by (simp add: state_resolved_def pending_of_def x split: option.splits)
qed

lemma validated_ok:
  assumes "cons_inv par J L c" "resumed J i c"
  shows "cons_inv par J L (validated i reject c)"
proof -
  obtain x where "pending_block (cslot i c) = Some x" "J (cd_id x)" using assms(2) by (auto simp: resumed_def)
  then have "cons_inv par J L (c\<lparr>cn_tasks := cn_tasks c @ [\<lparr>nt_slot = i, nt_stage = Awaits_store\<rparr>]\<rparr>)"
    using assms by (intro cons_inv_add_task [where x = x]) (auto simp: resumed_def)
  then show ?thesis using assms(1) by (simp add: validated_def)
qed

lemma candidate_stored_ok:
  assumes inv: "cons_inv par J L c" and r: "resumed J i c"
  shows "\<exists>c'. candidate_stored i c = Inr c' \<and> cons_inv par J L c'"
proof -
  note D = cons_invD [OF inv]
  have i: "held i c" "i \<notin> nt_slot ` set (cn_tasks c)" "voted_notar (cslot i c) = None"
    using r by (auto simp: resumed_def)
  obtain x where x: "pending_block (cslot i c) = Some x" "J (cd_id x)" using r by (auto simp: resumed_def)
  have xi: "cid_slot (cd_id x) = i" using D(3) [of i] x by (simp add: cslot_ok_def)
  let ?s = "(cslot i c)\<lparr>voted_notar := Some (cd_id x)\<rparr>"
  let ?c = "emit (BroadcastVote (Notar (cd_id x))) (set_cslot i ?s c)"
  have "cons_inv par J L ?c"
  proof (rule cons_inv_slot [OF inv i(1), where vs = "[Notar (cd_id x)]"])
    show "votes_ok J (L @ cons_votes c @ [Notar (cd_id x)])" "cslot_ok par (L @ cons_votes c @ [Notar (cd_id x)]) i ?s"
      using cslot_ok_notar [OF D(2) D(3) i(3) xi x(2)] by simp_all
  qed (use D(4,6) i(2) xi in \<open>auto simp: set_cslot_def\<close>)
  then have "\<exists>c'. try_vote_final i ?c = Inr c' \<and> cons_inv par J L c'"
    using cslot_set_cslot [OF D(1) i(1)] i(1) by (intro try_vote_final_ok) auto
  then show ?thesis by (simp add: candidate_stored_def pending_of_def x Let_def)
qed

lemma parent_waited_ok:
  assumes inv: "cons_inv par J L c" and i: "held i c" "i \<notin> nt_slot ` set (cn_tasks c)"
      "voted_notar (cslot i c) = None" "pending_block (cslot i c) = Some x" and j: "m = None \<longrightarrow> J (cd_id x)"
  shows "\<exists>c'. parent_waited i m c = Inr c' \<and> cons_inv par J L c'"
proof (cases m)
  case None
  have "cons_inv par J L ((emit (ResolveState (cd_parent x)) c)\<lparr>cn_tasks := cn_tasks (emit (ResolveState (cd_parent x)) c) @
      [\<lparr>nt_slot = i, nt_stage = Awaits_state\<rparr>]\<rparr>)"
    using assms None by (intro cons_inv_add_task [where x = x] cons_inv_emit) auto
  then show ?thesis by (simp add: parent_waited_def pending_of_def i None Let_def)
next
  case (Some y)
  then show ?thesis using inv by (simp add: parent_waited_def pending_of_def i cons_inv_emit)
qed

lemma start_try_notarize_ok:
  assumes inv: "cons_inv par J L c" and i: "held i c" "voted_notar (cslot i c) = None" "pending_block (cslot i c) = None"
    and x: "cid_slot (cd_id x) = i" "cd_parent x = par (cd_id x)" "\<And>y. cd_parent x = Some y \<Longrightarrow> cid_slot y < i"
  shows "\<exists>c'. start_try_notarize i (set_cslot i ((cslot i c)\<lparr>pending_block := Some x\<rparr>) c) = Inr c' \<and> cons_inv par J L c'"
proof -
  note D = cons_invD [OF inv]
  have new: "nt_slot t \<noteq> i" if "t \<in> set (cn_tasks c)" for t
    using D(5) [OF that] i(3) by (auto simp: task_ok_def)
  let ?s = "(cslot i c)\<lparr>pending_block := Some x\<rparr>"
  let ?c = "set_cslot i ?s c"
  have s: "pending_block (cslot i ?c) = Some x" "voted_notar (cslot i ?c) = None"
    using cslot_set_cslot [OF D(1) i(1)] i(2) by simp_all
  have "cons_inv par J L ?c"
  proof (rule cons_inv_slot [OF inv i(1), where vs = "[]"])
    show "cslot_ok par (L @ cons_votes c @ []) i ?s"
      using D(3) [of i] x by (auto simp: cslot_ok_def)
  qed (use D(2,4,6) new in \<open>auto simp: set_cslot_def\<close>)
  then have "cons_inv par J L ((emit (WaitForParent x) (emit (StoreCandidate x) ?c))\<lparr>cn_tasks :=
      cn_tasks (emit (WaitForParent x) (emit (StoreCandidate x) ?c)) @ [\<lparr>nt_slot = i, nt_stage = Awaits_parent\<rparr>]\<rparr>)"
    using s new i(1) x(3) by (intro cons_inv_add_task [where x = x] cons_inv_emit) (auto simp: x(1))
  then show ?thesis by (simp add: start_try_notarize_def pending_of_def s(1) Let_def)
qed

lemma handle_candidate_received_ok:
  assumes inv: "cons_inv par J L c" and x: "cd_parent x = par (cd_id x)"
  shows "\<exists>c'. handle_candidate_received b x c = Inr c' \<and> cons_inv par J L c'"
proof (cases "cslot_at (cid_slot (cd_id x)) c")
  case None
  then show ?thesis using inv by (simp add: handle_candidate_received_def Let_def)
next
  case (Some c1)
  note A = cslot_at_inv [OF inv Some]
  have "\<exists>c'. start_try_notarize (cid_slot (cd_id x)) (set_cslot (cid_slot (cd_id x))
      ((cslot (cid_slot (cd_id x)) c1)\<lparr>pending_block := Some x\<rparr>) c1) = Inr c' \<and> cons_inv par J L c'"
    if "voted_notar (cslot (cid_slot (cd_id x)) c1) = None" "pending_block (cslot (cid_slot (cd_id x)) c1) = None"
      "\<not> (case cd_parent x of None \<Rightarrow> False | Some y \<Rightarrow> cid_slot (cd_id x) \<le> cid_slot y)"
    using that x by (intro start_try_notarize_ok [OF A(1,2)]) (auto split: option.splits)
  then show ?thesis using inv A(1)
    by (simp add: handle_candidate_received_def Some Let_def)
qed

text \<open>What the actor relies on: candidates carry the parent their hash covers, and a wait that
  succeeds means that the candidate is justified.\<close>

fun cons_input_ok :: "(candidate_id \<Rightarrow> parent_id) \<Rightarrow> (candidate_id \<Rightarrow> bool) \<Rightarrow> consensus \<Rightarrow> cons_input \<Rightarrow> bool" where
  "cons_input_ok par J c (Candidate_received x) \<longleftrightarrow> cd_parent x = par (cd_id x)"
| "cons_input_ok par J c (Parent_waited i None) \<longleftrightarrow> (\<forall>x. pending_block (cslot i c) = Some x \<longrightarrow> J (cd_id x))"
| "cons_input_ok par J c _ \<longleftrightarrow> True"

lemma resume_ok:
  assumes inv: "cons_inv par J L c" and st: "st \<noteq> Awaits_parent"
    and f: "\<And>c. cons_inv par J L c \<Longrightarrow> resumed J i c \<Longrightarrow> \<exists>c'. f c = Inr c' \<and> cons_inv par J L c'"
  shows "\<exists>c'. resume i st f c = Inr c' \<and> cons_inv par J L c'"
proof (cases "\<lparr>nt_slot = i, nt_stage = st\<rparr> \<in> set (cn_tasks c)")
  case True
  note R = cons_inv_remove_task [OF inv True]
  show ?thesis using f [OF R(1)] R(2-5) st True by (simp add: resume_def resumed_def)
qed (use inv in \<open>simp add: resume_def\<close>)

lemma cons_step_ok:
  assumes inv: "cons_inv par J L c" and x: "cons_input_ok par J c x"
  shows "\<exists>c'. cons_step b x c = Inr c' \<and> cons_inv par J L c'"
proof (cases x)
  case (Parent_waited i m)
  show ?thesis
  proof (cases "\<lparr>nt_slot = i, nt_stage = Awaits_parent\<rparr> \<in> set (cn_tasks c)")
    case True
    note R = cons_inv_remove_task [OF inv True]
    obtain y where y: "pending_block (cslot i c) = Some y" using R(5) by auto
    have "m = None \<longrightarrow> J (cd_id y)" using x y Parent_waited by auto
    then show ?thesis
      using parent_waited_ok [OF R(1), of i y m] R(2-4) y True Parent_waited by (simp add: resume_def)
  qed (use inv Parent_waited in \<open>simp add: resume_def\<close>)
next
  case (Task_failed i)
  have "distinct (map nt_slot (filter (\<lambda>t. nt_slot t \<noteq> i) (cn_tasks c)))"
    using cons_invD(4) [OF inv] by (simp add: distinct_map_filter)
  then show ?thesis using inv Task_failed by (auto simp: cons_inv_def task_ok_def)
next
  case (Alarm now)
  then show ?thesis
    using inv alarm_ok [OF cons_inv_frame [OF inv, of "c\<lparr>cn_alarm := None\<rparr>"]] cons_invD(6) [OF inv]
    by (auto split: option.splits)
next
  case (Candidate_received y)
  then show ?thesis using handle_candidate_received_ok [OF inv, of y b] x by simp
next
  case (State_resolved now i t)
  then show ?thesis using resume_ok [OF inv, of Awaits_state i "state_resolved now i t"] state_resolved_ok by auto
next
  case (Woken i)
  then show ?thesis using resume_ok [OF inv, of Sleeps i "start_validation i"] start_validation_ok by auto
next
  case (Validated i reject)
  then show ?thesis using resume_ok [OF inv, of Awaits_validation i "\<lambda>c. Inr (validated i reject c)"] validated_ok by auto
next
  case (Candidate_stored i)
  then show ?thesis using resume_ok [OF inv, of Awaits_store i "candidate_stored i"] candidate_stored_ok by auto
next
  case (Generation_resolved k)
  have "cons_inv par J L (c\<lparr>cn_generations := remove_nth k (cn_generations c)\<rparr>)"
    by (rule cons_inv_frame [OF inv]) (simp_all add: cons_invD(6) [OF inv])
  then show ?thesis using Generation_resolved inv generation_resolved_ok by simp
next
  case (Params_updated ps)
  then show ?thesis using cons_inv_frame [OF inv, of "c\<lparr>cn_params := ps\<rparr>"] cons_invD(6) [OF inv] by simp
next
  case (Generation_failed k)
  then show ?thesis
    using cons_inv_frame [OF inv, of "c\<lparr>cn_generations := remove_nth k (cn_generations c)\<rparr>"]
      cons_invD(6) [OF inv] by simp
next
  case (Finalization_observed y)
  then show ?thesis using handle_finalization_observed_ok [OF inv] by simp
next
  case (Notarization_observed y)
  then show ?thesis using process_notarization_observed_ok [OF inv] by simp
next
  case (Leader_window_observed now slot base)
  then show ?thesis using handle_leader_window_observed_ok [OF inv] by simp
qed

section \<open>Start up\<close>

text \<open>Votes of a disciplined log are all restored.\<close>

lemma restore_vote_ok:
  assumes ok: "votes_ok J (W @ [v])" and s: "cslot_ok par W (referenced_slot v) s"
  shows "cslot_ok par (W @ [v]) (referenced_slot v) (restore_vote v s)"
proof -
  have nc: "\<not> conflicting w v" if "w \<in> set W" for w
    using ok that by (simp add: votes_ok_def)
  show ?thesis
  proof (cases v rule: vote_exhaust_ids)
    case (1 c)
    have same: "d = c" if "cid_slot d = cid_slot c" "Notar d \<in> set W" for d
      using nc [OF that(2)] that(1) 1 by simp
    have "voted_notar s = None \<or> voted_notar s = Some c"
    proof (cases "voted_notar s")
      case (Some d)
      then have "cid_slot d = cid_slot c \<and> Notar d \<in> set W" using s 1 unfolding cslot_ok_def by simp
      then show ?thesis using same Some by blast
    qed simp
    then have "restore_vote v s = s\<lparr>voted_notar := Some c\<rparr>" using 1 by auto
    moreover have "Some c = Some d \<longleftrightarrow> cid_slot d = cid_slot c \<and> Notar d \<in> set (W @ [Notar c])" for d
      using same [of d] by auto
    ultimately show ?thesis using s by (simp add: cslot_ok_def 1)
  next
    case (2 c)
    have "Notar c \<in> set W" using ok 2 by (auto simp: votes_ok_def)
    then have "voted_notar s = Some c" using s 2 unfolding cslot_ok_def by simp
    moreover have "\<not> voted_skip s" using nc [of "Skip (cid_slot c)"] s 2 by (auto simp: cslot_ok_def)
    ultimately show ?thesis using s 2 by (auto simp: cslot_ok_def)
  next
    case (3 i)
    have "\<not> voted_final s" using nc s 3 by (fastforce simp: cslot_ok_def)
    then show ?thesis using s 3 by (auto simp: cslot_ok_def)
  qed
qed

lemma restore_votes_ok:
  assumes "cons_inv par J W c" "cn_tasks c = []" "cons_votes c = []" "cs_first (cn_state c) = 0" "votes_ok J (W @ vs)"
  shows "cons_inv par J (W @ vs) (restore_votes vs c)"
  using assms
proof (induction vs arbitrary: W c)
  case (Cons v vs)
  let ?i = "referenced_slot v"
  obtain c1 where c1: "cslot_at ?i c = Some c1"
    using Cons.prems(4) by (auto simp: cslot_at_def) (metis less_zeroE option.exhaust slot_at_None_iff)
  note A = cslot_at_inv [OF Cons.prems(1) c1]
  let ?c = "set_cslot ?i (restore_vote v (cslot ?i c1)) c1"
  have ok: "votes_ok J (W @ [v])" using votes_ok_prefix [of J "W @ [v]" vs] Cons.prems(5) by simp
  have first: "cs_first (cn_state c1) = 0"
    using c1 Cons.prems(4) by (auto simp: cslot_at_def dest: slot_at_Some(3))
  have slot: "cslot_ok par (W @ [v]) j (cslot j ?c)" for j
    using cslot_set_cslot [OF cons_invD(1) [OF A(1)] A(2)] cons_invD(3) [OF A(1)] A(5) Cons.prems(3)
      restore_vote_ok [OF ok] cslot_ok_other [of par W j "cslot j c1" "[v]"] by auto
  have "cons_inv par J (W @ [v]) ?c"
    using cs_wf_set_cslot [OF cons_invD(1) [OF A(1)] A(2)] slot ok A(4,5) Cons.prems(2,3)
      cons_invD(6) [OF A(1)] by (simp add: cons_inv_def)
  then have "cons_inv par J ((W @ [v]) @ vs) (restore_votes vs ?c)"
    using A(4,5) Cons.prems first by (intro Cons.IH) simp_all
  then show ?case by (simp add: c1)
qed simp

lemma cons_start_up_ok:
  assumes "votes_ok J (bootstrap_votes b)"
  shows "cons_inv par J (bootstrap_votes b) (cons_start_up b ps)"
proof -
  have "cons_inv par J [] (cons_init ps)"
    by (simp add: cons_inv_def cons_init_def cons_votes_def cslot_ok_def fresh_cons_slot_def)
  then have "cons_inv par J ([] @ bootstrap_votes b) (restore_votes (bootstrap_votes b) (cons_init ps))"
    using assms by (intro restore_votes_ok) (simp_all add: cons_init_def cons_votes_def)
  then show ?thesis using start_up_skips_ok by (simp add: cons_start_up_def Let_def)
qed

lemma cons_inv_mono:
  "cons_inv par J L c \<Longrightarrow> (\<And>x. J x \<Longrightarrow> J' x) \<Longrightarrow> cons_inv par J' L c"
  unfolding cons_inv_def task_ok_def using votes_ok_mono by blast

section \<open>What was published stays published\<close>

lemma prefix_emit [intro]: "prefix xs (cn_published c) \<Longrightarrow> prefix xs (cn_published (emit e c))"
  by (simp add: emit_def)

lemma cslot_at_published: "cslot_at i c = Some c' \<Longrightarrow> cn_published c' = cn_published c"
  by (auto simp: cslot_at_def)

lemma try_vote_final_prefix:
  "try_vote_final i c = Inr c' \<Longrightarrow> prefix (cn_published c) (cn_published c')"
  by (auto simp: try_vote_final_def Let_def rsimps split: if_splits option.splits)

lemma process_notarization_observed_prefix:
  assumes "process_notarization_observed b x c = Inr c'"
  shows "prefix (cn_published c) (cn_published c')"
proof (cases "cslot_at (cid_slot x) c")
  case (Some c1)
  then show ?thesis
    using assms cslot_at_published [OF Some]
    by (auto simp: process_notarization_observed_def Let_def dest!: try_vote_final_prefix split: if_splits)
qed (use assms in \<open>simp add: process_notarization_observed_def\<close>)

lemma alarm_skips_prefix: "prefix (cn_published c) (cn_published (alarm_skips is c))"
proof (induction "is" arbitrary: c)
  case (Cons i "is")
  show ?case
  proof (cases "cslot_at i c")
    case (Some c1)
    define c2 where "c2 = (if voted_final (cslot i c1) then c1
      else (set_cslot i ((cslot i c1)\<lparr>voted_skip := True\<rparr>) (emit (BroadcastVote (Skip i)) c1))
        \<lparr>cn_previous_window_had_skip := True\<rparr>)"
    have "prefix (cn_published c) (cn_published c2)"
      using cslot_at_published [OF Some] by (simp add: c2_def)
    then show ?thesis using Cons [of c2] by (auto simp: Some c2_def)
  qed (simp add: Cons)
qed simp

lemma handle_candidate_received_prefix:
  "handle_candidate_received b x c = Inr c' \<Longrightarrow> prefix (cn_published c) (cn_published c')"
  by (auto simp: handle_candidate_received_def start_try_notarize_def pending_of_def Let_def rsimps
      dest!: cslot_at_published split: if_splits option.splits)

lemma resume_prefix:
  assumes "resume i st f c = Inr c'"
    and "\<And>c c'. f c = Inr c' \<Longrightarrow> prefix (cn_published c) (cn_published c')"
  shows "prefix (cn_published c) (cn_published c')"
  using assms(1) assms(2) [of "c\<lparr>cn_tasks := remove1 \<lparr>nt_slot = i, nt_stage = st\<rparr> (cn_tasks c)\<rparr>" c']
  by (auto simp: resume_def split: if_splits)

lemma stage_prefix:
  "parent_waited i m c = Inr c' \<Longrightarrow> prefix (cn_published c) (cn_published c')"
  "start_validation i c = Inr c' \<Longrightarrow> prefix (cn_published c) (cn_published c')"
  "state_resolved now i t c = Inr c' \<Longrightarrow> prefix (cn_published c) (cn_published c')"
  "Inr (validated i reject c) = (Inr c' :: abort + consensus) \<Longrightarrow> prefix (cn_published c) (cn_published c')"
  by (auto simp: parent_waited_def start_validation_def state_resolved_def validated_def pending_of_def Let_def rsimps
      split: option.splits if_splits)

lemma candidate_stored_prefix:
  assumes "candidate_stored i c = Inr c'"
  shows "prefix (cn_published c) (cn_published c')"
proof -
  obtain x :: candidate where "try_vote_final i (emit (BroadcastVote (Notar (cd_id x)))
      (set_cslot i ((cslot i c)\<lparr>voted_notar := Some (cd_id x)\<rparr>) c)) = Inr c'"
    using assms unfolding candidate_stored_def rbind_eq_Inr_iff Let_def by blast
  from try_vote_final_prefix [OF this] show ?thesis by (auto dest: append_prefixD)
qed

lemma cons_step_prefix:
  assumes "cons_step b x c = Inr c'"
  shows "prefix (cn_published c) (cn_published c')"
proof (cases x)
  case (Alarm now)
  then show ?thesis
    using assms alarm_skips_prefix [of "c\<lparr>cn_alarm := None\<rparr>"] by (auto simp: alarm_def Let_def split: option.splits if_splits)
next
  case (Notarization_observed y)
  then show ?thesis using assms process_notarization_observed_prefix by simp
next
  case (Candidate_received y)
  then show ?thesis using assms handle_candidate_received_prefix by simp
next
  case (Leader_window_observed now slot base)
  then show ?thesis using assms by (auto simp: handle_leader_window_observed_def Let_def)
next
  case (Validated i reject)
  then have "resume i Awaits_validation (\<lambda>c. Inr (validated i reject c)) c = Inr c'" using assms by simp
  then show ?thesis by (rule resume_prefix [OF _ stage_prefix(4)])
qed (use assms resume_prefix [OF _ stage_prefix(1)] resume_prefix [OF _ stage_prefix(2)] resume_prefix [OF _ stage_prefix(3)]
      resume_prefix [OF _ candidate_stored_prefix]
     in \<open>auto simp: handle_finalization_observed_def generation_resolved_def split: if_splits\<close>)

end
