(* ===== verification/Simplex_Pool_Inv.thy ===== *)
theory Simplex_Pool_Inv
  imports Simplex_Slot_Inv
begin

text \<open>
  The invariant of the pool and that no handler aborts.  The invariant is the conjunction of
  the invariant of every slot, of the certificates that wait to be saved, of the bookkeeping
  (skip intervals, available bases, the present slot), of the last finalised block, and of
  the events that were published.  A step that only creates slots, moves the present or
  publishes events is called quiet.
\<close>

section \<open>The invariant\<close>

abbreviation sk :: "bus \<Rightarrow> pool \<Rightarrow> nat \<Rightarrow> bool" where "sk b p \<equiv> \<lambda>i. is_skipped (slot_of b i p)"
abbreviation nt :: "bus \<Rightarrow> pool \<Rightarrow> nat \<Rightarrow> bool" where "nt b p \<equiv> \<lambda>i. is_notarized (slot_of b i p)"
abbreviation hb :: "bus \<Rightarrow> pool \<Rightarrow> nat \<Rightarrow> bool" where
  "hb b p \<equiv> \<lambda>i. ss_available_base (slot_of b i p) \<noteq> None"
abbreviation pl_first :: "pool \<Rightarrow> nat" where "pl_first p \<equiv> cs_first (pl_state p)"

definition present :: "nat \<Rightarrow> pool \<Rightarrow> bool" where
  "present i p \<longleftrightarrow> i \<in> fset (fmdom (cs_slots (pl_state p)))"

definition flag_awaiting :: "'t cert_and_flag \<Rightarrow> bool" where
  "flag_awaiting f \<longleftrightarrow> being_saved f \<and> stored_cert f = None"

fun awaiting :: "certificate_bundle \<Rightarrow> vote \<Rightarrow> bool" where
  "awaiting cb (VNotarize _) = flag_awaiting (cb_notar cb)"
| "awaiting cb (VSkip _) = flag_awaiting (cb_skip cb)"
| "awaiting cb (VFinalize _) = flag_awaiting (cb_final cb)"

fun vote_key :: "vote \<Rightarrow> nat \<times> nat" where
  "vote_key (VNotarize v) = (0, cid_slot (nv_id v))"
| "vote_key (VSkip v) = (1, sv_slot v)"
| "vote_key (VFinalize v) = (2, cid_slot (fv_id v))"

definition slots_inv :: "bus \<Rightarrow> votes \<Rightarrow> pool \<Rightarrow> bool" where
  "slots_inv b K p \<longleftrightarrow>
     cs_wf (pl_state p) \<and> pl_weight_threshold p = required_weight b \<and>
     (\<forall>i. slot_ok b K i (slot_of b i p))"

definition saving_inv :: "bus \<Rightarrow> votes \<Rightarrow> pool \<Rightarrow> bool" where
  "saving_inv b K p \<longleftrightarrow>
     distinct (map (\<lambda>c. vote_key (ct_vote c)) (pl_saving p)) \<and>
     (\<forall>c\<in>set (pl_saving p).
        cert_good b K (ct_vote c) (ct_signatures c) \<and>
        (pl_first p \<le> referenced_slot (ct_vote c) \<longrightarrow>
           awaiting (ss_certs (slot_of b (referenced_slot (ct_vote c)) p)) (ct_vote c)))"

definition present_inv :: "bus \<Rightarrow> nat \<Rightarrow> pool \<Rightarrow> bool" where
  "present_inv b F p \<longleftrightarrow>
     bases_ok F (sk b p) (nt b p) (hb b p) \<and>
     F \<le> pl_now p \<and> (\<forall>i. F \<le> i \<and> i < pl_now p \<longrightarrow> nt b p i \<or> sk b p i)"

definition track_inv :: "bus \<Rightarrow> nat \<Rightarrow> pool \<Rightarrow> bool" where
  "track_inv b F p \<longleftrightarrow> skip_ok F (sk b p) (pl_skip_intervals p) \<and> present_inv b F p"

definition final_inv :: "bus \<Rightarrow> votes \<Rightarrow> pool \<Rightarrow> bool" where
  "final_inv b K p \<longleftrightarrow>
     (case pl_last_finalized_block p of
        None \<Rightarrow> pl_first_nonfinalized_slot p = 0
      | Some c \<Rightarrow> pl_first_nonfinalized_slot p = cid_slot c + 1 \<and> quorum b K (Final c))"

text \<open>What a published event promises to its receiver.\<close>

definition parent_justified :: "bus \<Rightarrow> votes \<Rightarrow> request \<Rightarrow> bool" where
  "parent_justified b K r \<longleftrightarrow> base_ok b K (cid_slot (rq_id r)) (rq_parent r)"

fun event_ok :: "bus \<Rightarrow> votes \<Rightarrow> event \<Rightarrow> bool" where
  "event_ok b K (NotarizationObserved c _) \<longleftrightarrow> quorum b K (Notar c)"
| "event_ok b K (FinalizationObserved c _) \<longleftrightarrow> quorum b K (Final c)"
| "event_ok b K (LeaderWindowObserved slot base) \<longleftrightarrow> base_ok b K slot base"
| "event_ok b K (RequestResolved r Parent_ok) \<longleftrightarrow> parent_justified b K r"
| "event_ok b K (SaveCertificate c) \<longleftrightarrow> cert_good b K (ct_vote c) (ct_signatures c)"
| "event_ok b K (OutgoingProtocolMessage (TlCertificate v sigs)) \<longleftrightarrow> cert_good b K v sigs"
| "event_ok b K _ \<longleftrightarrow> True"

definition events_inv :: "bus \<Rightarrow> votes \<Rightarrow> pool \<Rightarrow> bool" where
  "events_inv b K p \<longleftrightarrow> (\<forall>e\<in>set (pl_published p). event_ok b K e)"

text \<open>The requests that wait for their parent, and our own votes that wait for the keyring.\<close>

definition tasks_inv :: "bus \<Rightarrow> votes \<Rightarrow> pool \<Rightarrow> bool" where
  "tasks_inv b K p \<longleftrightarrow>
     (\<forall>r\<in>set (pl_requests p). \<forall>c. rq_parent r = Some c \<longrightarrow> cid_slot c < cid_slot (rq_id r)) \<and>
     (\<forall>x\<in>set (pl_signing p). (pv_idx (local_id b), fst x) \<in> K)"

definition pool_inv :: "bus \<Rightarrow> votes \<Rightarrow> pool \<Rightarrow> bool" where
  "pool_inv b K p \<longleftrightarrow>
     slots_inv b K p \<and> saving_inv b K p \<and> track_inv b (pl_first p) p \<and> final_inv b K p \<and>
     events_inv b K p \<and> tasks_inv b K p \<and> pl_first p = pl_first_nonfinalized_slot p"

section \<open>Quiet steps\<close>

lemma slot_of_update [simp]:
  "slot_of b i (p\<lparr>pl_suppress_certificate_broadcast := x_0\<rparr>) = slot_of b i p"
  "slot_of b i (p\<lparr>pl_is_started := x_1\<rparr>) = slot_of b i p"
  "slot_of b i (p\<lparr>pl_now := x_2\<rparr>) = slot_of b i p"
  "slot_of b i (p\<lparr>pl_skip_intervals := x_3\<rparr>) = slot_of b i p"
  "slot_of b i (p\<lparr>pl_first_nonannounced_window := x_4\<rparr>) = slot_of b i p"
  "slot_of b i (p\<lparr>pl_last_finalized_block := x_5\<rparr>) = slot_of b i p"
  "slot_of b i (p\<lparr>pl_last_final_cert := x_6\<rparr>) = slot_of b i p"
  "slot_of b i (p\<lparr>pl_first_nonfinalized_slot := x_7\<rparr>) = slot_of b i p"
  "slot_of b i (p\<lparr>pl_bad_signature_bans := x_8\<rparr>) = slot_of b i p"
  "slot_of b i (p\<lparr>pl_requests := x_9\<rparr>) = slot_of b i p"
  "slot_of b i (p\<lparr>pl_seen_broadcasts := x_10\<rparr>) = slot_of b i p"
  "slot_of b i (p\<lparr>pl_saving := x_11\<rparr>) = slot_of b i p"
  "slot_of b i (p\<lparr>pl_signing := x_12\<rparr>) = slot_of b i p"
  "slot_of b i (p\<lparr>pl_published := x_13\<rparr>) = slot_of b i p"
  by (simp_all add: slot_of_def)

lemma present_update [simp]:
  "present i (p\<lparr>pl_suppress_certificate_broadcast := x_0\<rparr>) = present i p"
  "present i (p\<lparr>pl_is_started := x_1\<rparr>) = present i p"
  "present i (p\<lparr>pl_now := x_2\<rparr>) = present i p"
  "present i (p\<lparr>pl_skip_intervals := x_3\<rparr>) = present i p"
  "present i (p\<lparr>pl_first_nonannounced_window := x_4\<rparr>) = present i p"
  "present i (p\<lparr>pl_last_finalized_block := x_5\<rparr>) = present i p"
  "present i (p\<lparr>pl_last_final_cert := x_6\<rparr>) = present i p"
  "present i (p\<lparr>pl_first_nonfinalized_slot := x_7\<rparr>) = present i p"
  "present i (p\<lparr>pl_bad_signature_bans := x_8\<rparr>) = present i p"
  "present i (p\<lparr>pl_requests := x_9\<rparr>) = present i p"
  "present i (p\<lparr>pl_seen_broadcasts := x_10\<rparr>) = present i p"
  "present i (p\<lparr>pl_saving := x_11\<rparr>) = present i p"
  "present i (p\<lparr>pl_signing := x_12\<rparr>) = present i p"
  "present i (p\<lparr>pl_published := x_13\<rparr>) = present i p"
  by (simp_all add: present_def)


definition quiet :: "bus \<Rightarrow> pool \<Rightarrow> pool \<Rightarrow> bool" where
  "quiet b p p' \<longleftrightarrow>
     cs_wf (pl_state p') \<and> pl_first p' = pl_first p \<and>
     (\<forall>i. slot_of b i p' = slot_of b i p) \<and> (\<forall>i. present i p \<longrightarrow> present i p') \<and>
     pl_weight_threshold p' = pl_weight_threshold p \<and>
     pl_suppress_certificate_broadcast p' = pl_suppress_certificate_broadcast p \<and>
     pl_is_started p' = pl_is_started p \<and>
     pl_skip_intervals p' = pl_skip_intervals p \<and>
     pl_last_finalized_block p' = pl_last_finalized_block p \<and>
     pl_last_final_cert p' = pl_last_final_cert p \<and>
     pl_first_nonfinalized_slot p' = pl_first_nonfinalized_slot p \<and>
     pl_bad_signature_bans p' = pl_bad_signature_bans p \<and>
     pl_requests p' = pl_requests p \<and>
     pl_seen_broadcasts p' = pl_seen_broadcasts p \<and>
     pl_saving p' = pl_saving p \<and>
     pl_signing p' = pl_signing p"

lemma quiet_fields:
  assumes "quiet b p p'"
  shows "cs_wf (pl_state p')" "pl_first p' = pl_first p" "slot_of b i p' = slot_of b i p"
    "present i p \<Longrightarrow> present i p'"
    "pl_weight_threshold p' = pl_weight_threshold p"
    "pl_suppress_certificate_broadcast p' = pl_suppress_certificate_broadcast p"
    "pl_is_started p' = pl_is_started p"
    "pl_skip_intervals p' = pl_skip_intervals p"
    "pl_last_finalized_block p' = pl_last_finalized_block p"
    "pl_last_final_cert p' = pl_last_final_cert p"
    "pl_first_nonfinalized_slot p' = pl_first_nonfinalized_slot p"
    "pl_bad_signature_bans p' = pl_bad_signature_bans p"
    "pl_requests p' = pl_requests p"
    "pl_seen_broadcasts p' = pl_seen_broadcasts p"
    "pl_saving p' = pl_saving p"
    "pl_signing p' = pl_signing p"
  using assms by (simp_all add: quiet_def)

lemma quiet_refl: "cs_wf (pl_state p) \<Longrightarrow> quiet b p p"
  by (simp add: quiet_def)

lemma quiet_trans: "quiet b p q \<Longrightarrow> quiet b q r \<Longrightarrow> quiet b p r"
  by (simp add: quiet_def)

lemma quiet_publish: "cs_wf (pl_state p) \<Longrightarrow> quiet b p (publish e p)"
  by (simp add: quiet_def publish_def slot_of_def present_def)

lemma pool_slot_at_None: "pool_slot_at b i p = None \<longleftrightarrow> i < pl_first p"
  by (simp add: pool_slot_at_def)

lemma pool_slot_at_Some:
  assumes "pool_slot_at b i p = Some p'" "cs_wf (pl_state p)"
  shows "quiet b p p'" "present i p'" "pl_first p \<le> i" "pl_published p' = pl_published p" "pl_now p' = pl_now p"
proof -
  obtain st where st: "slot_at (fresh_slot b) i (pl_state p) = Some st" "p' = p\<lparr>pl_state := st\<rparr>"
    using assms(1) by (auto simp: pool_slot_at_def)
  note s = slot_at_Some [OF st(1)]
  have "present j p \<Longrightarrow> present j p'" for j
    using st by (auto simp: present_def slot_at_def split: if_splits option.splits)
  then show "quiet b p p'"
    using s(3) s(4) [OF assms(2)] s(5) [OF assms(2)] st(2)
    by (simp add: quiet_def slot_of_def)
  show "present i p'" "pl_first p \<le> i" "pl_published p' = pl_published p" "pl_now p' = pl_now p"
    using s(1,2) st(2) by (simp_all add: present_def)
qed

lemma get_slot_at_ok:
  assumes "pl_first p \<le> i" "cs_wf (pl_state p)"
  obtains p' where "get_slot_at b i p = Inr p'" "quiet b p p'" "present i p'"
    "pl_published p' = pl_published p" "pl_now p' = pl_now p"
proof -
  obtain p' where p': "pool_slot_at b i p = Some p'"
    using assms(1) by (cases "pool_slot_at b i p") (auto simp: pool_slot_at_None)
  show thesis
    by (rule that [of p']) (use pool_slot_at_Some [OF p' assms(2)] p' in \<open>simp_all add: get_slot_at_def\<close>)
qed

lemma slot_of_set_slot:
  assumes "cs_wf (pl_state p)" "present i p"
  shows "slot_of b j (set_slot i s p) = (if j = i then s else slot_of b j p)"
  using assms by (simp add: slot_of_def set_slot_def deref_assign present_def)

lemma set_slot_simps [simp]:
  "pl_first (set_slot i s p) = pl_first p" "present j (set_slot i s p) = present j p"
  "pl_published (set_slot i s p) = pl_published p" "pl_now (set_slot i s p) = pl_now p"
  "pl_weight_threshold (set_slot i s p) = pl_weight_threshold p"
  "pl_skip_intervals (set_slot i s p) = pl_skip_intervals p"
  "pl_last_finalized_block (set_slot i s p) = pl_last_finalized_block p"
  "pl_first_nonfinalized_slot (set_slot i s p) = pl_first_nonfinalized_slot p"
  "pl_requests (set_slot i s p) = pl_requests p" "pl_saving (set_slot i s p) = pl_saving p"
  "pl_signing (set_slot i s p) = pl_signing p" "pl_is_started (set_slot i s p) = pl_is_started p"
  by (simp_all add: set_slot_def present_def)

lemma cs_wf_set_slot: "cs_wf (pl_state p) \<Longrightarrow> present i p \<Longrightarrow> cs_wf (pl_state (set_slot i s p))"
  by (simp add: set_slot_def cs_wf_assign present_def)

lemma slots_inv_quiet: "slots_inv b K p \<Longrightarrow> quiet b p p' \<Longrightarrow> slots_inv b K p'"
  by (simp add: slots_inv_def quiet_fields)

lemma saving_inv_quiet: "saving_inv b K p \<Longrightarrow> quiet b p p' \<Longrightarrow> saving_inv b K p'"
  by (simp add: saving_inv_def quiet_fields)

lemma track_inv_quiet:
  "track_inv b F p \<Longrightarrow> quiet b p p' \<Longrightarrow> pl_now p' = pl_now p \<Longrightarrow> track_inv b F p'"
  by (simp add: track_inv_def present_inv_def quiet_fields)

lemma pool_inv_quiet:
  assumes "pool_inv b K p" "quiet b p p'" "track_inv b (pl_first p) p'" "events_inv b K p'"
  shows "pool_inv b K p'"
  using assms slots_inv_quiet [OF _ assms(2)] saving_inv_quiet [OF _ assms(2)]
  by (simp add: pool_inv_def final_inv_def tasks_inv_def quiet_fields [OF assms(2)] split: option.splits)

lemma pool_invD:
  assumes "pool_inv b K p"
  shows "slots_inv b K p" "saving_inv b K p" "track_inv b (pl_first p) p" "final_inv b K p"
    "events_inv b K p" "tasks_inv b K p" "pl_first_nonfinalized_slot p = pl_first p"
  using assms by (auto simp: pool_inv_def)

lemma pool_inv_wf: "pool_inv b K p \<Longrightarrow> cs_wf (pl_state p)"
  by (simp add: pool_inv_def slots_inv_def)

lemma pool_inv_quiet':
  assumes "pool_inv b K p" "quiet b p p'" "pl_now p' = pl_now p" "pl_published p' = pl_published p"
  shows "pool_inv b K p'"
proof (rule pool_inv_quiet [OF assms(1,2)])
  show "track_inv b (pl_first p) p'" by (rule track_inv_quiet [OF pool_invD(3) [OF assms(1)] assms(2,3)])
  show "events_inv b K p'" using pool_invD(5) [OF assms(1)] assms(4) by (simp add: events_inv_def)
qed

section \<open>The present\<close>

lemma advance_now_spec:
  "i \<le> advance_now slots i \<and> \<not> passed slots (advance_now slots i) \<and>
   (\<forall>k. i \<le> k \<and> k < advance_now slots i \<longrightarrow> passed slots k)"
proof (induction slots i rule: advance_now.induct)
  case (1 slots i)
  show ?case
  proof (cases "passed slots i")
    case True
    then have eq: "advance_now slots i = advance_now slots (Suc i)" by (simp add: advance_now.simps)
    have "passed slots k" if "i \<le> k" "k < advance_now slots (Suc i)" for k
      using 1 [OF True] that True by (cases "k = i") auto
    then show ?thesis using 1 [OF True] by (simp add: eq)
  next
    case False
    then have "advance_now slots i = i" by (simp add: advance_now.simps)
    then show ?thesis using False by auto
  qed
qed

lemma passed_view:
  assumes "cs_wf (pl_state p)" "pl_first p \<le> k"
  shows "passed (cs_slots (pl_state p)) k \<longleftrightarrow> nt b p k \<or> sk b p k"
  using cs_wfD(3) [OF assms]
  by (auto simp: passed_def slot_of_def deref_def fresh_slot_def is_notarized_def is_skipped_def
      empty_bundle_def no_cert_def split: option.splits)

lemma advance_present_ok:
  assumes wf: "cs_wf (pl_state p)" and slots: "slots_inv b K p" and pres: "present_inv b F p"
    and F: "pl_first p \<le> F"
  obtains p' where "advance_present b p = Inr p'" "quiet b p p'" "present_inv b F p'"
    "\<And>e. e \<in> set (pl_published p') \<Longrightarrow> e \<in> set (pl_published p) \<or> event_ok b K e"
proof (cases "pl_is_started p")
  case False
  then show thesis using pres quiet_refl [OF wf] by (intro that [of p]) (auto simp: advance_present_def)
next
  case True
  have now: "F \<le> pl_now p" using pres by (simp add: present_inv_def)
  obtain p1 where p1: "get_slot_at b (pl_now p) p = Inr p1" "quiet b p p1" "pl_published p1 = pl_published p"
      "pl_now p1 = pl_now p"
    using get_slot_at_ok [of p "pl_now p" b] now F wf by (metis order_trans)
  define n where "n = advance_now (cs_slots (pl_state p1)) (pl_now p)"
  define p2 where "p2 = p1\<lparr>pl_now := n\<rparr>"
  have n: "pl_now p \<le> n" "\<not> nt b p n" "\<not> sk b p n" "\<And>k. pl_now p \<le> k \<Longrightarrow> k < n \<Longrightarrow> nt b p k \<or> sk b p k"
  proof -
    have view: "passed (cs_slots (pl_state p1)) k \<longleftrightarrow> nt b p k \<or> sk b p k" if "pl_now p \<le> k" for k
      using passed_view [of p1 k b] quiet_fields(1-3) [OF p1(2)] that now F by simp
    show "pl_now p \<le> n" "\<not> nt b p n" "\<not> sk b p n" "\<And>k. pl_now p \<le> k \<Longrightarrow> k < n \<Longrightarrow> nt b p k \<or> sk b p k"
      using advance_now_spec [of "pl_now p" "cs_slots (pl_state p1)"] view unfolding n_def by auto
  qed
  have before: "nt b p k \<or> sk b p k" if "F \<le> k" "k < n" for k
    using n(4) [of k] that pres by (cases "k < pl_now p") (auto simp: present_inv_def)
  have q2: "quiet b p p2"
    using p1(2) by (simp add: quiet_def p2_def slot_of_def present_def)
  have "pl_first p2 \<le> n" using quiet_fields(2) [OF q2] F now n(1) by simp
  then obtain p3 where p3: "get_slot_at b n p2 = Inr p3" "quiet b p2 p3"
      "pl_published p3 = pl_published p2" "pl_now p3 = pl_now p2"
    using get_slot_at_ok [of p2 n b] quiet_fields(1) [OF q2] by blast
  have p3n: "pl_now p3 = n" by (simp add: p3(4) p2_def)
  have q3: "quiet b p p3" by (rule quiet_trans [OF q2 p3(2)])
  have t3: "present_inv b F q" if "quiet b p q" "pl_now q = n" for q
    using pres before le_trans [OF now n(1)] that(2)
    unfolding present_inv_def quiet_fields [OF that(1)] by simp
  have base: "hb b p n"
  proof (rule bases_ok_present [of F "sk b p" "nt b p"])
    show "bases_ok F (sk b p) (nt b p) (hb b p)" using pres by (simp add: present_inv_def)
    show "F \<le> n" using now n(1) by (rule le_trans)
  qed (use n(3) before in blast)+
  then obtain base where base: "ss_available_base (slot_of b n p) = Some base" "base_ok b K n base"
    using slots slot_okD(6) by (fastforce simp: slots_inv_def)
  let ?w = "n div slots_per_leader_window b"
  define p4 where "p4 = p3\<lparr>pl_first_nonannounced_window := ?w + 1\<rparr>"
  have q4: "quiet b p p4" and n4: "pl_now p4 = n" "pl_published p4 = pl_published p"
    using q3 p3(3) p3n p1(3) by (simp_all add: quiet_def p4_def slot_of_def present_def p2_def)
  define ev where "ev = LeaderWindowObserved n (if n \<noteq> 0 then base else None)"
  have adv: "advance_present b p =
      Inr (if ?w < pl_first_nonannounced_window p3 then p3 else publish ev p4)"
    using True base(1) quiet_fields(3) [OF q4, of n] p3n
      p3(1) [unfolded p2_def]
    by (simp add: advance_present_def p1(1,4) Let_def p4_def ev_def flip: n_def)
  show thesis
  proof (rule that [OF adv])
    have q5: "quiet b p (publish ev p4)"
      using quiet_trans [OF q4 quiet_publish [OF quiet_fields(1) [OF q4]]] .
    show "quiet b p (if ?w < pl_first_nonannounced_window p3 then p3 else publish ev p4)"
      using q3 q5 by simp
    show "present_inv b F (if ?w < pl_first_nonannounced_window p3 then p3 else publish ev p4)"
      using t3 [OF q3 p3n] t3 [OF q5] n4 by (simp add: publish_def)
    show "e \<in> set (pl_published p) \<or> event_ok b K e"
      if "e \<in> set (pl_published (if ?w < pl_first_nonannounced_window p3 then p3 else publish ev p4))" for e
      using that base(2) p3(3) p1(3) n4 
      by (auto simp: publish_def p2_def ev_def base_ok_def split: if_splits)
  qed
qed

lemma advance_present_track:
  assumes "cs_wf (pl_state p)" "slots_inv b K p" "track_inv b (pl_first p) p"
  obtains p' where "advance_present b p = Inr p'" "quiet b p p'" "track_inv b (pl_first p) p'"
    "\<And>e. e \<in> set (pl_published p') \<Longrightarrow> e \<in> set (pl_published p) \<or> event_ok b K e"
proof -
  have "present_inv b (pl_first p) p" using assms(3) by (simp add: track_inv_def)
  from advance_present_ok [OF assms(1,2) this order_refl] obtain p' where
    p': "advance_present b p = Inr p'" "quiet b p p'" "present_inv b (pl_first p) p'"
    "\<And>e. e \<in> set (pl_published p') \<Longrightarrow> e \<in> set (pl_published p) \<or> event_ok b K e" by metis
  moreover have "track_inv b (pl_first p) p'"
    using assms(3) p'(3) by (simp add: track_inv_def quiet_fields [OF p'(2)])
  ultimately show thesis using that by blast
qed

lemma next_nonskipped_slot_after_ok:
  assumes wf: "cs_wf (pl_state p)" and first: "pl_first p \<le> Suc i"
    and nxt: "sk b p (Suc i) \<Longrightarrow>
      \<exists>j. lower_bound (Suc i) (pl_skip_intervals p) = Some j \<and> next_unskipped (sk b p) (Suc i) j"
  obtains j p' where "next_nonskipped_slot_after b i p = Inr (j, p')" "quiet b p p'" "present j p'"
    "next_unskipped (sk b p) (Suc i) j" "pl_published p' = pl_published p" "pl_now p' = pl_now p"
proof -
  obtain p1 where p1: "get_slot_at b (Suc i) p = Inr p1" "quiet b p p1" "present (Suc i) p1"
      "pl_published p1 = pl_published p" "pl_now p1 = pl_now p"
    using get_slot_at_ok [OF first wf] by metis
  show thesis
  proof (cases "sk b p (Suc i)")
    case False
    show thesis
    proof (rule that)
      show "next_nonskipped_slot_after b i p = Inr (Suc i, p1)"
        using False by (simp add: next_nonskipped_slot_after_def p1(1) quiet_fields(3) [OF p1(2)])
      show "next_unskipped (sk b p) (Suc i) (Suc i)" using False by (simp add: next_unskipped_self)
    qed (use p1 in auto)
  next
    case True
    then obtain j where j: "lower_bound (Suc i) (pl_skip_intervals p) = Some j" "next_unskipped (sk b p) (Suc i) j"
      using nxt by blast
    have "pl_first p1 \<le> j"
      using j(2) first quiet_fields(2) [OF p1(2)] by (simp add: next_unskipped_def)
    then obtain p2 where p2: "get_slot_at b j p1 = Inr p2" "quiet b p1 p2" "present j p2"
        "pl_published p2 = pl_published p1" "pl_now p2 = pl_now p1"
      using get_slot_at_ok [of p1 j b] quiet_fields(1) [OF p1(2)] by metis
    show thesis
    proof (rule that)
      show "next_nonskipped_slot_after b i p = Inr (j, p2)"
        using True j(1) p2(1)
        by (simp add: next_nonskipped_slot_after_def p1(1) quiet_fields(3,8) [OF p1(2)] deref_iter_def)
      show "quiet b p p2" by (rule quiet_trans [OF p1(2) p2(2)])
    qed (use p1 p2 j in auto)
  qed
qed

section \<open>Requests\<close>

lemma wait_for_skips_ok:
  assumes inv: "pool_inv b K p" and nxt: "pl_first p \<le> n"
  obtains res p' where "wait_for_skips b n c p = Inr (res, p')" "quiet b p p'"
    "pl_published p' = pl_published p" "pl_now p' = pl_now p" "res \<in> {None, Some Parent_ok}"
    "res = Some Parent_ok \<Longrightarrow> n = cid_slot c \<or> (\<forall>k. n \<le> k \<and> k < cid_slot c \<longrightarrow> quorum b K (Skip k))"
proof (cases "n = cid_slot c")
  case True
  then show thesis
    by (intro that [of "Some Parent_ok" p]) (simp_all add: wait_for_skips_def quiet_refl pool_inv_wf [OF inv])
next
  case False
  obtain p1 where p1: "get_slot_at b n p = Inr p1" "quiet b p p1"
      "pl_published p1 = pl_published p" "pl_now p1 = pl_now p"
    using get_slot_at_ok [OF nxt pool_inv_wf [OF inv]] by metis
  show thesis
  proof (cases "sk b p n")
    case sk: False
    then show thesis using False p1 
      by (intro that [of None p1]) (simp_all add: wait_for_skips_def quiet_fields(3) [OF p1(2)])
  next
    case sk: True
    obtain j where j: "lower_bound n (pl_skip_intervals p) = Some j" "next_unskipped (sk b p) n j"
      using skip_ok_next [of "pl_first p" "sk b p" "pl_skip_intervals p" n] pool_invD(3) [OF inv] nxt sk
      by (auto simp: track_inv_def)
    have "quorum b K (Skip k)" if "n \<le> k" "k < j" for k
    proof -
      have "sk b p k" using j(2) that by (simp add: next_unskipped_def)
      moreover have "slot_ok b K k (slot_of b k p)" using pool_invD(1) [OF inv] by (simp add: slots_inv_def)
      ultimately show ?thesis using slot_okD(4) by (auto simp: is_skipped_def)
    qed
    then show thesis
      using False sk p1 j(1) quiet_fields(3,8) [OF p1(2)]
      by (intro that [of "if cid_slot c \<le> j then Some Parent_ok else None" p1])
         (auto simp: wait_for_skips_def deref_iter_def split: if_splits)
  qed
qed

definition resolves ::
  "bus \<Rightarrow> votes \<Rightarrow> request \<Rightarrow> pool \<Rightarrow> abort + resolution option \<times> pool \<Rightarrow> bool" where
  "resolves b K r p x \<longleftrightarrow>
     (\<exists>res p'. x = Inr (res, p') \<and> quiet b p p' \<and> pl_published p' = pl_published p \<and>
        pl_now p' = pl_now p \<and> (res = Some Parent_ok \<longrightarrow> parent_justified b K r))"

lemma resolvesI:
  "quiet b p p' \<Longrightarrow> pl_published p' = pl_published p \<Longrightarrow> pl_now p' = pl_now p \<Longrightarrow>
   res \<noteq> Some Parent_ok \<Longrightarrow> resolves b K r p (Inr (res, p'))"
  by (auto simp: resolves_def)

lemma resolves_quiet:
  "resolves b K r p' x \<Longrightarrow> quiet b p p' \<Longrightarrow> pl_published p' = pl_published p \<Longrightarrow> pl_now p' = pl_now p \<Longrightarrow>
   resolves b K r p x"
  unfolding resolves_def by (metis quiet_trans)

lemma resolves_wait:
  assumes inv: "pool_inv b K p" and n: "pl_first p \<le> n" "n = (case rq_parent r of Some c \<Rightarrow> cid_slot c + 1 | None \<Rightarrow> 0)"
    and parent: "\<And>c. rq_parent r = Some c \<Longrightarrow>
      cid_slot c < cid_slot (rq_id r) \<and> (quorum b K (Notar c) \<or> quorum b K (Final c))"
  shows "resolves b K r p (wait_for_skips b n (rq_id r) p)"
proof -
  obtain res p' where w: "wait_for_skips b n (rq_id r) p = Inr (res, p')" "quiet b p p'"
    "pl_published p' = pl_published p" "pl_now p' = pl_now p"
    "res = Some Parent_ok \<Longrightarrow> n = cid_slot (rq_id r) \<or> (\<forall>k. n \<le> k \<and> k < cid_slot (rq_id r) \<longrightarrow> quorum b K (Skip k))"
    using wait_for_skips_ok [OF inv n(1)] by metis
  have "parent_justified b K r" if "res = Some Parent_ok"
    using w(5) [OF that] parent n(2)
    by (cases "rq_parent r") (auto simp: parent_justified_def base_ok_def Suc_le_eq)
  then show ?thesis using w by (auto simp: resolves_def)
qed

lemma maybe_resolve_request_ok:
  assumes inv: "pool_inv b K p" and parent: "\<And>c. rq_parent r = Some c \<Longrightarrow> cid_slot c < cid_slot (rq_id r)"
  shows "resolves b K r p (maybe_resolve_request b r p)"
proof -
  define n where "n = (case rq_parent r of Some c \<Rightarrow> cid_slot c + 1 | None \<Rightarrow> 0)"
  let ?F = "pl_first p" and ?i = "cid_slot (rq_id r)"
  note wf = pool_inv_wf [OF inv] and F = pool_invD(7) [OF inv]
  show ?thesis
  proof (cases "?i < ?F \<or> n < ?F")
    case True
    then show ?thesis
      using resolvesI [OF quiet_refl [OF wf]]
      by (auto simp: maybe_resolve_request_def F Let_def n_def)
  next
    case False
    then have "?F \<le> ?i" "?F \<le> n" by auto
    obtain p1 where p1: "get_slot_at b ?i p = Inr p1" "quiet b p p1"
        "pl_published p1 = pl_published p" "pl_now p1 = pl_now p"
      using get_slot_at_ok [OF \<open>?F \<le> ?i\<close> wf] by metis
    note v1 = quiet_fields [OF p1(2)]
    have inv1: "pool_inv b K p1" by (rule pool_inv_quiet' [OF inv p1(2,4,3)])
    have n1: "pl_first p1 \<le> n" using v1(2) \<open>?F \<le> n\<close> by simp
    let ?conflict = "Some (Conflicts ConflictingCandidateAndCertificate)"
    have parent_slot: "resolves b K r p1 (rbind (get_slot_at b (cid_slot c) p1)
        (\<lambda>p. if is_notarized (slot_of b (cid_slot c) p)
             then if notarized_block (slot_of b (cid_slot c) p) \<noteq> rq_parent r then Inr (?conflict, p)
                  else wait_for_skips b n (rq_id r) p
             else Inr (None, p)))" if c: "rq_parent r = Some c" and "n \<noteq> ?F" for c
    proof -
      have "pl_first p1 \<le> cid_slot c" using c \<open>n \<noteq> ?F\<close> \<open>?F \<le> n\<close> by (simp add: n_def v1(2))
      then obtain p2 where p2: "get_slot_at b (cid_slot c) p1 = Inr p2" "quiet b p1 p2"
          "pl_published p2 = pl_published p1" "pl_now p2 = pl_now p1"
        using get_slot_at_ok [of p1 "cid_slot c" b] v1(1) by metis
      have inv2: "pool_inv b K p2" by (rule pool_inv_quiet' [OF inv1 p2(2,4,3)])
      have n2: "pl_first p2 \<le> n" using quiet_fields(2) [OF p2(2)] n1 by simp
      have ok: "slot_ok b K (cid_slot c) (slot_of b (cid_slot c) p2)"
        using pool_invD(1) [OF inv2] by (simp add: slots_inv_def)
      have "quorum b K (Notar c)" if "is_notarized (slot_of b (cid_slot c) p2)"
          "notarized_block (slot_of b (cid_slot c) p2) = rq_parent r"
        using that c slot_okD(3) [OF ok] by (auto simp: is_notarized_def notarized_block_def)
      then have "is_notarized (slot_of b (cid_slot c) p2) \<Longrightarrow>
          notarized_block (slot_of b (cid_slot c) p2) = rq_parent r \<Longrightarrow>
          resolves b K r p2 (wait_for_skips b n (rq_id r) p2)"
        using parent c by (intro resolves_wait [OF inv2 n2 n_def]) auto
      then show ?thesis
        using resolvesI [OF p2(2-4)] resolves_quiet [OF _ p2(2-4)] by (simp add: p2(1))
    qed
    have last: "resolves b K r p1 (wait_for_skips b n (rq_id r) p1)"
      if "n = ?F" "pl_last_finalized_block p = rq_parent r"
      using pool_invD(4) [OF inv] parent that(2)
      by (intro resolves_wait [OF inv1 n1 n_def]) (auto simp: final_inv_def)
    have zero: "?F \<noteq> 0" if "n = ?F" "pl_last_finalized_block p \<noteq> rq_parent r"
      using pool_invD(4) [OF inv] that F by (auto simp: final_inv_def n_def split: option.splits)
    have none: "rq_parent r \<noteq> None" if "n \<noteq> ?F" using that \<open>?F \<le> n\<close> by (cases "rq_parent r") (auto simp: n_def)
    let ?nb = "notarized_block (slot_of b ?i p)"
    have "maybe_resolve_request b r p =
       (if ?nb \<noteq> None \<and> ?nb \<noteq> Some (rq_id r) then Inr (?conflict, p1)
        else if n = ?F
        then if pl_last_finalized_block p \<noteq> rq_parent r
             then rbind (check (?F \<noteq> 0)) (\<lambda>_. Inr (?conflict, p1))
             else wait_for_skips b n (rq_id r) p1
        else case rq_parent r of
               None \<Rightarrow> Inl Check_failed
             | Some c \<Rightarrow> rbind (get_slot_at b (cid_slot c) p1)
                 (\<lambda>p. if is_notarized (slot_of b (cid_slot c) p)
                      then if notarized_block (slot_of b (cid_slot c) p) \<noteq> rq_parent r then Inr (?conflict, p)
                           else wait_for_skips b n (rq_id r) p
                      else Inr (None, p)))"
      using False unfolding maybe_resolve_request_def Let_def n_def by (simp add: F p1(1) v1)
    then have "resolves b K r p1 (maybe_resolve_request b r p)"
      using parent_slot last zero none resolvesI [OF quiet_refl [OF v1(1)]]
      by (cases "n = ?F"; cases "rq_parent r") (simp_all add: check_def)
    then show ?thesis by (rule resolves_quiet [OF _ p1(2-4)])
  qed
qed

lemma pool_inv_publish:
  assumes "pool_inv b K p" "event_ok b K e"
  shows "pool_inv b K (publish e p)"
proof (rule pool_inv_quiet [OF assms(1) quiet_publish [OF pool_inv_wf [OF assms(1)]]])
  show "track_inv b (pl_first p) (publish e p)"
    using pool_invD(3) [OF assms(1)] by (simp add: track_inv_def present_inv_def publish_def)
  show "events_inv b K (publish e p)"
    using pool_invD(5) [OF assms(1)] assms(2) by (simp add: events_inv_def publish_def)
qed

lemma pool_inv_requests:
  assumes "pool_inv b K p" "\<And>r c. r \<in> set rs \<Longrightarrow> rq_parent r = Some c \<Longrightarrow> cid_slot c < cid_slot (rq_id r)"
  shows "pool_inv b K (p\<lparr>pl_requests := rs\<rparr>)"
  using assms
  by (auto simp: pool_inv_def slots_inv_def saving_inv_def track_inv_def present_inv_def final_inv_def events_inv_def
      tasks_inv_def split: option.splits)

lemma resolve_requests_loop_ok:
  assumes "pool_inv b K p" "\<And>r c. r \<in> set rs \<Longrightarrow> rq_parent r = Some c \<Longrightarrow> cid_slot c < cid_slot (rq_id r)"
  shows "\<exists>rs' p'. resolve_requests_loop b rs i p = Inr (rs', p') \<and> pool_inv b K p' \<and> quiet b p p' \<and>
    set rs' \<subseteq> set rs"
  using assms
proof (induction b rs i p rule: resolve_requests_loop.induct)
  case (1 b rs i p)
  show ?case
  proof (cases "i < length rs")
    case False
    then show ?thesis
      using "1.prems"(1) quiet_refl [OF pool_inv_wf] by (simp add: resolve_requests_loop.simps [of b rs])
  next
    case True
    obtain res p1 where p1: "maybe_resolve_request b (rs ! i) p = Inr (res, p1)" "quiet b p p1"
        "pl_published p1 = pl_published p" "pl_now p1 = pl_now p"
        "res = Some Parent_ok \<longrightarrow> parent_justified b K (rs ! i)"
      using maybe_resolve_request_ok [OF "1.prems"(1), of "rs ! i"] "1.prems"(2) [of "rs ! i"] True
      by (auto simp: resolves_def)
    have inv1: "pool_inv b K p1" by (rule pool_inv_quiet' [OF "1.prems"(1) p1(2,4,3)])
    show ?thesis
    proof (cases res)
      case None
      have "\<exists>rs' p'. resolve_requests_loop b rs (Suc i) p1 = Inr (rs', p') \<and> pool_inv b K p' \<and>
          quiet b p1 p' \<and> set rs' \<subseteq> set rs"
        using "1.prems"(2) by (intro "1.IH"(1) [OF True p1(1) refl None inv1]) auto
      then show ?thesis
        using True p1(1,2) None by (auto simp: resolve_requests_loop.simps [of b rs] intro: quiet_trans)
    next
      case (Some r)
      let ?rs = "butlast (rs[i := last rs])" and ?p = "publish (RequestResolved (rs ! i) r) p1"
      have "rs \<noteq> []" using True by auto
      then have sub: "set ?rs \<subseteq> set rs"
        using True by (meson in_set_butlastD last_in_set set_update_subset_insert insert_subsetI subset_iff subset_refl)
      have inv2: "pool_inv b K ?p"
        using p1(5) Some by (intro pool_inv_publish [OF inv1]) (cases r; simp)
      have "\<exists>rs' p'. resolve_requests_loop b ?rs i ?p = Inr (rs', p') \<and> pool_inv b K p' \<and>
          quiet b ?p p' \<and> set rs' \<subseteq> set ?rs"
        using "1.prems"(2) sub by (intro "1.IH"(2) [OF True p1(1) refl Some inv2]) auto
      moreover have "quiet b p ?p"
        by (rule quiet_trans [OF p1(2) quiet_publish [OF quiet_fields(1) [OF p1(2)]]])
      ultimately show ?thesis
        using True p1(1) Some sub by (simp add: resolve_requests_loop.simps [of b rs]) (metis quiet_trans subset_trans)
    qed
  qed
qed

text \<open>Nothing but the requests, the present and the published events changes.\<close>

definition same_slots :: "bus \<Rightarrow> pool \<Rightarrow> pool \<Rightarrow> bool" where
  "same_slots b p p' \<longleftrightarrow> (\<forall>k. slot_of b k p' = slot_of b k p) \<and> pl_saving p' = pl_saving p"

lemma maybe_resolve_requests_ok:
  assumes "pool_inv b K p"
  shows "\<exists>p'. maybe_resolve_requests b p = Inr p' \<and> pool_inv b K p' \<and> same_slots b p p'"
proof -
  have req: "cid_slot c < cid_slot (rq_id r)" if "r \<in> set (pl_requests p)" "rq_parent r = Some c" for r c
    using pool_invD(6) [OF assms] that by (simp add: tasks_inv_def)
  obtain rs' p' where "resolve_requests_loop b (pl_requests p) 0 p = Inr (rs', p')" "pool_inv b K p'" "quiet b p p'"
      "set rs' \<subseteq> set (pl_requests p)"
    using resolve_requests_loop_ok [OF assms req] by blast
  then show ?thesis
    using req by (auto simp: maybe_resolve_requests_def same_slots_def quiet_def intro!: pool_inv_requests)
qed

end
