(* ===== verification/Simplex_Pool_Certs.thy ===== *)
theory Simplex_Pool_Certs
  imports Simplex_Pool_Inv
begin

text \<open>
  The handlers of saved certificates keep the invariant and do not abort: storing a
  notarisation or skip certificate updates the skip intervals and hands the available base
  on; storing a finalisation certificate moves the window of tracked slots.  The latter relies
  on the votes that were signed being consistent: no slot can be both skipped and finalised, or
  finalised with a block other than the notarised one.
\<close>

definition consistent :: "bus \<Rightarrow> votes \<Rightarrow> bool" where
  "consistent b K \<longleftrightarrow>
     (\<forall>c. quorum b K (Final c) \<longrightarrow> \<not> quorum b K (Skip (cid_slot c))) \<and>
     (\<forall>c c'. quorum b K (Final c) \<longrightarrow> quorum b K (Notar c') \<longrightarrow> cid_slot c = cid_slot c' \<longrightarrow> c = c')"

section \<open>Writing a slot\<close>

lemma pool_invI:
  assumes "slots_inv b K p" "saving_inv b K p" "track_inv b (pl_first p) p" "final_inv b K p"
    "events_inv b K p" "tasks_inv b K p" "pl_first p = pl_first_nonfinalized_slot p"
  shows "pool_inv b K p"
  using assms by (simp add: pool_inv_def)

lemma track_invI:
  assumes "sk b p = SK" "nt b p = NT" "hb b p = HB"
    "skip_ok F SK (pl_skip_intervals p)" "bases_ok F SK NT HB" "F \<le> pl_now p"
    "\<And>i. F \<le> i \<Longrightarrow> i < pl_now p \<Longrightarrow> NT i \<or> SK i"
  shows "track_inv b F p"
  using assms(4-7) unfolding track_inv_def present_inv_def assms(1-3) [symmetric] by blast

lemma track_invD:
  assumes "track_inv b F p"
  shows "skip_ok F (sk b p) (pl_skip_intervals p)" "bases_ok F (sk b p) (nt b p) (hb b p)" "F \<le> pl_now p"
    "F \<le> i \<Longrightarrow> i < pl_now p \<Longrightarrow> nt b p i \<or> sk b p i"
  using assms unfolding track_inv_def present_inv_def by blast+

lemma slots_inv_set:
  assumes "slots_inv b K p" "present i p" "slot_ok b K i s"
  shows "slots_inv b K (set_slot i s p)"
  using assms by (simp add: slots_inv_def cs_wf_set_slot slot_of_set_slot)

lemma saving_inv_set:
  assumes "saving_inv b K p" "present i p" "cs_wf (pl_state p)"
    and "\<And>c. c \<in> set (pl_saving p) \<Longrightarrow> referenced_slot (ct_vote c) = i \<Longrightarrow> pl_first p \<le> i \<Longrightarrow>
      awaiting (ss_certs (slot_of b i p)) (ct_vote c) \<Longrightarrow> awaiting (ss_certs s) (ct_vote c)"
  shows "saving_inv b K (set_slot i s p)"
  using assms by (auto simp: saving_inv_def slot_of_set_slot)

lemma rest_inv_set:
  "final_inv b K (set_slot i s p) = final_inv b K p" "events_inv b K (set_slot i s p) = events_inv b K p"
  "tasks_inv b K (set_slot i s p) = tasks_inv b K p"
  by (simp_all add: final_inv_def events_inv_def tasks_inv_def split: option.splits)

lemma rest_inv_intervals [simp]:
  "final_inv b K (p\<lparr>pl_skip_intervals := ivs\<rparr>) = final_inv b K p"
  "events_inv b K (p\<lparr>pl_skip_intervals := ivs\<rparr>) = events_inv b K p"
  "tasks_inv b K (p\<lparr>pl_skip_intervals := ivs\<rparr>) = tasks_inv b K p"
  by (simp_all add: final_inv_def events_inv_def tasks_inv_def split: option.splits)

lemma rest_inv_quiet:
  assumes "quiet b p p'"
  shows "final_inv b K p' = final_inv b K p" "tasks_inv b K p' = tasks_inv b K p"
  by (simp_all add: final_inv_def tasks_inv_def quiet_fields [OF assms] split: option.splits)

lemma skipped_quorum: "slots_inv b K p \<Longrightarrow> sk b p i \<Longrightarrow> quorum b K (Skip i)"
  using slot_okD(4) [of b K i "slot_of b i p"] by (auto simp: slots_inv_def is_skipped_def)

lemma base_ok_next:
  assumes "slots_inv b K p" "next_unskipped (sk b p) (Suc i) j" "cid_slot c = i"
    "quorum b K (Notar c) \<or> quorum b K (Final c)"
  shows "base_ok b K j (Some c)"
  using assms skipped_quorum [OF assms(1)] by (auto simp: base_ok_def next_unskipped_def Suc_le_eq)

text \<open>The base of a skipped slot is a base for the next slot.\<close>

lemma base_ok_skip:
  assumes "slots_inv b K p" "next_unskipped (sk b p) (Suc i) j" "quorum b K (Skip i)" "base_ok b K i base"
  shows "base_ok b K j base"
proof -
  have "quorum b K (Skip k)" if "i \<le> k" "k < j" for k
    using assms(2,3) that skipped_quorum [OF assms(1), of k]
    by (cases "k = i") (auto simp: next_unskipped_def)
  then show ?thesis
    using assms(2,4) by (auto simp: base_ok_def next_unskipped_def not_less split: option.splits)
       (metis not_less)+
qed

lemma broadcast_cert_quiet: "cs_wf (pl_state p) \<Longrightarrow> quiet b p (broadcast_cert m p)"
  by (simp add: broadcast_cert_def quiet_refl quiet_publish)

lemma broadcast_cert_now [simp]: "pl_now (broadcast_cert m p) = pl_now p" "pl_now (publish e p) = pl_now p"
  by (simp_all add: broadcast_cert_def publish_def)

lemma events_inv_broadcast:
  "events_inv b K p \<Longrightarrow> cert_good b K v sigs \<Longrightarrow> events_inv b K (broadcast_cert (TlCertificate v sigs) p)"
  by (simp add: events_inv_def broadcast_cert_def publish_def)

lemma events_inv_publish: "events_inv b K (publish e p) \<longleftrightarrow> events_inv b K p \<and> event_ok b K e"
  by (auto simp: events_inv_def publish_def)

text \<open>The end of the notarisation and skip handlers.\<close>

lemma finish_saved:
  assumes inv: "pool_inv b K p"
  shows "\<exists>p'. rbind (advance_present b p) (maybe_resolve_requests b) = Inr p' \<and> pool_inv b K p' \<and> same_slots b p p'"
proof -
  obtain p1 where p1: "advance_present b p = Inr p1" "quiet b p p1" "track_inv b (pl_first p) p1"
      "\<And>e. e \<in> set (pl_published p1) \<Longrightarrow> e \<in> set (pl_published p) \<or> event_ok b K e"
    using advance_present_track [OF pool_inv_wf [OF inv] pool_invD(1,3) [OF inv]] by metis
  have "pool_inv b K p1"
    using p1(4) pool_invD(5) [OF inv] by (intro pool_inv_quiet [OF inv p1(2,3)]) (auto simp: events_inv_def)
  from maybe_resolve_requests_ok [OF this] show ?thesis
    using quiet_fields(3,15) [OF p1(2)] by (auto simp: p1(1) same_slots_def)
qed

text \<open>
  The certificates of the other kinds and slots, and those waiting to be saved, stay as they are.
\<close>

fun unstored :: "certificate_bundle \<Rightarrow> vote \<Rightarrow> bool" where
  "unstored cb (VNotarize _) \<longleftrightarrow> stored_cert (cb_notar cb) = None"
| "unstored cb (VSkip _) \<longleftrightarrow> stored_cert (cb_skip cb) = None"
| "unstored cb (VFinalize _) \<longleftrightarrow> stored_cert (cb_final cb) = None"

definition keeps :: "bus \<Rightarrow> nat \<times> nat \<Rightarrow> pool \<Rightarrow> pool \<Rightarrow> bool" where
  "keeps b key p p' \<longleftrightarrow>
     pl_saving p' = pl_saving p \<and>
     (\<forall>v. vote_key v \<noteq> key \<longrightarrow> unstored (ss_certs (slot_of b (referenced_slot v) p)) v \<longrightarrow>
        unstored (ss_certs (slot_of b (referenced_slot v) p')) v)"

lemma keepsI:
  assumes "same_slots b q p'" "pl_saving q = pl_saving p"
    "\<And>k. ss_certs (slot_of b k q) = (if k = i then cb else ss_certs (slot_of b k p))"
    "\<And>v. vote_key v \<noteq> key \<Longrightarrow> referenced_slot v = i \<Longrightarrow> unstored (ss_certs (slot_of b i p)) v \<Longrightarrow> unstored cb v"
  shows "keeps b key p p'"
  using assms by (auto simp: keeps_def same_slots_def)

text \<open>
  A block of slot \<^verbatim>\<open>i\<close> becomes an available base of the next slot that is not skipped.
\<close>

lemma give_base_ok:
  assumes slots: "slots_inv b K p" and saving: "saving_inv b K p"
    and skip: "skip_ok F (sk b p) (pl_skip_intervals p)" "F \<le> i" "pl_first p \<le> i"
    and c: "cid_slot c = i" "quorum b K (Notar c) \<or> quorum b K (Final c)"
  obtains j p3 p4 where "next_nonskipped_slot_after b i p = Inr (j, p3)"
    "p4 = set_slot j (add_available_base (Some c) (slot_of b j p3)) p3"
    "slots_inv b K p4" "saving_inv b K p4" "next_unskipped (sk b p) (Suc i) j"
    "sk b p4 = sk b p" "nt b p4 = nt b p" "hb b p4 = (hb b p)(j := True)"
    "quiet b p p3" "pl_published p3 = pl_published p" "pl_now p3 = pl_now p"
    "\<forall>k. ss_certs (slot_of b k p4) = ss_certs (slot_of b k p)"
proof -
  have wf: "cs_wf (pl_state p)" using slots by (simp add: slots_inv_def)
  have "\<exists>j. lower_bound (Suc i) (pl_skip_intervals p) = Some j \<and> next_unskipped (sk b p) (Suc i) j"
    if "sk b p (Suc i)" using skip_ok_next [OF skip(1) _ that] skip(2) by simp
  then obtain j p3 where p3: "next_nonskipped_slot_after b i p = Inr (j, p3)" "quiet b p p3" "present j p3"
      "next_unskipped (sk b p) (Suc i) j" "pl_published p3 = pl_published p" "pl_now p3 = pl_now p"
    using next_nonskipped_slot_after_ok [OF wf, of i b] skip(3) by (metis le_SucI)
  define p4 where "p4 = set_slot j (add_available_base (Some c) (slot_of b j p3)) p3"
  note v3 = quiet_fields(1-4) [OF p3(2)]
  have slots3: "slots_inv b K p3" by (rule slots_inv_quiet [OF slots p3(2)])
  have "slot_ok b K j (add_available_base (Some c) (slot_of b j p3))"
    using slots3 base_ok_next [OF slots p3(4) c] by (intro slot_ok_add_base) (auto simp: slots_inv_def)
  then have slots4: "slots_inv b K p4" unfolding p4_def by (rule slots_inv_set [OF slots3 p3(3)])
  have saving4: "saving_inv b K p4" unfolding p4_def
    by (rule saving_inv_set [OF saving_inv_quiet [OF saving p3(2)] p3(3) v3(1)]) simp
  have view: "slot_of b k p4 = (if k = j then add_available_base (Some c) (slot_of b j p) else slot_of b k p)" for k
    by (simp add: p4_def slot_of_set_slot [OF v3(1) p3(3)] v3(3))
  show thesis
  proof (rule that [OF p3(1) p4_def slots4 saving4 p3(4)])
    show "sk b p4 = sk b p" "nt b p4 = nt b p" "hb b p4 = (hb b p)(j := True)"
      by (auto simp: view fun_eq_iff simp del: not_None_eq)
  qed (use p3 view in simp_all)
qed

section \<open>Storing a certificate\<close>

lemma store_ok:
  assumes inv: "pool_inv b K p" and i: "present i p"
    and cb: "flag_le (cb_notar (ss_certs (slot_of b i p))) (cb_notar cb)"
      "flag_le (cb_skip (ss_certs (slot_of b i p))) (cb_skip cb)"
      "flag_le (cb_final (ss_certs (slot_of b i p))) (cb_final cb)"
      "stored_ok b K i VNotarize (cb_notar cb)" "stored_ok b K i VSkip (cb_skip cb)"
      "stored_ok b K i VFinalize (cb_final cb)"
    and saving: "\<And>c. c \<in> set (pl_saving p) \<Longrightarrow> referenced_slot (ct_vote c) = i \<Longrightarrow>
        awaiting (ss_certs (slot_of b i p)) (ct_vote c) \<Longrightarrow> awaiting cb (ct_vote c)"
    and good: "cert_good b K v sigs"
    and p2: "p2 = broadcast_cert (TlCertificate v sigs) (set_slot i ((slot_of b i p)\<lparr>ss_certs := cb\<rparr>) p)"
  shows "slots_inv b K p2" "saving_inv b K p2" "events_inv b K p2" "final_inv b K p2" "tasks_inv b K p2"
    "slot_of b k p2 = (if k = i then (slot_of b i p)\<lparr>ss_certs := cb\<rparr> else slot_of b k p)"
    "pl_first p2 = pl_first p" "pl_skip_intervals p2 = pl_skip_intervals p" "pl_now p2 = pl_now p"
    "pl_first_nonfinalized_slot p2 = pl_first p" "present k p \<Longrightarrow> present k p2"
    "pl_saving p2 = pl_saving p"
proof -
  let ?s = "(slot_of b i p)\<lparr>ss_certs := cb\<rparr>" and ?p1 = "set_slot i ((slot_of b i p)\<lparr>ss_certs := cb\<rparr>) p"
  note wf = pool_inv_wf [OF inv]
  have "slot_ok b K i (slot_of b i p)" using pool_invD(1) [OF inv] by (simp add: slots_inv_def)
  from slot_ok_certs [OF this cb] have slots1: "slots_inv b K ?p1"
    by (rule slots_inv_set [OF pool_invD(1) [OF inv] i])
  have saving1: "saving_inv b K ?p1"
    using saving by (intro saving_inv_set [OF pool_invD(2) [OF inv] i wf]) auto
  have q2: "quiet b ?p1 p2" unfolding p2
    by (rule broadcast_cert_quiet) (use slots1 in \<open>simp add: slots_inv_def\<close>)
  show "slots_inv b K p2" by (rule slots_inv_quiet [OF slots1 q2])
  show "saving_inv b K p2" by (rule saving_inv_quiet [OF saving1 q2])
  show "events_inv b K p2"
    using pool_invD(5) [OF inv] good by (simp add: p2 events_inv_broadcast rest_inv_set)
  show "final_inv b K p2" "tasks_inv b K p2"
    using pool_invD(4,6) [OF inv] by (simp_all add: rest_inv_quiet [OF q2] rest_inv_set)
  show "slot_of b k p2 = (if k = i then ?s else slot_of b k p)"
    using quiet_fields(3) [OF q2] by (simp add: slot_of_set_slot [OF wf i])
  show "pl_first p2 = pl_first p" "pl_skip_intervals p2 = pl_skip_intervals p" "pl_now p2 = pl_now p"
    "pl_first_nonfinalized_slot p2 = pl_first p" "present k p \<Longrightarrow> present k p2" "pl_saving p2 = pl_saving p"
    using quiet_fields [OF q2] pool_invD(7) [OF inv] by (simp_all add: p2)
qed

section \<open>Notarisation certificates\<close>

lemma handle_saved_notar_ok:
  assumes inv: "pool_inv b K p" and i: "present i p" "pl_first p \<le> i"
    and none: "stored_cert (cb_notar (ss_certs (slot_of b i p))) = None"
    and cert: "cid_slot (nv_id (ct_vote cert)) = i" "cert_good b K (VNotarize (ct_vote cert)) (ct_signatures cert)"
    and saving: "\<And>c. c \<in> set (pl_saving p) \<Longrightarrow> vote_key (ct_vote c) \<noteq> (0, i)"
  shows "\<exists>p'. handle_saved_notar b i cert p = Inr p' \<and> pool_inv b K p' \<and> keeps b (0, i) p p'"
proof -
  let ?s = "slot_of b i p" and ?c = "nv_id (ct_vote cert)"
  define cb where "cb = (ss_certs ?s)\<lparr>cb_notar := (cb_notar (ss_certs ?s))\<lparr>stored_cert := Some cert\<rparr>\<rparr>"
  define p1 where "p1 = broadcast_cert (TlCertificate (VNotarize (ct_vote cert)) (ct_signatures cert))
    (set_slot i (?s\<lparr>ss_certs := cb\<rparr>) p)"
  define p2 where "p2 = publish (NotarizationObserved ?c cert) p1"
  note track = track_invD [OF pool_invD(3) [OF inv]]
  have q: "quorum b K (Notar ?c)" using cert_good_quorum [OF cert(2)] by simp
  have "slot_ok b K i ?s" using pool_invD(1) [OF inv] by (simp add: slots_inv_def)
  then have cbs: "flag_le (cb_notar (ss_certs ?s)) (cb_notar cb)" "flag_le (cb_skip (ss_certs ?s)) (cb_skip cb)"
      "flag_le (cb_final (ss_certs ?s)) (cb_final cb)" "stored_ok b K i VNotarize (cb_notar cb)"
      "stored_ok b K i VSkip (cb_skip cb)" "stored_ok b K i VFinalize (cb_final cb)"
    using cert by (auto simp: cb_def flag_le_def flag_needs_def stored_ok_def slot_ok_def)
  have aw: "awaiting cb (ct_vote c)" if "c \<in> set (pl_saving p)" "referenced_slot (ct_vote c) = i"
      "awaiting (ss_certs ?s) (ct_vote c)" for c
    using that saving [of c] by (cases "ct_vote c") (auto simp: cb_def)
  note st = store_ok [OF inv i(1) cbs aw cert(2) p1_def]
  have q2: "quiet b p1 p2" unfolding p2_def by (rule quiet_publish) (use st(1) in \<open>simp add: slots_inv_def\<close>)
  note v2 = quiet_fields [OF q2]
  have sk2: "sk b p2 = sk b p" and nt2: "nt b p2 = (nt b p)(i := True)" and hb2: "hb b p2 = hb b p"
    by (auto simp: v2(3) st(6) cb_def is_skipped_def is_notarized_def fun_eq_iff)
  have same: "pl_first p2 = pl_first p" "pl_skip_intervals p2 = pl_skip_intervals p" "pl_now p2 = pl_now p"
    using v2 st(7-9) by (simp_all add: p2_def)
  have skip2: "skip_ok (pl_first p) (sk b p2) (pl_skip_intervals p2)" and first2: "pl_first p2 \<le> i"
    unfolding sk2 same(1,2) by (rule track(1), rule i(2))
  obtain j p3 p4 where p4: "next_nonskipped_slot_after b i p2 = Inr (j, p3)"
      "p4 = set_slot j (add_available_base (Some ?c) (slot_of b j p3)) p3"
      "slots_inv b K p4" "saving_inv b K p4" "next_unskipped (sk b p2) (Suc i) j"
      "sk b p4 = sk b p2" "nt b p4 = nt b p2" "hb b p4 = (hb b p2)(j := True)"
      "quiet b p2 p3" "pl_published p3 = pl_published p2" "pl_now p3 = pl_now p2"
      "\<forall>k. ss_certs (slot_of b k p4) = ss_certs (slot_of b k p2)"
    by (rule give_base_ok [OF slots_inv_quiet [OF st(1) q2] saving_inv_quiet [OF st(2) q2] skip2 i(2) first2
          cert(1) disjI1 [OF q]])
  note q3 = quiet_trans [OF q2 p4(9)]
  have "track_inv b (pl_first p4) p4"
    using track(1,3,4) bases_ok_notar [OF track(2) p4(5) [unfolded sk2]] quiet_fields(2,8) [OF p4(9)] p4(11)
    by (intro track_invI [OF p4(6-8) [unfolded sk2 nt2 hb2]]) (auto simp: p4(2) same)
  then have "pool_inv b K p4"
    using p4(3,4) st(3-5,7,10) q p4(10) quiet_fields(2,11) [OF q3]
    by (intro pool_invI) (simp_all add: p4(2) rest_inv_set rest_inv_quiet [OF q3] events_inv_def p2_def publish_def)
  moreover have "handle_saved_notar b i cert p = rbind (advance_present b p4) (maybe_resolve_requests b)"
    using none cert(1) p4(1)
    by (simp add: handle_saved_notar_def store_cert_def check_def handle_typed_saved_notar_def Let_def
        certificate_serialize_def p4(2) p2_def p1_def cb_def)
  moreover have "keeps b (0, i) p p'" if "same_slots b p4 p'" for p'
  proof (rule keepsI [OF that])
    show "pl_saving p4 = pl_saving p" using quiet_fields(15) [OF q3] st(12) by (simp add: p4(2))
    show "ss_certs (slot_of b k p4) = (if k = i then cb else ss_certs (slot_of b k p))" for k
      using p4(12) by (simp add: v2(3) st(6))
    show "unstored cb v" if "vote_key v \<noteq> (0, i)" "referenced_slot v = i" "unstored (ss_certs ?s) v" for v
      using that by (cases v) (auto simp: cb_def)
  qed
  ultimately show ?thesis using finish_saved by fastforce
qed

section \<open>Skip certificates\<close>

lemma next_slot_eq:
  "next_unskipped SK (Suc i) j \<Longrightarrow> j = Suc i \<longleftrightarrow> \<not> SK (Suc i)"
  using next_unskipped_unique next_unskipped_self by (metis next_unskipped_def)

text \<open>The available base of the skipped slot, if any, is handed on to slot \<^verbatim>\<open>j\<close>.\<close>

definition hand_on :: "bus \<Rightarrow> nat \<Rightarrow> nat \<Rightarrow> pool \<Rightarrow> pool" where
  "hand_on b i j p =
     (case ss_available_base (slot_of b i p) of
        Some base \<Rightarrow> set_slot j (add_available_base base (slot_of b j p)) p
      | None \<Rightarrow> p)"

lemma hand_on_simps [simp]:
  "pl_first (hand_on b i j p) = pl_first p" "pl_now (hand_on b i j p) = pl_now p"
  "pl_skip_intervals (hand_on b i j p) = pl_skip_intervals p" "pl_saving (hand_on b i j p) = pl_saving p"
  "final_inv b K (hand_on b i j p) = final_inv b K p" "events_inv b K (hand_on b i j p) = events_inv b K p"
  "tasks_inv b K (hand_on b i j p) = tasks_inv b K p"
  "pl_first_nonfinalized_slot (hand_on b i j p) = pl_first_nonfinalized_slot p"
  by (simp_all add: hand_on_def rest_inv_set split: option.splits)

lemma hand_on_ok:
  assumes slots: "slots_inv b K p" and saving: "saving_inv b K p" and j: "present j p"
    and nx: "next_unskipped (sk b p) (Suc i) j" and q: "quorum b K (Skip i)"
  shows "slots_inv b K (hand_on b i j p)" "saving_inv b K (hand_on b i j p)"
    "sk b (hand_on b i j p) = sk b p" "nt b (hand_on b i j p) = nt b p"
    "hb b (hand_on b i j p) k \<longleftrightarrow> hb b p k \<or> k = j \<and> hb b p i"
    "ss_certs (slot_of b k (hand_on b i j p)) = ss_certs (slot_of b k p)"
proof -
  have wf: "cs_wf (pl_state p)" and ok: "slot_ok b K k (slot_of b k p)" for k
    using slots by (simp_all add: slots_inv_def)
  have "slot_ok b K j (add_available_base base (slot_of b j p))"
    if "ss_available_base (slot_of b i p) = Some base" for base
    using slot_ok_add_base [OF ok base_ok_skip [OF slots nx q slot_okD(6) [OF ok that]]] .
  then show "slots_inv b K (hand_on b i j p)"
    using slots slots_inv_set [OF slots j] by (simp add: hand_on_def split: option.splits)
  have "saving_inv b K (set_slot j (add_available_base base (slot_of b j p)) p)" for base
    by (rule saving_inv_set [OF saving j wf]) simp
  then show "saving_inv b K (hand_on b i j p)" using saving by (simp add: hand_on_def split: option.splits)
  show "sk b (hand_on b i j p) = sk b p" "nt b (hand_on b i j p) = nt b p"
    "hb b (hand_on b i j p) k \<longleftrightarrow> hb b p k \<or> k = j \<and> hb b p i"
    "ss_certs (slot_of b k (hand_on b i j p)) = ss_certs (slot_of b k p)"
    by (auto simp: hand_on_def slot_of_set_slot [OF wf j] fun_eq_iff simp del: not_None_eq split: option.splits)
qed

lemma handle_saved_skip_ok:
  assumes inv: "pool_inv b K p" and i: "present i p" "pl_first p \<le> i"
    and none: "stored_cert (cb_skip (ss_certs (slot_of b i p))) = None"
    and cert: "sv_slot (ct_vote cert) = i" "cert_good b K (VSkip (ct_vote cert)) (ct_signatures cert)"
    and saving: "\<And>c. c \<in> set (pl_saving p) \<Longrightarrow> vote_key (ct_vote c) \<noteq> (1, i)"
  shows "\<exists>p'. handle_saved_skip b i cert p = Inr p' \<and> pool_inv b K p' \<and> keeps b (1, i) p p'"
proof -
  let ?s = "slot_of b i p"
  define cb where "cb = (ss_certs ?s)\<lparr>cb_skip := (cb_skip (ss_certs ?s))\<lparr>stored_cert := Some cert\<rparr>\<rparr>"
  define p2 where "p2 = broadcast_cert (TlCertificate (VSkip (ct_vote cert)) (ct_signatures cert))
    (set_slot i (?s\<lparr>ss_certs := cb\<rparr>) p)"
  note track = track_invD [OF pool_invD(3) [OF inv]]
  have q: "quorum b K (Skip i)" using cert_good_quorum [OF cert(2)] cert(1) by (cases "ct_vote cert") simp
  have "slot_ok b K i ?s" using pool_invD(1) [OF inv] by (simp add: slots_inv_def)
  then have cbs: "flag_le (cb_notar (ss_certs ?s)) (cb_notar cb)" "flag_le (cb_skip (ss_certs ?s)) (cb_skip cb)"
      "flag_le (cb_final (ss_certs ?s)) (cb_final cb)" "stored_ok b K i VNotarize (cb_notar cb)"
      "stored_ok b K i VSkip (cb_skip cb)" "stored_ok b K i VFinalize (cb_final cb)"
    using cert by (auto simp: cb_def flag_le_def flag_needs_def stored_ok_def slot_ok_def)
  have aw: "awaiting cb (ct_vote c)" if "c \<in> set (pl_saving p)" "referenced_slot (ct_vote c) = i"
      "awaiting (ss_certs ?s) (ct_vote c)" for c
    using that saving [of c] by (cases "ct_vote c") (auto simp: cb_def)
  note st = store_ok [OF inv i(1) cbs aw cert(2) p2_def]
  have wf2: "cs_wf (pl_state p2)" using st(1) by (simp add: slots_inv_def)
  have sk2: "sk b p2 = (sk b p)(i := True)" and nt2: "nt b p2 = nt b p" and hb2: "hb b p2 = hb b p"
    by (auto simp: st(6) cb_def is_skipped_def is_notarized_def fun_eq_iff)
  have nsk: "\<not> sk b p i" using none by (simp add: is_skipped_def)
  have nx: "next_unskipped (sk b p2) (Suc i) j \<longleftrightarrow> next_unskipped (sk b p) (Suc i) j" for j
    unfolding sk2 by (rule next_unskipped_cong) simp
  have "\<exists>j. lower_bound (Suc i) (pl_skip_intervals p2) = Some j \<and> next_unskipped (sk b p2) (Suc i) j"
    if "sk b p2 (Suc i)"
    using skip_ok_next [OF track(1), of "Suc i"] that fun_cong [OF sk2, of "Suc i"] i(2)
    unfolding nx by (simp add: st(8))
  then obtain j p3 where p3: "next_nonskipped_slot_after b i p2 = Inr (j, p3)" "quiet b p2 p3" "present j p3"
      "next_unskipped (sk b p2) (Suc i) j" "pl_published p3 = pl_published p2" "pl_now p3 = pl_now p2"
    using next_nonskipped_slot_after_ok [OF wf2, of i b] st(7) i(2) by (metis le_SucI)
  note v3 = quiet_fields [OF p3(2)]
  define ivs where "ivs = (if sk b p (Suc i) then removeAll i (pl_skip_intervals p)
      else insort_insert (Suc i) (removeAll i (pl_skip_intervals p)))"
  define p4 where "p4 = p3\<lparr>pl_skip_intervals := ivs\<rparr>"
  have slots4: "slots_inv b K p4" and saving4: "saving_inv b K p4"
    using slots_inv_quiet [OF st(1) p3(2)] saving_inv_quiet [OF st(2) p3(2)]
    by (simp_all add: p4_def slots_inv_def saving_inv_def)
  have sk4: "sk b p4 = (sk b p)(i := True)" "nt b p4 = nt b p" "hb b p4 = hb b p"
    using sk2 nt2 hb2 by (simp_all add: p4_def v3(3))
  have nx4: "next_unskipped (sk b p4) (Suc i) j" using p3(4) by (simp add: sk4 sk2)
  have j4: "present j p4" using p3(3) by (simp add: p4_def)
  note h = hand_on_ok [OF slots4 saving4 j4 nx4 q]
  let ?p = "hand_on b i j p4"
  have nx: "next_unskipped (sk b p) (Suc i) j" using p3(4) nx by simp
  have "bases_ok (pl_first p) ((sk b p)(i := True)) (nt b p) (hb b ?p)"
  proof (rule bases_ok_skip [OF track(2) i(2) nsk nx])
    show "hb b ?p j \<longleftrightarrow> hb b p j \<or> hb b p i" "\<And>k. k \<noteq> j \<Longrightarrow> hb b ?p k \<longleftrightarrow> hb b p k"
      using fun_cong [OF sk4(3)] by (simp_all add: h(5) del: not_None_eq)
  qed
  moreover have "skip_ok (pl_first p) ((sk b p)(i := True)) (pl_skip_intervals ?p)"
    using skip_ok_add [OF track(1) i(2) nsk] by (simp add: p4_def ivs_def)
  moreover have "nt b p k \<or> ((sk b p)(i := True)) k" if "pl_first p \<le> k" "k < pl_now p" for k
    using track(4) [OF that] by auto
  ultimately have "track_inv b (pl_first p) ?p"
    using track(3) p3(6) st(9) by (intro track_invI [OF h(3) [unfolded sk4] h(4) [unfolded sk4] refl]) (simp_all add: p4_def)
  then have "pool_inv b K ?p"
    using h(1,2) st(3-5,7,10) v3 p3(5)
    by (intro pool_invI) (simp_all add: p4_def rest_inv_quiet [OF p3(2)], simp add: events_inv_def)
  moreover have "handle_saved_skip b i cert p = rbind (advance_present b ?p) (maybe_resolve_requests b)"
    using none p3(1) next_slot_eq [OF nx] v3(8) st(8)
    by (simp add: handle_saved_skip_def store_cert_def check_def handle_typed_saved_skip_def Let_def
        certificate_serialize_def p2_def cb_def hand_on_def p4_def ivs_def split: option.splits)
  moreover have "keeps b (1, i) p p'" if "same_slots b ?p p'" for p'
  proof (rule keepsI [OF that])
    show "pl_saving ?p = pl_saving p" using v3(15) st(12) by (simp add: p4_def)
    show "ss_certs (slot_of b k ?p) = (if k = i then cb else ss_certs (slot_of b k p))" for k
      unfolding h(6) by (simp add: p4_def v3(3) st(6))
    show "unstored cb v" if "vote_key v \<noteq> (1, i)" "referenced_slot v = i" "unstored (ss_certs ?s) v" for v
      using that by (cases v) (auto simp: cb_def)
  qed
  ultimately show ?thesis using finish_saved by fastforce
qed

section \<open>Finalisation certificates\<close>

text \<open>The state once the finalised block is recorded, and once the finalised slots are dropped.\<close>

definition mark_final :: "finalize_vote certificate \<Rightarrow> pool \<Rightarrow> pool" where
  "mark_final cert p =
     publish (FinalizationObserved (fv_id (ct_vote cert)) cert)
       (p\<lparr>pl_last_finalized_block := Some (fv_id (ct_vote cert)), pl_last_final_cert := Some cert,
          pl_first_nonfinalized_slot := cid_slot (fv_id (ct_vote cert)) + 1\<rparr>)"

definition drop_final :: "nat \<Rightarrow> pool \<Rightarrow> pool" where
  "drop_final i p =
     p\<lparr>pl_skip_intervals := dropWhile (\<lambda>x. x \<le> i) (pl_skip_intervals p),
       pl_state := notify_finalized i (pl_state p)\<rparr>"

lemma handle_typed_saved_final_eq:
  "handle_typed_saved_final b i cert p =
     (let ident = fv_id (ct_vote cert)
      in rbind (check (\<not> is_skipped (slot_of b i p))) (\<lambda>_.
         rbind (check ((case notarized_block (slot_of b i p) of Some c \<Rightarrow> c | None \<Rightarrow> ident) = ident)) (\<lambda>_.
         rbind (if nt b p i then Inr p
                else rbind (next_nonskipped_slot_after b (cid_slot ident) p)
                  (\<lambda>(j, p). Inr (set_slot j (add_available_base (Some ident) (slot_of b j p)) p))) (\<lambda>p.
         rbind (if pl_now (mark_final cert p) \<le> cid_slot ident
                then advance_present b ((mark_final cert p)\<lparr>pl_now := cid_slot ident + 1\<rparr>)
                else Inr (mark_final cert p)) (\<lambda>p.
         Inr (drop_final (cid_slot ident) p))))))"
  unfolding handle_typed_saved_final_def mark_final_def drop_final_def Let_def by simp

lemma mark_final_simps [simp]:
  "slot_of b k (mark_final cert p) = slot_of b k p" "pl_state (mark_final cert p) = pl_state p"
  "pl_now (mark_final cert p) = pl_now p" "pl_skip_intervals (mark_final cert p) = pl_skip_intervals p"
  "slots_inv b K (mark_final cert p) = slots_inv b K p" "saving_inv b K (mark_final cert p) = saving_inv b K p"
  "tasks_inv b K (mark_final cert p) = tasks_inv b K p"
  "events_inv b K (mark_final cert p) \<longleftrightarrow> events_inv b K p \<and> quorum b K (Final (fv_id (ct_vote cert)))"
  "final_inv b K (mark_final cert p) \<longleftrightarrow> quorum b K (Final (fv_id (ct_vote cert)))"
  "pl_first_nonfinalized_slot (mark_final cert p) = Suc (cid_slot (fv_id (ct_vote cert)))"
  by (auto simp: mark_final_def publish_def slot_of_def slots_inv_def saving_inv_def tasks_inv_def
      events_inv_def final_inv_def)

lemma drop_final_simps [simp]:
  "final_inv b K (drop_final i p) = final_inv b K p" "tasks_inv b K (drop_final i p) = tasks_inv b K p"
  "events_inv b K (drop_final i p) = events_inv b K p"
  "pl_first_nonfinalized_slot (drop_final i p) = pl_first_nonfinalized_slot p"
  by (auto simp: drop_final_def final_inv_def tasks_inv_def events_inv_def split: option.splits)

lemma present_inv_cong:
  assumes "\<And>k. slot_of b k p' = slot_of b k p" "pl_now p' = pl_now p"
  shows "present_inv b F p' = present_inv b F p"
  using assms by (simp add: present_inv_def)

text \<open>
  The part of the handler after the checks: with \<^verbatim>\<open>present_inv\<close> for the next slot the pool
  moves on to it.
\<close>

lemma finalize_ok:
  assumes slots: "slots_inv b K p" and saving: "saving_inv b K p" and events: "events_inv b K p"
    and req: "tasks_inv b K p" and skip: "skip_ok (pl_first p) (sk b p) (pl_skip_intervals p)"
    and i: "pl_first p \<le> i" "\<not> sk b p i" "cid_slot (fv_id (ct_vote cert)) = i"
    and q: "quorum b K (Final (fv_id (ct_vote cert)))"
    and bases: "bases_ok (Suc i) (sk b p) (nt b p) (hb b p)"
    and passed: "\<And>k. pl_first p \<le> k \<Longrightarrow> k < pl_now p \<Longrightarrow> nt b p k \<or> sk b p k"
  obtains p' where "rbind (if pl_now (mark_final cert p) \<le> i
        then advance_present b ((mark_final cert p)\<lparr>pl_now := i + 1\<rparr>) else Inr (mark_final cert p))
      (\<lambda>p. Inr (drop_final i p)) = Inr p'" "pool_inv b K p'" "same_slots b p p'"
proof -
  define p1 where "p1 = (if pl_now p \<le> i then (mark_final cert p)\<lparr>pl_now := i + 1\<rparr> else mark_final cert p)"
  have v1: "slot_of b k p1 = slot_of b k p" "pl_state p1 = pl_state p" "pl_skip_intervals p1 = pl_skip_intervals p" for k
    by (simp_all add: p1_def)
  have now1: "pl_now p1 = (if pl_now p \<le> i then Suc i else pl_now p)" by (simp add: p1_def)
  have inv1: "slots_inv b K p1" "saving_inv b K p1" "events_inv b K p1" "tasks_inv b K p1" "final_inv b K p1"
    "pl_first_nonfinalized_slot p1 = Suc i"
    using slots saving events req q i(3)
    by (auto simp: p1_def slots_inv_def saving_inv_def events_inv_def tasks_inv_def final_inv_def mark_final_def
        publish_def slot_of_def)
  have pres: "present_inv b (Suc i) p1"
    using bases passed i(1) unfolding present_inv_def v1 now1 by auto
  obtain p2 where p2: "quiet b p1 p2" "present_inv b (Suc i) p2" "events_inv b K p2"
      "(if pl_now p \<le> i then advance_present b p1 else Inr p1) = Inr p2"
  proof (cases "pl_now p \<le> i")
    case True
    have "pl_first p1 \<le> Suc i" using i(1) by (simp add: v1)
    with advance_present_ok [of p1 b K "Suc i"] inv1(1) pres obtain p2 where "advance_present b p1 = Inr p2"
        "quiet b p1 p2" "present_inv b (Suc i) p2"
        "\<And>e. e \<in> set (pl_published p2) \<Longrightarrow> e \<in> set (pl_published p1) \<or> event_ok b K e"
      by (metis slots_inv_def)
    then show thesis using True inv1(3) by (intro that [of p2]) (auto simp: events_inv_def)
  next
    case False
    then show thesis using inv1 pres by (intro that [of p1]) (auto simp: quiet_refl slots_inv_def)
  qed
  note v2 = quiet_fields [OF p2(1)]
  have slots2: "slots_inv b K p2" and saving2: "saving_inv b K p2"
    using slots_inv_quiet [OF inv1(1) p2(1)] saving_inv_quiet [OF inv1(2) p2(1)] .
  let ?p = "drop_final i p2"
  have v3: "slot_of b k ?p = slot_of b k p2" for k
    by (simp add: drop_final_def slot_of_def deref_notify [OF v2(1)])
  have first3: "pl_first ?p = Suc i" using i(1) by (simp add: drop_final_def v2(2) v1)
  have sk3: "sk b ?p = sk b p" by (simp add: v3 v2(3) v1)
  have "skip_ok (Suc i) (sk b ?p) (pl_skip_intervals ?p)"
    using skip_ok_drop [OF skip i(1,2)] unfolding sk3 by (simp add: drop_final_def v2(8) v1)
  moreover have "present_inv b (Suc i) ?p"
    using p2(2) present_inv_cong [of b ?p p2] v3 by (simp add: drop_final_def)
  ultimately have "track_inv b (pl_first ?p) ?p" by (simp add: track_inv_def first3)
  moreover have "slots_inv b K ?p"
    using slots2 cs_wf_notify [OF v2(1)] by (simp add: slots_inv_def v3) (simp add: drop_final_def)
  moreover have "saving_inv b K ?p"
    using saving2 i(1) by (auto simp: saving_inv_def v3 first3 v2(2) v1) (auto simp: drop_final_def)
  moreover have "final_inv b K ?p" "tasks_inv b K ?p" "events_inv b K ?p" "pl_first_nonfinalized_slot ?p = Suc i"
    using inv1(4-6) p2(3) rest_inv_quiet [OF p2(1)] v2(11)
    by simp_all
  ultimately have "pool_inv b K ?p" by (intro pool_invI) (simp_all add: first3)
  moreover have "pl_saving p1 = pl_saving p" by (simp add: p1_def mark_final_def publish_def)
  then have "same_slots b p ?p" using v2(15) by (simp add: same_slots_def v3 v2(3) v1) (simp add: drop_final_def)
  ultimately show thesis using p2(4) by (intro that [of ?p]) (simp_all add: p1_def split: if_splits)
qed

text \<open>The finalised block is an available base, whether it was notarised before or not.\<close>

lemma final_base_ok:
  assumes slots: "slots_inv b K p" and saving: "saving_inv b K p" and track: "track_inv b (pl_first p) p"
    and i: "pl_first p \<le> i" "cid_slot c = i" and q: "quorum b K (Final c)"
  obtains p' where "(if nt b p i then Inr p
      else rbind (next_nonskipped_slot_after b i p)
        (\<lambda>(j, p). Inr (set_slot j (add_available_base (Some c) (slot_of b j p)) p))) = Inr p'"
    "slots_inv b K p'" "saving_inv b K p'" "sk b p' = sk b p" "nt b p' = nt b p"
    "bases_ok (Suc i) (sk b p) (nt b p) (hb b p')" "pl_now p' = pl_now p"
    "pl_skip_intervals p' = pl_skip_intervals p" "pl_first p' = pl_first p"
    "pl_published p' = pl_published p" "tasks_inv b K p' = tasks_inv b K p" "pl_saving p' = pl_saving p"
    "\<forall>k. ss_certs (slot_of b k p') = ss_certs (slot_of b k p)"
proof (cases "nt b p i")
  case True
  then show thesis
    using assms bases_ok_final [OF track_invD(2) [OF track] i(1) True] by (intro that [of p]) simp_all
next
  case False
  note t = track_invD [OF track]
  obtain j p3 p4 where p4: "next_nonskipped_slot_after b i p = Inr (j, p3)"
      "p4 = set_slot j (add_available_base (Some c) (slot_of b j p3)) p3"
      "slots_inv b K p4" "saving_inv b K p4" "next_unskipped (sk b p) (Suc i) j"
      "sk b p4 = sk b p" "nt b p4 = nt b p" "hb b p4 = (hb b p)(j := True)"
      "quiet b p p3" "pl_published p3 = pl_published p" "pl_now p3 = pl_now p"
      "\<forall>k. ss_certs (slot_of b k p4) = ss_certs (slot_of b k p)"
    by (rule give_base_ok [OF slots saving t(1) i(1) i(1) i(2) disjI2 [OF q]])
  have "bases_ok (Suc i) (sk b p) ((nt b p)(i := True)) ((hb b p)(j := True))"
    by (rule bases_ok_final [OF bases_ok_notar [OF t(2) p4(5)] i(1)]) simp
  then have "bases_ok (Suc i) (sk b p) (nt b p) (hb b p4)"
    unfolding p4(8) by (rule bases_ok_mono) auto
  then show thesis
    using False p4 quiet_fields [OF p4(9)] by (intro that [of p4]) (simp_all add: tasks_inv_def)
qed

lemma handle_saved_final_ok:
  assumes inv: "pool_inv b K p" and i: "present i p" "pl_first p \<le> i" and con: "consistent b K"
    and none: "stored_cert (cb_final (ss_certs (slot_of b i p))) = None"
    and cert: "cid_slot (fv_id (ct_vote cert)) = i" "cert_good b K (VFinalize (ct_vote cert)) (ct_signatures cert)"
    and saving: "\<And>c. c \<in> set (pl_saving p) \<Longrightarrow> vote_key (ct_vote c) \<noteq> (2, i)"
  shows "\<exists>p'. handle_saved_final b i cert p = Inr p' \<and> pool_inv b K p' \<and> keeps b (2, i) p p'"
proof -
  let ?s = "slot_of b i p" and ?c = "fv_id (ct_vote cert)"
  define cb where "cb = (ss_certs ?s)\<lparr>cb_final := (cb_final (ss_certs ?s))\<lparr>stored_cert := Some cert\<rparr>\<rparr>"
  define p2 where "p2 = broadcast_cert (TlCertificate (VFinalize (ct_vote cert)) (ct_signatures cert))
    (set_slot i (?s\<lparr>ss_certs := cb\<rparr>) p)"
  have q: "quorum b K (Final ?c)" using cert_good_quorum [OF cert(2)] by simp
  have sok: "slot_ok b K i ?s" using pool_invD(1) [OF inv] by (simp add: slots_inv_def)
  then have cbs: "flag_le (cb_notar (ss_certs ?s)) (cb_notar cb)" "flag_le (cb_skip (ss_certs ?s)) (cb_skip cb)"
      "flag_le (cb_final (ss_certs ?s)) (cb_final cb)" "stored_ok b K i VNotarize (cb_notar cb)"
      "stored_ok b K i VSkip (cb_skip cb)" "stored_ok b K i VFinalize (cb_final cb)"
    using cert by (auto simp: cb_def flag_le_def flag_needs_def stored_ok_def slot_ok_def)
  have aw: "awaiting cb (ct_vote c)" if "c \<in> set (pl_saving p)" "referenced_slot (ct_vote c) = i"
      "awaiting (ss_certs ?s) (ct_vote c)" for c
    using that saving [of c] by (cases "ct_vote c") (auto simp: cb_def)
  note st = store_ok [OF inv i(1) cbs aw cert(2) p2_def]
  have sk2: "sk b p2 = sk b p" and nt2: "nt b p2 = nt b p" and hb2: "hb b p2 = hb b p"
    by (auto simp: st(6) cb_def is_skipped_def is_notarized_def fun_eq_iff)
  have nsk: "\<not> sk b p i"
  proof
    assume "sk b p i"
    then have "quorum b K (Skip i)" by (rule skipped_quorum [OF pool_invD(1) [OF inv]])
    then show False using con q cert(1) unfolding consistent_def by blast
  qed
  have nb: "notarized_block (slot_of b i p2) = Some ?c"
  proof (cases "stored_cert (cb_notar (ss_certs ?s))")
    case (Some n)
    then have "nv_id (ct_vote n) = ?c"
      using slot_okD(3) [OF sok Some] con q cert(1) unfolding consistent_def
      by (metis notarize_vote.collapse)
    then show ?thesis using Some by (simp add: notarized_block_def st(6) cb_def)
  qed (simp add: notarized_block_def st(6) cb_def)
  note t = track_invD [OF pool_invD(3) [OF inv]]
  have track2: "track_inv b (pl_first p2) p2"
    using t by (intro track_invI [OF sk2 nt2 hb2]) (simp_all add: st(7-9))
  have first2: "pl_first p2 \<le> i" using i(2) by (simp add: st(7))
  obtain p3 where p3: "(if nt b p2 i then Inr p2
      else rbind (next_nonskipped_slot_after b i p2)
        (\<lambda>(j, p). Inr (set_slot j (add_available_base (Some ?c) (slot_of b j p)) p))) = Inr p3"
    "slots_inv b K p3" "saving_inv b K p3" "sk b p3 = sk b p2" "nt b p3 = nt b p2"
    "bases_ok (Suc i) (sk b p2) (nt b p2) (hb b p3)" "pl_now p3 = pl_now p2"
    "pl_skip_intervals p3 = pl_skip_intervals p2" "pl_first p3 = pl_first p2"
    "pl_published p3 = pl_published p2" "tasks_inv b K p3 = tasks_inv b K p2" "pl_saving p3 = pl_saving p2"
    "\<forall>k. ss_certs (slot_of b k p3) = ss_certs (slot_of b k p2)"
    by (rule final_base_ok [OF st(1,2) track2 first2 cert(1) q])
  obtain p4 where p4: "rbind (if pl_now (mark_final cert p3) \<le> i
        then advance_present b ((mark_final cert p3)\<lparr>pl_now := i + 1\<rparr>) else Inr (mark_final cert p3))
      (\<lambda>p. Inr (drop_final i p)) = Inr p4" "pool_inv b K p4" "same_slots b p3 p4"
  proof (rule finalize_ok [OF p3(2,3) _ _ _ _ _ cert(1) q])
    show "events_inv b K p3" "tasks_inv b K p3"
      using st(3,5) p3(10,11) by (simp_all add: events_inv_def)
    show "skip_ok (pl_first p3) (sk b p3) (pl_skip_intervals p3)"
      using t(1) unfolding p3(4,8,9) sk2 by (simp add: st(7,8))
    show "pl_first p3 \<le> i" using i(2) by (simp add: p3(9) st(7))
    show "\<not> sk b p3 i" using nsk fun_cong [OF p3(4)] fun_cong [OF sk2] by simp
    show "bases_ok (Suc i) (sk b p3) (nt b p3) (hb b p3)" using p3(6) unfolding p3(4,5) .
    show "nt b p3 k \<or> sk b p3 k" if "pl_first p3 \<le> k" "k < pl_now p3" for k
      using t(4) [of k] that fun_cong [OF p3(4)] fun_cong [OF p3(5)] fun_cong [OF sk2] fun_cong [OF nt2]
      by (simp add: p3(7,9) st(7,9))
  qed
  have nsk2: "\<not> is_skipped (slot_of b i p2)" using nsk fun_cong [OF sk2, of i] by simp
  have "handle_typed_saved_final b i cert p2 = Inr p4"
    unfolding handle_typed_saved_final_eq Let_def cert(1) p3(1) using nsk2 nb p4(1)
    by (simp add: check_def del: mark_final_simps)
  moreover have "handle_saved_final b i cert p =
      rbind (handle_typed_saved_final b i cert p2) (maybe_resolve_requests b)"
    using none by (simp add: handle_saved_final_def store_cert_def check_def Let_def
        certificate_serialize_def p2_def cb_def)
  moreover have "keeps b (2, i) p p'" if "same_slots b p4 p'" for p'
  proof (rule keepsI [of b p3])
    show "same_slots b p3 p'" using that p4(3) by (simp add: same_slots_def)
    show "pl_saving p3 = pl_saving p" using p3(12) st(12) by simp
    show "ss_certs (slot_of b k p3) = (if k = i then cb else ss_certs (slot_of b k p))" for k
      by (simp add: p3(13) st(6))
    show "unstored cb v" if "vote_key v \<noteq> (2, i)" "referenced_slot v = i" "unstored (ss_certs ?s) v" for v
      using that by (cases v) (auto simp: cb_def)
  qed
  ultimately show ?thesis using maybe_resolve_requests_ok [OF p4(2)] by fastforce
qed

end
