(* ===== verification/Simplex_Pool_Safe.thy ===== *)
theory Simplex_Pool_Safe
  imports Simplex_Pool_Certs
begin

text \<open>
  Votes, messages and the whole actor: every handler keeps the invariant of the pool and
  none aborts, as long as the votes the pool learns of were signed by their validators, our
  own votes do not contradict each other, and the votes are consistent.
\<close>

section \<open>Writing a slot without moving the bookkeeping\<close>

lemma pool_inv_set:
  assumes inv: "pool_inv b K p" and i: "present i p" and ok: "slot_ok b K i s"
    and same: "is_skipped s = is_skipped (slot_of b i p)" "is_notarized s = is_notarized (slot_of b i p)"
      "ss_available_base s = ss_available_base (slot_of b i p)"
    and aw: "\<And>c. c \<in> set (pl_saving p) \<Longrightarrow> referenced_slot (ct_vote c) = i \<Longrightarrow> pl_first p \<le> i \<Longrightarrow>
        awaiting (ss_certs (slot_of b i p)) (ct_vote c) \<Longrightarrow> awaiting (ss_certs s) (ct_vote c)"
  shows "pool_inv b K (set_slot i s p)"
proof -
  note wf = pool_inv_wf [OF inv]
  have v: "slot_of b k (set_slot i s p) = (if k = i then s else slot_of b k p)" for k
    by (rule slot_of_set_slot [OF wf i])
  have "sk b (set_slot i s p) = sk b p" "nt b (set_slot i s p) = nt b p" "hb b (set_slot i s p) = hb b p"
    using same by (auto simp: v fun_eq_iff)
  then have "track_inv b (pl_first p) (set_slot i s p)"
    using track_invD [OF pool_invD(3) [OF inv]] by (intro track_invI) simp_all
  then show ?thesis
    using pool_invD [OF inv] slots_inv_set [OF pool_invD(1) [OF inv] i ok]
      saving_inv_set [OF pool_invD(2) [OF inv] i wf aw]
    by (intro pool_invI) (simp_all add: rest_inv_set)
qed

lemma set_slot_twice: "set_slot i s' (set_slot i s p) = set_slot i s' p" if "present i p"
  using that by (simp add: set_slot_def assign_def present_def fmap_ext)

lemma pool_inv_frame:
  assumes inv: "pool_inv b K p"
    and eq: "pl_state p' = pl_state p" "pl_weight_threshold p' = pl_weight_threshold p" "pl_now p' = pl_now p"
      "pl_skip_intervals p' = pl_skip_intervals p" "pl_last_finalized_block p' = pl_last_finalized_block p"
      "pl_first_nonfinalized_slot p' = pl_first_nonfinalized_slot p" "pl_published p' = pl_published p"
      "pl_requests p' = pl_requests p" "pl_signing p' = pl_signing p"
    and saving: "saving_inv b K p'"
  shows "pool_inv b K p'"
proof -
  have v: "slot_of b i p' = slot_of b i p" for i by (simp add: slot_of_def eq)
  show ?thesis
  proof (rule pool_invI)
    show "slots_inv b K p'" using pool_invD(1) [OF inv] by (simp add: slots_inv_def v eq)
    show "track_inv b (pl_first p') p'"
      using pool_invD(3) [OF inv] by (simp add: track_inv_def present_inv_def v eq)
    show "final_inv b K p'" using pool_invD(4) [OF inv] by (simp add: final_inv_def eq split: option.splits)
    show "events_inv b K p'" "tasks_inv b K p'"
      using pool_invD(5,6) [OF inv] by (simp_all add: events_inv_def tasks_inv_def eq)
  qed (use saving pool_invD(7) [OF inv] eq in simp_all)
qed

lemma saving_invD:
  assumes "saving_inv b K p" "c \<in> set (pl_saving p)"
  shows "cert_good b K (ct_vote c) (ct_signatures c)"
    and "referenced_slot (ct_vote c) = i \<Longrightarrow> pl_first p \<le> i \<Longrightarrow> awaiting (ss_certs (slot_of b i p)) (ct_vote c)"
  using assms by (auto simp: saving_inv_def)

lemma saving_inv_frame:
  assumes "saving_inv b K p" "pl_state p' = pl_state p" "pl_saving p' = pl_saving p"
  shows "saving_inv b K p'"
  using assms by (simp add: saving_inv_def slot_of_def)

lemma pool_inv_saving:
  assumes "pool_inv b K p" "saving_inv b K (p\<lparr>pl_saving := cs\<rparr>)"
  shows "pool_inv b K (p\<lparr>pl_saving := cs\<rparr>)"
  by (rule pool_inv_frame [OF assms(1)]) (simp_all add: assms(2))

lemma pool_inv_slot: "pool_inv b K p \<Longrightarrow> slot_ok b K i (slot_of b i p)"
  using pool_invD(1) by (simp add: slots_inv_def)

lemma pool_slot_at_inv:
  assumes "pool_inv b K p" "pool_slot_at b i p = Some p'"
  shows "pool_inv b K p'" "present i p'" "pl_first p' \<le> i" "quiet b p p'"
proof -
  note s = pool_slot_at_Some [OF assms(2) pool_inv_wf [OF assms(1)]]
  show "pool_inv b K p'" by (rule pool_inv_quiet' [OF assms(1) s(1,5,4)])
  show "present i p'" "pl_first p' \<le> i" "quiet b p p'"
    using s quiet_fields(2) [OF s(1)] by simp_all
qed

section \<open>New certificates\<close>

lemma vote_key_slot: "vote_key v = vote_key w \<Longrightarrow> referenced_slot v = referenced_slot w"
  by (cases v; cases w) auto

lemma awaiting_needs: "vote_key v = vote_key w \<Longrightarrow> awaiting cb v \<Longrightarrow> \<not> needs cb w"
  by (cases v; cases w) (auto simp: flag_awaiting_def flag_needs_def)

lemma remember_prospective_needs:
  assumes "needs cb v" "stored_ok b K i VNotarize (cb_notar cb)" "stored_ok b K i VSkip (cb_skip cb)"
    "stored_ok b K i VFinalize (cb_final cb)"
  obtains cb' where "remember_prospective v cb = Inr cb'" "awaiting cb' v"
    "\<And>w. awaiting cb w \<Longrightarrow> awaiting cb' w"
    "stored_cert (cb_notar cb') = stored_cert (cb_notar cb)" "stored_cert (cb_skip cb') = stored_cert (cb_skip cb)"
    "flag_le (cb_notar cb) (cb_notar cb')" "flag_le (cb_skip cb) (cb_skip cb')" "flag_le (cb_final cb) (cb_final cb')"
    "stored_ok b K i VNotarize (cb_notar cb')" "stored_ok b K i VSkip (cb_skip cb')"
    "stored_ok b K i VFinalize (cb_final cb')"
proof -
  have "\<exists>cb'. remember_prospective v cb = Inr cb' \<and> awaiting cb' v \<and>
    (\<forall>w. awaiting cb w \<longrightarrow> awaiting cb' w) \<and>
    stored_cert (cb_notar cb') = stored_cert (cb_notar cb) \<and> stored_cert (cb_skip cb') = stored_cert (cb_skip cb) \<and>
    flag_le (cb_notar cb) (cb_notar cb') \<and> flag_le (cb_skip cb) (cb_skip cb') \<and> flag_le (cb_final cb) (cb_final cb') \<and>
    stored_ok b K i VNotarize (cb_notar cb') \<and> stored_ok b K i VSkip (cb_skip cb') \<and>
    stored_ok b K i VFinalize (cb_final cb')"
  proof (cases v)
    case (VNotarize x)
    have "awaiting (cb\<lparr>cb_notar := cb_notar cb\<lparr>being_saved := True\<rparr>\<rparr>) w" if "awaiting cb w" for w
      using that by (cases w) (auto simp: flag_awaiting_def)
    then show ?thesis using assms VNotarize
      by (auto simp: check_def flag_needs_def flag_awaiting_def flag_le_def stored_ok_def)
  next
    case (VSkip x)
    have "awaiting (cb\<lparr>cb_skip := cb_skip cb\<lparr>being_saved := True\<rparr>\<rparr>) w" if "awaiting cb w" for w
      using that by (cases w) (auto simp: flag_awaiting_def)
    then show ?thesis using assms VSkip
      by (auto simp: check_def flag_needs_def flag_awaiting_def flag_le_def stored_ok_def)
  next
    case (VFinalize x)
    have "awaiting (cb\<lparr>cb_final := cb_final cb\<lparr>being_saved := True\<rparr>\<rparr>) w" if "awaiting cb w" for w
      using that by (cases w) (auto simp: flag_awaiting_def)
    then show ?thesis using assms VFinalize
      by (auto simp: check_def flag_needs_def flag_awaiting_def flag_le_def stored_ok_def)
  qed
  then show thesis using that by blast
qed

lemma handle_certificate_ok:
  assumes inv: "pool_inv b K p" and good: "cert_good b K (ct_vote cert) (ct_signatures cert)"
  shows "\<exists>p'. handle_certificate b cert p = Inr p' \<and> pool_inv b K p'"
proof -
  let ?v = "ct_vote cert" and ?i = "referenced_slot (ct_vote cert)"
  show ?thesis
  proof (cases "pool_slot_at b ?i p")
    case None
    then show ?thesis using inv by (simp add: handle_certificate_def Let_def)
  next
    case (Some p1)
    note s1 = pool_slot_at_inv [OF inv Some]
    let ?s = "slot_of b ?i p1"
    show ?thesis
    proof (cases "needs (ss_certs ?s) ?v")
      case False
      then show ?thesis using Some s1(1) by (simp add: handle_certificate_def Let_def)
    next
      case True
      have sok: "slot_ok b K ?i ?s" by (rule pool_inv_slot [OF s1(1)])
      then have "stored_ok b K ?i VNotarize (cb_notar (ss_certs ?s))" "stored_ok b K ?i VSkip (cb_skip (ss_certs ?s))"
        "stored_ok b K ?i VFinalize (cb_final (ss_certs ?s))" by (simp_all add: slot_ok_def)
      from remember_prospective_needs [OF True this] obtain cb where
        cb: "remember_prospective ?v (ss_certs ?s) = Inr cb" "awaiting cb ?v"
        "\<And>w. awaiting (ss_certs ?s) w \<Longrightarrow> awaiting cb w"
        "stored_cert (cb_notar cb) = stored_cert (cb_notar (ss_certs ?s))"
        "stored_cert (cb_skip cb) = stored_cert (cb_skip (ss_certs ?s))"
        and ok: "flag_le (cb_notar (ss_certs ?s)) (cb_notar cb)" "flag_le (cb_skip (ss_certs ?s)) (cb_skip cb)"
        "flag_le (cb_final (ss_certs ?s)) (cb_final cb)" "stored_ok b K ?i VNotarize (cb_notar cb)"
        "stored_ok b K ?i VSkip (cb_skip cb)" "stored_ok b K ?i VFinalize (cb_final cb)" by metis
      define p2 where "p2 = set_slot ?i (?s\<lparr>ss_certs := cb\<rparr>) p1"
      have inv2: "pool_inv b K p2" unfolding p2_def
        using slot_ok_certs [OF sok ok] cb(3-5)
        by (intro pool_inv_set [OF s1(1,2)]) (simp_all add: is_skipped_def is_notarized_def)
      have new: "vote_key (ct_vote c) \<noteq> vote_key ?v" if "c \<in> set (pl_saving p1)" for c
      proof
        assume eq: "vote_key (ct_vote c) = vote_key ?v"
        have "awaiting (ss_certs ?s) (ct_vote c)"
          using saving_invD(2) [OF pool_invD(2) [OF s1(1)] that vote_key_slot [OF eq] s1(3)] .
        then show False using awaiting_needs [OF eq] True by simp
      qed
      then have notin: "vote_key ?v \<notin> (\<lambda>c. vote_key (ct_vote c)) ` set (pl_saving p1)" by force
      have "saving_inv b K (p2\<lparr>pl_saving := pl_saving p2 @ [cert]\<rparr>)"
        using pool_invD(2) [OF inv2] good cb(2) notin s1(2) pool_inv_wf [OF s1(1)]
        by (auto simp: saving_inv_def p2_def slot_of_set_slot)
      then have "pool_inv b K (publish (SaveCertificate cert) (p2\<lparr>pl_saving := pl_saving p2 @ [cert]\<rparr>))"
        using good by (intro pool_inv_publish pool_inv_saving [OF inv2]) simp_all
      then show ?thesis using Some True cb(1) by (simp add: handle_certificate_def Let_def p2_def)
    qed
  qed
qed

section \<open>Votes\<close>

lemma threshold_le:
  assumes "bus_ok b" "pool_inv b K p"
  shows "pl_weight_threshold p \<le> w \<longleftrightarrow> threshold b \<le> unat w"
  using unat_required_weight [OF assms(1)] pool_invD(1) [OF assms(2)]
  by (simp add: slots_inv_def word_le_nat_alt threshold_def)

text \<open>
  Counting a vote in a slot \<^verbatim>\<open>s\<close> and building the certificate if the weight is reached:
  the common end of the three \<^verbatim>\<open>handle_typed_vote\<close> functions.
\<close>

lemma count_and_certify:
  assumes b: "bus_ok b" and inv: "pool_inv b K p" and i: "present i p"
    and s: "slot_ok b K i s" "ss_certs s = ss_certs (slot_of b i p)" "ss_available_base s = ss_available_base (slot_of b i p)"
    and cert: "flag_needs f \<Longrightarrow> threshold b \<le> unat w \<Longrightarrow>
       \<exists>sigs. create_cert v s = Inr \<lparr>ct_vote = v, ct_signatures = sigs\<rparr> \<and> cert_good b K v sigs"
  shows "\<exists>p'. (if flag_needs f \<and> pl_weight_threshold p \<le> w
       then rbind (create_cert v s) (\<lambda>c. handle_certificate b c (set_slot i s p)) else Inr (set_slot i s p)) = Inr p' \<and>
     pool_inv b K p'"
proof -
  have inv': "pool_inv b K (set_slot i s p)"
    using s by (intro pool_inv_set [OF inv i]) (simp_all add: is_skipped_def is_notarized_def)
  show ?thesis
  proof (cases "flag_needs f \<and> pl_weight_threshold p \<le> w")
    case True
    then obtain sigs where "create_cert v s = Inr \<lparr>ct_vote = v, ct_signatures = sigs\<rparr>" "cert_good b K v sigs"
      using cert threshold_le [OF b inv] by auto
    then show ?thesis using True handle_certificate_ok [OF inv'] by simp
  qed (use inv' in auto)
qed

lemma will_be_needs:
  "\<not> will_be_notarized s \<longleftrightarrow> flag_needs (cb_notar (ss_certs s))"
  "\<not> will_be_skipped s \<longleftrightarrow> flag_needs (cb_skip (ss_certs s))"
  "\<not> will_be_finalized s \<longleftrightarrow> flag_needs (cb_final (ss_certs s))"
  by (auto simp: will_be_notarized_def is_notarized_def will_be_skipped_def is_skipped_def
      will_be_finalized_def is_finalized_def flag_needs_def)

lemma weight_at_the: "weight_at (add_weight c w m) c = unat (the (add_weight c w m c))"
  by (simp add: weight_at_def add_weight_def)

lemma voter_okD:
  assumes "voter_ok b K i cb j t"
  shows "tb_notarize t = Some n \<Longrightarrow> proven_ok b K i VNotarize (cb_notar cb) j n"
    "tb_skip t = Some k \<Longrightarrow> proven_ok b K i VSkip (cb_skip cb) j k"
    "tb_finalize t = Some f \<Longrightarrow> proven_ok b K i VFinalize (cb_final cb) j f"
  using assms by (auto simp: voter_ok_def)

lemma handle_typed_vote_notarize_ok:
  assumes b: "bus_ok b" and inv: "pool_inv b K p" and i: "present i p" and j: "j < length (validator_set b)"
    and t: "t = ss_votes (slot_of b i p) ! j" "tb_notarize t = None" "pr_proof pv = PSigned sg"
      "voter_ok b K i (ss_certs (slot_of b i p)) j (t\<lparr>tb_notarize := Some pv\<rparr>)"
  shows "\<exists>p'. handle_typed_vote_notarize b (validator_set b ! j) (pr_vote pv) i
      (set_slot i ((slot_of b i p)\<lparr>ss_votes := (ss_votes (slot_of b i p))[j := t\<lparr>tb_notarize := Some pv\<rparr>]\<rparr>) p) = Inr p' \<and>
    pool_inv b K p'"
proof -
  let ?s = "slot_of b i p" and ?c = "nv_id (pr_vote pv)" and ?w = "pv_weight (validator_set b ! j)"
  let ?s' = "?s\<lparr>ss_votes := (ss_votes ?s)[j := t\<lparr>tb_notarize := Some pv\<rparr>]\<rparr>"
  define s where "s = ?s'\<lparr>ss_notarize_weight := add_weight ?c ?w (ss_notarize_weight ?s)\<rparr>"
  have s: "slot_ok b K i s"
    using slot_ok_count_notarize [OF b pool_inv_slot [OF inv] j t] by (simp add: s_def)
  have "weight_at (ss_notarize_weight s) ?c = weight_of b (signed_set tb_notarize (NotarizeVote ?c) (ss_votes s))"
    using s unfolding slot_ok_def weights_ok_def by blast
  then have wt: "unat (the (ss_notarize_weight s ?c)) = weight_of b (signed_set tb_notarize (pr_vote pv) (ss_votes s))"
    by (simp add: s_def weight_at_the)
  have "\<exists>sigs. create_cert (VNotarize (pr_vote pv)) s = Inr \<lparr>ct_vote = VNotarize (pr_vote pv), ct_signatures = sigs\<rparr> \<and>
      cert_good b K (VNotarize (pr_vote pv)) sigs"
    if "flag_needs (cb_notar (ss_certs s))" "threshold b \<le> unat (the (ss_notarize_weight s ?c))"
    using that wt by (intro create_cert_notarize [OF slot_okD(1) [OF s] voter_okD(1) [OF slot_okD(2) [OF s]]]) auto
  note cert = this
  have eq: "handle_typed_vote_notarize b (validator_set b ! j) (pr_vote pv) i (set_slot i ?s' p) =
    (if flag_needs (cb_notar (ss_certs s)) \<and> pl_weight_threshold p \<le> the (ss_notarize_weight s ?c)
     then rbind (create_cert (VNotarize (pr_vote pv)) s) (\<lambda>c. handle_certificate b c (set_slot i s p))
     else Inr (set_slot i s p))"
    by (simp add: handle_typed_vote_notarize_def Let_def slot_of_set_slot [OF pool_inv_wf [OF inv] i]
        set_slot_twice [OF i] will_be_needs s_def)
  show ?thesis unfolding eq
    by (rule count_and_certify [OF b inv i s _ _ cert]) (simp_all add: s_def)
qed

lemma handle_typed_vote_finalize_ok:
  assumes b: "bus_ok b" and inv: "pool_inv b K p" and i: "present i p" and j: "j < length (validator_set b)"
    and t: "t = ss_votes (slot_of b i p) ! j" "tb_finalize t = None" "pr_proof pv = PSigned sg"
      "voter_ok b K i (ss_certs (slot_of b i p)) j (t\<lparr>tb_finalize := Some pv\<rparr>)"
  shows "\<exists>p'. handle_typed_vote_finalize b (validator_set b ! j) (pr_vote pv) i
      (set_slot i ((slot_of b i p)\<lparr>ss_votes := (ss_votes (slot_of b i p))[j := t\<lparr>tb_finalize := Some pv\<rparr>]\<rparr>) p) = Inr p' \<and>
    pool_inv b K p'"
proof -
  let ?s = "slot_of b i p" and ?c = "fv_id (pr_vote pv)" and ?w = "pv_weight (validator_set b ! j)"
  let ?s' = "?s\<lparr>ss_votes := (ss_votes ?s)[j := t\<lparr>tb_finalize := Some pv\<rparr>]\<rparr>"
  define s where "s = ?s'\<lparr>ss_finalize_weight := add_weight ?c ?w (ss_finalize_weight ?s)\<rparr>"
  have s: "slot_ok b K i s"
    using slot_ok_count_finalize [OF b pool_inv_slot [OF inv] j t] by (simp add: s_def)
  have "weight_at (ss_finalize_weight s) ?c = weight_of b (signed_set tb_finalize (FinalizeVote ?c) (ss_votes s))"
    using s unfolding slot_ok_def weights_ok_def by blast
  then have wt: "unat (the (ss_finalize_weight s ?c)) = weight_of b (signed_set tb_finalize (pr_vote pv) (ss_votes s))"
    by (simp add: s_def weight_at_the)
  have "\<exists>sigs. create_cert (VFinalize (pr_vote pv)) s = Inr \<lparr>ct_vote = VFinalize (pr_vote pv), ct_signatures = sigs\<rparr> \<and>
      cert_good b K (VFinalize (pr_vote pv)) sigs"
    if "flag_needs (cb_final (ss_certs s))" "threshold b \<le> unat (the (ss_finalize_weight s ?c))"
    using that wt by (intro create_cert_finalize [OF slot_okD(1) [OF s] voter_okD(3) [OF slot_okD(2) [OF s]]]) auto
  note cert = this
  have eq: "handle_typed_vote_finalize b (validator_set b ! j) (pr_vote pv) i (set_slot i ?s' p) =
    (if flag_needs (cb_final (ss_certs s)) \<and> pl_weight_threshold p \<le> the (ss_finalize_weight s ?c)
     then rbind (create_cert (VFinalize (pr_vote pv)) s) (\<lambda>c. handle_certificate b c (set_slot i s p))
     else Inr (set_slot i s p))"
    by (simp add: handle_typed_vote_finalize_def Let_def slot_of_set_slot [OF pool_inv_wf [OF inv] i]
        set_slot_twice [OF i] will_be_needs s_def)
  show ?thesis unfolding eq
    by (rule count_and_certify [OF b inv i s _ _ cert]) (simp_all add: s_def)
qed

lemma handle_typed_vote_skip_ok:
  assumes b: "bus_ok b" and inv: "pool_inv b K p" and i: "present i p" and j: "j < length (validator_set b)"
    and t: "t = ss_votes (slot_of b i p) ! j" "tb_skip t = None" "pr_proof pv = PSigned sg" "pr_vote pv = SkipVote i"
      "voter_ok b K i (ss_certs (slot_of b i p)) j (t\<lparr>tb_skip := Some pv\<rparr>)"
  shows "\<exists>p'. handle_typed_vote_skip b (validator_set b ! j) (pr_vote pv) i
      (set_slot i ((slot_of b i p)\<lparr>ss_votes := (ss_votes (slot_of b i p))[j := t\<lparr>tb_skip := Some pv\<rparr>]\<rparr>) p) = Inr p' \<and>
    pool_inv b K p'"
proof -
  let ?s = "slot_of b i p" and ?w = "pv_weight (validator_set b ! j)"
  let ?s' = "?s\<lparr>ss_votes := (ss_votes ?s)[j := t\<lparr>tb_skip := Some pv\<rparr>]\<rparr>"
  define s where "s = ?s'\<lparr>ss_skip_weight := ss_skip_weight ?s + ?w\<rparr>"
  have s: "slot_ok b K i s"
    using slot_ok_count_skip [OF b pool_inv_slot [OF inv] j t] by (simp add: s_def)
  have wt: "unat (ss_skip_weight s) = weight_of b (signed_set tb_skip (pr_vote pv) (ss_votes s))"
    using s unfolding slot_ok_def weights_ok_def t(4) by blast
  have "\<exists>sigs. create_cert (VSkip (pr_vote pv)) s = Inr \<lparr>ct_vote = VSkip (pr_vote pv), ct_signatures = sigs\<rparr> \<and>
      cert_good b K (VSkip (pr_vote pv)) sigs"
    if "flag_needs (cb_skip (ss_certs s))" "threshold b \<le> unat (ss_skip_weight s)"
    using that wt by (intro create_cert_skip [OF slot_okD(1) [OF s] voter_okD(2) [OF slot_okD(2) [OF s]]]) auto
  note cert = this
  have eq: "handle_typed_vote_skip b (validator_set b ! j) (pr_vote pv) i (set_slot i ?s' p) =
    (if flag_needs (cb_skip (ss_certs s)) \<and> pl_weight_threshold p \<le> ss_skip_weight s
     then rbind (create_cert (VSkip (pr_vote pv)) s) (\<lambda>c. handle_certificate b c (set_slot i s p))
     else Inr (set_slot i s p))"
    by (simp add: handle_typed_vote_skip_def Let_def slot_of_set_slot [OF pool_inv_wf [OF inv] i]
        set_slot_twice [OF i] will_be_needs s_def)
  show ?thesis unfolding eq
    by (rule count_and_certify [OF b inv i s _ _ cert]) (simp_all add: s_def)
qed

text \<open>
  Adding a vote, for any of the three kinds: \<^verbatim>\<open>add\<close> either leaves the votes of the validator
  alone, or changes them to \<^verbatim>\<open>t'\<close> and \<^verbatim>\<open>continue\<close> counts the vote.
\<close>

lemma pool_inv_same_votes:
  assumes "pool_inv b K p" "present i p"
  shows "pool_inv b K (set_slot i ((slot_of b i p)\<lparr>ss_votes := (ss_votes (slot_of b i p))[j := ss_votes (slot_of b i p) ! j]\<rparr>) p)"
  using pool_inv_slot [OF assms(1)]
  by (intro pool_inv_set [OF assms]) (simp_all add: is_skipped_def is_notarized_def)

lemma handle_vote_with_ok:
  assumes inv: "pool_inv b K p" and j: "pv_idx validator < length (validator_set b)"
    and cases: "\<And>p t. pool_inv b K p \<Longrightarrow> present i p \<Longrightarrow> t = ss_votes (slot_of b i p) ! pv_idx validator \<Longrightarrow>
      (\<exists>m. add t = (t, misbehaved m) \<and> (validator \<noteq> local_id b \<or> tol)) \<or> add t = (t, applied False) \<or>
      (\<exists>t'. add t = (t', applied True) \<and>
         (\<exists>p'. continue (set_slot i ((slot_of b i p)\<lparr>ss_votes := (ss_votes (slot_of b i p))[pv_idx validator := t']\<rparr>) p) = Inr p' \<and>
            pool_inv b K p'))"
  shows "\<exists>ok p'. handle_vote_with b validator tol i add continue p = Inr (ok, p') \<and> pool_inv b K p'"
proof (cases "pool_slot_at b i p")
  case None
  then show ?thesis using inv by (intro exI [of _ False]) (simp add: handle_vote_with_def)
next
  case (Some p1)
  note s1 = pool_slot_at_inv [OF inv Some]
  let ?s = "slot_of b i p1" and ?j = "pv_idx validator"
  have get: "vec_get (ss_votes ?s) ?j = Inr (ss_votes ?s ! ?j)"
    using slot_okD(1) [OF pool_inv_slot [OF s1(1)]] j by (simp add: vec_get_def)
  note same = pool_inv_same_votes [OF s1(1,2), of ?j]
  from cases [OF s1(1,2) refl] show ?thesis
    using same pool_inv_publish [OF same]
    by (auto simp: handle_vote_with_def Some get Let_def misbehaved_def applied_def check_def)
qed

lemma proven_ok_signed:
  assumes "(j, sg_vote sv) \<in> K" "check_signature b j (sg_vote sv) (sg_signature sv)" "sg_validator sv = j"
    "sg_vote sv = up w"
  shows "proven_ok b K (referenced_slot (sg_vote sv)) up f j (proven_signed (signed_downcast w sv))"
  using assms by (simp add: proven_ok_def proven_signed_def signed_downcast_def)

lemma proven_signed_downcast:
  "pr_vote (proven_signed (signed_downcast w sv)) = w"
  "pr_proof (proven_signed (signed_downcast w sv)) = PSigned (signed_downcast w sv)"
  by (simp_all add: proven_signed_def signed_downcast_def)

lemma handle_vote_notarize_ok:
  assumes b: "bus_ok b" and inv: "pool_inv b K p" and j: "j < length (validator_set b)" "sg_validator sv = j"
    and v: "(j, sg_vote sv) \<in> K" "check_signature b j (sg_vote sv) (sg_signature sv)"
    and own: "validator_set b ! j \<noteq> local_id b \<or> tol \<or> (\<forall>w. (j, w) \<in> K \<longrightarrow> \<not> conflicting (sg_vote sv) w)"
    and V: "sg_vote sv = VNotarize w"
  shows "\<exists>ok p'. handle_vote b (validator_set b ! j) sv tol p = Inr (ok, p') \<and> pool_inv b K p'"
proof -
  let ?i = "referenced_slot (sg_vote sv)" and ?v = "validator_set b ! j" and ?pv = "proven_signed (signed_downcast w sv)"
  have idx: "pv_idx ?v = j" using b j(1) by (simp add: bus_ok_def)
  have "\<exists>ok p'. handle_vote_with b ?v tol ?i (add_vote_notarize ?pv) (handle_typed_vote_notarize b ?v w ?i) p = Inr (ok, p') \<and>
      pool_inv b K p'"
  proof (rule handle_vote_with_ok [OF inv], unfold idx)
    fix p t assume p: "pool_inv b K p" "present ?i p" "t = ss_votes (slot_of b ?i p) ! j"
    have "voter_ok b K ?i (ss_certs (slot_of b ?i p)) j t"
      unfolding p(3) by (rule slot_okD(2) [OF pool_inv_slot [OF p(1)] j(1)])
    then show "(\<exists>m. add_vote_notarize ?pv t = (t, misbehaved m) \<and> (?v \<noteq> local_id b \<or> tol)) \<or>
        add_vote_notarize ?pv t = (t, applied False) \<or>
        (\<exists>t'. add_vote_notarize ?pv t = (t', applied True) \<and>
          (\<exists>p'. handle_typed_vote_notarize b ?v w ?i
             (set_slot ?i ((slot_of b ?i p)\<lparr>ss_votes := (ss_votes (slot_of b ?i p))[j := t']\<rparr>) p) = Inr p' \<and> pool_inv b K p'))"
    proof (rule add_vote_notarize_cases [OF _ proven_ok_signed [OF v j(2), of VNotarize w, OF V]])
      assume "tb_notarize t = None" "add_vote_notarize ?pv t = (t\<lparr>tb_notarize := Some ?pv\<rparr>, applied True)"
        "voter_ok b K ?i (ss_certs (slot_of b ?i p)) j (t\<lparr>tb_notarize := Some ?pv\<rparr>)"
      with handle_typed_vote_notarize_ok [OF b p(1,2) j(1) p(3) _ proven_signed_downcast(2)] show ?thesis
        by (simp add: proven_signed_downcast(1))
    next
      fix m x assume "add_vote_notarize ?pv t = (t, misbehaved m)" "(j, x) \<in> K" "conflicting (VNotarize (pr_vote ?pv)) x"
      then show ?thesis using own V by (auto simp: proven_signed_downcast(1))
    qed simp
  qed (rule j(1))
  then show ?thesis by (simp add: handle_vote_def Let_def V)
qed

lemma handle_vote_finalize_ok:
  assumes b: "bus_ok b" and inv: "pool_inv b K p" and j: "j < length (validator_set b)" "sg_validator sv = j"
    and v: "(j, sg_vote sv) \<in> K" "check_signature b j (sg_vote sv) (sg_signature sv)"
    and own: "validator_set b ! j \<noteq> local_id b \<or> tol \<or> (\<forall>w. (j, w) \<in> K \<longrightarrow> \<not> conflicting (sg_vote sv) w)"
    and V: "sg_vote sv = VFinalize w"
  shows "\<exists>ok p'. handle_vote b (validator_set b ! j) sv tol p = Inr (ok, p') \<and> pool_inv b K p'"
proof -
  let ?i = "referenced_slot (sg_vote sv)" and ?v = "validator_set b ! j" and ?pv = "proven_signed (signed_downcast w sv)"
  have idx: "pv_idx ?v = j" using b j(1) by (simp add: bus_ok_def)
  have "\<exists>ok p'. handle_vote_with b ?v tol ?i (add_vote_finalize ?pv) (handle_typed_vote_finalize b ?v w ?i) p = Inr (ok, p') \<and>
      pool_inv b K p'"
  proof (rule handle_vote_with_ok [OF inv], unfold idx)
    fix p t assume p: "pool_inv b K p" "present ?i p" "t = ss_votes (slot_of b ?i p) ! j"
    have "voter_ok b K ?i (ss_certs (slot_of b ?i p)) j t"
      unfolding p(3) by (rule slot_okD(2) [OF pool_inv_slot [OF p(1)] j(1)])
    then show "(\<exists>m. add_vote_finalize ?pv t = (t, misbehaved m) \<and> (?v \<noteq> local_id b \<or> tol)) \<or>
        add_vote_finalize ?pv t = (t, applied False) \<or>
        (\<exists>t'. add_vote_finalize ?pv t = (t', applied True) \<and>
          (\<exists>p'. handle_typed_vote_finalize b ?v w ?i
             (set_slot ?i ((slot_of b ?i p)\<lparr>ss_votes := (ss_votes (slot_of b ?i p))[j := t']\<rparr>) p) = Inr p' \<and> pool_inv b K p'))"
    proof (rule add_vote_finalize_cases [OF _ proven_ok_signed [OF v j(2), of VFinalize w, OF V]])
      assume "tb_finalize t = None" "add_vote_finalize ?pv t = (t\<lparr>tb_finalize := Some ?pv\<rparr>, applied True)"
        "voter_ok b K ?i (ss_certs (slot_of b ?i p)) j (t\<lparr>tb_finalize := Some ?pv\<rparr>)"
      with handle_typed_vote_finalize_ok [OF b p(1,2) j(1) p(3) _ proven_signed_downcast(2)] show ?thesis
        by (simp add: proven_signed_downcast(1))
    next
      fix m x assume "add_vote_finalize ?pv t = (t, misbehaved m)" "(j, x) \<in> K" "conflicting (VFinalize (pr_vote ?pv)) x"
      then show ?thesis using own V by (auto simp: proven_signed_downcast(1))
    qed simp
  qed (rule j(1))
  then show ?thesis by (simp add: handle_vote_def Let_def V)
qed

lemma handle_vote_skip_ok:
  assumes b: "bus_ok b" and inv: "pool_inv b K p" and j: "j < length (validator_set b)" "sg_validator sv = j"
    and v: "(j, sg_vote sv) \<in> K" "check_signature b j (sg_vote sv) (sg_signature sv)"
    and own: "validator_set b ! j \<noteq> local_id b \<or> tol \<or> (\<forall>w. (j, w) \<in> K \<longrightarrow> \<not> conflicting (sg_vote sv) w)"
    and V: "sg_vote sv = VSkip w"
  shows "\<exists>ok p'. handle_vote b (validator_set b ! j) sv tol p = Inr (ok, p') \<and> pool_inv b K p'"
proof -
  let ?i = "referenced_slot (sg_vote sv)" and ?v = "validator_set b ! j" and ?pv = "proven_signed (signed_downcast w sv)"
  have idx: "pv_idx ?v = j" using b j(1) by (simp add: bus_ok_def)
  have "\<exists>ok p'. handle_vote_with b ?v tol ?i (add_vote_skip ?pv) (handle_typed_vote_skip b ?v w ?i) p = Inr (ok, p') \<and>
      pool_inv b K p'"
  proof (rule handle_vote_with_ok [OF inv], unfold idx)
    fix p t assume p: "pool_inv b K p" "present ?i p" "t = ss_votes (slot_of b ?i p) ! j"
    have "voter_ok b K ?i (ss_certs (slot_of b ?i p)) j t"
      unfolding p(3) by (rule slot_okD(2) [OF pool_inv_slot [OF p(1)] j(1)])
    then show "(\<exists>m. add_vote_skip ?pv t = (t, misbehaved m) \<and> (?v \<noteq> local_id b \<or> tol)) \<or>
        add_vote_skip ?pv t = (t, applied False) \<or>
        (\<exists>t'. add_vote_skip ?pv t = (t', applied True) \<and>
          (\<exists>p'. handle_typed_vote_skip b ?v w ?i
             (set_slot ?i ((slot_of b ?i p)\<lparr>ss_votes := (ss_votes (slot_of b ?i p))[j := t']\<rparr>) p) = Inr p' \<and> pool_inv b K p'))"
    proof (rule add_vote_skip_cases [OF _ proven_ok_signed [OF v j(2), of VSkip w, OF V]])
      assume "tb_skip t = None" "add_vote_skip ?pv t = (t\<lparr>tb_skip := Some ?pv\<rparr>, applied True)"
        "voter_ok b K ?i (ss_certs (slot_of b ?i p)) j (t\<lparr>tb_skip := Some ?pv\<rparr>)"
      with handle_typed_vote_skip_ok [OF b p(1,2) j(1) p(3) _ proven_signed_downcast(2)] show ?thesis
        by (simp add: proven_signed_downcast(1) V)
    next
      fix m x assume "add_vote_skip ?pv t = (t, misbehaved m)" "(j, x) \<in> K" "conflicting (VSkip (pr_vote ?pv)) x"
      then show ?thesis using own V by (auto simp: proven_signed_downcast(1))
    qed simp
  qed (rule j(1))
  then show ?thesis by (simp add: handle_vote_def Let_def V)
qed

lemma handle_vote_ok:
  assumes b: "bus_ok b" and inv: "pool_inv b K p" and j: "j < length (validator_set b)" "sg_validator sv = j"
    and v: "(j, sg_vote sv) \<in> K" "check_signature b j (sg_vote sv) (sg_signature sv)"
    and own: "validator_set b ! j \<noteq> local_id b \<or> tol \<or> (\<forall>w. (j, w) \<in> K \<longrightarrow> \<not> conflicting (sg_vote sv) w)"
  shows "\<exists>ok p'. handle_vote b (validator_set b ! j) sv tol p = Inr (ok, p') \<and> pool_inv b K p'"
proof (cases "sg_vote sv")
  case (VNotarize w)
  show ?thesis by (rule handle_vote_notarize_ok [OF assms VNotarize])
next
  case (VFinalize w)
  show ?thesis by (rule handle_vote_finalize_ok [OF assms VFinalize])
next
  case (VSkip w)
  show ?thesis by (rule handle_vote_skip_ok [OF assms VSkip])
qed

section \<open>Saved certificates\<close>

lemma pool_inv_report: "pool_inv b K p \<Longrightarrow> pool_inv b K (report idx res p)"
  by (auto simp: report_def intro: pool_inv_publish split: option.splits)

lemma report_simps [simp]:
  "pl_state (report idx res p) = pl_state p" "pl_saving (report idx res p) = pl_saving p"
  "slot_of b i (report idx res p) = slot_of b i p" "present i (report idx res p) = present i p"
  by (auto simp: report_def publish_def slot_of_def present_def split: option.splits)

lemma credit_votes_ok:
  assumes "pool_inv b K p" "present i p" "ss_certs (slot_of b i p) = cb"
    and "\<And>idx sig s. (idx, sig) \<in> set sigs \<Longrightarrow> slot_ok b K i s \<Longrightarrow> ss_certs s = cb \<Longrightarrow>
      idx < length (validator_set b) \<and>
      slot_ok b K i (s\<lparr>ss_votes := (ss_votes s)[idx := fst (add (ss_votes s ! idx))]\<rparr>)"
  shows "\<exists>p'. credit_votes b i add sigs p = Inr p' \<and> pool_inv b K p' \<and> present i p' \<and>
    ss_certs (slot_of b i p') = cb \<and> pl_saving p' = pl_saving p \<and> pl_first p' = pl_first p"
  using assms
proof (induction sigs arbitrary: p)
  case (Cons x sigs)
  obtain idx sig where x: "x = (idx, sig)" by force
  let ?s = "slot_of b i p"
  have sok: "slot_ok b K i ?s" by (rule pool_inv_slot [OF Cons.prems(1)])
  have idx: "idx < length (validator_set b)"
    and ok: "slot_ok b K i (?s\<lparr>ss_votes := (ss_votes ?s)[idx := fst (add (ss_votes ?s ! idx))]\<rparr>)"
    using Cons.prems(4) [of idx sig ?s] Cons.prems(3) sok by (auto simp: x)
  obtain t res where add: "add (ss_votes ?s ! idx) = (t, res)" by force
  define p1 where "p1 = report idx res (set_slot i (?s\<lparr>ss_votes := (ss_votes ?s)[idx := t]\<rparr>) p)"
  have "pool_inv b K (set_slot i (?s\<lparr>ss_votes := (ss_votes ?s)[idx := t]\<rparr>) p)"
    using ok add by (intro pool_inv_set [OF Cons.prems(1,2)]) (simp_all add: is_skipped_def is_notarized_def)
  then have inv1: "pool_inv b K p1" unfolding p1_def by (rule pool_inv_report)
  have "\<exists>p'. credit_votes b i add sigs p1 = Inr p' \<and> pool_inv b K p' \<and> present i p' \<and>
    ss_certs (slot_of b i p') = cb \<and> pl_saving p' = pl_saving p1 \<and> pl_first p' = pl_first p1"
    using Cons.prems slot_of_set_slot [OF pool_inv_wf [OF Cons.prems(1)] Cons.prems(2)]
    by (intro Cons.IH [OF inv1]) (auto simp: p1_def)
  moreover have "credit_votes b i add (x # sigs) p = credit_votes b i add sigs p1"
    using idx slot_okD(1) [OF sok] add by (simp add: x vec_get_def Let_def p1_def)
  ultimately show ?case by (simp add: p1_def)
qed simp

lemma proven_ok_cert:
  assumes "(j, up (ct_vote c)) \<in> K" "\<not> flag_needs f" "referenced_slot (up (ct_vote c)) = i"
  shows "proven_ok b K i up f j (proven_cert c)"
  using assms by (simp add: proven_ok_def proven_cert_def)

lemma slot_ok_same_votes: "slot_ok b K i s \<Longrightarrow> slot_ok b K i (s\<lparr>ss_votes := (ss_votes s)[j := ss_votes s ! j]\<rparr>)"
  by simp

lemma credit_notarize:
  assumes "slot_ok b K i s" "j < length (validator_set b)" "(j, VNotarize (ct_vote c)) \<in> K"
    "\<not> flag_needs (cb_notar (ss_certs s))" "cid_slot (nv_id (ct_vote c)) = i"
  shows "slot_ok b K i (s\<lparr>ss_votes := (ss_votes s)[j := fst (add_vote_notarize (proven_cert c) (ss_votes s ! j))]\<rparr>)"
proof (rule add_vote_notarize_cases [OF slot_okD(2) [OF assms(1,2)] proven_ok_cert [of j VNotarize c K, OF assms(3,4)]])
  assume "tb_notarize (ss_votes s ! j) = None"
    "voter_ok b K i (ss_certs s) j ((ss_votes s ! j)\<lparr>tb_notarize := Some (proven_cert c)\<rparr>)"
    "add_vote_notarize (proven_cert c) (ss_votes s ! j) = ((ss_votes s ! j)\<lparr>tb_notarize := Some (proven_cert c)\<rparr>, applied True)"
  then show ?thesis using slot_ok_credit_notarize [OF assms(1,2)] by simp
qed (use assms slot_ok_same_votes in simp_all)

lemma credit_skip:
  assumes "slot_ok b K i s" "j < length (validator_set b)" "(j, VSkip (ct_vote c)) \<in> K"
    "\<not> flag_needs (cb_skip (ss_certs s))" "sv_slot (ct_vote c) = i"
  shows "slot_ok b K i (s\<lparr>ss_votes := (ss_votes s)[j := fst (add_vote_skip (proven_cert c) (ss_votes s ! j))]\<rparr>)"
proof (rule add_vote_skip_cases [OF slot_okD(2) [OF assms(1,2)] proven_ok_cert [of j VSkip c K, OF assms(3,4)]])
  assume "tb_skip (ss_votes s ! j) = None"
    "voter_ok b K i (ss_certs s) j ((ss_votes s ! j)\<lparr>tb_skip := Some (proven_cert c)\<rparr>)"
    "add_vote_skip (proven_cert c) (ss_votes s ! j) = ((ss_votes s ! j)\<lparr>tb_skip := Some (proven_cert c)\<rparr>, applied True)"
  then show ?thesis using slot_ok_credit_skip [OF assms(1,2)] by simp
qed (use assms slot_ok_same_votes in simp_all)

lemma credit_finalize:
  assumes "slot_ok b K i s" "j < length (validator_set b)" "(j, VFinalize (ct_vote c)) \<in> K"
    "\<not> flag_needs (cb_final (ss_certs s))" "cid_slot (fv_id (ct_vote c)) = i"
  shows "slot_ok b K i (s\<lparr>ss_votes := (ss_votes s)[j := fst (add_vote_finalize (proven_cert c) (ss_votes s ! j))]\<rparr>)"
proof (rule add_vote_finalize_cases [OF slot_okD(2) [OF assms(1,2)] proven_ok_cert [of j VFinalize c K, OF assms(3,4)]])
  assume "tb_finalize (ss_votes s ! j) = None"
    "voter_ok b K i (ss_certs s) j ((ss_votes s ! j)\<lparr>tb_finalize := Some (proven_cert c)\<rparr>)"
    "add_vote_finalize (proven_cert c) (ss_votes s ! j) = ((ss_votes s ! j)\<lparr>tb_finalize := Some (proven_cert c)\<rparr>, applied True)"
  then show ?thesis using slot_ok_credit_finalize [OF assms(1,2)] by simp
qed (use assms slot_ok_same_votes in simp_all)

lemma cert_good_signer:
  assumes "cert_good b K v sigs" "(idx, sg) \<in> set sigs"
  shows "idx < length (validator_set b)" "(idx, v) \<in> K"
  using assms by (force simp: cert_good_def cert_ok_def signers_def backers_def validators_def)+

lemma prospective_notar_ok:
  assumes inv: "pool_inv b K p" and i: "present i p" "pl_first p \<le> i" "i = referenced_slot (ct_vote cert)" 
    and v: "ct_vote cert = VNotarize w" and good: "cert_good b K (ct_vote cert) (ct_signatures cert)"
    and aw: "awaiting (ss_certs (slot_of b i p)) (ct_vote cert)"
    and saving: "\<And>c. c \<in> set (pl_saving p) \<Longrightarrow> vote_key (ct_vote c) \<noteq> vote_key (ct_vote cert)"
  shows "\<exists>p'. rbind (credit_votes b i (add_vote_notarize (proven_cert (downcast_with w cert)))
      (ct_signatures (downcast_with w cert)) p) (handle_saved_notar b i (downcast_with w cert)) = Inr p' \<and> pool_inv b K p'"
proof -
  let ?c = "downcast_with w cert" and ?cb = "ss_certs (slot_of b i p)"
  have w: "ct_vote ?c = w" "ct_signatures ?c = ct_signatures cert" by (simp_all add: downcast_with_def)
  have "\<exists>p2. credit_votes b i (add_vote_notarize (proven_cert ?c)) (ct_signatures ?c) p = Inr p2 \<and>
      pool_inv b K p2 \<and> present i p2 \<and> ss_certs (slot_of b i p2) = ?cb \<and> pl_saving p2 = pl_saving p \<and> pl_first p2 = pl_first p"
    using cert_good_signer [OF good] aw v i(3)
    by (intro credit_votes_ok [OF inv i(1) refl] conjI credit_notarize) (auto simp: w flag_awaiting_def flag_needs_def)
  then obtain p2 where p2: "credit_votes b i (add_vote_notarize (proven_cert ?c)) (ct_signatures ?c) p = Inr p2"
    "pool_inv b K p2" "present i p2" "ss_certs (slot_of b i p2) = ?cb" "pl_saving p2 = pl_saving p" "pl_first p2 = pl_first p"
    by blast
  have "\<exists>p'. handle_saved_notar b i ?c p2 = Inr p' \<and> pool_inv b K p' \<and> keeps b (0, i) p2 p'"
    using i(2,3) p2(4-6) aw good saving v
    by (intro handle_saved_notar_ok [OF p2(2,3)]) (auto simp: w flag_awaiting_def)
  then show ?thesis using p2(1) by auto
qed

lemma prospective_skip_ok:
  assumes inv: "pool_inv b K p" and i: "present i p" "pl_first p \<le> i" "i = referenced_slot (ct_vote cert)" 
    and v: "ct_vote cert = VSkip w" and good: "cert_good b K (ct_vote cert) (ct_signatures cert)"
    and aw: "awaiting (ss_certs (slot_of b i p)) (ct_vote cert)"
    and saving: "\<And>c. c \<in> set (pl_saving p) \<Longrightarrow> vote_key (ct_vote c) \<noteq> vote_key (ct_vote cert)"
  shows "\<exists>p'. rbind (credit_votes b i (add_vote_skip (proven_cert (downcast_with w cert)))
      (ct_signatures (downcast_with w cert)) p) (handle_saved_skip b i (downcast_with w cert)) = Inr p' \<and> pool_inv b K p'"
proof -
  let ?c = "downcast_with w cert" and ?cb = "ss_certs (slot_of b i p)"
  have w: "ct_vote ?c = w" "ct_signatures ?c = ct_signatures cert" by (simp_all add: downcast_with_def)
  have "\<exists>p2. credit_votes b i (add_vote_skip (proven_cert ?c)) (ct_signatures ?c) p = Inr p2 \<and>
      pool_inv b K p2 \<and> present i p2 \<and> ss_certs (slot_of b i p2) = ?cb \<and> pl_saving p2 = pl_saving p \<and> pl_first p2 = pl_first p"
    using cert_good_signer [OF good] aw v i(3)
    by (intro credit_votes_ok [OF inv i(1) refl] conjI credit_skip) (auto simp: w flag_awaiting_def flag_needs_def)
  then obtain p2 where p2: "credit_votes b i (add_vote_skip (proven_cert ?c)) (ct_signatures ?c) p = Inr p2"
    "pool_inv b K p2" "present i p2" "ss_certs (slot_of b i p2) = ?cb" "pl_saving p2 = pl_saving p" "pl_first p2 = pl_first p"
    by blast
  have "\<exists>p'. handle_saved_skip b i ?c p2 = Inr p' \<and> pool_inv b K p' \<and> keeps b (1, i) p2 p'"
    using i(2,3) p2(4-6) aw good saving v
    by (intro handle_saved_skip_ok [OF p2(2,3)]) (auto simp: w flag_awaiting_def)
  then show ?thesis using p2(1) by auto
qed

lemma prospective_final_ok:
  assumes inv: "pool_inv b K p" and i: "present i p" "pl_first p \<le> i" "i = referenced_slot (ct_vote cert)" 
    and con: "consistent b K"
    and v: "ct_vote cert = VFinalize w" and good: "cert_good b K (ct_vote cert) (ct_signatures cert)"
    and aw: "awaiting (ss_certs (slot_of b i p)) (ct_vote cert)"
    and saving: "\<And>c. c \<in> set (pl_saving p) \<Longrightarrow> vote_key (ct_vote c) \<noteq> vote_key (ct_vote cert)"
  shows "\<exists>p'. rbind (credit_votes b i (add_vote_finalize (proven_cert (downcast_with w cert)))
      (ct_signatures (downcast_with w cert)) p) (handle_saved_final b i (downcast_with w cert)) = Inr p' \<and> pool_inv b K p'"
proof -
  let ?c = "downcast_with w cert" and ?cb = "ss_certs (slot_of b i p)"
  have w: "ct_vote ?c = w" "ct_signatures ?c = ct_signatures cert" by (simp_all add: downcast_with_def)
  have "\<exists>p2. credit_votes b i (add_vote_finalize (proven_cert ?c)) (ct_signatures ?c) p = Inr p2 \<and>
      pool_inv b K p2 \<and> present i p2 \<and> ss_certs (slot_of b i p2) = ?cb \<and> pl_saving p2 = pl_saving p \<and> pl_first p2 = pl_first p"
    using cert_good_signer [OF good] aw v i(3)
    by (intro credit_votes_ok [OF inv i(1) refl] conjI credit_finalize) (auto simp: w flag_awaiting_def flag_needs_def)
  then obtain p2 where p2: "credit_votes b i (add_vote_finalize (proven_cert ?c)) (ct_signatures ?c) p = Inr p2"
    "pool_inv b K p2" "present i p2" "ss_certs (slot_of b i p2) = ?cb" "pl_saving p2 = pl_saving p" "pl_first p2 = pl_first p"
    by blast
  have "\<exists>p'. handle_saved_final b i ?c p2 = Inr p' \<and> pool_inv b K p' \<and> keeps b (2, i) p2 p'"
    using i(2,3) p2(4-6) aw good saving v
    by (intro handle_saved_final_ok [OF p2(2,3) _ con]) (auto simp: w flag_awaiting_def)
  then show ?thesis using p2(1) by auto
qed

lemma handle_prospective_certificate_ok:
  assumes inv: "pool_inv b K p" and con: "consistent b K"
    and good: "cert_good b K (ct_vote cert) (ct_signatures cert)"
    and await: "pl_first p \<le> referenced_slot (ct_vote cert) \<Longrightarrow>
      awaiting (ss_certs (slot_of b (referenced_slot (ct_vote cert)) p)) (ct_vote cert)"
    and saving: "\<And>c. c \<in> set (pl_saving p) \<Longrightarrow> vote_key (ct_vote c) \<noteq> vote_key (ct_vote cert)"
  shows "\<exists>p'. handle_prospective_certificate b cert p = Inr p' \<and> pool_inv b K p'"
proof -
  let ?i = "referenced_slot (ct_vote cert)"
  show ?thesis
  proof (cases "pool_slot_at b ?i p")
    case None
    then show ?thesis using inv by (simp add: handle_prospective_certificate_def Let_def)
  next
    case (Some p1)
    note s1 = pool_slot_at_inv [OF inv Some] and v1 = quiet_fields [OF pool_slot_at_inv(4) [OF inv Some]]
    have aw: "awaiting (ss_certs (slot_of b ?i p1)) (ct_vote cert)" using await s1(3) by (simp add: v1)
    have sv: "vote_key (ct_vote c) \<noteq> vote_key (ct_vote cert)" if "c \<in> set (pl_saving p1)" for c
      using saving that by (simp add: v1)
    show ?thesis unfolding handle_prospective_certificate_def Let_def Some option.case
      using prospective_notar_ok [OF s1(1-3) refl _ good aw sv] prospective_skip_ok [OF s1(1-3) refl _ good aw sv]
        prospective_final_ok [OF s1(1-3) refl con _ good aw sv]
      by (cases "ct_vote cert") simp_all
  qed
qed

end
