(* ===== verification/Simplex_Pool_Run.thy ===== *)
theory Simplex_Pool_Run
  imports Simplex_Pool_Safe
begin

text \<open>
  Runs of the pool, from start up over any sequence of inputs, and its properties: the pool
  never aborts, what it publishes is backed by votes, finality is monotone.
\<close>

section \<open>What the environment provides\<close>

abbreviation local_idx :: "bus \<Rightarrow> nat" where "local_idx b \<equiv> pv_idx (local_id b)"

text \<open>The node is one of the validators and its keyring produces valid signatures.\<close>

definition local_ok :: "bus \<Rightarrow> bool" where
  "local_ok b \<longleftrightarrow>
     local_idx b < length (validator_set b) \<and> validator_set b ! local_idx b = local_id b \<and>
     (\<forall>v. check_signature b (local_idx b) v (sign_message b v))"

text \<open>Our own votes do not contradict each other.\<close>

definition own_ok :: "bus \<Rightarrow> votes \<Rightarrow> bool" where
  "own_ok b K \<longleftrightarrow> (\<forall>v w. (local_idx b, v) \<in> K \<longrightarrow> (local_idx b, w) \<in> K \<longrightarrow> \<not> conflicting v w)"

text \<open>Signatures are not forged: a valid signature in a message belongs to a vote of \<^verbatim>\<open>K\<close>.\<close>

fun input_ok :: "bus \<Rightarrow> votes \<Rightarrow> pool_input \<Rightarrow> bool" where
  "input_ok b K (Incoming_message t source (TlVote v sig)) \<longleftrightarrow>
     source < length (validator_set b) \<and> (check_signature b source v sig \<longrightarrow> (source, v) \<in> K)"
| "input_ok b K (Incoming_message t source (TlCertificate v sigs)) \<longleftrightarrow>
     (\<forall>(who, sig)\<in>set sigs. check_signature b who v sig \<longrightarrow> (who, v) \<in> K)"
| "input_ok b K (Broadcast_vote v) \<longleftrightarrow> (local_idx b, v) \<in> K"
| "input_ok b K (Wait_for_parent r) \<longleftrightarrow>
     (\<forall>c. rq_parent r = Some c \<longrightarrow> cid_slot c < cid_slot (rq_id r))"
| "input_ok b K _ \<longleftrightarrow> True"

text \<open>The database holds valid certificates, at most one of a kind for a slot, and our votes.\<close>

definition bootstrap_ok :: "bus \<Rightarrow> votes \<Rightarrow> bool" where
  "bootstrap_ok b K \<longleftrightarrow>
     distinct (map (\<lambda>c. vote_key (ct_vote c)) (bootstrap_certificates b)) \<and>
     (\<forall>c\<in>set (bootstrap_certificates b). cert_good b K (ct_vote c) (ct_signatures c)) \<and>
     (\<forall>v\<in>set (bootstrap_votes b). (local_idx b, v) \<in> K)"

definition env_ok :: "bus \<Rightarrow> votes \<Rightarrow> bool" where
  "env_ok b K \<longleftrightarrow> bus_ok b \<and> local_ok b \<and> consistent b K \<and> own_ok b K"

section \<open>Single steps\<close>

lemma pool_inv_field:
  assumes "pool_inv b K p"
  shows "pool_inv b K (p\<lparr>pl_bad_signature_bans := x\<rparr>)" "pool_inv b K (p\<lparr>pl_seen_broadcasts := y\<rparr>)"
    "pool_inv b K (p\<lparr>pl_suppress_certificate_broadcast := z\<rparr>)" "pool_inv b K (p\<lparr>pl_is_started := z\<rparr>)"
  by (rule pool_inv_frame [OF assms]; simp add: saving_inv_frame [OF pool_invD(2) [OF assms]])+

lemma pool_inv_signing:
  assumes "pool_inv b K p" "\<And>x. x \<in> set xs \<Longrightarrow> (local_idx b, fst x) \<in> K"
  shows "pool_inv b K (p\<lparr>pl_signing := xs\<rparr>)"
proof -
  have eq: "slots_inv b K (p\<lparr>pl_signing := xs\<rparr>) = slots_inv b K p" "saving_inv b K (p\<lparr>pl_signing := xs\<rparr>) = saving_inv b K p"
    "track_inv b F (p\<lparr>pl_signing := xs\<rparr>) = track_inv b F p" "final_inv b K (p\<lparr>pl_signing := xs\<rparr>) = final_inv b K p"
    "events_inv b K (p\<lparr>pl_signing := xs\<rparr>) = events_inv b K p" for F
    by (simp_all add: slots_inv_def saving_inv_def track_inv_def present_inv_def final_inv_def events_inv_def
        split: option.splits)
  show ?thesis
    using assms by (simp add: pool_inv_def eq) (auto simp: tasks_inv_def)
qed

lemma is_banned_inv: "pool_inv b K p \<Longrightarrow> pool_inv b K (snd (is_banned t peer p))"
  by (auto simp: is_banned_def pool_inv_field split: option.splits)

lemma ban_inv: "pool_inv b K p \<Longrightarrow> pool_inv b K (ban b t peer p)"
  by (simp add: ban_def pool_inv_field)

lemma incoming_vote_ok:
  assumes env: "env_ok b K" and inv: "pool_inv b K p"
    and src: "source < length (validator_set b)" "check_signature b source v sig \<longrightarrow> (source, v) \<in> K"
  shows "\<exists>p'. incoming_vote b t source v sig p = Inr p' \<and> pool_inv b K p'"
proof (cases "first_too_new_slot b p \<le> referenced_slot v \<or> referenced_slot v < pl_first p")
  case True
  then show ?thesis using inv pool_invD(7) [OF inv] by (auto simp: incoming_vote_def Let_def)
next
  case False
  then obtain p1 where p1: "pool_slot_at b (referenced_slot v) p = Some p1"
    using pool_slot_at_None [of b "referenced_slot v" p] by (cases "pool_slot_at b (referenced_slot v) p") auto
  note s1 = pool_slot_at_inv [OF inv p1]
  let ?t = "ss_votes (slot_of b (referenced_slot v) p1) ! source"
  have get: "vec_get (ss_votes (slot_of b (referenced_slot v) p1)) source = Inr ?t"
    "vec_get (validator_set b) source = Inr (validator_set b ! source)"
    using slot_okD(1) [OF pool_inv_slot [OF s1(1)]] src(1) by (simp_all add: vec_get_def)
  have "\<exists>ok p'. handle_vote b (validator_set b ! source)
      \<lparr>sg_validator = source, sg_vote = v, sg_signature = sig\<rparr> False p1 = Inr (ok, p') \<and> pool_inv b K p'"
    if "check_signature b source v sig"
  proof (rule handle_vote_ok [OF _ s1(1) src(1)])
    have "source = local_idx b" if "validator_set b ! source = local_id b"
      using env src(1) that by (auto simp: env_ok_def bus_ok_def)
    then show "validator_set b ! source \<noteq> local_id b \<or> False \<or> (\<forall>w. (source, w) \<in> K \<longrightarrow>
        \<not> conflicting (sg_vote \<lparr>sg_validator = source, sg_vote = v, sg_signature = sig\<rparr>) w)"
      using env src(2) \<open>check_signature b source v sig\<close> by (auto simp: env_ok_def own_ok_def)
  qed (use env src(2) that in \<open>auto simp: env_ok_def\<close>)
  then show ?thesis
    using False s1(1) ban_inv [OF s1(1)] pool_invD(7) [OF inv]
    by (auto simp: incoming_vote_def Let_def p1 get signed_from_tl_def)
qed

lemma incoming_certificate_ok:
  assumes env: "env_ok b K" and inv: "pool_inv b K p"
    and sigs: "\<forall>(who, sig)\<in>set sigs. check_signature b who v sig \<longrightarrow> (who, v) \<in> K"
  shows "\<exists>p'. incoming_certificate b t source v sigs p = Inr p' \<and> pool_inv b K p'"
proof -
  have good: "ct_vote c = v \<and> cert_good b K v (ct_signatures c)" if "certificate_from_tl b v sigs = Inr c" for c
    using that env sigs unfolding env_ok_def
    by (fastforce simp: certificate_from_tl_iff cert_good_def cert_ok_def signers_def backers_def)
  have handle: "\<exists>p'. handle_certificate b c q = Inr p' \<and> pool_inv b K p'"
    if "certificate_from_tl b v sigs = Inr c" "pool_inv b K q" for c q
    using handle_certificate_ok [OF that(2), of c] good [OF that(1)] by simp
  let ?i = "referenced_slot v"
  show ?thesis
  proof (cases "pool_slot_at b ?i p")
    case None
    have "\<not> first_too_new_slot b p \<le> ?i"
    proof -
      have "?i < pl_now p" using None track_invD(3) [OF pool_invD(3) [OF inv]] by (simp add: pool_slot_at_None)
      moreover have "pl_now p < first_too_new_slot b p"
      proof -
        have w: "0 < slots_per_leader_window b" using env by (simp add: env_ok_def bus_ok_def)
        have "pl_now p < (pl_now p div slots_per_leader_window b + 1) * slots_per_leader_window b"
          using dividend_less_div_times [OF w, of "pl_now p"] by (simp add: algebra_simps)
        also have "\<dots> \<le> first_too_new_slot b p"
          unfolding first_too_new_slot_def by (intro mult_le_mono1) simp
        finally show ?thesis .
      qed
      ultimately show ?thesis by simp
    qed
    then show ?thesis using None inv by (simp add: incoming_certificate_def Let_def)
  next
    case (Some p1)
    note s1 = pool_slot_at_inv [OF inv Some]
    show ?thesis
      using s1(1) inv ban_inv [OF inv] ban_inv [OF s1(1)] handle [OF _ s1(1)]
      by (cases "certificate_from_tl b v sigs") (auto simp: incoming_certificate_def Let_def Some)
  qed
qed

lemma handle_incoming_message_ok:
  assumes "env_ok b K" "pool_inv b K p" "input_ok b K (Incoming_message t source m)"
  shows "\<exists>p'. handle_incoming_message b t source m p = Inr p' \<and> pool_inv b K p'"
proof -
  obtain banned q where q: "is_banned t source p = (banned, q)" by force
  have inv: "pool_inv b K q" using is_banned_inv [OF assms(2), of t source] by (simp add: q)
  show ?thesis
    using assms(3) inv incoming_vote_ok [OF assms(1) inv] incoming_certificate_ok [OF assms(1) inv]
    by (cases m) (auto simp: handle_incoming_message_def q)
qed

lemma handle_wait_for_parent_ok:
  assumes inv: "pool_inv b K p" and parent: "\<And>c. rq_parent r = Some c \<Longrightarrow> cid_slot c < cid_slot (rq_id r)"
  shows "\<exists>p'. handle_wait_for_parent b r p = Inr p' \<and> pool_inv b K p'"
proof -
  obtain res p1 where p1: "maybe_resolve_request b r p = Inr (res, p1)" "quiet b p p1"
      "pl_published p1 = pl_published p" "pl_now p1 = pl_now p" "res = Some Parent_ok \<longrightarrow> parent_justified b K r"
    using maybe_resolve_request_ok [OF inv parent] by (auto simp: resolves_def)
  have inv1: "pool_inv b K p1" by (rule pool_inv_quiet' [OF inv p1(2,4,3)])
  have check: "(case rq_parent r of None \<Rightarrow> True | Some c \<Rightarrow> cid_slot c < cid_slot (rq_id r))"
    using parent by (simp split: option.splits)
  have "pool_inv b K (p1\<lparr>pl_requests := pl_requests p1 @ [r]\<rparr>)"
    using pool_invD(6) [OF inv1] parent by (intro pool_inv_requests [OF inv1]) (auto simp: tasks_inv_def)
  moreover have "pool_inv b K (publish (RequestResolved r x) p1)" if "res = Some x" for x
    using p1(5) that by (intro pool_inv_publish [OF inv1]) (cases x; simp)
  ultimately show ?thesis
    using p1(1) check by (cases res) (simp_all add: handle_wait_for_parent_def check_def)
qed

lemma handle_start_ok:
  assumes "pool_inv b K p"
  shows "\<exists>p'. handle_start b p = Inr p' \<and> pool_inv b K p'"
proof -
  let ?p = "p\<lparr>pl_is_started := True\<rparr>"
  have inv: "pool_inv b K ?p" by (rule pool_inv_field(4) [OF assms])
  obtain p' where "advance_present b ?p = Inr p'" "quiet b ?p p'" "track_inv b (pl_first ?p) p'"
      "\<And>e. e \<in> set (pl_published p') \<Longrightarrow> e \<in> set (pl_published ?p) \<or> event_ok b K e"
    using advance_present_track [OF pool_inv_wf [OF inv] pool_invD(1,3) [OF inv]] by metis
  then show ?thesis
    using pool_inv_quiet [OF inv] pool_invD(5) [OF inv] by (auto simp: handle_start_def events_inv_def)
qed

lemma our_vote_signed_ok:
  assumes env: "env_ok b K" and inv: "pool_inv b K p" and v: "(local_idx b, fst task) \<in> K"
  shows "\<exists>p'. our_vote_signed b task p = Inr p' \<and> pool_inv b K p'"
proof -
  obtain w tol sup where task: "task = (w, tol, sup)" by (cases task)
  let ?sv = "\<lparr>sg_validator = local_idx b, sg_vote = w, sg_signature = sign_message b w\<rparr>"
  have "\<exists>ok p'. handle_vote b (validator_set b ! local_idx b) ?sv tol p = Inr (ok, p') \<and> pool_inv b K p'"
    using env v unfolding env_ok_def local_ok_def own_ok_def task
    by (intro handle_vote_ok [OF _ inv]) auto
  moreover have "validator_set b ! local_idx b = local_id b" using env by (simp add: env_ok_def local_ok_def)
  ultimately obtain ok p' where "handle_vote b (local_id b) ?sv tol p = Inr (ok, p')" "pool_inv b K p'" by auto
  then show ?thesis
    using pool_inv_publish [of b K p'] by (auto simp: our_vote_signed_def task signed_serialize_def)
qed

lemma set_remove_nth: "set (remove_nth k xs) \<subseteq> set xs"
  using set_take_subset set_drop_subset by (fastforce simp: remove_nth_def)

lemma map_remove_nth: "map f (remove_nth k xs) = remove_nth k (map f xs)"
  by (simp add: remove_nth_def take_map drop_map)

lemma distinct_remove_nth:
  assumes "distinct xs"
  shows "distinct (remove_nth k xs)" "k < length xs \<Longrightarrow> xs ! k \<notin> set (remove_nth k xs)"
proof -
  show "distinct (remove_nth k xs)"
    using assms set_take_disj_set_drop_if_distinct [OF assms, of k "Suc k"] by (auto simp: remove_nth_def)
  assume "k < length xs"
  then have "distinct (take k xs @ xs ! k # drop (Suc k) xs)" using assms by (simp flip: id_take_nth_drop)
  then show "xs ! k \<notin> set (remove_nth k xs)" by (simp add: remove_nth_def)
qed

lemma pool_inv_unsave:
  assumes "pool_inv b K p"
  shows "pool_inv b K (p\<lparr>pl_saving := remove_nth k (pl_saving p)\<rparr>)"
  using pool_invD(2) [OF assms] distinct_remove_nth(1) set_remove_nth [of k "pl_saving p"]
  by (intro pool_inv_saving [OF assms]) (auto simp: saving_inv_def map_remove_nth)

lemma certificate_saved_ok:
  assumes env: "env_ok b K" and inv: "pool_inv b K p" and k: "k < length (pl_saving p)"
  shows "\<exists>p'. handle_prospective_certificate b (pl_saving p ! k)
      (p\<lparr>pl_saving := remove_nth k (pl_saving p)\<rparr>) = Inr p' \<and> pool_inv b K p'"
proof -
  let ?c = "pl_saving p ! k"
  have mem: "?c \<in> set (pl_saving p)" using k by simp
  note sv = saving_invD [OF pool_invD(2) [OF inv] mem]
  have "distinct (map (\<lambda>c. vote_key (ct_vote c)) (pl_saving p))"
    using pool_invD(2) [OF inv] by (simp add: saving_inv_def)
  from distinct_remove_nth(2) [OF this, of k]
  have notin: "vote_key (ct_vote ?c) \<notin> (\<lambda>c. vote_key (ct_vote c)) ` set (remove_nth k (pl_saving p))"
    using k by (simp flip: map_remove_nth)
  have new: "vote_key (ct_vote c) \<noteq> vote_key (ct_vote ?c)" if "c \<in> set (remove_nth k (pl_saving p))" for c
    using notin imageI [OF that, of "\<lambda>c. vote_key (ct_vote c)"] by metis
  show ?thesis
    using env sv new
    by (intro handle_prospective_certificate_ok [OF pool_inv_unsave [OF inv]]) (auto simp: env_ok_def)
qed

lemma pool_step_ok:
  assumes env: "env_ok b K" and inv: "pool_inv b K p" and inp: "input_ok b K x"
  shows "\<exists>p'. pool_step b x p = Inr p' \<and> pool_inv b K p'"
proof (cases x)
  case (Vote_signed k)
  have tasks: "(local_idx b, fst y) \<in> K" if "y \<in> set (pl_signing p)" for y
    using pool_invD(6) [OF inv] that by (simp add: tasks_inv_def)
  have "pool_inv b K (p\<lparr>pl_signing := remove_nth k (pl_signing p)\<rparr>)"
    using tasks set_remove_nth [of k "pl_signing p"] by (intro pool_inv_signing [OF inv]) auto
  then show ?thesis using Vote_signed our_vote_signed_ok [OF env] inv tasks by simp
next
  case (Vote_sign_failed k)
  then show ?thesis
    using pool_invD(6) [OF inv] set_remove_nth [of k "pl_signing p"]
    by (auto simp: tasks_inv_def intro!: pool_inv_signing [OF inv])
next
  case (Precheck_broadcast slot ident checked)
  then show ?thesis using inv pool_inv_field(2) [OF inv]
    by (auto simp: precheck_candidate_broadcast_def split: option.splits)
next
  case (Broadcast_vote v)
  then show ?thesis using inp pool_invD(6) [OF inv]
    by (auto simp: handle_broadcast_vote_def handle_our_vote_def tasks_inv_def intro!: pool_inv_signing [OF inv])
qed (use env inv inp handle_incoming_message_ok handle_wait_for_parent_ok handle_start_ok certificate_saved_ok
     pool_inv_unsave in auto)

section \<open>Start up\<close>

lemma pool_init_view:
  "slot_of b i (pool_init b) = fresh_slot b" "pl_first (pool_init b) = 0" "cs_wf (pl_state (pool_init b))"
  by (simp_all add: pool_init_def slot_of_def)

definition pool_genesis :: "bus \<Rightarrow> pool \<Rightarrow> pool" where
  "pool_genesis b p = set_slot 0 ((slot_of b 0 p)\<lparr>ss_available_base := Some None\<rparr>) p"

lemma pool_genesis_ok:
  obtains p where "get_slot_at b 0 (pool_init b) = Inr p" "pool_inv b K (pool_genesis b p)"
    "pl_saving (pool_genesis b p) = []" "\<And>i. ss_certs (slot_of b i (pool_genesis b p)) = empty_bundle"
proof -
  obtain p where p: "get_slot_at b 0 (pool_init b) = Inr p" "quiet b (pool_init b) p" "present 0 p"
      "pl_published p = pl_published (pool_init b)" "pl_now p = pl_now (pool_init b)"
    using get_slot_at_ok [of "pool_init b" 0 b] pool_init_view by (metis le0)
  note v = quiet_fields [OF p(2)]
  let ?g = "pool_genesis b p"
  have view: "slot_of b i ?g = (if i = 0 then (fresh_slot b)\<lparr>ss_available_base := Some None\<rparr> else fresh_slot b)" for i
    by (simp add: pool_genesis_def slot_of_set_slot [OF v(1) p(3)] v(3) pool_init_view)
  have ok: "slot_ok b K i (slot_of b i ?g)" for i
    using slot_ok_fresh [of b K i] by (auto simp: view slot_ok_def weights_ok_def base_ok_def)
  have simps: "is_skipped (slot_of b i ?g) = False" "is_notarized (slot_of b i ?g) = False"
    "ss_available_base (slot_of b i ?g) \<noteq> None \<longleftrightarrow> i = 0" "ss_certs (slot_of b i ?g) = empty_bundle" for i
    by (simp_all add: view is_skipped_def is_notarized_def fresh_slot_def empty_bundle_def no_cert_def)
  have fields: "pl_published ?g = []" "pl_saving ?g = []" "pl_signing ?g = []" "pl_requests ?g = []"
      "pl_skip_intervals ?g = []" "pl_first ?g = 0" "pl_now ?g = 0" "pl_last_finalized_block ?g = None"
      "pl_first_nonfinalized_slot ?g = 0" "pl_weight_threshold ?g = required_weight b"
    using v p(4,5) by (simp_all add: pool_genesis_def pool_init_def)
  have "pool_inv b K ?g"
  proof (rule pool_invI)
    show "slots_inv b K ?g"
      using ok cs_wf_set_slot [OF v(1) p(3)] by (simp add: slots_inv_def fields) (simp add: pool_genesis_def)
    show "track_inv b (pl_first ?g) ?g"
      by (simp add: track_inv_def present_inv_def simps fields skip_ok_empty bases_ok_def next_unskipped_def
          del: not_None_eq) (use gr_zeroI in blast)
  qed (simp_all add: saving_inv_def final_inv_def events_inv_def tasks_inv_def fields)
  then show thesis using that p(1) fields(2) simps(4) by blast
qed

lemma bootstrap_certificate_ok:
  assumes inv: "pool_inv b K p" and con: "consistent b K" and saving: "pl_saving p = []"
    and good: "cert_good b K (ct_vote c) (ct_signatures c)"
    and un: "unstored (ss_certs (slot_of b (referenced_slot (ct_vote c)) p)) (ct_vote c)"
  shows "\<exists>p'. handle_bootstrap_certificate b c p = Inr p' \<and> pool_inv b K p' \<and> keeps b (vote_key (ct_vote c)) p p'"
proof -
  let ?i = "referenced_slot (ct_vote c)"
  show ?thesis
  proof (cases "pool_slot_at b ?i p")
    case None
    then show ?thesis using inv by (simp add: handle_bootstrap_certificate_def Let_def keeps_def)
  next
    case (Some p1)
    note s1 = pool_slot_at_inv [OF inv Some]
    note v1 = quiet_fields [OF s1(4)]
    have keep: "keeps b key p q" if "keeps b key p1 q" for key q
      using that by (simp add: keeps_def v1)
    have w: "ct_vote (downcast_with w c) = w" "ct_signatures (downcast_with w c) = ct_signatures c" for w :: 't
      by (simp_all add: downcast_with_def)
    show ?thesis unfolding handle_bootstrap_certificate_def Let_def Some option.case
    proof (cases "ct_vote c")
      case (VNotarize w)
      then have "\<exists>p'. handle_saved_notar b ?i (downcast_with w c) p1 = Inr p' \<and> pool_inv b K p' \<and> keeps b (0, ?i) p1 p'"
        using good un saving by (intro handle_saved_notar_ok [OF s1(1-3)]) (auto simp: v1 downcast_with_def)
      then show "\<exists>p'. (case ct_vote c of VNotarize v \<Rightarrow> handle_saved_notar b ?i (downcast_with v c) p1
          | VFinalize v \<Rightarrow> handle_saved_final b ?i (downcast_with v c) p1
          | VSkip v \<Rightarrow> handle_saved_skip b ?i (downcast_with v c) p1) = Inr p' \<and> pool_inv b K p' \<and>
          keeps b (vote_key (ct_vote c)) p p'"
        using VNotarize keep by auto
    next
      case (VSkip w)
      then have "\<exists>p'. handle_saved_skip b ?i (downcast_with w c) p1 = Inr p' \<and> pool_inv b K p' \<and> keeps b (1, ?i) p1 p'"
        using good un saving by (intro handle_saved_skip_ok [OF s1(1-3)]) (auto simp: v1 downcast_with_def)
      then show "\<exists>p'. (case ct_vote c of VNotarize v \<Rightarrow> handle_saved_notar b ?i (downcast_with v c) p1
          | VFinalize v \<Rightarrow> handle_saved_final b ?i (downcast_with v c) p1
          | VSkip v \<Rightarrow> handle_saved_skip b ?i (downcast_with v c) p1) = Inr p' \<and> pool_inv b K p' \<and>
          keeps b (vote_key (ct_vote c)) p p'"
        using VSkip keep by auto
    next
      case (VFinalize w)
      then have "\<exists>p'. handle_saved_final b ?i (downcast_with w c) p1 = Inr p' \<and> pool_inv b K p' \<and> keeps b (2, ?i) p1 p'"
        using good un saving by (intro handle_saved_final_ok [OF s1(1-3) con]) (auto simp: v1 downcast_with_def)
      then show "\<exists>p'. (case ct_vote c of VNotarize v \<Rightarrow> handle_saved_notar b ?i (downcast_with v c) p1
          | VFinalize v \<Rightarrow> handle_saved_final b ?i (downcast_with v c) p1
          | VSkip v \<Rightarrow> handle_saved_skip b ?i (downcast_with v c) p1) = Inr p' \<and> pool_inv b K p' \<and>
          keeps b (vote_key (ct_vote c)) p p'"
        using VFinalize keep by auto
    qed
  qed
qed

lemma bootstrap_certificates_ok:
  assumes "pool_inv b K p" "consistent b K" "pl_saving p = []"
    "distinct (map (\<lambda>c. vote_key (ct_vote c)) cs)"
    "\<forall>c\<in>set cs. cert_good b K (ct_vote c) (ct_signatures c) \<and>
       unstored (ss_certs (slot_of b (referenced_slot (ct_vote c)) p)) (ct_vote c)"
  shows "\<exists>p'. handle_bootstrap_certificates b cs p = Inr p' \<and> pool_inv b K p'"
  using assms
proof (induction cs arbitrary: p)
  case (Cons c cs)
  obtain p1 where p1: "handle_bootstrap_certificate b c p = Inr p1" "pool_inv b K p1" "keeps b (vote_key (ct_vote c)) p p1"
    using bootstrap_certificate_ok [OF Cons.prems(1-3), of c] Cons.prems(5) by auto
  have other: "vote_key (ct_vote d) \<noteq> vote_key (ct_vote c)" if "d \<in> set cs" for d
    using Cons.prems(4) imageI [OF that, of "\<lambda>c. vote_key (ct_vote c)"] by (simp, metis)
  have "\<exists>p'. handle_bootstrap_certificates b cs p1 = Inr p' \<and> pool_inv b K p'"
    using Cons.prems p1(3) other by (intro Cons.IH [OF p1(2)]) (auto simp: keeps_def)
  then show ?case by (simp add: p1(1))
qed simp

lemma bootstrap_votes_ok:
  assumes "pool_inv b K p" "\<forall>v\<in>set vs. (local_idx b, v) \<in> K"
  shows "pool_inv b K (handle_bootstrap_votes b vs p)"
  using assms
proof (induction vs arbitrary: p)
  case (Cons v vs)
  have "pool_inv b K (case pool_slot_at b (referenced_slot v) p of None \<Rightarrow> p | Some p \<Rightarrow> handle_our_vote v True True p)"
  proof (cases "pool_slot_at b (referenced_slot v) p")
    case (Some p1)
    have inv1: "pool_inv b K p1" by (rule pool_slot_at_inv(1) [OF Cons.prems(1) Some])
    then show ?thesis
      using Some Cons.prems(2) pool_invD(6) [OF inv1]
      by (auto simp: handle_our_vote_def tasks_inv_def intro!: pool_inv_signing [OF inv1])
  qed (use Cons.prems in simp)
  then show ?case using Cons by simp
qed simp

lemma pool_start_up_ok:
  assumes "env_ok b K" "bootstrap_ok b K"
  shows "\<exists>p. pool_start_up b = Inr p \<and> pool_inv b K p"
proof -
  obtain p where p: "get_slot_at b 0 (pool_init b) = Inr p" "pool_inv b K (pool_genesis b p)"
    "pl_saving (pool_genesis b p) = []" "\<And>i. ss_certs (slot_of b i (pool_genesis b p)) = empty_bundle"
    using pool_genesis_ok by metis
  have un: "unstored empty_bundle v" for v by (cases v) (simp_all add: empty_bundle_def no_cert_def)
  have "\<exists>p'. handle_bootstrap_certificates b (bootstrap_certificates b) (pool_genesis b p) = Inr p' \<and> pool_inv b K p'"
    using assms un by (intro bootstrap_certificates_ok [OF p(2) _ p(3)]) (auto simp: env_ok_def bootstrap_ok_def p(4))
  then obtain p' where p': "handle_bootstrap_certificates b (bootstrap_certificates b) (pool_genesis b p) = Inr p'"
    "pool_inv b K p'" by blast
  then have "pool_inv b K (handle_bootstrap_votes b (bootstrap_votes b) (p'\<lparr>pl_suppress_certificate_broadcast := False\<rparr>))"
    using assms(2) by (intro bootstrap_votes_ok pool_inv_field) (auto simp: bootstrap_ok_def)
  then show ?thesis using p(1) p'(1) by (simp add: pool_start_up_def pool_genesis_def Let_def)
qed

lemma pool_steps_ok:
  "env_ok b K \<Longrightarrow> pool_inv b K p \<Longrightarrow> list_all (input_ok b K) xs \<Longrightarrow>
   \<exists>p'. pool_steps b xs p = Inr p' \<and> pool_inv b K p'"
proof (induction xs arbitrary: p)
  case (Cons x xs)
  obtain p1 where "pool_step b x p = Inr p1" "pool_inv b K p1"
    using pool_step_ok [OF Cons.prems(1,2), of x] Cons.prems(3) by auto
  then show ?case using Cons by simp
qed simp

lemma pool_run_ok:
  assumes "env_ok b K" "bootstrap_ok b K" "list_all (input_ok b K) xs"
  shows "\<exists>p. pool_run b xs = Inr p \<and> pool_inv b K p"
proof -
  obtain p where "pool_start_up b = Inr p" "pool_inv b K p" using pool_start_up_ok [OF assms(1,2)] by blast
  then show ?thesis using pool_steps_ok [OF assms(1) _ assms(3)] by (simp add: pool_run_def)
qed

end
