(* ===== verification/Simplex_Node.thy ===== *)
theory Simplex_Node
  imports Simplex_Consensus_Inv Simplex_Pool_Run
begin

text \<open>
  A validator node of the Simplex consensus: the pool, the voting actor and the database actor
  (\<^verbatim>\<open>simplex/db.cpp\<close>), connected by the bus.  Events the pool publishes are delivered to the
  voting actor in order; votes and requests the voting actor publishes go through the database
  to the pool.  A node may crash at any moment and restart from its database.
\<close>

section \<open>The node\<close>

record node =
  nd_bus :: bus
  nd_pool :: pool
  nd_cons :: consensus
  nd_log :: "vote list"
  nd_seen :: nat
  nd_done :: nat

text \<open>Start up with the votes and certificates the database holds.\<close>

definition node_boot :: "bus \<Rightarrow> cons_params \<Rightarrow> vote list \<Rightarrow> vote certificate list \<Rightarrow> nat \<Rightarrow> abort + node" where
  "node_boot b ps vlog certs window =
     (let b = b\<lparr>bootstrap_certificates := certs, bootstrap_votes := vlog,
                bus_first_nonannounced_window := window\<rparr>
      in rbind (pool_start_up b) (\<lambda>p.
         Inr \<lparr>nd_bus = b, nd_pool = p, nd_cons = cons_start_up b ps, nd_log = vlog,
              nd_seen = 0, nd_done = 0\<rparr>))"

text \<open>The reply to a request resumes the coroutine that waits for it.\<close>

definition awaits_reply :: "request \<Rightarrow> consensus \<Rightarrow> bool" where
  "awaits_reply r c \<longleftrightarrow>
     (case pending_block (cslot (cid_slot (rq_id r)) c) of
        None \<Rightarrow> False | Some x \<Rightarrow> cd_id x = rq_id r \<and> cd_parent x = rq_parent r)"

fun pool_event_to_cons :: "rat \<Rightarrow> event \<Rightarrow> consensus \<Rightarrow> cons_input option" where
  "pool_event_to_cons now (NotarizationObserved c _) _ = Some (Notarization_observed c)"
| "pool_event_to_cons now (FinalizationObserved c _) _ = Some (Finalization_observed c)"
| "pool_event_to_cons now (LeaderWindowObserved slot base) _ = Some (Leader_window_observed now slot base)"
| "pool_event_to_cons now (RequestResolved r res) c =
     (if awaits_reply r c
      then Some (case res of
                   Slot_already_finalized \<Rightarrow> Task_failed (cid_slot (rq_id r))
                 | Conflicts m \<Rightarrow> Parent_waited (cid_slot (rq_id r)) (Some m)
                 | Parent_ok \<Rightarrow> Parent_waited (cid_slot (rq_id r)) None)
      else None)"
| "pool_event_to_cons now _ _ = None"

definition deliver_pool_event :: "rat \<Rightarrow> node \<Rightarrow> abort + node" where
  "deliver_pool_event now n =
     (if nd_seen n < length (pl_published (nd_pool n))
      then case pool_event_to_cons now (pl_published (nd_pool n) ! nd_seen n) (nd_cons n) of
             None \<Rightarrow> Inr (n\<lparr>nd_seen := nd_seen n + 1\<rparr>)
           | Some x \<Rightarrow> rbind (cons_step (nd_bus n) x (nd_cons n))
               (\<lambda>c. Inr (n\<lparr>nd_cons := c, nd_seen := nd_seen n + 1\<rparr>))
      else Inr n)"

text \<open>
  \<^verbatim>\<open>DbImpl::process(BroadcastVote)\<close>: a vote that was cast before is cancelled, a new one is
  written to the database with the next sequence number before the pool signs and sends it.
\<close>

definition db_broadcast_vote :: "vote \<Rightarrow> node \<Rightarrow> abort + node" where
  "db_broadcast_vote v n =
     (if v \<in> set (nd_log n) then Inr n
      else rbind (pool_step (nd_bus n) (Broadcast_vote v) (nd_pool n))
             (\<lambda>p. Inr (n\<lparr>nd_log := nd_log n @ [v], nd_pool := p\<rparr>)))"

fun handle_cons_event :: "cons_event \<Rightarrow> node \<Rightarrow> abort + node" where
  "handle_cons_event (BroadcastVote v) n = db_broadcast_vote v n"
| "handle_cons_event (WaitForParent x) n =
     rbind (pool_step (nd_bus n) (Wait_for_parent \<lparr>rq_id = cd_id x, rq_parent = cd_parent x\<rparr>) (nd_pool n))
       (\<lambda>p. Inr (n\<lparr>nd_pool := p\<rparr>))"
| "handle_cons_event _ n = Inr n"

definition deliver_cons_event :: "node \<Rightarrow> abort + node" where
  "deliver_cons_event n =
     (if nd_done n < length (cn_published (nd_cons n))
      then handle_cons_event (cn_published (nd_cons n) ! nd_done n) (n\<lparr>nd_done := nd_done n + 1\<rparr>)
      else Inr n)"

datatype node_input =
    Pool_input pool_input
  | Cons_input cons_input
  | Deliver_pool_event rat
  | Deliver_cons_event
  | Restart cons_params "vote certificate list" nat

fun node_step :: "node_input \<Rightarrow> node \<Rightarrow> abort + node" where
  "node_step (Pool_input x) n = rbind (pool_step (nd_bus n) x (nd_pool n)) (\<lambda>p. Inr (n\<lparr>nd_pool := p\<rparr>))"
| "node_step (Cons_input x) n = rbind (cons_step (nd_bus n) x (nd_cons n)) (\<lambda>c. Inr (n\<lparr>nd_cons := c\<rparr>))"
| "node_step (Deliver_pool_event now) n = deliver_pool_event now n"
| "node_step Deliver_cons_event n = deliver_cons_event n"
| "node_step (Restart ps certs window) n = node_boot (nd_bus n) ps (nd_log n) certs window"

section \<open>The same network seen by different nodes\<close>

text \<open>
  Nodes differ in their identity, their keyring and their database; what a quorum or a valid
  certificate is does not depend on these.
\<close>

definition same_network :: "bus \<Rightarrow> bus \<Rightarrow> bool" where
  "same_network b b' \<longleftrightarrow>
     validator_set b' = validator_set b \<and> total_weight b' = total_weight b \<and>
     slots_per_leader_window b' = slots_per_leader_window b \<and> check_signature b' = check_signature b"

lemma same_network_weight:
  assumes "same_network b b'"
  shows "weight_of b' S = weight_of b S" "total_nat b' = total_nat b" "validators b' = validators b"
proof -
  have "vweight b' = vweight b" using assms by (simp add: same_network_def vweight_def fun_eq_iff)
  then show "weight_of b' S = weight_of b S" for S using assms by (simp add: same_network_def weight_of_def)
  moreover show "validators b' = validators b" using assms by (simp add: same_network_def validators_def)
  ultimately show "total_nat b' = total_nat b" by (simp add: total_nat_def)
qed

lemma same_network_quorum:
  assumes "same_network b b'"
  shows "quorum b' K v = quorum b K v" "base_ok b' K i base = base_ok b K i base"
    "cert_good b' K v sigs = cert_good b K v sigs" "consistent b' K = consistent b K" "bus_ok b' = bus_ok b"
proof -
  show q: "quorum b' K v = quorum b K v" for v
    using same_network_weight [OF assms] by (simp add: quorum_def threshold_def)
  then show "base_ok b' K i base = base_ok b K i base" "consistent b' K = consistent b K"
    by (simp_all add: base_ok_def consistent_def split: option.split)
  show "cert_good b' K v sigs = cert_good b K v sigs"
    using same_network_weight [OF assms] assms by (simp add: cert_good_def cert_ok_def same_network_def)
  show "bus_ok b' = bus_ok b" using assms by (simp add: bus_ok_def same_network_def)
qed

section \<open>More votes\<close>

lemma event_ok_mono: "event_ok b K e \<Longrightarrow> K \<subseteq> K' \<Longrightarrow> event_ok b K' e"
  by (induction b K e rule: event_ok.induct)
     (auto simp: parent_justified_def intro: quorum_mono base_ok_mono cert_good_mono)

lemma pool_inv_mono:
  assumes inv: "pool_inv b K p" and sub: "K \<subseteq> K'"
  shows "pool_inv b K' p"
proof (rule pool_invI)
  note D = inv [unfolded pool_inv_def]
  show "slots_inv b K' p" using D slot_ok_mono [OF _ sub] by (simp add: slots_inv_def)
  show "saving_inv b K' p" using D cert_good_mono [OF _ sub] by (simp add: saving_inv_def)
  show "final_inv b K' p" using D quorum_mono [OF _ sub] by (simp add: final_inv_def split: option.splits)
  show "events_inv b K' p" using D event_ok_mono [OF _ sub] by (simp add: events_inv_def)
  show "tasks_inv b K' p" using D sub by (auto simp: tasks_inv_def)
qed (use inv in \<open>unfold pool_inv_def, blast+\<close>)

section \<open>The invariant of a node\<close>

text \<open>A candidate is justified when its parent is a base for its slot.\<close>

definition justified :: "bus \<Rightarrow> (candidate_id \<Rightarrow> parent_id) \<Rightarrow> votes \<Rightarrow> candidate_id \<Rightarrow> bool" where
  "justified b par K c \<longleftrightarrow> base_ok b K (cid_slot c) (par c)"

lemma justified_mono: "justified b par K c \<Longrightarrow> K \<subseteq> K' \<Longrightarrow> justified b par K' c"
  by (simp add: justified_def base_ok_mono)

definition delivered :: "node \<Rightarrow> vote list" where
  "delivered n = bootstrap_votes (nd_bus n) @ concat (map vote_of (take (nd_done n) (cn_published (nd_cons n))))"

definition node_inv :: "bus \<Rightarrow> (candidate_id \<Rightarrow> parent_id) \<Rightarrow> votes \<Rightarrow> nat \<Rightarrow> node \<Rightarrow> bool" where
  "node_inv b par K j n \<longleftrightarrow>
     same_network b (nd_bus n) \<and> local_ok (nd_bus n) \<and> local_idx (nd_bus n) = j \<and>
     pool_inv (nd_bus n) K (nd_pool n) \<and>
     cons_inv par (justified b par K) (bootstrap_votes (nd_bus n)) (nd_cons n) \<and>
     nd_done n \<le> length (cn_published (nd_cons n)) \<and> set (nd_log n) = set (delivered n) \<and>
     votes_ok (justified b par K) (nd_log n) \<and> (\<forall>v. (j, v) \<in> K \<longleftrightarrow> v \<in> set (nd_log n))"

lemma node_invD:
  assumes "node_inv b par K j n"
  shows "same_network b (nd_bus n)" "local_ok (nd_bus n)" "local_idx (nd_bus n) = j"
    "pool_inv (nd_bus n) K (nd_pool n)"
    "cons_inv par (justified b par K) (bootstrap_votes (nd_bus n)) (nd_cons n)"
    "nd_done n \<le> length (cn_published (nd_cons n))" "set (nd_log n) = set (delivered n)"
    "votes_ok (justified b par K) (nd_log n)" "(j, v) \<in> K \<longleftrightarrow> v \<in> set (nd_log n)"
  using assms by (simp_all add: node_inv_def)

text \<open>Votes of others do no harm.\<close>

lemma node_inv_mono:
  assumes "node_inv b par K j n" "K \<subseteq> K'" "\<And>v. (j, v) \<in> K' \<Longrightarrow> (j, v) \<in> K"
  shows "node_inv b par K' j n"
proof -
  note D = node_invD [OF assms(1)]
  have "(j, v) \<in> K' \<longleftrightarrow> (j, v) \<in> K" for v using assms(2,3) by blast
  then show ?thesis
    using assms(1) pool_inv_mono [OF D(4) assms(2)] cons_inv_mono [OF D(5) justified_mono [OF _ assms(2)]]
      votes_ok_mono [OF D(8) justified_mono [OF _ assms(2)]]
    by (simp add: node_inv_def)
qed

lemma node_env_ok:
  assumes "node_inv b par K j n" "bus_ok b" "consistent b K"
  shows "env_ok (nd_bus n) K"
proof -
  note D = node_invD [OF assms(1)]
  have "own_ok (nd_bus n) K" using D(8) by (simp add: own_ok_def D(3,9) votes_ok_def)
  then show ?thesis using assms(2,3) D(2) same_network_quorum [OF D(1)] by (simp add: env_ok_def)
qed

text \<open>What the outside of a node may do to it.\<close>

fun node_input_ok :: "bus \<Rightarrow> (candidate_id \<Rightarrow> parent_id) \<Rightarrow> votes \<Rightarrow> node_input \<Rightarrow> bool" where
  "node_input_ok b par K (Pool_input (Broadcast_vote v)) \<longleftrightarrow> False"
| "node_input_ok b par K (Pool_input (Wait_for_parent r)) \<longleftrightarrow> False"
| "node_input_ok b par K (Pool_input x) \<longleftrightarrow> input_ok b K x"
| "node_input_ok b par K (Cons_input (Candidate_received x)) \<longleftrightarrow> cd_parent x = par (cd_id x)"
| "node_input_ok b par K (Cons_input (Parent_waited i m)) \<longleftrightarrow> False"
| "node_input_ok b par K (Cons_input x) \<longleftrightarrow> True"
| "node_input_ok b par K (Restart ps certs window) \<longleftrightarrow>
     distinct (map (\<lambda>c. vote_key (ct_vote c)) certs) \<and>
     (\<forall>c\<in>set certs. cert_good b K (ct_vote c) (ct_signatures c))"
| "node_input_ok b par K _ \<longleftrightarrow> True"

lemma input_ok_same_network:
  assumes "same_network b b'" "node_input_ok b par K (Pool_input x)"
  shows "input_ok b' K x"
  using assms by (induction b par K "Pool_input x" rule: node_input_ok.induct)
    (auto simp: same_network_def elim!: input_ok.elims)

section \<open>Steps of a node\<close>

lemma node_inv_cons:
  assumes inv: "node_inv b par K j n" and x: "cons_input_ok par (justified b par K) (nd_cons n) x"
  shows "\<exists>c. cons_step (nd_bus n) x (nd_cons n) = Inr c \<and> node_inv b par K j (n\<lparr>nd_cons := c\<rparr>)"
proof -
  note D = node_invD [OF inv]
  obtain c where c: "cons_step (nd_bus n) x (nd_cons n) = Inr c"
    "cons_inv par (justified b par K) (bootstrap_votes (nd_bus n)) c"
    using cons_step_ok [OF D(5) x] by blast
  obtain es where es: "cn_published c = cn_published (nd_cons n) @ es"
    using cons_step_prefix [OF c(1)] by (auto simp: prefix_def)
  then have "delivered (n\<lparr>nd_cons := c\<rparr>) = delivered n" "nd_done n \<le> length (cn_published c)"
    using D(6) by (simp_all add: delivered_def)
  then show ?thesis using inv c by (simp add: node_inv_def)
qed

lemma node_inv_pool:
  assumes "node_inv b par K j n" "pool_inv (nd_bus n) K p"
  shows "node_inv b par K j (n\<lparr>nd_pool := p\<rparr>)"
  using assms by (simp add: node_inv_def delivered_def)

lemma node_inv_seen: "node_inv b par K j (n\<lparr>nd_seen := k\<rparr>) = node_inv b par K j n"
  by (simp add: node_inv_def delivered_def)

lemma pool_event_to_cons_ok:
  assumes inv: "node_inv b par K j n" and e: "e \<in> set (pl_published (nd_pool n))"
    and x: "pool_event_to_cons now e (nd_cons n) = Some x"
  shows "cons_input_ok par (justified b par K) (nd_cons n) x"
proof -
  note D = node_invD [OF inv]
  have ok: "event_ok (nd_bus n) K e" using D(4) e by (simp add: pool_inv_def events_inv_def)
  show ?thesis
  proof (cases e)
    case (RequestResolved r res)
    then have await: "awaits_reply r (nd_cons n)" using x by (simp split: if_splits)
    then obtain y where y: "pending_block (cslot (cid_slot (rq_id r)) (nd_cons n)) = Some y"
      "cd_id y = rq_id r" "cd_parent y = rq_parent r" by (auto simp: awaits_reply_def split: option.splits)
    have "cd_parent y = par (cd_id y)"
      using cons_invD(3) [OF D(5), of "cid_slot (rq_id r)"] y(1) by (simp add: cslot_ok_def)
    then have "justified b par K (rq_id r)" if "res = Parent_ok"
      using ok that y(2,3) same_network_quorum [OF D(1)]
      by (simp add: RequestResolved parent_justified_def justified_def)
    then show ?thesis using x y await by (auto simp: RequestResolved split: resolution.splits)
  qed (use x in auto)
qed

lemma deliver_pool_event_ok:
  assumes inv: "node_inv b par K j n"
  shows "\<exists>n'. deliver_pool_event now n = Inr n' \<and> node_inv b par K j n' \<and> nd_log n' = nd_log n"
proof (cases "nd_seen n < length (pl_published (nd_pool n))")
  case True
  let ?e = "pl_published (nd_pool n) ! nd_seen n"
  show ?thesis
  proof (cases "pool_event_to_cons now ?e (nd_cons n)")
    case (Some x)
    obtain c where c: "cons_step (nd_bus n) x (nd_cons n) = Inr c" "node_inv b par K j (n\<lparr>nd_cons := c\<rparr>)"
      using node_inv_cons [OF inv pool_event_to_cons_ok [OF inv nth_mem [OF True] Some]] by blast
    have "node_inv b par K j (n\<lparr>nd_cons := c, nd_seen := nd_seen n + 1\<rparr>)"
      using c(2) by (simp add: node_inv_seen)
    then show ?thesis using True Some c(1) by (simp add: deliver_pool_event_def)
  qed (use True inv in \<open>simp add: deliver_pool_event_def node_inv_seen\<close>)
qed (use inv in \<open>simp add: deliver_pool_event_def\<close>)

text \<open>A vote the voting actor published may be cast: it keeps the discipline of the log.\<close>

lemma votes_ok_log:
  assumes "votes_ok J (D @ v # R)" "votes_ok J L" "set L = set D"
  shows "votes_ok J (L @ [v])"
proof (rule votes_ok_snoc [OF assms(2)])
  fix w assume "w \<in> set L"
  then show "\<not> conflicting v w" using assms(1,3) by (simp add: votes_ok_def)
next
  fix c assume "v = Final c"
  then show "Notar c \<in> set L" using assms(1,3) by (auto simp: votes_ok_def)
next
  fix c assume "v = Notar c"
  then show "J c" using assms(1) by (simp add: votes_ok_def)
qed

lemma delivered_step:
  assumes "nd_done n < length (cn_published (nd_cons n))"
  defines "e \<equiv> cn_published (nd_cons n) ! nd_done n"
  shows "delivered (n\<lparr>nd_done := nd_done n + 1\<rparr>) = delivered n @ vote_of e"
    and "\<exists>R. bootstrap_votes (nd_bus n) @ cons_votes (nd_cons n) = delivered n @ vote_of e @ R"
proof -
  show "delivered (n\<lparr>nd_done := nd_done n + 1\<rparr>) = delivered n @ vote_of e"
    using assms(1) by (simp add: delivered_def e_def take_Suc_conv_app_nth)
  have "cn_published (nd_cons n) = take (nd_done n) (cn_published (nd_cons n)) @ e # drop (Suc (nd_done n)) (cn_published (nd_cons n))"
    using assms(1) by (simp add: e_def id_take_nth_drop)
  then have "cons_votes (nd_cons n) = concat (map vote_of (take (nd_done n) (cn_published (nd_cons n)))) @ vote_of e @
      concat (map vote_of (drop (Suc (nd_done n)) (cn_published (nd_cons n))))"
    unfolding cons_votes_def by (metis concat.simps(2) concat_append list.simps(9) map_append)
  then show "\<exists>R. bootstrap_votes (nd_bus n) @ cons_votes (nd_cons n) = delivered n @ vote_of e @ R"
    by (auto simp: delivered_def)
qed

lemma db_broadcast_vote_ok:
  assumes inv: "node_inv b par K j n" and dn: "nd_done n < length (cn_published (nd_cons n))"
    and e: "cn_published (nd_cons n) ! nd_done n = BroadcastVote v"
  shows "\<exists>n'. db_broadcast_vote v (n\<lparr>nd_done := nd_done n + 1\<rparr>) = Inr n' \<and>
    node_inv b par (K \<union> {j} \<times> set (nd_log n')) j n'"
proof -
  note D = node_invD [OF inv]
  note d = delivered_step [OF dn, unfolded e, simplified]
  show ?thesis
  proof (cases "v \<in> set (nd_log n)")
    case True
    have "K \<union> {j} \<times> set (nd_log n) = K" using D(9) by auto
    then show ?thesis using True inv d(1) dn by (auto simp: db_broadcast_vote_def node_inv_def)
  next
    case False
    let ?K = "K \<union> {j} \<times> set (nd_log n @ [v])"
    let ?p = "handle_broadcast_vote v (nd_pool n)"
    let ?n = "n\<lparr>nd_done := nd_done n + 1, nd_log := nd_log n @ [v], nd_pool := ?p\<rparr>"
    have sub: "K \<subseteq> ?K" by auto
    have mono: "justified b par ?K c" if "justified b par K c" for c by (rule justified_mono [OF that sub])
    have "pool_inv (nd_bus n) ?K ?p"
      using pool_inv_mono [OF D(4) sub] D(3) pool_invD(6) [OF pool_inv_mono [OF D(4) sub]]
      by (auto simp: handle_broadcast_vote_def handle_our_vote_def tasks_inv_def intro!: pool_inv_signing)
    moreover obtain R where "votes_ok (justified b par K) (delivered n @ v # R)"
      using cons_invD(2) [OF D(5)] d(2) by auto
    then have "votes_ok (justified b par K) (nd_log n @ [v])" by (rule votes_ok_log [OF _ D(8) D(7)])
    then have "votes_ok (justified b par ?K) (nd_log n @ [v])" by (rule votes_ok_mono) (rule mono)
    moreover have "cons_inv par (justified b par ?K) (bootstrap_votes (nd_bus n)) (nd_cons n)"
      by (rule cons_inv_mono [OF D(5)]) (rule mono)
    moreover have "delivered ?n = delivered n @ [v]" using d(1) by (simp add: delivered_def)
    ultimately have "node_inv b par ?K j ?n"
      using D(1-3,7,9) dn by (auto simp: node_inv_def)
    then show ?thesis using False by (simp add: db_broadcast_vote_def)
  qed
qed

lemma deliver_cons_event_ok:
  assumes inv: "node_inv b par K j n" and env: "bus_ok b" "consistent b K"
  shows "\<exists>n'. deliver_cons_event n = Inr n' \<and> node_inv b par (K \<union> {j} \<times> set (nd_log n')) j n'"
proof (cases "nd_done n < length (cn_published (nd_cons n))")
  case True
  note D = node_invD [OF inv]
  define e where "e = cn_published (nd_cons n) ! nd_done n"
  note d = delivered_step [OF True]
  have KK: "K \<union> {j} \<times> set (nd_log n) = K" using D(9) by auto
  have quiet: "node_inv b par K j (n\<lparr>nd_done := nd_done n + 1\<rparr>)" if "vote_of e = []"
    using inv d(1) True that by (simp add: node_inv_def e_def)
  show ?thesis
  proof (cases e)
    case (BroadcastVote v)
    then show ?thesis using db_broadcast_vote_ok [OF inv True] True by (simp add: deliver_cons_event_def e_def)
  next
    case (WaitForParent x)
    have "wait_ok e" using cons_invD(6) [OF D(5)] True by (simp add: e_def list_all_length)
    then have "input_ok (nd_bus n) K (Wait_for_parent \<lparr>rq_id = cd_id x, rq_parent = cd_parent x\<rparr>)"
      by (simp add: WaitForParent)
    then obtain p where p: "pool_step (nd_bus n) (Wait_for_parent \<lparr>rq_id = cd_id x, rq_parent = cd_parent x\<rparr>) (nd_pool n) = Inr p"
      "pool_inv (nd_bus n) K p" using pool_step_ok [OF node_env_ok [OF inv env] D(4)] by blast
    have "node_inv b par K j (n\<lparr>nd_done := nd_done n + 1, nd_pool := p\<rparr>)"
      using node_inv_pool [OF quiet, of p] p(2) WaitForParent by simp
    then show ?thesis using p(1) True WaitForParent KK by (simp add: deliver_cons_event_def e_def)
  qed (use quiet KK True in \<open>simp_all add: deliver_cons_event_def e_def\<close>)
next
  case False
  have "K \<union> {j} \<times> set (nd_log n) = K" using node_invD(9) [OF inv] by auto
  then show ?thesis using inv False by (simp add: deliver_cons_event_def)
qed

text \<open>Start up from a database that holds disciplined votes and valid certificates.\<close>

lemma node_boot_ok:
  assumes net: "same_network b b'" and loc: "local_ok b'" "local_idx b' = j"
    and env: "bus_ok b" "consistent b K" and log: "votes_ok (justified b par K) vlog" "\<forall>v. (j, v) \<in> K \<longleftrightarrow> v \<in> set vlog"
    and certs: "distinct (map (\<lambda>c. vote_key (ct_vote c)) certs)"
      "\<forall>c\<in>set certs. cert_good b K (ct_vote c) (ct_signatures c)"
  shows "\<exists>n. node_boot b' ps vlog certs window = Inr n \<and> node_inv b par K j n \<and> nd_log n = vlog"
proof -
  let ?b = "b'\<lparr>bootstrap_certificates := certs, bootstrap_votes := vlog, bus_first_nonannounced_window := window\<rparr>"
  have net': "same_network b ?b" using net by (simp add: same_network_def)
  have loc': "local_ok ?b" using loc by (simp add: local_ok_def)
  have "own_ok ?b K" using log loc by (simp add: own_ok_def votes_ok_def)
  then have "env_ok ?b K" using env loc' same_network_quorum [OF net'] by (simp add: env_ok_def)
  moreover have "bootstrap_ok ?b K"
    using certs log(2) loc(2) same_network_quorum [OF net'] by (simp add: bootstrap_ok_def)
  ultimately obtain p where p: "pool_start_up ?b = Inr p" "pool_inv ?b K p" using pool_start_up_ok by blast
  have "cons_inv par (justified b par K) vlog (cons_start_up ?b ps)"
    using cons_start_up_ok [of _ ?b] log(1) by simp
  then have "node_inv b par K j \<lparr>nd_bus = ?b, nd_pool = p, nd_cons = cons_start_up ?b ps, nd_log = vlog,
      nd_seen = 0, nd_done = 0\<rparr>"
    using net' loc' loc(2) p(2) log by (simp add: node_inv_def delivered_def)
  then show ?thesis using p(1) by (simp add: node_boot_def Let_def)
qed

lemma node_step_ok:
  assumes inv: "node_inv b par K j n" and env: "bus_ok b" "consistent b K" and x: "node_input_ok b par K x"
  shows "\<exists>n'. node_step x n = Inr n' \<and> node_inv b par (K \<union> {j} \<times> set (nd_log n')) j n'"
proof -
  note D = node_invD [OF inv]
  have KK: "K \<union> {j} \<times> set (nd_log n) = K" using D(9) by auto
  show ?thesis
  proof (cases x)
    case (Pool_input y)
    obtain p where "pool_step (nd_bus n) y (nd_pool n) = Inr p" "pool_inv (nd_bus n) K p"
      using pool_step_ok [OF node_env_ok [OF inv env] D(4) input_ok_same_network [OF D(1)]] x Pool_input by blast
    then show ?thesis using Pool_input KK node_inv_pool [OF inv] by simp
  next
    case (Cons_input y)
    have "cons_input_ok par (justified b par K) (nd_cons n) y"
      using x Cons_input by (cases y) auto
    then show ?thesis using node_inv_cons [OF inv] Cons_input KK by fastforce
  next
    case (Deliver_pool_event now)
    then show ?thesis using deliver_pool_event_ok [OF inv] KK by fastforce
  next
    case Deliver_cons_event
    then show ?thesis using deliver_cons_event_ok [OF inv env] by simp
  next
    case (Restart ps certs window)
    then show ?thesis
      using node_boot_ok [OF D(1-3) env D(8), of certs ps window] D(9) x KK by fastforce
  qed
qed

end
