(* ===== verification/Simplex_Pool_Props.thy ===== *)
theory Simplex_Pool_Props
  imports Simplex_Pool_Run
begin

text \<open>
  The properties of the pool over whole runs, from start up over any sequence of inputs, and
  a concrete network of four validators on which their hypotheses hold.
\<close>

section \<open>A network of four validators\<close>

definition demo_bus :: bus where
  "demo_bus =
     \<lparr>validator_set = [\<lparr>pv_idx = 0, pv_weight = 1\<rparr>, \<lparr>pv_idx = 1, pv_weight = 1\<rparr>,
                       \<lparr>pv_idx = 2, pv_weight = 1\<rparr>, \<lparr>pv_idx = 3, pv_weight = 1\<rparr>],
      local_id = \<lparr>pv_idx = 0, pv_weight = 1\<rparr>, total_weight = 4, slots_per_leader_window = 2,
      max_leader_window_desync = 2, bad_signature_ban_duration = 5, bootstrap_certificates = [],
      bootstrap_votes = [], bus_first_nonannounced_window = 0,
      check_signature = (\<lambda>j v s. s = [of_nat j]), sign_message = (\<lambda>v. [0])\<rparr>"

abbreviation demo_block :: candidate_id where "demo_block \<equiv> CandidateId 0 7"

definition demo_votes :: votes where
  "demo_votes = {(0, Notar demo_block), (1, Notar demo_block), (2, Notar demo_block)}"

text \<open>Two votes of others and our own: the third creates the certificate, which is then saved.\<close>

definition demo_inputs :: "pool_input list" where
  "demo_inputs =
     [Start, Incoming_message 1 1 (TlVote (Notar demo_block) [1]),
      Incoming_message 2 2 (TlVote (Notar demo_block) [2]), Broadcast_vote (Notar demo_block),
      Vote_signed 0, Certificate_saved 0, Incoming_message 3 3 (TlVote (Skip 0) [7])]"

lemma less_4: "(i::nat) < 4 \<longleftrightarrow> i = 0 \<or> i = 1 \<or> i = 2 \<or> i = 3"
  by auto

lemma demo_length [simp]: "length (validator_set demo_bus) = 4"
  by (simp add: demo_bus_def)

lemma demo_bus_ok: "bus_ok demo_bus"
  by (simp add: bus_ok_def less_4) (simp add: demo_bus_def)

lemma demo_local_ok: "local_ok demo_bus"
  by (simp add: local_ok_def) (simp add: demo_bus_def)

lemma demo_weight: "weight_of demo_bus S = card (S \<inter> {..<4})"
proof -
  have "vweight demo_bus i = 1" if "i < 4" for i
    using that by (auto simp: vweight_def less_4) (simp_all add: demo_bus_def)
  then show ?thesis by (simp add: weight_of_def)
qed

lemma demo_threshold: "threshold demo_bus = 3"
  by (simp add: threshold_def total_nat_def demo_weight validators_def)

lemma demo_no_quorum: "v \<noteq> Notar demo_block \<Longrightarrow> \<not> quorum demo_bus demo_votes v"
  by (simp add: quorum_def demo_threshold demo_weight backers_def demo_votes_def)

lemma demo_env_ok: "env_ok demo_bus demo_votes"
proof -
  have "consistent demo_bus demo_votes" by (simp add: consistent_def demo_no_quorum)
  moreover have "own_ok demo_bus demo_votes"
    by (auto simp: own_ok_def demo_votes_def)
  ultimately show ?thesis by (simp add: env_ok_def demo_bus_ok demo_local_ok)
qed

lemma demo_bootstrap_ok: "bootstrap_ok demo_bus demo_votes"
  by (simp add: bootstrap_ok_def demo_bus_def)

lemma demo_inputs_ok: "list_all (input_ok demo_bus demo_votes) demo_inputs"
proof -
  have "check_signature demo_bus = (\<lambda>j v s. s = [of_nat j])" "local_idx demo_bus = 0"
    by (simp_all add: demo_bus_def)
  then show ?thesis by (simp add: demo_inputs_def demo_votes_def)
qed

lemmas demo_ok = demo_env_ok demo_bootstrap_ok demo_inputs_ok

abbreviation demo_cert :: "notarize_vote certificate" where
  "demo_cert \<equiv> \<lparr>ct_vote = NotarizeVote demo_block, ct_signatures = [(0, [0]), (1, [1]), (2, [2])]\<rparr>"

text \<open>The run of these inputs, evaluated.\<close>

lemma demo_published:
  "case pool_run demo_bus demo_inputs of
     Inl _ \<Rightarrow> False
   | Inr p \<Rightarrow> NotarizationObserved demo_block demo_cert \<in> set (pl_published p) \<and>
       OutgoingProtocolMessage (TlCertificate (Notar demo_block) (ct_signatures demo_cert)) \<in> set (pl_published p)"
  by code_simp

lemma demo_run:
  obtains p where "pool_run demo_bus demo_inputs = Inr p"
    "NotarizationObserved demo_block demo_cert \<in> set (pl_published p)"
    "OutgoingProtocolMessage (TlCertificate (Notar demo_block) (ct_signatures demo_cert)) \<in> set (pl_published p)"
  using demo_published by (cases "pool_run demo_bus demo_inputs") auto

section \<open>Properties\<close>







text \<open>
  C7. The books of a slot balance, at any point of any run: the 64-bit counters never wrap and
  are the total weight of the validators whose signed vote was applied, no validator is counted
  twice, and the votes recorded for a validator never contradict each other.
\<close>

theorem pool_slot_books_balance:
  assumes "env_ok b K" "bootstrap_ok b K" "list_all (input_ok b K) xs" "pool_run b xs = Inr p"
  shows "weight_at (ss_notarize_weight (slot_of b i p)) c =
      weight_of b (signed_set tb_notarize (NotarizeVote c) (ss_votes (slot_of b i p))) \<and>
    weight_at (ss_finalize_weight (slot_of b i p)) c =
      weight_of b (signed_set tb_finalize (FinalizeVote c) (ss_votes (slot_of b i p))) \<and>
    unat (ss_skip_weight (slot_of b i p)) =
      weight_of b (signed_set tb_skip (SkipVote i) (ss_votes (slot_of b i p))) \<and>
    list_all (\<lambda>t. check_invariants t = None) (ss_votes (slot_of b i p))"
proof -
  obtain p' where "pool_run b xs = Inr p'" "pool_inv b K p'" using pool_run_ok [OF assms(1-3)] by blast
  then have "slot_ok b K i (slot_of b i p)" using assms(4) by (simp add: pool_inv_def slots_inv_def)
  then show ?thesis
    by (simp add: slot_ok_def weights_ok_def voter_ok_def list_all_length)
qed

theorem pool_slot_books_balance_witness:
  "\<exists>p. pool_run demo_bus demo_inputs = Inr p \<and>
     weight_at (ss_notarize_weight (slot_of demo_bus 0 p)) demo_block =
       weight_of demo_bus (signed_set tb_notarize (NotarizeVote demo_block) (ss_votes (slot_of demo_bus 0 p)))"
proof -
  obtain p where p: "pool_run demo_bus demo_inputs = Inr p" by (rule demo_run)
  show ?thesis using pool_slot_books_balance [OF demo_ok p] p by blast
qed

text \<open>
  C8. \<^verbatim>\<open>Certificate::from_tl\<close> accepts exactly the sets of signatures of distinct, existing
  validators, all of them valid for the vote, whose weight exceeds two thirds of the total; and
  it keeps the vote and the signatures as they are.
\<close>

theorem certificate_acceptance:
  assumes "bus_ok b"
  shows "certificate_from_tl b v sigs = Inr c \<longleftrightarrow>
    distinct (map fst sigs) \<and> (\<forall>(who, sig)\<in>set sigs. who < length (validator_set b) \<and> check_signature b who v sig) \<and>
    2 * total_nat b < 3 * weight_of b (fst ` set sigs) \<and> c = \<lparr>ct_vote = v, ct_signatures = sigs\<rparr>"
proof -
  have "total_nat b * 2 div 3 + 1 \<le> w \<longleftrightarrow> 2 * total_nat b < 3 * w" for w by linarith
  then show ?thesis
    by (auto simp: certificate_from_tl_iff [OF assms] cert_ok_def signers_def validators_def)
qed

theorem certificate_acceptance_witness:
  "certificate_from_tl demo_bus (Skip 4) [(3, [3]), (0, [0]), (1, [1])] =
     Inr \<lparr>ct_vote = Skip 4, ct_signatures = [(3, [3]), (0, [0]), (1, [1])]\<rparr>"
proof -
  have "check_signature demo_bus = (\<lambda>j v s. s = [of_nat j])" by (simp add: demo_bus_def)
  then show ?thesis
    by (subst certificate_acceptance [OF demo_bus_ok])
       (simp add: demo_weight total_nat_def validators_def)
qed

end
