(* ===== verification/Simplex_Network.thy ===== *)
theory Simplex_Network
  imports Simplex_Node Simplex_Pool_Props
begin

text \<open>
  The whole network: honest nodes, each with its pool, voting actor and database, and
  validators that behave arbitrarily.  The adversary delivers any message to any node at any
  time, as long as signatures of honest nodes are not forged, and may crash and restart nodes.
  The argument that finality is safe is carried out once, in a locale over the laws that a
  voting protocol promises, and the network is shown to be an instance.
\<close>

section \<open>Voting protocols\<close>

text \<open>The chain a candidate belongs to, by the parents of the candidates.\<close>

inductive ancestor :: "(candidate_id \<Rightarrow> parent_id) \<Rightarrow> candidate_id \<Rightarrow> candidate_id \<Rightarrow> bool"
  for par :: "candidate_id \<Rightarrow> parent_id" where
  ancestor_refl: "ancestor par c c"
| ancestor_step: "ancestor par c d \<Longrightarrow> par e = Some d \<Longrightarrow> ancestor par c e"

locale vote_protocol =
  fixes reach :: "'st \<Rightarrow> bool"
    and bus_of :: "'st \<Rightarrow> bus"
    and honest :: "'st \<Rightarrow> nat set"
    and par :: "'st \<Rightarrow> candidate_id \<Rightarrow> parent_id"
    and cast :: "'st \<Rightarrow> votes"
  assumes few_faulty: "reach st \<Longrightarrow> 3 * weight_of (bus_of st) (- honest st) \<le> total_nat (bus_of st)"
    and no_conflict: "reach st \<Longrightarrow> j \<in> honest st \<Longrightarrow> (j, v) \<in> cast st \<Longrightarrow> (j, w) \<in> cast st \<Longrightarrow> \<not> conflicting v w"
    and notar_first: "reach st \<Longrightarrow> j \<in> honest st \<Longrightarrow> (j, Final c) \<in> cast st \<Longrightarrow> (j, Notar c) \<in> cast st"
    and notar_based: "reach st \<Longrightarrow> j \<in> honest st \<Longrightarrow> (j, Notar c) \<in> cast st \<Longrightarrow>
      base_ok (bus_of st) (cast st) (cid_slot c) (par st c)"
begin

text \<open>Two quorums have an honest validator in common.\<close>

lemma quorums_intersect:
  assumes r: "reach st" and q: "quorum (bus_of st) (cast st) v" "quorum (bus_of st) (cast st) w"
  shows "\<exists>j\<in>honest st. (j, v) \<in> cast st \<and> (j, w) \<in> cast st"
proof (rule ccontr)
  let ?b = "bus_of st" and ?V = "backers (cast st) v" and ?W = "backers (cast st) w"
  assume "\<not> ?thesis"
  then have "?V \<inter> ?W \<subseteq> - honest st" by (auto simp: backers_def)
  then have "3 * weight_of ?b (?V \<inter> ?W) \<le> total_nat ?b"
    using few_faulty [OF r] weight_of_mono [of "?V \<inter> ?W" "- honest st" ?b] by linarith
  moreover have "weight_of ?b (?V \<union> ?W) + weight_of ?b (?V \<inter> ?W) = weight_of ?b ?V + weight_of ?b ?W"
    by (rule weight_of_Un_Int)
  moreover have "weight_of ?b (?V \<union> ?W) \<le> total_nat ?b" by (rule weight_of_le_total)
  ultimately show False using q by (simp add: quorum_def threshold_def)
qed

lemma quorum_honest:
  assumes "reach st" "quorum (bus_of st) (cast st) v"
  shows "\<exists>j\<in>honest st. (j, v) \<in> cast st"
  using quorums_intersect [OF assms(1) assms(2) assms(2)] by blast

lemma quorums_compatible:
  assumes "reach st" "quorum (bus_of st) (cast st) v" "quorum (bus_of st) (cast st) w"
  shows "\<not> conflicting v w"
  using quorums_intersect [OF assms] no_conflict [OF assms(1)] by blast

lemma certificates_consistent: "reach st \<Longrightarrow> consistent (bus_of st) (cast st)"
  using quorums_compatible by (fastforce simp: consistent_def)

text \<open>A candidate that a quorum notarised or finalised was notarised by an honest validator.\<close>

lemma supported_notar:
  assumes "reach st" "quorum (bus_of st) (cast st) (Notar c) \<or> quorum (bus_of st) (cast st) (Final c)"
  shows "\<exists>j\<in>honest st. (j, Notar c) \<in> cast st"
  using quorum_honest [OF assms(1)] notar_first [OF assms(1)] assms(2) by blast

lemma final_same_slot:
  assumes r: "reach st" and c: "quorum (bus_of st) (cast st) (Final c)"
    and d: "quorum (bus_of st) (cast st) (Notar d) \<or> quorum (bus_of st) (cast st) (Final d)" and s: "cid_slot c = cid_slot d"
  shows "c = d"
  using quorums_compatible [OF r c, of "Notar d"] quorums_compatible [OF r c, of "Final d"] d s by auto

text \<open>A candidate that an honest validator notarised extends every candidate finalised before it.\<close>

lemma notar_extends_final:
  assumes r: "reach st" and c: "quorum (bus_of st) (cast st) (Final c)"
    and d: "j \<in> honest st" "(j, Notar d) \<in> cast st" "cid_slot c < cid_slot d"
  shows "ancestor (par st) c d"
  using d
proof (induction "cid_slot d" arbitrary: d j rule: less_induct)
  case less
  have base: "base_ok (bus_of st) (cast st) (cid_slot d) (par st d)"
    by (rule notar_based [OF r less.prems(1,2)])
  have no_skip: "\<not> quorum (bus_of st) (cast st) (Skip (cid_slot c))"
    using quorums_compatible [OF r c, of "Skip (cid_slot c)"] by auto
  have "par st d \<noteq> None" using base no_skip less.prems(3) by (cases "par st d") (auto simp: base_ok_def)
  then obtain p where p: "par st d = Some p" by blast
  have q: "cid_slot p < cid_slot d" "quorum (bus_of st) (cast st) (Notar p) \<or> quorum (bus_of st) (cast st) (Final p)"
    and "\<forall>k. cid_slot p < k \<and> k < cid_slot d \<longrightarrow> quorum (bus_of st) (cast st) (Skip k)"
    using base by (auto simp: base_ok_def p)
  then have le: "cid_slot c \<le> cid_slot p" using no_skip less.prems(3) not_le by blast
  show ?case
  proof (cases "cid_slot c = cid_slot p")
    case True
    then have "c = p" by (rule final_same_slot [OF r c q(2)])
    then show ?thesis using p by (blast intro: ancestor.intros)
  next
    case False
    obtain i where "i \<in> honest st" "(i, Notar p) \<in> cast st" using supported_notar [OF r q(2)] by blast
    then have "ancestor (par st) c p" using less.hyps q(1) le False by simp
    then show ?thesis using p by (rule ancestor_step)
  qed
qed

theorem finalised_chain:
  assumes r: "reach st" and c: "quorum (bus_of st) (cast st) (Final c)" and d: "quorum (bus_of st) (cast st) (Final d)"
  shows "ancestor (par st) c d \<or> ancestor (par st) d c"
proof -
  obtain i where i: "i \<in> honest st" "(i, Notar c) \<in> cast st" using supported_notar [OF r] c by blast
  obtain j where j: "j \<in> honest st" "(j, Notar d) \<in> cast st" using supported_notar [OF r] d by blast
  consider "cid_slot c < cid_slot d" | "cid_slot d < cid_slot c" | "cid_slot c = cid_slot d" by linarith
  then show ?thesis
  proof cases
    case 1
    then show ?thesis using notar_extends_final [OF r c j] by simp
  next
    case 2
    then show ?thesis using notar_extends_final [OF r d i] by simp
  next
    case 3
    then show ?thesis using final_same_slot [OF r c] d by (blast intro: ancestor_refl)
  qed
qed

end

section \<open>The network\<close>

record system =
  sy_bus :: bus
  sy_honest :: "nat set"
  sy_par :: "candidate_id \<Rightarrow> parent_id"
  sy_sign :: "nat \<Rightarrow> vote \<Rightarrow> signature"

record network =
  nw_nodes :: "nat \<Rightarrow> node"
  nw_faulty_votes :: votes

text \<open>
  The assumptions: the validator set is well-formed, honest nodes are validators whose keyring
  signs correctly, and the others hold at most a third of the weight.
\<close>

definition system_ok :: "system \<Rightarrow> bool" where
  "system_ok S \<longleftrightarrow>
     bus_ok (sy_bus S) \<and> sy_honest S \<subseteq> validators (sy_bus S) \<and>
     3 * weight_of (sy_bus S) (- sy_honest S) \<le> total_nat (sy_bus S) \<and>
     (\<forall>j\<in>sy_honest S. \<forall>v. check_signature (sy_bus S) j v (sy_sign S j v))"

definition node_bus :: "system \<Rightarrow> nat \<Rightarrow> bus" where
  "node_bus S j = (sy_bus S)\<lparr>local_id := validator_set (sy_bus S) ! j, sign_message := sy_sign S j\<rparr>"

text \<open>All votes that were signed: those of the faulty validators and those in the logs.\<close>

definition cast_votes :: "system \<Rightarrow> network \<Rightarrow> votes" where
  "cast_votes S w = nw_faulty_votes w \<union> {(j, v). j \<in> sy_honest S \<and> v \<in> set (nd_log (nw_nodes w j))}"

definition net_init :: "system \<Rightarrow> network \<Rightarrow> bool" where
  "net_init S w \<longleftrightarrow> nw_faulty_votes w = {} \<and>
     (\<forall>j\<in>sy_honest S. \<exists>ps. node_boot (node_bus S j) ps [] [] 0 = Inr (nw_nodes w j))"

inductive net_step :: "system \<Rightarrow> network \<Rightarrow> network \<Rightarrow> bool" for S :: system where
  faulty_vote: "j \<notin> sy_honest S \<Longrightarrow>
     net_step S w (w\<lparr>nw_faulty_votes := insert (j, v) (nw_faulty_votes w)\<rparr>)"
| honest_step: "j \<in> sy_honest S \<Longrightarrow> node_input_ok (sy_bus S) (sy_par S) (cast_votes S w) x \<Longrightarrow>
     node_step x (nw_nodes w j) = Inr n \<Longrightarrow>
     net_step S w (w\<lparr>nw_nodes := (nw_nodes w)(j := n)\<rparr>)"

inductive net_reach :: "system \<Rightarrow> network \<Rightarrow> bool" for S :: system where
  reach_init: "system_ok S \<Longrightarrow> net_init S w \<Longrightarrow> net_reach S w"
| reach_step: "net_reach S w \<Longrightarrow> net_step S w w' \<Longrightarrow> net_reach S w'"

section \<open>The invariant of the network\<close>

definition net_inv :: "system \<Rightarrow> network \<Rightarrow> bool" where
  "net_inv S w \<longleftrightarrow>
     system_ok S \<and> (\<forall>(j, v)\<in>nw_faulty_votes w. j \<notin> sy_honest S) \<and>
     (\<forall>j\<in>sy_honest S. node_inv (sy_bus S) (sy_par S) (cast_votes S w) j (nw_nodes w j))"

text \<open>The votes of a network that keeps the invariant obey the laws of a voting protocol.\<close>

interpretation net_votes: vote_protocol
  "\<lambda>(S, w). net_inv S w" "\<lambda>(S, w). sy_bus S" "\<lambda>(S, w). sy_honest S" "\<lambda>(S, w). sy_par S" "\<lambda>(S, w). cast_votes S w"
proof unfold_locales
  fix st :: "system \<times> network" and j c v v'
  obtain S w where st: "st = (S, w)" by (cases st)
  assume inv: "case st of (S, w) \<Rightarrow> net_inv S w"
  then show "3 * weight_of (case st of (S, w) \<Rightarrow> sy_bus S) (- (case st of (S, w) \<Rightarrow> sy_honest S))
      \<le> total_nat (case st of (S, w) \<Rightarrow> sy_bus S)"
    by (simp add: st net_inv_def system_ok_def)
  assume "j \<in> (case st of (S, w) \<Rightarrow> sy_honest S)"
  then have node: "node_inv (sy_bus S) (sy_par S) (cast_votes S w) j (nw_nodes w j)"
    using inv by (simp add: st net_inv_def)
  note D = node_invD(8,9) [OF node]
  show "\<not> conflicting v v'" if "(j, v) \<in> (case st of (S, w) \<Rightarrow> cast_votes S w)" "(j, v') \<in> (case st of (S, w) \<Rightarrow> cast_votes S w)"
    using that D by (simp add: st votes_ok_def)
  show "(j, Notar c) \<in> (case st of (S, w) \<Rightarrow> cast_votes S w)" if "(j, Final c) \<in> (case st of (S, w) \<Rightarrow> cast_votes S w)"
    using that D votes_ok_final [OF D(1)] by (simp add: st)
  show "base_ok (case st of (S, w) \<Rightarrow> sy_bus S) (case st of (S, w) \<Rightarrow> cast_votes S w) (cid_slot c)
      ((case st of (S, w) \<Rightarrow> sy_par S) c)" if "(j, Notar c) \<in> (case st of (S, w) \<Rightarrow> cast_votes S w)"
    using that D by (simp add: st votes_ok_def justified_def)
qed

lemma net_init_inv:
  assumes S: "system_ok S" and w: "net_init S w"
  shows "net_inv S w"
proof -
  let ?b = "sy_bus S"
  have thr: "0 < threshold ?b" by (simp add: threshold_def)
  have con: "consistent ?b {}" using thr by (simp add: consistent_def quorum_def backers_def)
  have boot: "node_inv ?b (sy_par S) {} j (nw_nodes w j) \<and> nd_log (nw_nodes w j) = []" if j: "j \<in> sy_honest S" for j
  proof -
    obtain ps where ps: "node_boot (node_bus S j) ps [] [] 0 = Inr (nw_nodes w j)"
      using w j by (auto simp: net_init_def)
    have lt: "j < length (validator_set ?b)" using S j by (auto simp: system_ok_def validators_def)
    have idx: "local_idx (node_bus S j) = j" using S lt by (simp add: node_bus_def system_ok_def bus_ok_def)
    have "local_ok (node_bus S j)"
      using S lt j idx by (simp add: local_ok_def) (simp add: node_bus_def system_ok_def)
    moreover have "same_network ?b (node_bus S j)" by (simp add: same_network_def node_bus_def)
    ultimately have "\<exists>n. node_boot (node_bus S j) ps [] [] 0 = Inr n \<and> node_inv ?b (sy_par S) {} j n \<and> nd_log n = []"
      using S idx con by (intro node_boot_ok) (simp_all add: system_ok_def)
    then show ?thesis using ps by simp
  qed
  moreover have "cast_votes S w = {}" using w boot by (auto simp: cast_votes_def net_init_def)
  ultimately show ?thesis using S w by (simp add: net_inv_def net_init_def)
qed

lemma honest_step_inv:
  assumes inv: "net_inv S w" and j: "j \<in> sy_honest S"
    and x: "node_input_ok (sy_bus S) (sy_par S) (cast_votes S w) x"
  shows "\<exists>n. node_step x (nw_nodes w j) = Inr n \<and> net_inv S (w\<lparr>nw_nodes := (nw_nodes w)(j := n)\<rparr>)"
proof -
  let ?b = "sy_bus S" and ?K = "cast_votes S w"
  have node: "node_inv ?b (sy_par S) ?K i (nw_nodes w i)" if "i \<in> sy_honest S" for i
    using inv that by (simp add: net_inv_def)
  have con: "consistent ?b ?K" using net_votes.certificates_consistent [of "(S, w)"] inv by simp
  have bus: "bus_ok ?b" using inv by (simp add: net_inv_def system_ok_def)
  obtain n where n: "node_step x (nw_nodes w j) = Inr n" "node_inv ?b (sy_par S) (?K \<union> {j} \<times> set (nd_log n)) j n"
    using node_step_ok [OF node [OF j] bus con x] by blast
  let ?w = "w\<lparr>nw_nodes := (nw_nodes w)(j := n)\<rparr>"
  have "set (nd_log (nw_nodes w j)) \<subseteq> set (nd_log n)"
    using node_invD(9) [OF n(2)] node_invD(9) [OF node [OF j]] by blast
  then have K': "cast_votes S ?w = ?K \<union> {j} \<times> set (nd_log n)"
    using j by (auto simp: cast_votes_def split: if_splits)
  have "node_inv ?b (sy_par S) (cast_votes S ?w) i (nw_nodes ?w i)" if i: "i \<in> sy_honest S" for i
  proof (cases "i = j")
    case False
    have "node_inv ?b (sy_par S) (cast_votes S ?w) i (nw_nodes w i)"
      by (rule node_inv_mono [OF node [OF i]]) (use False in \<open>auto simp: K'\<close>)
    then show ?thesis using False by simp
  qed (use n(2) in \<open>simp add: K'\<close>)
  then have "net_inv S ?w" using inv by (simp add: net_inv_def)
  then show ?thesis using n(1) by blast
qed

lemma net_step_inv:
  assumes "net_inv S w" "net_step S w w'"
  shows "net_inv S w'"
  using assms(2)
proof cases
  case (faulty_vote j v)
  have K: "cast_votes S w' = insert (j, v) (cast_votes S w)"
    unfolding faulty_vote(1) cast_votes_def by simp
  have "node_inv (sy_bus S) (sy_par S) (cast_votes S w') i (nw_nodes w i)" if i: "i \<in> sy_honest S" for i
  proof (rule node_inv_mono)
    show "node_inv (sy_bus S) (sy_par S) (cast_votes S w) i (nw_nodes w i)"
      using assms(1) i by (simp add: net_inv_def)
    show "(i, v') \<in> cast_votes S w" if "(i, v') \<in> cast_votes S w'" for v'
      using that i faulty_vote(2) unfolding K by blast
  qed (auto simp: K)
  then show ?thesis using assms(1) faulty_vote by (simp add: net_inv_def)
next
  case (honest_step j x n)
  then show ?thesis using honest_step_inv [OF assms(1) honest_step(2,3)] honest_step(1,4) by auto
qed

lemma net_reach_inv: "net_reach S w \<Longrightarrow> net_inv S w"
  by (induction rule: net_reach.induct) (auto intro: net_init_inv net_step_inv)

lemma finalization_quorum:
  assumes "net_reach S w" "j \<in> sy_honest S" "FinalizationObserved c cert \<in> set (pl_published (nd_pool (nw_nodes w j)))"
  shows "quorum (sy_bus S) (cast_votes S w) (Final c)"
proof -
  have "node_inv (sy_bus S) (sy_par S) (cast_votes S w) j (nw_nodes w j)"
    using net_reach_inv [OF assms(1)] assms(2) by (simp add: net_inv_def)
  note D = node_invD(1,4) [OF this]
  have "event_ok (nd_bus (nw_nodes w j)) (cast_votes S w) (FinalizationObserved c cert)"
    using D(2) assms(3) unfolding pool_inv_def events_inv_def by blast
  then show ?thesis using same_network_quorum(1) [OF D(1)] by simp
qed

section \<open>A network with a single validator\<close>

definition solo_bus :: bus where
  "solo_bus =
     \<lparr>validator_set = [\<lparr>pv_idx = 0, pv_weight = 1\<rparr>], local_id = \<lparr>pv_idx = 0, pv_weight = 1\<rparr>,
      total_weight = 1, slots_per_leader_window = 4, max_leader_window_desync = 2,
      bad_signature_ban_duration = 5, bootstrap_certificates = [], bootstrap_votes = [],
      bus_first_nonannounced_window = 0, check_signature = (\<lambda>j v s. s = [of_nat j]),
      sign_message = (\<lambda>v. [0])\<rparr>"

definition solo_system :: system where
  "solo_system = \<lparr>sy_bus = solo_bus, sy_honest = {0}, sy_par = (\<lambda>_. None), sy_sign = (\<lambda>_ _. [0])\<rparr>"

definition solo_params :: cons_params where
  "solo_params = \<lparr>first_block_timeout = 3, first_block_timeout_multiplier = 2, first_block_timeout_cap = 60,
     target_rate = 1, min_block_interval = 1\<rparr>"

text \<open>The node leads the window, receives its own candidate, notarises and finalises it.\<close>

definition solo_inputs :: "node_input list" where
  "solo_inputs =
     [Pool_input Start, Cons_input (Candidate_received \<lparr>cd_id = demo_block, cd_parent = None, cd_leader = 0, cd_empty = False\<rparr>),
      Deliver_cons_event, Deliver_cons_event, Deliver_pool_event 0, Deliver_pool_event 0,
      Cons_input (State_resolved 0 0 None), Cons_input (Validated 0 False), Cons_input (Candidate_stored 0),
      Deliver_cons_event, Deliver_cons_event, Deliver_cons_event, Deliver_cons_event,
      Pool_input (Vote_signed 0), Pool_input (Certificate_saved 0),
      Deliver_pool_event 1, Deliver_pool_event 1, Deliver_pool_event 1, Deliver_pool_event 1, Deliver_pool_event 1,
      Deliver_cons_event, Pool_input (Vote_signed 0), Pool_input (Certificate_saved 0)]"

fun node_steps :: "node_input list \<Rightarrow> node \<Rightarrow> abort + node" where
  "node_steps [] n = Inr n"
| "node_steps (x # xs) n = rbind (node_step x n) (node_steps xs)"

definition solo_run :: "abort + node" where
  "solo_run = rbind (node_boot (node_bus solo_system 0) solo_params [] [] 0) (node_steps solo_inputs)"

lemma solo_finalizes:
  "case solo_run of
     Inl _ \<Rightarrow> False
   | Inr n \<Rightarrow> FinalizationObserved demo_block
       \<lparr>ct_vote = FinalizeVote demo_block, ct_signatures = [(0, [0])]\<rparr> \<in> set (pl_published (nd_pool n))"
  by code_simp

lemma solo_system_ok: "system_ok solo_system"
proof -
  have w: "vweight solo_bus i = (if i = 0 then 1 else 0)" for i
    by (simp add: vweight_def solo_bus_def)
  have l: "length (validator_set solo_bus) = 1" by (simp add: solo_bus_def)
  have "weight_of solo_bus (- {0}) = 0" by (simp add: weight_of_def l lessThan_Suc)
  moreover have "bus_ok solo_bus" by (simp add: bus_ok_def solo_bus_def)
  ultimately show ?thesis
    by (simp add: system_ok_def solo_system_def validators_def l) (simp add: solo_bus_def)
qed

text \<open>Inputs that are admissible whatever was cast.\<close>

lemma node_steps_reach:
  assumes "net_reach S w" "j \<in> sy_honest S" "list_all (\<lambda>x. \<forall>K. node_input_ok (sy_bus S) (sy_par S) K x) xs"
    and "node_steps xs (nw_nodes w j) = Inr n"
  shows "net_reach S (w\<lparr>nw_nodes := (nw_nodes w)(j := n)\<rparr>)"
  using assms
proof (induction xs arbitrary: w)
  case (Cons x xs)
  obtain m where m: "node_step x (nw_nodes w j) = Inr m" "node_steps xs m = Inr n"
    using Cons.prems(4) by (auto simp: rsimps)
  let ?w = "w\<lparr>nw_nodes := (nw_nodes w)(j := m)\<rparr>"
  have "net_reach S ?w"
    using Cons.prems m(1) by (intro reach_step [OF Cons.prems(1)] honest_step) auto
  then have "net_reach S (?w\<lparr>nw_nodes := (nw_nodes ?w)(j := n)\<rparr>)"
    using Cons.prems(2,3) m(2) by (intro Cons.IH) simp_all
  moreover have "?w\<lparr>nw_nodes := (nw_nodes ?w)(j := n)\<rparr> = w\<lparr>nw_nodes := (nw_nodes w)(j := n)\<rparr>" by simp
  ultimately show ?case by metis
qed (auto simp: fun_upd_idem)

lemma solo_reach:
  obtains w where "net_reach solo_system w"
    "FinalizationObserved demo_block \<lparr>ct_vote = FinalizeVote demo_block, ct_signatures = [(0, [0])]\<rparr>
       \<in> set (pl_published (nd_pool (nw_nodes w 0)))"
proof -
  obtain n where n: "solo_run = Inr n" "FinalizationObserved demo_block \<lparr>ct_vote = FinalizeVote demo_block,
      ct_signatures = [(0, [0])]\<rparr> \<in> set (pl_published (nd_pool n))"
    using solo_finalizes by (auto split: sum.splits)
  obtain m where m: "node_boot (node_bus solo_system 0) solo_params [] [] 0 = Inr m" "node_steps solo_inputs m = Inr n"
    using n(1) by (auto simp: solo_run_def rsimps)
  let ?w = "\<lparr>nw_nodes = (\<lambda>_. m), nw_faulty_votes = {}\<rparr>"
  have h: "sy_honest solo_system = {0}" by (simp add: solo_system_def)
  have "net_reach solo_system ?w"
    using m(1) by (intro reach_init [OF solo_system_ok]) (auto simp: net_init_def h)
  moreover have "list_all (\<lambda>x. \<forall>K. node_input_ok (sy_bus solo_system) (sy_par solo_system) K x) solo_inputs"
    by (simp add: solo_inputs_def solo_system_def)
  ultimately have "net_reach solo_system (?w\<lparr>nw_nodes := (nw_nodes ?w)(0 := n)\<rparr>)"
    using m(2) by (intro node_steps_reach) (simp_all add: h)
  then show thesis using n(2) that by fastforce
qed

section \<open>Properties\<close>

text \<open>
  C1. Finality is safe.  In any run of the network, with validators that hold at most a third
  of the weight behaving arbitrarily, with messages delayed, lost, repeated or reordered and
  with nodes that crash and restart, the blocks that any two honest nodes see finalised lie on
  one chain.
\<close>

theorem simplex_finality_is_safe:
  assumes "net_reach S w" "i \<in> sy_honest S" "j \<in> sy_honest S"
    and "FinalizationObserved c cert \<in> set (pl_published (nd_pool (nw_nodes w i)))"
    and "FinalizationObserved d cert' \<in> set (pl_published (nd_pool (nw_nodes w j)))"
  shows "ancestor (sy_par S) c d \<or> ancestor (sy_par S) d c"
  using net_votes.finalised_chain [of "(S, w)" c d] net_reach_inv [OF assms(1)]
    finalization_quorum [OF assms(1,2,4)] finalization_quorum [OF assms(1,3,5)] by simp

theorem simplex_finality_is_safe_witness:
  "ancestor (sy_par solo_system) demo_block demo_block \<or> ancestor (sy_par solo_system) demo_block demo_block"
proof -
  obtain w where w: "net_reach solo_system w"
    "FinalizationObserved demo_block \<lparr>ct_vote = FinalizeVote demo_block, ct_signatures = [(0, [0])]\<rparr>
       \<in> set (pl_published (nd_pool (nw_nodes w 0)))" by (rule solo_reach)
  have h: "0 \<in> sy_honest solo_system" by (simp add: solo_system_def)
  show ?thesis by (rule simplex_finality_is_safe [OF w(1) h h w(2) w(2)])
qed



text \<open>
  C3. An honest validator keeps the voting discipline over all its restarts: no two votes it
  ever signed contradict each other, it votes to finalise only what it voted to notarise, and
  it votes to notarise only candidates whose parent is notarised with all slots in between
  skipped.
\<close>

theorem honest_voting_discipline:
  assumes "net_reach S w" "j \<in> sy_honest S"
  shows "(\<forall>v v'. (j, v) \<in> cast_votes S w \<and> (j, v') \<in> cast_votes S w \<longrightarrow> \<not> conflicting v v') \<and>
    (\<forall>c. (j, Final c) \<in> cast_votes S w \<longrightarrow> (j, Notar c) \<in> cast_votes S w) \<and>
    (\<forall>c. (j, Notar c) \<in> cast_votes S w \<longrightarrow> base_ok (sy_bus S) (cast_votes S w) (cid_slot c) (sy_par S c))"
  using net_votes.no_conflict [of "(S, w)" j] net_votes.notar_first [of "(S, w)" j]
    net_votes.notar_based [of "(S, w)" j] net_reach_inv [OF assms(1)] assms(2) by auto

theorem honest_voting_discipline_witness:
  "\<exists>w. net_reach solo_system w \<and>
     (\<forall>c. (0, Final c) \<in> cast_votes solo_system w \<longrightarrow> (0, Notar c) \<in> cast_votes solo_system w)"
proof -
  obtain w where w: "net_reach solo_system w" by (rule solo_reach)
  have "0 \<in> sy_honest solo_system" by (simp add: solo_system_def)
  from honest_voting_discipline [OF w this] show ?thesis using w by blast
qed

end
