(* ===== verification/VM_Stack.thy ===== *)
theory VM_Stack
  imports Ton_Prelude "HOL-Library.Multiset"
begin

text \<open>
  The stack of the TON virtual machine: stack entries and the class \<open>Stack\<close> of
  \<^verbatim>\<open>crypto/vm/stack.hpp\<close> and \<^verbatim>\<open>crypto/vm/stack.cpp\<close>, the exceptions of \<^verbatim>\<open>crypto/vm/excno.hpp\<close>, and
  the gas counter of \<^verbatim>\<open>crypto/vm/vm.h\<close>.

  The C++ stack is a vector whose last element is the top.  Here it is a list whose head is
  the top, so that \<open>stack[i]\<close> (which indexes from the top) is the \<open>i\<close>-th element of the list.
  Every access of the C++ code to the vector through an unchecked index or iterator has an
  explicit branch for the case that it leaves the vector, \<open>Out_of_bounds\<close>; a failing
  \<open>assert\<close> is \<open>Assertion_failed\<close>.  That no instruction reaches these branches is proved in the
  theories of the instructions.

  Cells, builders, slices, continuations, boxes, atoms and objects are opaque to these
  instructions and are values of a type parameter \<open>'r\<close>.
\<close>

section \<open>Exceptions\<close>

datatype excno = Exc_none | Exc_alt | Stk_und | Stk_ov | Int_ov | Range_chk | Inv_opcode | Type_chk
  | Cell_ov | Cell_und | Dict_err | Exc_unknown | Exc_fatal | Out_of_gas | Virt_err

text \<open>
  \<open>Vm_error\<close> is a thrown \<open>VmError\<close>, which a contract can catch; \<open>Vm_no_gas\<close> is \<open>VmNoGas\<close>, which
  it cannot.  The other two stand for undefined behaviour of the C++ code.
\<close>

datatype vm_fault = Vm_error excno | Vm_no_gas | Out_of_bounds | Assertion_failed

definition undefined_behaviour :: "vm_fault \<Rightarrow> bool" where
  "undefined_behaviour f = (f = Out_of_bounds \<or> f = Assertion_failed)"

lemma undefined_behaviour_simps [simp]:
  "\<not> undefined_behaviour (Vm_error e)" "\<not> undefined_behaviour Vm_no_gas"
  "undefined_behaviour Out_of_bounds" "undefined_behaviour Assertion_failed"
  by (simp_all add: undefined_behaviour_def)

section \<open>Stack entries\<close>

text \<open>
  An integer entry holds a \<open>RefInt256\<close>; \<open>None\<close> is the not-a-number value, the integer whose
  \<open>is_valid()\<close> is false.
\<close>

datatype 'r stack_entry =
    Null_e
  | Int_e "int option"
  | Cell_e 'r
  | Builder_e 'r
  | Slice_e 'r
  | Vmcont_e 'r
  | Tuple_e "'r stack_entry list"
  | Stack_e 'r
  | String_e string
  | Bytes_e string
  | Bitstring_e 'r
  | Box_e 'r
  | Atom_e 'r
  | Object_e 'r

type_synonym 'r stack = "'r stack_entry list"

definition is_null :: "'r stack_entry \<Rightarrow> bool" where
  "is_null e = (case e of Null_e \<Rightarrow> True | _ \<Rightarrow> False)"

definition is_tuple :: "'r stack_entry \<Rightarrow> bool" where
  "is_tuple e = (case e of Tuple_e _ \<Rightarrow> True | _ \<Rightarrow> False)"

definition as_int :: "'r stack_entry \<Rightarrow> int option option" where
  "as_int e = (case e of Int_e i \<Rightarrow> Some i | _ \<Rightarrow> None)"

definition as_tuple :: "'r stack_entry \<Rightarrow> 'r stack_entry list option" where
  "as_tuple e = (case e of Tuple_e t \<Rightarrow> Some t | _ \<Rightarrow> None)"

definition as_tuple_range :: "nat \<Rightarrow> nat \<Rightarrow> 'r stack_entry \<Rightarrow> 'r stack_entry list option" where
  "as_tuple_range max_len min_len e =
     (case as_tuple e of
        Some t \<Rightarrow> if length t \<le> max_len \<and> length t \<ge> min_len then Some t else None
      | None \<Rightarrow> None)"

fun make_list_loop :: "'r stack_entry list \<Rightarrow> nat \<Rightarrow> 'r stack_entry \<Rightarrow> 'r stack_entry" where
  "make_list_loop elems 0 tail = tail"
| "make_list_loop elems (Suc n) tail = make_list_loop elems n (Tuple_e [elems ! n, tail])"

definition make_list :: "'r stack_entry list \<Rightarrow> 'r stack_entry" where
  "make_list elems = make_list_loop elems (length elems) Null_e"

text \<open>\<open>StackEntry::is_list\<close>: walks the second components of pairs down to the null entry.\<close>

function is_list :: "'r stack_entry \<Rightarrow> bool" where
  "is_list e =
     (if is_null e then True
      else (case as_tuple_range 2 2 e of
              None \<Rightarrow> False
            | Some t \<Rightarrow> is_list (t ! 1)))"
  by pat_completeness auto

lemma as_tuple_Some [simp]: "as_tuple e = Some t \<longleftrightarrow> e = Tuple_e t"
  by (cases e) (auto simp: as_tuple_def)

lemma as_tuple_Tuple [simp]: "as_tuple (Tuple_e t) = Some t"
  by (simp add: as_tuple_def)

lemma as_int_Some [simp]: "as_int e = Some i \<longleftrightarrow> e = Int_e i"
  by (cases e) (auto simp: as_int_def)

lemma as_int_Int [simp]: "as_int (Int_e i) = Some i"
  by (simp add: as_int_def)

lemma is_null_iff [simp]: "is_null e \<longleftrightarrow> e = Null_e"
  by (cases e) (auto simp: is_null_def)

lemma is_tuple_iff: "is_tuple e \<longleftrightarrow> (\<exists>t. e = Tuple_e t)"
  by (cases e) (auto simp: is_tuple_def)

lemma as_tuple_range_Some:
  "as_tuple_range mx mn e = Some t \<longleftrightarrow> e = Tuple_e t \<and> length t \<le> mx \<and> mn \<le> length t"
  by (cases e) (auto simp: as_tuple_range_def as_tuple_def)

termination is_list
proof (relation "measure size")
  fix e t
  assume "as_tuple_range 2 2 e = Some t"
  then have e: "e = Tuple_e t" and len: "length t = 2" by (auto simp: as_tuple_range_Some)
  from len have "t ! 1 \<in> set t" by simp
  then have "size (t ! 1) < size (Tuple_e t)"
    by (simp add: size_list_estimation' less_Suc_eq_le)
  with e show "(t ! 1, e) \<in> measure size" by simp
qed simp

declare is_list.simps [simp del]

text \<open>\<open>for_each_scalar\<close> with a predicate: does it hold of every leaf of the entry.\<close>

fun for_each_scalar :: "('r stack_entry \<Rightarrow> bool) \<Rightarrow> 'r stack_entry \<Rightarrow> bool" where
  "for_each_scalar func (Tuple_e t) = list_all (for_each_scalar func) t"
| "for_each_scalar func e = func e"

section \<open>Gas\<close>

record gas_limits =
  gas_max :: int
  gas_limit :: int
  gas_credit :: int
  gas_remaining :: int
  gas_base :: int

record 'r vm_state =
  stack :: "'r stack"
  gas :: gas_limits
  global_version :: int

type_synonym 'r vm_result = "vm_fault + 'r vm_state"

definition gas_limits_init :: "int \<Rightarrow> int \<Rightarrow> int \<Rightarrow> gas_limits" where
  "gas_limits_init l m c =
     \<lparr>gas_max = m, gas_limit = l, gas_credit = c, gas_remaining = l + c, gas_base = l + c\<rparr>"

definition gas_consumed :: "gas_limits \<Rightarrow> int" where
  "gas_consumed g = gas_base g - gas_remaining g"

definition change_base :: "int \<Rightarrow> gas_limits \<Rightarrow> gas_limits" where
  "change_base b g = g\<lparr>gas_remaining := gas_remaining g + (b - gas_base g), gas_base := b\<rparr>"

definition set_limits :: "int \<Rightarrow> int \<Rightarrow> int \<Rightarrow> gas_limits \<Rightarrow> gas_limits" where
  "set_limits m l c g = change_base (l + c) (g\<lparr>gas_max := m, gas_limit := l, gas_credit := c\<rparr>)"

definition change_limit :: "int \<Rightarrow> gas_limits \<Rightarrow> gas_limits" where
  "change_limit l g =
     (let l' = min (max l 0) (gas_max g)
      in change_base l' (g\<lparr>gas_credit := 0, gas_limit := l'\<rparr>))"

definition gas_consume :: "int \<Rightarrow> gas_limits \<Rightarrow> gas_limits" where
  "gas_consume amount g = g\<lparr>gas_remaining := gas_remaining g - amount\<rparr>"

definition gas_check :: "gas_limits \<Rightarrow> vm_fault + unit" where
  "gas_check g = rguard (gas_remaining g \<ge> 0) Vm_no_gas"

definition gas_consume_chk :: "int \<Rightarrow> gas_limits \<Rightarrow> vm_fault + gas_limits" where
  "gas_consume_chk amount g =
     (let g' = gas_consume amount g
      in if gas_remaining g' \<ge> 0 then Inr g' else Inl Vm_no_gas)"

definition consume_gas :: "int \<Rightarrow> 'r vm_state \<Rightarrow> 'r vm_result" where
  "consume_gas amount st =
     (if global_version st \<ge> 4
      then rbind (gas_consume_chk amount (gas st)) (\<lambda>g. Inr (st\<lparr>gas := g\<rparr>))
      else Inr (st\<lparr>gas := gas_consume amount (gas st)\<rparr>))"

definition consume_tuple_gas :: "nat \<Rightarrow> 'r vm_state \<Rightarrow> 'r vm_result" where
  "consume_tuple_gas tuple_len st = consume_gas (int tuple_len * 1) st"

definition consume_stack_gas :: "nat \<Rightarrow> 'r vm_state \<Rightarrow> 'r vm_result" where
  "consume_stack_gas stack_depth st = consume_gas (int ((max stack_depth 32 - 32) * 1)) st"

section \<open>The class Stack\<close>

text \<open>\<open>depth()\<close> casts the size of the vector to a 32-bit \<open>int\<close>.\<close>

definition depth :: "'r stack \<Rightarrow> int" where
  "depth s = signed_take_bit 31 (int (length s))"

definition at_least :: "int list \<Rightarrow> 'r stack \<Rightarrow> bool" where
  "at_least reqs s = list_all (\<lambda>req. depth s \<ge> req) reqs"

definition more_than :: "int list \<Rightarrow> 'r stack \<Rightarrow> bool" where
  "more_than reqs s = list_all (\<lambda>req. depth s > req) reqs"

definition check_underflow :: "int list \<Rightarrow> 'r stack \<Rightarrow> vm_fault + unit" where
  "check_underflow reqs s = rguard (at_least reqs s) (Vm_error Stk_und)"

definition check_underflow_p :: "int list \<Rightarrow> 'r stack \<Rightarrow> vm_fault + unit" where
  "check_underflow_p reqs s = rguard (more_than reqs s) (Vm_error Stk_und)"

definition push :: "'r stack_entry \<Rightarrow> 'r stack \<Rightarrow> 'r stack" where
  "push e s = e # s"

definition pop :: "'r stack \<Rightarrow> vm_fault + 'r stack_entry \<times> 'r stack" where
  "pop s = (case s of [] \<Rightarrow> Inl Out_of_bounds | e # s' \<Rightarrow> Inr (e, s'))"

definition fetch :: "nat \<Rightarrow> 'r stack \<Rightarrow> vm_fault + 'r stack_entry" where
  "fetch i s = (if i < length s then Inr (s ! i) else Inl Out_of_bounds)"

text \<open>\<open>swap(stack[i], stack[j])\<close>.\<close>

definition swap_at :: "nat \<Rightarrow> nat \<Rightarrow> 'r stack \<Rightarrow> vm_fault + 'r stack" where
  "swap_at i j s =
     (if i < length s \<and> j < length s then Inr (s[i := s ! j, j := s ! i]) else Inl Out_of_bounds)"

text \<open>\<open>stack.pop(stack[i])\<close>: the top is swapped into position \<open>i\<close> and then removed.\<close>

definition pop_into :: "nat \<Rightarrow> 'r stack \<Rightarrow> vm_fault + 'r stack" where
  "pop_into i s =
     (if s \<noteq> [] \<and> i < length s then Inr (tl (s[0 := s ! i, i := s ! 0])) else Inl Out_of_bounds)"

definition pop_chk :: "'r stack \<Rightarrow> vm_fault + 'r stack_entry \<times> 'r stack" where
  "pop_chk s = rbind (check_underflow [1] s) (\<lambda>_. pop s)"

definition pop_many :: "nat \<Rightarrow> 'r stack \<Rightarrow> vm_fault + 'r stack" where
  "pop_many n s = (if n \<le> length s then Inr (drop n s) else Inl Out_of_bounds)"

text \<open>
  \<open>pop_many(count, offs)\<close>: the top \<open>offs\<close> entries are moved down over the \<open>count\<close> entries
  below them, one by one from the deepest; a moved-from entry is null.
\<close>

fun move_down :: "nat \<Rightarrow> nat \<Rightarrow> 'r stack \<Rightarrow> 'r stack" where
  "move_down cnt 0 s = s"
| "move_down cnt (Suc i) s =
     move_down cnt i ((s[i + cnt := s ! i])[i := if cnt = 0 then s ! i else Null_e])"

definition pop_many_below :: "nat \<Rightarrow> nat \<Rightarrow> 'r stack \<Rightarrow> vm_fault + 'r stack" where
  "pop_many_below cnt offs s =
     (if cnt + offs \<le> length s then pop_many cnt (move_down cnt offs s) else Inl Out_of_bounds)"

text \<open>\<open>std::rotate(from_top(x + y), from_top(y), top())\<close>.\<close>

definition rotate_top :: "nat \<Rightarrow> nat \<Rightarrow> 'r stack \<Rightarrow> vm_fault + 'r stack" where
  "rotate_top x y s =
     (if x + y \<le> length s then Inr (take x (drop y s) @ take y s @ drop (x + y) s)
      else Inl Out_of_bounds)"

text \<open>\<open>std::reverse(from_top(x + y), from_top(y))\<close>.\<close>

definition reverse_top :: "nat \<Rightarrow> nat \<Rightarrow> 'r stack \<Rightarrow> vm_fault + 'r stack" where
  "reverse_top x y s =
     (if x + y \<le> length s then Inr (take y s @ rev (take x (drop y s)) @ drop (x + y) s)
      else Inl Out_of_bounds)"

definition drop_bottom :: "nat \<Rightarrow> 'r stack \<Rightarrow> vm_fault + 'r stack" where
  "drop_bottom cnt s =
     (if cnt \<le> length s then Inr (take (length s - cnt) s) else Inl Out_of_bounds)"

definition push_from_stack :: "'r stack \<Rightarrow> nat \<Rightarrow> nat \<Rightarrow> 'r stack \<Rightarrow> vm_fault + 'r stack" where
  "push_from_stack old_stack copy_elem skip_top s =
     (if skip_top > length old_stack \<or> copy_elem > length old_stack - skip_top
      then Inl (Vm_error Stk_und)
      else Inr (take copy_elem (drop skip_top old_stack) @ s))"

definition move_from_stack ::
    "nat \<Rightarrow> 'r stack \<Rightarrow> 'r stack \<Rightarrow> vm_fault + 'r stack \<times> 'r stack" where
  "move_from_stack copy_elem old_stack s =
     (if copy_elem > length old_stack then Inl (Vm_error Stk_und)
      else rbind (pop_many copy_elem old_stack) (\<lambda>old'. Inr (old', take copy_elem old_stack @ s)))"

text \<open>\<open>split_top\<close>: the new stack, or none if there are not enough entries, and the rest.\<close>

definition split_top :: "nat \<Rightarrow> nat \<Rightarrow> 'r stack \<Rightarrow> vm_fault + 'r stack option \<times> 'r stack" where
  "split_top top_cnt drop_cnt s =
     (if top_cnt > length s \<or> drop_cnt > length s - top_cnt then Inr (None, s)
      else rbind (if top_cnt \<noteq> 0 then move_from_stack top_cnt s [] else Inr (s, []))
             (\<lambda>(s', new_stk).
                if drop_cnt \<noteq> 0
                then rbind (pop_many drop_cnt s') (\<lambda>s''. Inr (Some new_stk, s''))
                else Inr (Some new_stk, s')))"

subsection \<open>Typed pops\<close>

definition pop_null :: "'r stack \<Rightarrow> vm_fault + 'r stack" where
  "pop_null s =
     rbind (pop_chk s) (\<lambda>(e, s'). if \<not> is_null e then Inl (Vm_error Type_chk) else Inr s')"

definition pop_int :: "'r stack \<Rightarrow> vm_fault + int option \<times> 'r stack" where
  "pop_int s =
     rbind (pop_chk s)
       (\<lambda>(e, s'). case as_int e of None \<Rightarrow> Inl (Vm_error Type_chk) | Some i \<Rightarrow> Inr (i, s'))"

definition pop_int_finite :: "'r stack \<Rightarrow> vm_fault + int \<times> 'r stack" where
  "pop_int_finite s =
     rbind (pop_int s)
       (\<lambda>(i, s'). case i of None \<Rightarrow> Inl (Vm_error Int_ov) | Some v \<Rightarrow> Inr (v, s'))"

definition pop_bool :: "'r stack \<Rightarrow> vm_fault + bool \<times> 'r stack" where
  "pop_bool s = rbind (pop_int_finite s) (\<lambda>(v, s'). Inr (sgn v \<noteq> 0, s'))"

text \<open>
  The value of \<open>BigInt::to_long\<close>: a number that fits a signed 64-bit integer is itself, every
  other one (and the invalid number) is \<open>- 2 ^ 63\<close>.
\<close>

definition to_long :: "int option \<Rightarrow> int" where
  "to_long i =
     (case i of
        None \<Rightarrow> - (2 ^ 63)
      | Some v \<Rightarrow> if - (2 ^ 63) \<le> v \<and> v < 2 ^ 63 then v else - (2 ^ 63))"

definition pop_long :: "'r stack \<Rightarrow> vm_fault + int \<times> 'r stack" where
  "pop_long s = rbind (pop_int s) (\<lambda>(i, s'). Inr (to_long i, s'))"

definition pop_long_range :: "int \<Rightarrow> int \<Rightarrow> 'r stack \<Rightarrow> vm_fault + int \<times> 'r stack" where
  "pop_long_range mx mn s =
     rbind (pop_long s)
       (\<lambda>(v, s'). if v > mx \<or> v < mn then Inl (Vm_error Range_chk) else Inr (v, s'))"

text \<open>\<open>pop_smallint_range\<close> with the default lower bound 0, so that its result is a natural number.\<close>

definition pop_smallint_range :: "int \<Rightarrow> 'r stack \<Rightarrow> vm_fault + nat \<times> 'r stack" where
  "pop_smallint_range mx s = rbind (pop_long_range mx 0 s) (\<lambda>(v, s'). Inr (nat v, s'))"

definition pop_tuple :: "'r stack \<Rightarrow> vm_fault + 'r stack_entry list \<times> 'r stack" where
  "pop_tuple s =
     rbind (pop_chk s)
       (\<lambda>(e, s'). case as_tuple e of None \<Rightarrow> Inl (Vm_error Type_chk) | Some t \<Rightarrow> Inr (t, s'))"

definition pop_tuple_range ::
    "nat \<Rightarrow> nat \<Rightarrow> 'r stack \<Rightarrow> vm_fault + 'r stack_entry list \<times> 'r stack" where
  "pop_tuple_range max_len min_len s =
     rbind (pop_chk s)
       (\<lambda>(e, s'). case as_tuple e of
          None \<Rightarrow> Inl (Vm_error Type_chk)
        | Some t \<Rightarrow> if length t > max_len \<or> length t < min_len then Inl (Vm_error Type_chk)
                    else Inr (t, s'))"

definition pop_maybe_tuple :: "'r stack \<Rightarrow> vm_fault + 'r stack_entry list option \<times> 'r stack" where
  "pop_maybe_tuple s =
     rbind (pop_chk s)
       (\<lambda>(e, s'). if is_null e then Inr (None, s')
        else (case as_tuple e of
                None \<Rightarrow> Inl (Vm_error Type_chk)
              | Some t \<Rightarrow> Inr (Some t, s')))"

definition pop_maybe_tuple_range ::
    "nat \<Rightarrow> 'r stack \<Rightarrow> vm_fault + 'r stack_entry list option \<times> 'r stack" where
  "pop_maybe_tuple_range max_len s =
     rbind (pop_chk s)
       (\<lambda>(e, s'). if is_null e then Inr (None, s')
        else (case as_tuple e of
                None \<Rightarrow> Inl (Vm_error Type_chk)
              | Some t \<Rightarrow> if length t > max_len then Inl (Vm_error Type_chk) else Inr (Some t, s')))"

subsection \<open>Typed pushes\<close>

definition signed_fits_bits :: "nat \<Rightarrow> int \<Rightarrow> bool" where
  "signed_fits_bits n v = (if n = 0 then v = 0 else - (2 ^ (n - 1)) \<le> v \<and> v < 2 ^ (n - 1))"

definition unsigned_fits_bits :: "nat \<Rightarrow> int \<Rightarrow> bool" where
  "unsigned_fits_bits n v = (0 \<le> v \<and> v < 2 ^ n)"

definition push_int :: "int option \<Rightarrow> 'r stack \<Rightarrow> vm_fault + 'r stack" where
  "push_int i s =
     (case i of
        None \<Rightarrow> Inl (Vm_error Int_ov)
      | Some v \<Rightarrow> if \<not> signed_fits_bits 257 v then Inl (Vm_error Int_ov) else Inr (push (Int_e i) s))"

definition push_int_quiet :: "int option \<Rightarrow> bool \<Rightarrow> 'r stack \<Rightarrow> vm_fault + 'r stack" where
  "push_int_quiet i quiet s =
     (if (case i of None \<Rightarrow> True | Some v \<Rightarrow> \<not> signed_fits_bits 257 v) then
        if \<not> quiet then Inl (Vm_error Int_ov)
        else if i \<noteq> None then Inr (push (Int_e None) s)
        else Inr (push (Int_e i) s)
      else Inr (push (Int_e i) s))"

definition push_smallint :: "int \<Rightarrow> 'r stack \<Rightarrow> 'r stack" where
  "push_smallint v s = push (Int_e (Some v)) s"

definition push_bool :: "bool \<Rightarrow> 'r stack \<Rightarrow> 'r stack" where
  "push_bool b s = push_smallint (if b then -1 else 0) s"

definition push_tuple :: "'r stack_entry list \<Rightarrow> 'r stack \<Rightarrow> 'r stack" where
  "push_tuple t s = push (Tuple_e t) s"

definition push_maybe_tuple :: "'r stack_entry list option \<Rightarrow> 'r stack \<Rightarrow> 'r stack" where
  "push_maybe_tuple t s = (case t of Some t' \<Rightarrow> push (Tuple_e t') s | None \<Rightarrow> push Null_e s)"

subsection \<open>Components of tuples\<close>

definition tuple_index :: "'r stack_entry list \<Rightarrow> nat \<Rightarrow> vm_fault + 'r stack_entry" where
  "tuple_index tup idx = (if idx \<ge> length tup then Inl (Vm_error Range_chk) else Inr (tup ! idx))"

definition tuple_extend_index :: "'r stack_entry list option \<Rightarrow> nat \<Rightarrow> 'r stack_entry" where
  "tuple_extend_index tup idx =
     (case tup of None \<Rightarrow> Null_e | Some t \<Rightarrow> if idx \<ge> length t then Null_e else t ! idx)"

definition resize :: "nat \<Rightarrow> 'r stack_entry list \<Rightarrow> 'r stack_entry list" where
  "resize n t = take n t @ replicate (n - length t) Null_e"

text \<open>The result is the updated tuple and the number of entries to pay for.\<close>

definition tuple_extend_set_index ::
    "'r stack_entry list option \<Rightarrow> nat \<Rightarrow> 'r stack_entry \<Rightarrow> bool \<Rightarrow> 'r stack_entry list option \<times> nat" where
  "tuple_extend_set_index tup idx value force =
     (case tup of
        None \<Rightarrow>
          if is_null value \<and> \<not> force then (None, 0)
          else (Some ((replicate (idx + 1) Null_e)[idx := value]), idx + 1)
      | Some t \<Rightarrow>
          if length t \<le> idx then
            if is_null value \<and> \<not> force then (Some t, 0)
            else (Some ((resize (idx + 1) t)[idx := value]), idx + 1)
          else (Some (t[idx := value]), length t))"

section \<open>Facts shared by the instructions\<close>

named_theorems vm_defs \<open>the definitions of the stack primitives\<close>

lemmas [vm_defs] =
  check_underflow_def check_underflow_p_def at_least_def more_than_def push_def pop_def fetch_def
  swap_at_def pop_into_def pop_chk_def pop_many_def pop_many_below_def rotate_top_def
  reverse_top_def rbind_rguard

lemma depth_le: "depth s \<le> int (length s)"
proof -
  have "depth s = int (length s) - 2 ^ 32 * of_bool (bit (int (length s)) 31) - 2 ^ 32 * (int (length s) div 2 ^ 32)"
    by (simp add: depth_def signed_take_bit_eq_take_bit_minus take_bit_eq_mod minus_mult_div_eq_mod [symmetric])
  moreover have "0 \<le> int (length s) div 2 ^ 32" by simp
  ultimately show ?thesis by simp
qed

lemma depth_eq: "length s < 2 ^ 31 \<Longrightarrow> depth s = int (length s)"
  unfolding depth_def by (rule signed_take_bit_int_eq_self) auto

lemma depth_bounds: "- (2 ^ 31) \<le> depth s" "depth s < 2 ^ 31"
  unfolding depth_def
  using signed_take_bit_int_greater_eq_minus_exp [of 31] signed_take_bit_int_less_exp [of 31]
  by simp_all

lemma at_leastD: "at_least reqs s \<Longrightarrow> r \<in> set reqs \<Longrightarrow> r \<le> int (length s)"
  using depth_le [of s] by (auto simp: at_least_def list_all_iff)

lemma more_thanD: "more_than reqs s \<Longrightarrow> r \<in> set reqs \<Longrightarrow> r < int (length s)"
  using depth_le [of s] by (fastforce simp: more_than_def list_all_iff)

lemma move_down_length [simp]: "length (move_down cnt n s) = length s"
  by (induction n arbitrary: s) auto

lemma move_down_nth:
  assumes "0 < cnt" "cnt + n \<le> length s" "cnt \<le> j" "j < length s"
  shows "move_down cnt n s ! j = (if j < cnt + n then s ! (j - cnt) else s ! j)"
  using assms
proof (induction n arbitrary: s)
  case (Suc n)
  let ?s = "(s[n + cnt := s ! n])[n := Null_e]"
  have "move_down cnt n ?s ! j = (if j < cnt + n then ?s ! (j - cnt) else ?s ! j)"
    using Suc.prems by (intro Suc.IH) auto
  then show ?case using Suc.prems by (cases "j = cnt + n") (auto simp: nth_list_update)
qed simp

lemma drop_move_down:
  assumes "cnt + n \<le> length s"
  shows "drop cnt (move_down cnt n s) = take n s @ drop (cnt + n) s"
proof (cases "cnt = 0")
  case True
  have "move_down 0 n s = s" for s :: "'a stack" by (induction n) auto
  with True show ?thesis by simp
next
  case False
  show ?thesis
    by (rule nth_equalityI) (use assms False in \<open>auto simp: move_down_nth nth_append add.commute\<close>)
qed

lemma pop_many_below_eq:
  "cnt + n \<le> length s \<Longrightarrow> pop_many_below cnt n s = Inr (take n s @ drop (cnt + n) s)"
  by (simp add: pop_many_below_def pop_many_def drop_move_down)

section \<open>Well-formed stacks and faultless computations\<close>

text \<open>
  The type invariant of the stack: every valid integer fits 257 bits and every tuple has at
  most 255 components, at any nesting depth.
\<close>

fun entry_ok :: "'r stack_entry \<Rightarrow> bool" where
  "entry_ok (Int_e (Some v)) = signed_fits_bits 257 v"
| "entry_ok (Tuple_e t) = (length t \<le> 255 \<and> list_all entry_ok t)"
| "entry_ok _ = True"

definition stack_ok :: "'r stack \<Rightarrow> bool" where
  "stack_ok s = list_all entry_ok s"

text \<open>
  \<open>faultless P r\<close>: the computation \<open>r\<close> does not run into undefined behaviour, and if it returns,
  its result satisfies \<open>P\<close>.
\<close>

definition faultless :: "('a \<Rightarrow> bool) \<Rightarrow> vm_fault + 'a \<Rightarrow> bool" where
  "faultless P r = (case r of Inl f \<Rightarrow> \<not> undefined_behaviour f | Inr x \<Rightarrow> P x)"

named_theorems faultless_intros \<open>rules that show a computation faultless\<close>

lemma faultless_Inr [simp]: "faultless P (Inr x) = P x"
  by (simp add: faultless_def)

lemma faultless_Inl [simp]: "faultless P (Inl f) \<longleftrightarrow> \<not> undefined_behaviour f"
  by (simp add: faultless_def)

lemma faultless_mono: "faultless P r \<Longrightarrow> (\<And>x. P x \<Longrightarrow> Q x) \<Longrightarrow> faultless Q r"
  by (auto simp: faultless_def split: sum.splits)

lemma faultless_rbind [faultless_intros]:
  "faultless (\<lambda>x. faultless P (f x)) m \<Longrightarrow> faultless P (rbind m f)"
  by (cases m) auto

lemma faultless_check_underflow [faultless_intros]:
  "(list_all (\<lambda>r. r \<le> int (length s)) reqs \<Longrightarrow> P ()) \<Longrightarrow> faultless P (check_underflow reqs s)"
  by (auto simp: check_underflow_def rguard_def faultless_def list_all_iff dest: at_leastD)

lemma faultless_check_underflow_p [faultless_intros]:
  "(list_all (\<lambda>r. r < int (length s)) reqs \<Longrightarrow> P ()) \<Longrightarrow> faultless P (check_underflow_p reqs s)"
  by (auto simp: check_underflow_p_def rguard_def faultless_def list_all_iff dest: more_thanD)

lemma stack_ok_nth: "stack_ok s \<Longrightarrow> i < length s \<Longrightarrow> entry_ok (s ! i)"
  by (auto simp: stack_ok_def list_all_length)

lemma stack_ok_subset: "stack_ok s \<Longrightarrow> set t \<subseteq> set s \<Longrightarrow> stack_ok t"
  by (auto simp: stack_ok_def list_all_iff)

lemma stack_ok_simps [simp]:
  "stack_ok []" "stack_ok (e # s) \<longleftrightarrow> entry_ok e \<and> stack_ok s"
  "stack_ok (s @ t) \<longleftrightarrow> stack_ok s \<and> stack_ok t"
  by (auto simp: stack_ok_def)

lemma stack_ok_update: "stack_ok s \<Longrightarrow> entry_ok e \<Longrightarrow> stack_ok (s[i := e])"
  using set_update_subset_insert [of s i e] by (auto simp: stack_ok_def list_all_iff)

lemma stack_ok_drop: "stack_ok s \<Longrightarrow> stack_ok (drop n s)"
  by (rule stack_ok_subset) (auto dest: in_set_dropD)

lemma stack_ok_take: "stack_ok s \<Longrightarrow> stack_ok (take n s)"
  by (rule stack_ok_subset) (auto dest: in_set_takeD)

lemma faultless_swap_at [faultless_intros]:
  "\<lbrakk>stack_ok s; i < length s; j < length s; \<And>s'. stack_ok s' \<Longrightarrow> length s' = length s \<Longrightarrow> P s'\<rbrakk>
   \<Longrightarrow> faultless P (swap_at i j s)"
  by (simp add: swap_at_def stack_ok_update stack_ok_nth)

lemma faultless_pop [faultless_intros]:
  "\<lbrakk>stack_ok s; s \<noteq> []; \<And>e s'. entry_ok e \<Longrightarrow> stack_ok s' \<Longrightarrow> length s = Suc (length s') \<Longrightarrow> P (e, s')\<rbrakk>
   \<Longrightarrow> faultless P (pop s)"
  by (cases s) (auto simp: pop_def)

lemma faultless_pop_chk [faultless_intros]:
  "\<lbrakk>stack_ok s; \<And>e s'. entry_ok e \<Longrightarrow> stack_ok s' \<Longrightarrow> length s = Suc (length s') \<Longrightarrow> P (e, s')\<rbrakk>
   \<Longrightarrow> faultless P (pop_chk s)"
  unfolding pop_chk_def by (intro faultless_intros) auto

lemma faultless_fetch [faultless_intros]:
  "\<lbrakk>stack_ok s; i < length s; \<And>e. entry_ok e \<Longrightarrow> P e\<rbrakk> \<Longrightarrow> faultless P (fetch i s)"
  by (simp add: fetch_def stack_ok_nth)

lemma faultless_pop_into [faultless_intros]:
  assumes "stack_ok s" "i < length s"
    and "\<And>s'. stack_ok s' \<Longrightarrow> length s = Suc (length s') \<Longrightarrow> P s'"
  shows "faultless P (pop_into i s)"
proof -
  let ?t = "s[0 := s ! i, i := s ! 0]"
  have "0 < length s" using assms(2) by (rule le_less_trans [OF zero_le])
  then have "stack_ok ?t" using assms(1,2) by (intro stack_ok_update stack_ok_nth)
  then have "stack_ok (tl ?t)" by (cases ?t) auto
  moreover have "s \<noteq> []" using assms(2) by auto
  ultimately show ?thesis using assms by (simp add: pop_into_def)
qed

lemma faultless_pop_many [faultless_intros]:
  "\<lbrakk>stack_ok s; n \<le> length s; \<And>s'. stack_ok s' \<Longrightarrow> length s = n + length s' \<Longrightarrow> P s'\<rbrakk>
   \<Longrightarrow> faultless P (pop_many n s)"
  by (simp add: pop_many_def stack_ok_drop)

lemma faultless_pop_many_below [faultless_intros]:
  "\<lbrakk>stack_ok s; n + k \<le> length s; \<And>s'. stack_ok s' \<Longrightarrow> P s'\<rbrakk> \<Longrightarrow> faultless P (pop_many_below n k s)"
  by (simp add: pop_many_below_eq stack_ok_drop stack_ok_take)

lemma faultless_rotate_top [faultless_intros]:
  "\<lbrakk>stack_ok s; x + y \<le> length s; \<And>s'. stack_ok s' \<Longrightarrow> P s'\<rbrakk> \<Longrightarrow> faultless P (rotate_top x y s)"
  by (simp add: rotate_top_def stack_ok_drop stack_ok_take)

lemma faultless_reverse_top [faultless_intros]:
  assumes "stack_ok s" "x + y \<le> length s" "\<And>s'. stack_ok s' \<Longrightarrow> P s'"
  shows "faultless P (reverse_top x y s)"
proof -
  have "stack_ok (rev (take x (drop y s)))"
    by (rule stack_ok_subset [OF assms(1)]) (auto dest: in_set_dropD in_set_takeD)
  with assms show ?thesis by (simp add: reverse_top_def stack_ok_drop stack_ok_take)
qed

lemma faultless_pop_int [faultless_intros]:
  "\<lbrakk>stack_ok s; \<And>i s'. entry_ok (Int_e i :: 'r stack_entry) \<Longrightarrow> stack_ok s' \<Longrightarrow> length s = Suc (length s') \<Longrightarrow>
      P (i, s')\<rbrakk>
   \<Longrightarrow> faultless P (pop_int (s :: 'r stack))"
  unfolding pop_int_def by (intro faultless_intros) (auto split: option.splits)

lemma faultless_pop_int_finite [faultless_intros]:
  "\<lbrakk>stack_ok s; \<And>v s'. signed_fits_bits 257 v \<Longrightarrow> stack_ok s' \<Longrightarrow> length s = Suc (length s') \<Longrightarrow> P (v, s')\<rbrakk>
   \<Longrightarrow> faultless P (pop_int_finite s)"
  unfolding pop_int_finite_def by (intro faultless_intros) (auto split: option.splits)

lemma faultless_pop_bool [faultless_intros]:
  "\<lbrakk>stack_ok s; \<And>b s'. stack_ok s' \<Longrightarrow> length s = Suc (length s') \<Longrightarrow> P (b, s')\<rbrakk>
   \<Longrightarrow> faultless P (pop_bool s)"
  unfolding pop_bool_def by (intro faultless_intros) auto

lemma faultless_pop_smallint_range [faultless_intros]:
  "\<lbrakk>stack_ok s; \<And>x s'. int x \<le> mx \<Longrightarrow> stack_ok s' \<Longrightarrow> length s = Suc (length s') \<Longrightarrow> P (x, s')\<rbrakk>
   \<Longrightarrow> faultless P (pop_smallint_range mx s)"
  unfolding pop_smallint_range_def pop_long_range_def pop_long_def
  by (intro faultless_intros) auto

lemma entry_ok_Tuple [simp]: "entry_ok (Tuple_e t) \<longleftrightarrow> length t \<le> 255 \<and> stack_ok t"
  by (simp add: stack_ok_def)

declare entry_ok.simps(2) [simp del]

lemma faultless_pop_tuple_range [faultless_intros]:
  "\<lbrakk>stack_ok s; \<And>t s'. stack_ok t \<Longrightarrow> length t \<le> mx \<Longrightarrow> mn \<le> length t \<Longrightarrow> length t \<le> 255 \<Longrightarrow> stack_ok s' \<Longrightarrow>
      length s = Suc (length s') \<Longrightarrow> P (t, s')\<rbrakk>
   \<Longrightarrow> faultless P (pop_tuple_range mx mn s)"
  unfolding pop_tuple_range_def
  by (intro faultless_intros) (auto split: option.splits)

lemma faultless_pop_maybe_tuple_range [faultless_intros]:
  "\<lbrakk>stack_ok s; \<And>t s'. (case t of None \<Rightarrow> True | Some t' \<Rightarrow> stack_ok t' \<and> length t' \<le> mx) \<Longrightarrow> stack_ok s' \<Longrightarrow>
      length s = Suc (length s') \<Longrightarrow> P (t, s')\<rbrakk>
   \<Longrightarrow> faultless P (pop_maybe_tuple_range mx s)"
  unfolding pop_maybe_tuple_range_def
  by (intro faultless_intros) (auto split: option.splits)

lemma entry_ok_small:
  assumes "- (2 ^ 63) \<le> v" "v < 2 ^ 63"
  shows "entry_ok (Int_e (Some v))"
proof -
  have "(2 :: int) ^ 63 \<le> 2 ^ 256" by simp
  with assms show ?thesis by (simp add: signed_fits_bits_def)
qed

lemma faultless_push_int [faultless_intros]:
  "\<lbrakk>stack_ok s; \<And>s'. stack_ok s' \<Longrightarrow> length s' = Suc (length s) \<Longrightarrow> P s'\<rbrakk>
   \<Longrightarrow> faultless P (push_int i s)"
  by (auto simp: push_int_def push_def split: option.splits)

lemma faultless_push_int_quiet [faultless_intros]:
  "\<lbrakk>stack_ok s; \<And>s'. stack_ok s' \<Longrightarrow> length s' = Suc (length s) \<Longrightarrow> P s'\<rbrakk>
   \<Longrightarrow> faultless P (push_int_quiet i q s)"
  by (auto simp: push_int_quiet_def push_def split: option.splits)

text \<open>The same for instructions, over the whole state.\<close>

definition vm_ok :: "'r vm_state \<Rightarrow> bool" where
  "vm_ok st = stack_ok (stack st)"

lemma faultless_consume_gas [faultless_intros]:
  "\<lbrakk>\<And>g. P (st\<lparr>gas := g\<rparr>)\<rbrakk> \<Longrightarrow> faultless P (consume_gas amount st)"
  by (auto simp: consume_gas_def gas_consume_chk_def Let_def)

lemma faultless_consume_tuple_gas [faultless_intros]:
  "\<lbrakk>\<And>g. P (st\<lparr>gas := g\<rparr>)\<rbrakk> \<Longrightarrow> faultless P (consume_tuple_gas n st)"
  unfolding consume_tuple_gas_def by (rule faultless_consume_gas)

text \<open>
  An instruction is safe when, started on a well-formed stack, it never runs into undefined
  behaviour and leaves a well-formed stack.
\<close>

definition instr_safe :: "('r vm_state \<Rightarrow> 'r vm_result) \<Rightarrow> bool" where
  "instr_safe f = (\<forall>st. vm_ok st \<longrightarrow> faultless vm_ok (f st))"

lemma instr_safeI: "(\<And>st. stack_ok (stack st) \<Longrightarrow> faultless vm_ok (f st)) \<Longrightarrow> instr_safe f"
  by (simp add: instr_safe_def vm_ok_def)

lemma instr_safeD: "instr_safe f \<Longrightarrow> vm_ok st \<Longrightarrow> faultless vm_ok (f st)"
  by (simp add: instr_safe_def)

end
