(* ===== verification/VM_Stack_Ops.thy ===== *)
theory VM_Stack_Ops
  imports VM_Stack
begin

text \<open>
  The stack manipulation instructions, \<^verbatim>\<open>crypto/vm/stackops.cpp\<close>: one definition per
  \<open>exec_\<close> function.  An instruction maps the state of the machine to a fault or the next state; the
  immediate arguments are the number \<open>args\<close> that the dispatcher extracts from the opcode, and
  the nibbles of it are \<open>arg_lo\<close>, \<open>arg_mid\<close> and \<open>arg_hi\<close>.
\<close>

section \<open>The instructions\<close>

definition on_stack :: "('r stack \<Rightarrow> vm_fault + 'r stack) \<Rightarrow> 'r vm_state \<Rightarrow> 'r vm_result" where
  "on_stack f st = rbind (f (stack st)) (\<lambda>s. Inr (st\<lparr>stack := s\<rparr>))"

definition arg_lo :: "nat \<Rightarrow> nat" where
  "arg_lo args = args mod 16"

definition arg_mid :: "nat \<Rightarrow> nat" where
  "arg_mid args = (args div 16) mod 16"

definition arg_hi :: "nat \<Rightarrow> nat" where
  "arg_hi args = (args div 256) mod 16"

definition exec_nop :: "'r vm_state \<Rightarrow> 'r vm_result" where
  "exec_nop st = Inr st"

text \<open>\<open>stack.push(stack.fetch(i))\<close>.\<close>

definition push_fetch :: "nat \<Rightarrow> 'r stack \<Rightarrow> vm_fault + 'r stack" where
  "push_fetch i s = rbind (fetch i s) (\<lambda>e. Inr (push e s))"

subsection \<open>Basic stack manipulation\<close>

definition exec_swap :: "'r vm_state \<Rightarrow> 'r vm_result" where
  "exec_swap =
     on_stack (\<lambda>s. rbind (check_underflow [2] s) (\<lambda>_.
       swap_at 0 1 s))"

definition exec_xchg0 :: "nat \<Rightarrow> 'r vm_state \<Rightarrow> 'r vm_result" where
  "exec_xchg0 args =
     on_stack (\<lambda>s. rbind (check_underflow_p [int (arg_lo args)] s) (\<lambda>_.
       swap_at 0 (arg_lo args) s))"

definition exec_xchg0_l :: "nat \<Rightarrow> 'r vm_state \<Rightarrow> 'r vm_result" where
  "exec_xchg0_l args =
     on_stack (\<lambda>s. rbind (check_underflow_p [int (args mod 256)] s) (\<lambda>_.
       swap_at 0 (args mod 256) s))"

definition exec_xchg :: "nat \<Rightarrow> 'r vm_state \<Rightarrow> 'r vm_result" where
  "exec_xchg args =
     on_stack (\<lambda>s. rbind (rguard (\<not> (arg_mid args = 0 \<or> arg_mid args \<ge> arg_lo args)) (Vm_error Inv_opcode)) (\<lambda>_.
       rbind (check_underflow_p [int (arg_lo args)] s) (\<lambda>_.
       swap_at (arg_mid args) (arg_lo args) s)))"

definition exec_xchg1 :: "nat \<Rightarrow> 'r vm_state \<Rightarrow> 'r vm_result" where
  "exec_xchg1 args =
     on_stack (\<lambda>s. rbind (rguard (arg_lo args \<ge> 2) Assertion_failed) (\<lambda>_.
       rbind (check_underflow_p [int (arg_lo args)] s) (\<lambda>_.
       swap_at 1 (arg_lo args) s)))"

definition exec_dup :: "'r vm_state \<Rightarrow> 'r vm_result" where
  "exec_dup =
     on_stack (\<lambda>s. rbind (check_underflow [1] s) (\<lambda>_.
       push_fetch 0 s))"

definition exec_over :: "'r vm_state \<Rightarrow> 'r vm_result" where
  "exec_over =
     on_stack (\<lambda>s. rbind (check_underflow [2] s) (\<lambda>_.
       push_fetch 1 s))"

definition exec_push :: "nat \<Rightarrow> 'r vm_state \<Rightarrow> 'r vm_result" where
  "exec_push args =
     on_stack (\<lambda>s. rbind (check_underflow_p [int (arg_lo args)] s) (\<lambda>_.
       push_fetch (arg_lo args) s))"

definition exec_push_l :: "nat \<Rightarrow> 'r vm_state \<Rightarrow> 'r vm_result" where
  "exec_push_l args =
     on_stack (\<lambda>s. rbind (check_underflow_p [int (args mod 256)] s) (\<lambda>_.
       push_fetch (args mod 256) s))"

definition exec_drop :: "'r vm_state \<Rightarrow> 'r vm_result" where
  "exec_drop =
     on_stack (\<lambda>s. rbind (check_underflow [1] s) (\<lambda>_.
       rbind (pop s) (\<lambda>(e, t).
       Inr t)))"

definition exec_nip :: "'r vm_state \<Rightarrow> 'r vm_result" where
  "exec_nip =
     on_stack (\<lambda>s. rbind (check_underflow [2] s) (\<lambda>_.
       pop_into 1 s))"

definition exec_pop :: "nat \<Rightarrow> 'r vm_state \<Rightarrow> 'r vm_result" where
  "exec_pop args =
     on_stack (\<lambda>s. rbind (check_underflow_p [int (arg_lo args)] s) (\<lambda>_.
       pop_into (arg_lo args) s))"

definition exec_pop_l :: "nat \<Rightarrow> 'r vm_state \<Rightarrow> 'r vm_result" where
  "exec_pop_l args =
     on_stack (\<lambda>s. rbind (check_underflow_p [int (args mod 256)] s) (\<lambda>_.
       pop_into (args mod 256) s))"

subsection \<open>Compound stack manipulation\<close>

definition exec_xchg2 :: "nat \<Rightarrow> 'r vm_state \<Rightarrow> 'r vm_result" where
  "exec_xchg2 args =
     on_stack (\<lambda>s. rbind (check_underflow_p [int (arg_mid args), int (arg_lo args), 1] s) (\<lambda>_.
       rbind (swap_at 1 (arg_mid args) s) (\<lambda>s1.
       swap_at 0 (arg_lo args) s1)))"

definition exec_xcpu :: "nat \<Rightarrow> 'r vm_state \<Rightarrow> 'r vm_result" where
  "exec_xcpu args =
     on_stack (\<lambda>s. rbind (check_underflow_p [int (arg_mid args), int (arg_lo args)] s) (\<lambda>_.
       rbind (swap_at 0 (arg_mid args) s) (\<lambda>s1.
       push_fetch (arg_lo args) s1)))"

definition exec_puxc :: "nat \<Rightarrow> 'r vm_state \<Rightarrow> 'r vm_result" where
  "exec_puxc args =
     on_stack (\<lambda>s. rbind (check_underflow_p [int (arg_mid args)] s) (\<lambda>_.
       rbind (check_underflow [int (arg_lo args)] s) (\<lambda>_.
       rbind (push_fetch (arg_mid args) s) (\<lambda>s1.
       rbind (swap_at 0 1 s1) (\<lambda>s2.
       swap_at 0 (arg_lo args) s2)))))"

definition exec_push2 :: "nat \<Rightarrow> 'r vm_state \<Rightarrow> 'r vm_result" where
  "exec_push2 args =
     on_stack (\<lambda>s. rbind (check_underflow_p [int (arg_mid args), int (arg_lo args)] s) (\<lambda>_.
       rbind (push_fetch (arg_mid args) s) (\<lambda>s1.
       push_fetch (arg_lo args + 1) s1)))"

definition exec_xchg3 :: "nat \<Rightarrow> 'r vm_state \<Rightarrow> 'r vm_result" where
  "exec_xchg3 args =
     on_stack (\<lambda>s. rbind (check_underflow_p [int (arg_hi args), int (arg_mid args), int (arg_lo args), 2] s) (\<lambda>_.
       rbind (swap_at 2 (arg_hi args) s) (\<lambda>s1.
       rbind (swap_at 1 (arg_mid args) s1) (\<lambda>s2.
       swap_at 0 (arg_lo args) s2))))"

definition exec_xc2pu :: "nat \<Rightarrow> 'r vm_state \<Rightarrow> 'r vm_result" where
  "exec_xc2pu args =
     on_stack (\<lambda>s. rbind (check_underflow_p [int (arg_hi args), int (arg_mid args), int (arg_lo args), 1] s) (\<lambda>_.
       rbind (swap_at 1 (arg_hi args) s) (\<lambda>s1.
       rbind (swap_at 0 (arg_mid args) s1) (\<lambda>s2.
       push_fetch (arg_lo args) s2))))"

definition exec_xcpuxc :: "nat \<Rightarrow> 'r vm_state \<Rightarrow> 'r vm_result" where
  "exec_xcpuxc args =
     on_stack (\<lambda>s. rbind (check_underflow_p [int (arg_hi args), int (arg_mid args), 1] s) (\<lambda>_.
       rbind (check_underflow [int (arg_lo args)] s) (\<lambda>_.
       rbind (swap_at 1 (arg_hi args) s) (\<lambda>s1.
       rbind (push_fetch (arg_mid args) s1) (\<lambda>s2.
       rbind (swap_at 0 1 s2) (\<lambda>s3.
       swap_at 0 (arg_lo args) s3))))))"

definition exec_xcpu2 :: "nat \<Rightarrow> 'r vm_state \<Rightarrow> 'r vm_result" where
  "exec_xcpu2 args =
     on_stack (\<lambda>s. rbind (check_underflow_p [int (arg_hi args), int (arg_mid args), int (arg_lo args)] s) (\<lambda>_.
       rbind (swap_at 0 (arg_hi args) s) (\<lambda>s1.
       rbind (push_fetch (arg_mid args) s1) (\<lambda>s2.
       push_fetch (arg_lo args + 1) s2))))"

definition exec_puxc2 :: "nat \<Rightarrow> 'r vm_state \<Rightarrow> 'r vm_result" where
  "exec_puxc2 args =
     on_stack (\<lambda>s. rbind (check_underflow_p [int (arg_hi args), 1] s) (\<lambda>_.
       rbind (check_underflow [int (arg_mid args), int (arg_lo args)] s) (\<lambda>_.
       rbind (push_fetch (arg_hi args) s) (\<lambda>s1.
       rbind (swap_at 2 0 s1) (\<lambda>s2.
       rbind (swap_at 1 (arg_mid args) s2) (\<lambda>s3.
       swap_at 0 (arg_lo args) s3))))))"

definition exec_puxcpu :: "nat \<Rightarrow> 'r vm_state \<Rightarrow> 'r vm_result" where
  "exec_puxcpu args =
     on_stack (\<lambda>s. rbind (check_underflow_p [int (arg_hi args)] s) (\<lambda>_.
       rbind (check_underflow [int (arg_mid args), int (arg_lo args)] s) (\<lambda>_.
       rbind (push_fetch (arg_hi args) s) (\<lambda>s1.
       rbind (swap_at 0 1 s1) (\<lambda>s2.
       rbind (swap_at 0 (arg_mid args) s2) (\<lambda>s3.
       push_fetch (arg_lo args) s3))))))"

definition exec_pu2xc :: "nat \<Rightarrow> 'r vm_state \<Rightarrow> 'r vm_result" where
  "exec_pu2xc args =
     on_stack (\<lambda>s. rbind (check_underflow_p [int (arg_hi args)] s) (\<lambda>_.
       rbind (check_underflow [int (arg_mid args), int (arg_lo args) - 1] s) (\<lambda>_.
       rbind (push_fetch (arg_hi args) s) (\<lambda>s1.
       rbind (swap_at 1 0 s1) (\<lambda>s2.
       rbind (push_fetch (arg_mid args) s2) (\<lambda>s3.
       rbind (swap_at 1 0 s3) (\<lambda>s4.
       swap_at 0 (arg_lo args) s4)))))))"

definition exec_push3 :: "nat \<Rightarrow> 'r vm_state \<Rightarrow> 'r vm_result" where
  "exec_push3 args =
     on_stack (\<lambda>s. rbind (check_underflow_p [int (arg_hi args), int (arg_mid args), int (arg_lo args)] s) (\<lambda>_.
       rbind (push_fetch (arg_hi args) s) (\<lambda>s1.
       rbind (push_fetch (arg_mid args + 1) s1) (\<lambda>s2.
       push_fetch (arg_lo args + 2) s2))))"

subsection \<open>Blocks\<close>

definition exec_blkswap :: "nat \<Rightarrow> 'r vm_state \<Rightarrow> 'r vm_result" where
  "exec_blkswap args =
     on_stack (\<lambda>s. rbind (check_underflow [int (arg_mid args + 1 + (arg_lo args + 1))] s) (\<lambda>_.
       rotate_top (arg_mid args + 1) (arg_lo args + 1) s))"

definition exec_rot :: "'r vm_state \<Rightarrow> 'r vm_result" where
  "exec_rot =
     on_stack (\<lambda>s. rbind (check_underflow [3] s) (\<lambda>_.
       rbind (swap_at 1 2 s) (\<lambda>s1.
       swap_at 0 1 s1)))"

definition exec_rotrev :: "'r vm_state \<Rightarrow> 'r vm_result" where
  "exec_rotrev =
     on_stack (\<lambda>s. rbind (check_underflow [3] s) (\<lambda>_.
       rbind (swap_at 0 1 s) (\<lambda>s1.
       swap_at 1 2 s1)))"

definition exec_2swap :: "'r vm_state \<Rightarrow> 'r vm_result" where
  "exec_2swap =
     on_stack (\<lambda>s. rbind (check_underflow [4] s) (\<lambda>_.
       rbind (swap_at 1 3 s) (\<lambda>s1.
       swap_at 0 2 s1)))"

definition exec_2drop :: "'r vm_state \<Rightarrow> 'r vm_result" where
  "exec_2drop =
     on_stack (\<lambda>s. rbind (check_underflow [2] s) (\<lambda>_.
       rbind (pop s) (\<lambda>(e, t).
       rbind (pop t) (\<lambda>(e', t').
       Inr t'))))"

definition exec_2dup :: "'r vm_state \<Rightarrow> 'r vm_result" where
  "exec_2dup =
     on_stack (\<lambda>s. rbind (check_underflow [2] s) (\<lambda>_.
       rbind (push_fetch 1 s) (\<lambda>s1.
       push_fetch 1 s1)))"

definition exec_2over :: "'r vm_state \<Rightarrow> 'r vm_result" where
  "exec_2over =
     on_stack (\<lambda>s. rbind (check_underflow [4] s) (\<lambda>_.
       rbind (push_fetch 3 s) (\<lambda>s1.
       push_fetch 3 s1)))"

definition exec_reverse :: "nat \<Rightarrow> 'r vm_state \<Rightarrow> 'r vm_result" where
  "exec_reverse args =
     on_stack (\<lambda>s. rbind (check_underflow [int (arg_mid args + 2 + arg_lo args)] s) (\<lambda>_.
       reverse_top (arg_mid args + 2) (arg_lo args) s))"

definition exec_blkdrop :: "nat \<Rightarrow> 'r vm_state \<Rightarrow> 'r vm_result" where
  "exec_blkdrop args =
     on_stack (\<lambda>s. rbind (check_underflow [int (arg_lo args)] s) (\<lambda>_.
       pop_many (arg_lo args) s))"

definition exec_blkdrop2 :: "nat \<Rightarrow> 'r vm_state \<Rightarrow> 'r vm_result" where
  "exec_blkdrop2 args =
     on_stack (\<lambda>s. rbind (check_underflow [int (arg_mid args + arg_lo args)] s) (\<lambda>_.
       pop_many_below (arg_mid args) (arg_lo args) s))"

text \<open>The loop \<open>while (--x >= 0)\<close> of \<open>exec_blkpush\<close>.\<close>

fun blkpush_loop :: "nat \<Rightarrow> nat \<Rightarrow> 'r stack \<Rightarrow> vm_fault + 'r stack" where
  "blkpush_loop 0 y s = Inr s"
| "blkpush_loop (Suc x) y s = rbind (push_fetch y s) (blkpush_loop x y)"

definition exec_blkpush :: "nat \<Rightarrow> 'r vm_state \<Rightarrow> 'r vm_result" where
  "exec_blkpush args =
     on_stack (\<lambda>s. rbind (check_underflow_p [int (arg_lo args)] s) (\<lambda>_.
       blkpush_loop (arg_mid args) (arg_lo args) s))"

subsection \<open>Instructions that take indices from the stack\<close>

text \<open>The largest index, \<open>get_global_version() >= 4 ? (1 << 30) - 1 : 255\<close>.\<close>

definition max_index :: "'r vm_state \<Rightarrow> int" where
  "max_index st = (if global_version st \<ge> 4 then 2 ^ 30 - 1 else 255)"

definition exec_pick :: "'r vm_state \<Rightarrow> 'r vm_result" where
  "exec_pick st = on_stack (\<lambda>s.
     rbind (check_underflow [1] s) (\<lambda>_.
     rbind (pop_smallint_range (max_index st) s) (\<lambda>(x, t).
     rbind (check_underflow_p [int x] t) (\<lambda>_.
     push_fetch x t)))) st"

text \<open>\<open>while (--x >= 0) swap(stack[x], stack[x + 1])\<close>.\<close>

fun roll_loop :: "nat \<Rightarrow> 'r stack \<Rightarrow> vm_fault + 'r stack" where
  "roll_loop 0 s = Inr s"
| "roll_loop (Suc x) s = rbind (swap_at x (x + 1) s) (roll_loop x)"

definition exec_roll :: "'r vm_state \<Rightarrow> 'r vm_result" where
  "exec_roll st =
     rbind (check_underflow [1] (stack st)) (\<lambda>_.
     rbind (pop_smallint_range (max_index st) (stack st)) (\<lambda>(x, t).
     rbind (check_underflow_p [int x] t) (\<lambda>_.
     rbind (consume_gas (max (int x - 255) 0) (st\<lparr>stack := t\<rparr>)) (on_stack (roll_loop x)))))"

text \<open>\<open>for (int i = 0; i < x; i++) swap(stack[i], stack[i + 1])\<close>, with \<open>n\<close> rounds left.\<close>

fun rollrev_loop :: "nat \<Rightarrow> nat \<Rightarrow> 'r stack \<Rightarrow> vm_fault + 'r stack" where
  "rollrev_loop i 0 s = Inr s"
| "rollrev_loop i (Suc n) s = rbind (swap_at i (i + 1) s) (rollrev_loop (i + 1) n)"

definition exec_rollrev :: "'r vm_state \<Rightarrow> 'r vm_result" where
  "exec_rollrev st =
     rbind (check_underflow [1] (stack st)) (\<lambda>_.
     rbind (pop_smallint_range (max_index st) (stack st)) (\<lambda>(x, t).
     rbind (check_underflow_p [int x] t) (\<lambda>_.
     rbind (consume_gas (max (int x - 255) 0) (st\<lparr>stack := t\<rparr>)) (on_stack (rollrev_loop 0 x)))))"

definition exec_blkswap_x :: "'r vm_state \<Rightarrow> 'r vm_result" where
  "exec_blkswap_x st =
     rbind (check_underflow [2] (stack st)) (\<lambda>_.
     rbind (pop_smallint_range (max_index st) (stack st)) (\<lambda>(y, t).
     rbind (pop_smallint_range (max_index st) t) (\<lambda>(x, u).
     rbind (check_underflow [int (x + y)] u) (\<lambda>_.
     if x > 0 \<and> y > 0
     then rbind (if global_version st \<ge> 4
                 then consume_gas (max (int (x + y) - 255) 0) (st\<lparr>stack := u\<rparr>)
                 else Inr (st\<lparr>stack := u\<rparr>)) (on_stack (rotate_top x y))
     else Inr (st\<lparr>stack := u\<rparr>)))))"

definition exec_reverse_x :: "'r vm_state \<Rightarrow> 'r vm_result" where
  "exec_reverse_x st =
     rbind (check_underflow [2] (stack st)) (\<lambda>_.
     rbind (pop_smallint_range (max_index st) (stack st)) (\<lambda>(y, t).
     rbind (pop_smallint_range (max_index st) t) (\<lambda>(x, u).
     rbind (check_underflow [int (x + y)] u) (\<lambda>_.
     rbind (consume_gas (max (int x - 255) 0) (st\<lparr>stack := u\<rparr>)) (on_stack (reverse_top x y))))))"

definition exec_drop_x :: "'r vm_state \<Rightarrow> 'r vm_result" where
  "exec_drop_x st = on_stack (\<lambda>s.
     rbind (check_underflow [1] s) (\<lambda>_.
     rbind (pop_smallint_range (max_index st) s) (\<lambda>(x, t).
     rbind (check_underflow [int x] t) (\<lambda>_.
     pop_many x t)))) st"

definition exec_tuck :: "'r vm_state \<Rightarrow> 'r vm_result" where
  "exec_tuck = on_stack (\<lambda>s.
     rbind (check_underflow [2] s) (\<lambda>_.
     rbind (swap_at 0 1 s) (\<lambda>s1.
     push_fetch 1 s1)))"

definition exec_xchg_x :: "'r vm_state \<Rightarrow> 'r vm_result" where
  "exec_xchg_x st = on_stack (\<lambda>s.
     rbind (check_underflow [1] s) (\<lambda>_.
     rbind (pop_smallint_range (max_index st) s) (\<lambda>(x, t).
     rbind (check_underflow_p [int x] t) (\<lambda>_.
     swap_at 0 x t)))) st"

definition exec_depth :: "'r vm_state \<Rightarrow> 'r vm_result" where
  "exec_depth = on_stack (\<lambda>s. Inr (push_smallint (depth s) s))"

definition exec_chkdepth :: "'r vm_state \<Rightarrow> 'r vm_result" where
  "exec_chkdepth st = on_stack (\<lambda>s.
     rbind (check_underflow [1] s) (\<lambda>_.
     rbind (pop_smallint_range (max_index st) s) (\<lambda>(x, t).
     rbind (check_underflow [int x] t) (\<lambda>_.
     Inr t)))) st"

text \<open>
  \<open>for (int i = n - 1; i >= d; i--) stack[i] = std::move(stack[i - d])\<close>, with \<open>k = i - d + 1\<close>
  rounds left; the moved-from entry is null.
\<close>

fun onlytop_loop :: "nat \<Rightarrow> nat \<Rightarrow> 'r stack \<Rightarrow> vm_fault + 'r stack" where
  "onlytop_loop d 0 s = Inr s"
| "onlytop_loop d (Suc k) s =
     (if d + k < length s then onlytop_loop d k ((s[d + k := s ! k])[k := Null_e])
      else Inl Out_of_bounds)"

definition exec_onlytop_x :: "'r vm_state \<Rightarrow> 'r vm_result" where
  "exec_onlytop_x st =
     rbind (check_underflow [1] (stack st)) (\<lambda>_.
     rbind (pop_smallint_range (max_index st) (stack st)) (\<lambda>(x, t).
     rbind (check_underflow [int x] t) (\<lambda>_.
     let n = depth t; d = n - int x
     in rbind (if d > 0
               then rbind (consume_gas (max (int x - 255) 0) (st\<lparr>stack := t\<rparr>))
                      (on_stack (onlytop_loop (nat d) (nat (n - d))))
               else Inr (st\<lparr>stack := t\<rparr>)) (on_stack (pop_many (nat d))))))"

definition exec_only_x :: "'r vm_state \<Rightarrow> 'r vm_result" where
  "exec_only_x st = on_stack (\<lambda>s.
     rbind (check_underflow [1] s) (\<lambda>_.
     rbind (pop_smallint_range (max_index st) s) (\<lambda>(x, t).
     rbind (check_underflow [int x] t) (\<lambda>_.
     pop_many (nat (depth t - int x)) t)))) st"

section \<open>Safety\<close>

lemma faultless_on_stack_then:
  "faultless (\<lambda>s. P (st\<lparr>stack := s\<rparr>)) (f (stack st)) \<Longrightarrow> faultless P (on_stack f st)"
  unfolding on_stack_def by (rule faultless_rbind) simp

lemma faultless_on_stack [faultless_intros]:
  "faultless stack_ok (f (stack st)) \<Longrightarrow> faultless vm_ok (on_stack f st)"
  by (rule faultless_on_stack_then) (auto simp: vm_ok_def elim: faultless_mono)

lemma faultless_push_fetch [faultless_intros]:
  "\<lbrakk>stack_ok s; i < length s; \<And>s'. stack_ok s' \<Longrightarrow> length s' = Suc (length s) \<Longrightarrow> P s'\<rbrakk>
   \<Longrightarrow> faultless P (push_fetch i s)"
  by (simp add: push_fetch_def push_def fetch_def stack_ok_nth)

lemma faultless_blkpush_loop [faultless_intros]:
  "\<lbrakk>stack_ok s; y < length s; \<And>s'. stack_ok s' \<Longrightarrow> P s'\<rbrakk> \<Longrightarrow> faultless P (blkpush_loop x y s)"
  by (induction x arbitrary: s) (auto intro!: faultless_intros)

lemma faultless_roll_loop [faultless_intros]:
  "\<lbrakk>stack_ok s; x < length s; \<And>s'. stack_ok s' \<Longrightarrow> P s'\<rbrakk> \<Longrightarrow> faultless P (roll_loop x s)"
  by (induction x arbitrary: s) (auto intro!: faultless_intros)

lemma faultless_rollrev_loop [faultless_intros]:
  "\<lbrakk>stack_ok s; i + n < length s; \<And>s'. stack_ok s' \<Longrightarrow> P s'\<rbrakk> \<Longrightarrow> faultless P (rollrev_loop i n s)"
  by (induction n arbitrary: i s) (auto intro!: faultless_intros)

lemma faultless_onlytop_loop:
  "\<lbrakk>stack_ok s; d + k \<le> length s; \<And>s'. stack_ok s' \<Longrightarrow> length s' = length s \<Longrightarrow> P s'\<rbrakk>
   \<Longrightarrow> faultless P (onlytop_loop d k s)"
proof (induction k arbitrary: s)
  case (Suc k)
  then have "stack_ok ((s[d + k := s ! k])[k := Null_e])"
    by (intro stack_ok_update stack_ok_nth) auto
  with Suc show ?case by simp
qed simp

lemma stack_ok_push_depth: "stack_ok s \<Longrightarrow> stack_ok (push_smallint (depth s) s)"
  using depth_bounds [of s] by (auto simp: push_smallint_def push_def intro!: entry_ok_small simp del: entry_ok.simps)

lemma basic_ops_safe:
  "instr_safe exec_nop" "instr_safe exec_swap" "instr_safe (exec_xchg0 a)" "instr_safe (exec_xchg0_l a)"
  "instr_safe (exec_xchg a)" "2 \<le> arg_lo a \<Longrightarrow> instr_safe (exec_xchg1 a)" "instr_safe exec_dup"
  "instr_safe exec_over" "instr_safe (exec_push a)" "instr_safe (exec_push_l a)" "instr_safe exec_drop"
  "instr_safe exec_nip" "instr_safe (exec_pop a)" "instr_safe (exec_pop_l a)" "instr_safe exec_tuck"
  "instr_safe exec_depth"
  unfolding exec_nop_def exec_swap_def exec_xchg0_def exec_xchg0_l_def exec_xchg_def exec_xchg1_def
    exec_dup_def exec_over_def exec_push_def exec_push_l_def exec_drop_def exec_nip_def exec_pop_def
    exec_pop_l_def exec_tuck_def exec_depth_def
  by (auto intro!: instr_safeI faultless_intros simp: rbind_rguard vm_ok_def stack_ok_push_depth)

lemma compound_ops_safe:
  "instr_safe (exec_xchg2 a)" "instr_safe (exec_xcpu a)" "instr_safe (exec_puxc a)" "instr_safe (exec_push2 a)"
  "instr_safe (exec_xchg3 a)" "instr_safe (exec_xc2pu a)" "instr_safe (exec_xcpuxc a)"
  "instr_safe (exec_xcpu2 a)" "instr_safe (exec_puxc2 a)" "instr_safe (exec_puxcpu a)"
  "instr_safe (exec_pu2xc a)" "instr_safe (exec_push3 a)"
  unfolding exec_xchg2_def exec_xcpu_def exec_puxc_def exec_push2_def exec_xchg3_def exec_xc2pu_def
    exec_xcpuxc_def exec_xcpu2_def exec_puxc2_def exec_puxcpu_def exec_pu2xc_def exec_push3_def
  by (auto intro!: instr_safeI faultless_intros)

lemma block_ops_safe:
  "instr_safe (exec_blkswap a)" "instr_safe exec_rot" "instr_safe exec_rotrev" "instr_safe exec_2swap"
  "instr_safe exec_2drop" "instr_safe exec_2dup" "instr_safe exec_2over" "instr_safe (exec_reverse a)"
  "instr_safe (exec_blkdrop a)" "instr_safe (exec_blkdrop2 a)" "instr_safe (exec_blkpush a)"
  unfolding exec_blkswap_def exec_rot_def exec_rotrev_def exec_2swap_def exec_2drop_def exec_2dup_def
    exec_2over_def exec_reverse_def exec_blkdrop_def exec_blkdrop2_def exec_blkpush_def
  by (auto intro!: instr_safeI faultless_intros)

lemma indexed_ops_safe:
  "instr_safe exec_pick" "instr_safe exec_roll" "instr_safe exec_rollrev" "instr_safe exec_blkswap_x"
  "instr_safe exec_reverse_x" "instr_safe exec_drop_x" "instr_safe exec_xchg_x" "instr_safe exec_chkdepth"
  unfolding exec_pick_def exec_roll_def exec_rollrev_def exec_blkswap_x_def exec_reverse_x_def
    exec_drop_x_def exec_xchg_x_def exec_chkdepth_def
  by (auto intro!: instr_safeI faultless_intros simp: vm_ok_def)

lemma only_ops_safe: "instr_safe exec_onlytop_x" "instr_safe exec_only_x"
proof -
  have le: "nat (depth s - int x) \<le> length s" for s :: "'r stack" and x
    using depth_le [of s] by simp
  have le2: "nat (depth s - int x) + x \<le> length s"
    if "int x \<le> int (length s)" for s :: "'r stack" and x
    using depth_le [of s] that by simp
  show "instr_safe exec_only_x"
    unfolding exec_only_x_def by (auto intro!: instr_safeI faultless_intros le)
  show "instr_safe exec_onlytop_x"
    unfolding exec_onlytop_x_def Let_def
    by (auto intro!: instr_safeI faultless_intros faultless_on_stack_then faultless_onlytop_loop
        simp: vm_ok_def le le2)
qed

section \<open>What the loops compute\<close>

lemma swap_at_eq:
  "i < length s \<Longrightarrow> j < length s \<Longrightarrow> swap_at i j s = Inr (s[i := s ! j, j := s ! i])"
  by (simp add: swap_at_def)

lemma roll_loop_eq: "x < length s \<Longrightarrow> roll_loop x s = Inr (s ! x # take x s @ drop (Suc x) s)"
proof (induction x arbitrary: s)
  case 0
  then show ?case by (cases s) auto
next
  case (Suc x)
  let ?s = "s[x := s ! Suc x, Suc x := s ! x]"
  have "take x ?s = take x s" "drop (Suc x) ?s = s ! x # drop (Suc (Suc x)) s"
    using Suc.prems by (auto intro!: nth_equalityI simp: nth_list_update nth_Cons' Cons_nth_drop_Suc [symmetric])
  moreover have "take (Suc x) s = take x s @ [s ! x]"
    using Suc.prems by (simp add: take_Suc_conv_app_nth)
  moreover have "swap_at x (x + 1) s = Inr ?s" using Suc.prems by (simp add: swap_at_eq)
  ultimately show ?case using Suc.IH [of ?s] Suc.prems by simp
qed

lemma rollrev_loop_eq:
  "i + n < length s \<Longrightarrow>
   rollrev_loop i n s = Inr (take i s @ take n (drop (Suc i) s) @ s ! i # drop (Suc (i + n)) s)"
proof (induction n arbitrary: i s)
  case 0
  then show ?case by (simp add: id_take_nth_drop [symmetric])
next
  case (Suc n)
  let ?s = "s[i := s ! Suc i, Suc i := s ! i]"
  have "take (Suc i) ?s = take i s @ [s ! Suc i]"
    using Suc.prems by (simp add: take_Suc_conv_app_nth)
  moreover have "drop (Suc (Suc i)) ?s = drop (Suc (Suc i)) s" "drop (Suc (Suc (i + n))) ?s = drop (Suc (Suc (i + n))) s"
    by simp_all
  moreover have "take (Suc n) (drop (Suc i) s) = s ! Suc i # take n (drop (Suc (Suc i)) s)"
    using Suc.prems by (simp add: Cons_nth_drop_Suc [symmetric])
  moreover have "swap_at i (i + 1) s = Inr ?s" using Suc.prems by (simp add: swap_at_eq)
  ultimately show ?case using Suc.IH [of "i + 1" ?s] Suc.prems by simp
qed

lemma onlytop_loop_eq:
  assumes "0 < d" "d + k \<le> length s"
  obtains s' where "onlytop_loop d k s = Inr s'" "length s' = length s"
    "\<And>j. d \<le> j \<Longrightarrow> j < d + k \<Longrightarrow> s' ! j = s ! (j - d)"
    "\<And>j. d + k \<le> j \<Longrightarrow> j < length s \<Longrightarrow> s' ! j = s ! j"
proof -
  have "\<exists>s'. onlytop_loop d k s = Inr s' \<and> length s' = length s \<and>
      (\<forall>j. d \<le> j \<and> j < d + k \<longrightarrow> s' ! j = s ! (j - d)) \<and> (\<forall>j. d + k \<le> j \<and> j < length s \<longrightarrow> s' ! j = s ! j)"
    using assms
  proof (induction k arbitrary: s)
    case (Suc k)
    let ?s = "(s[d + k := s ! k])[k := Null_e]"
    obtain s' where s': "onlytop_loop d k ?s = Inr s'" "length s' = length s"
      "\<And>j. d \<le> j \<Longrightarrow> j < d + k \<Longrightarrow> s' ! j = ?s ! (j - d)"
      "\<And>j. d + k \<le> j \<Longrightarrow> j < length s \<Longrightarrow> s' ! j = ?s ! j"
      using Suc.IH [of ?s] Suc.prems by auto
    have "s' ! j = s ! (j - d)" if "d \<le> j" "j < d + Suc k" for j
    proof (cases "j = d + k")
      case True
      then show ?thesis using s'(4) [of j] Suc.prems by (simp add: nth_list_update)
    next
      case False
      then show ?thesis using s'(3) [of j] that Suc.prems by (simp add: nth_list_update)
    qed
    moreover have "s' ! j = s ! j" if "d + Suc k \<le> j" "j < length s" for j
      using s'(4) [of j] that Suc.prems by (simp add: nth_list_update)
    ultimately show ?case using s'(1,2) Suc.prems by auto
  qed auto
  with that show thesis by blast
qed

lemma onlytop_take:
  assumes "0 < d" "d + x = length s"
  shows "rbind (onlytop_loop d x s) (pop_many d) = Inr (take x s)"
proof -
  obtain s' where s': "onlytop_loop d x s = Inr s'" "length s' = length s"
      "\<And>j. d \<le> j \<Longrightarrow> j < d + x \<Longrightarrow> s' ! j = s ! (j - d)"
    using assms by (auto elim: onlytop_loop_eq [of d x s])
  have "drop d s' = take x s"
    by (rule nth_equalityI) (use assms s' in auto)
  with s' assms show ?thesis by (simp add: pop_many_def)
qed

end
