(* ===== verification/VM_Stack_Props.thy ===== *)
theory VM_Stack_Props
  imports VM_Stack_Ops
begin

text \<open>
  What the stack instructions do: instructions that take an index from the stack are
  characterised on every branch, errors included; the compound instructions are shown equal
  to the sequences of basic instructions they abbreviate; instructions that rearrange the
  stack neither lose nor copy an entry, and the inverse pairs cancel.
\<close>

section \<open>Indices taken from the stack\<close>

text \<open>The specification of an index operand.\<close>

definition index_operand :: "int \<Rightarrow> 'r stack \<Rightarrow> vm_fault + nat \<times> 'r stack" where
  "index_operand mx s =
     (case s of
        [] \<Rightarrow> Inl (Vm_error Stk_und)
      | e # t \<Rightarrow>
          (case e of
             Int_e (Some v) \<Rightarrow> if 0 \<le> v \<and> v \<le> mx then Inr (nat v, t) else Inl (Vm_error Range_chk)
           | Int_e None \<Rightarrow> Inl (Vm_error Range_chk)
           | _ \<Rightarrow> Inl (Vm_error Type_chk)))"

lemma pop_chk_eq:
  "length s < 2 ^ 31 \<Longrightarrow>
   pop_chk s = (case s of [] \<Rightarrow> Inl (Vm_error Stk_und) | e # t \<Rightarrow> Inr (e, t))"
  by (cases s) (auto simp: pop_chk_def check_underflow_def at_least_def depth_eq pop_def)

lemma pop_smallint_range_eq:
  assumes "length s < 2 ^ 31" "mx < 2 ^ 63"
  shows "pop_smallint_range mx s = index_operand mx s"
proof (cases s)
  case (Cons e t)
  show ?thesis
  proof (cases e)
    case (Int_e i)
    with Cons assms show ?thesis
      by (cases i) (auto simp: pop_smallint_range_def pop_long_range_def pop_long_def pop_int_def
          pop_chk_eq index_operand_def to_long_def)
  qed (use Cons assms in \<open>auto simp: pop_smallint_range_def pop_long_range_def pop_long_def pop_int_def
          pop_chk_eq index_operand_def as_int_def\<close>)
qed (use assms in \<open>auto simp: pop_smallint_range_def pop_long_range_def pop_long_def pop_int_def
       pop_chk_eq index_operand_def\<close>)

lemma index_operand_InrD: "index_operand mx s = Inr (x, t) \<Longrightarrow> length s = Suc (length t)"
  by (auto simp: index_operand_def split: list.splits stack_entry.splits option.splits if_splits)

lemma check_underflow_eq:
  "length s < 2 ^ 31 \<Longrightarrow>
   check_underflow reqs s = rguard (list_all (\<lambda>r. r \<le> int (length s)) reqs) (Vm_error Stk_und)"
  by (simp add: check_underflow_def at_least_def depth_eq)

lemma check_underflow_p_eq:
  "length s < 2 ^ 31 \<Longrightarrow>
   check_underflow_p reqs s = rguard (list_all (\<lambda>r. r < int (length s)) reqs) (Vm_error Stk_und)"
  by (simp add: check_underflow_p_def more_than_def depth_eq)

lemma max_index_small: "max_index st < 2 ^ 63"
  by (simp add: max_index_def)

lemma index_operand_Nil: "s = [] \<Longrightarrow> index_operand mx s = Inl (Vm_error Stk_und)"
  by (simp add: index_operand_def)

text \<open>The underflow check in front of every index operand is redundant.\<close>

lemma checked_index_operand:
  assumes "length s < 2 ^ 31"
  shows "rbind (check_underflow [1] s) (\<lambda>_. rbind (pop_smallint_range (max_index st) s) f) =
         rbind (index_operand (max_index st) s) f"
  unfolding pop_smallint_range_eq [OF assms max_index_small] check_underflow_eq [OF assms]
  by (cases s) (auto simp: index_operand_Nil)

lemma operand_cong:
  "(\<And>x t. m = Inr (x, t) \<Longrightarrow> f (x, t) = g (x, t)) \<Longrightarrow> rbind m f = rbind m g"
  by (cases m) auto

lemma consume_gas_cong:
  "(\<And>g. f (st\<lparr>gas := g\<rparr>) = h (st\<lparr>gas := g\<rparr>)) \<Longrightarrow> rbind (consume_gas a st) f = rbind (consume_gas a st) h"
  by (auto simp: consume_gas_def gas_consume_chk_def Let_def)

lemma exec_roll_eq:
  assumes "length (stack st) < 2 ^ 31"
  shows "exec_roll st =
    rbind (index_operand (max_index st) (stack st)) (\<lambda>(x, t).
      if x \<ge> length t then Inl (Vm_error Stk_und)
      else rbind (consume_gas (max (int x - 255) 0) (st\<lparr>stack := t\<rparr>))
             (\<lambda>st'. Inr (st'\<lparr>stack := t ! x # take x t @ drop (Suc x) t\<rparr>)))"
  unfolding exec_roll_def checked_index_operand [OF assms]
proof (rule operand_cong, goal_cases)
  case (1 x t)
  then have "length t < 2 ^ 31" using assms by (auto dest: index_operand_InrD)
  then show ?case
    by (auto simp: check_underflow_p_eq rbind_rguard on_stack_def roll_loop_eq intro!: consume_gas_cong)
qed

lemma exec_rollrev_eq:
  assumes "length (stack st) < 2 ^ 31"
  shows "exec_rollrev st =
    rbind (index_operand (max_index st) (stack st)) (\<lambda>(x, t).
      if x \<ge> length t then Inl (Vm_error Stk_und)
      else rbind (consume_gas (max (int x - 255) 0) (st\<lparr>stack := t\<rparr>))
             (\<lambda>st'. Inr (st'\<lparr>stack := take x (tl t) @ hd t # drop (Suc x) t\<rparr>)))"
  unfolding exec_rollrev_def checked_index_operand [OF assms]
proof (rule operand_cong, goal_cases)
  case (1 x t)
  then have "length t < 2 ^ 31" using assms by (auto dest: index_operand_InrD)
  moreover have "x < length t \<Longrightarrow> t ! 0 = hd t" by (cases t) auto
  ultimately show ?case
    by (auto simp: check_underflow_p_eq rbind_rguard on_stack_def rollrev_loop_eq drop_Suc drop_tl
        intro!: consume_gas_cong)
qed

lemma exec_onlytop_x_eq:
  assumes "length (stack st) < 2 ^ 31"
  shows "exec_onlytop_x st =
    rbind (index_operand (max_index st) (stack st)) (\<lambda>(x, t).
      if x > length t then Inl (Vm_error Stk_und)
      else if x = length t then Inr (st\<lparr>stack := t\<rparr>)
      else rbind (consume_gas (max (int x - 255) 0) (st\<lparr>stack := t\<rparr>))
             (\<lambda>st'. Inr (st'\<lparr>stack := take x t\<rparr>)))"
  unfolding exec_onlytop_x_def checked_index_operand [OF assms]
proof (rule operand_cong, goal_cases)
  case (1 x t)
  then have len: "length t < 2 ^ 31" using assms by (auto dest: index_operand_InrD)
  have loop: "rbind (on_stack (onlytop_loop (nat (int (length t) - int x)) x) st')
        (on_stack (pop_many (nat (int (length t) - int x)))) = Inr (st'\<lparr>stack := take x t\<rparr>)"
    if "x < length t" "stack st' = t" for st' :: "'a vm_state"
  proof -
    have "rbind (onlytop_loop (nat (int (length t) - int x)) x t) (pop_many (nat (int (length t) - int x)))
        = Inr (take x t)"
      using that by (intro onlytop_take) auto
    with that show ?thesis by (auto simp: on_stack_def rbind_assoc rbind_eq_Inr_iff)
  qed
  show ?case
    using len by (auto simp: check_underflow_eq rbind_rguard depth_eq Let_def rbind_assoc pop_many_def loop
        on_stack_def [of "pop_many 0"] intro!: consume_gas_cong)
qed

lemma exec_only_x_eq:
  assumes "length (stack st) < 2 ^ 31"
  shows "exec_only_x st =
    rbind (index_operand (max_index st) (stack st)) (\<lambda>(x, t).
      if x > length t then Inl (Vm_error Stk_und) else Inr (st\<lparr>stack := drop (length t - x) t\<rparr>))"
  unfolding exec_only_x_def on_stack_def checked_index_operand [OF assms] rbind_assoc
proof (rule operand_cong, goal_cases)
  case (1 x t)
  then have "length t < 2 ^ 31" using assms by (auto dest: index_operand_InrD)
  then show ?case
    by (auto simp: check_underflow_eq rbind_rguard depth_eq pop_many_def nat_diff_distrib)
qed

section \<open>Compound instructions as sequences\<close>

text \<open>
  The two basic instructions every compound one is made of, each with its own underflow check:
  exchange two entries, and push a copy of an entry.
\<close>

definition ref_xchg :: "nat \<Rightarrow> nat \<Rightarrow> 'r vm_state \<Rightarrow> 'r vm_result" where
  "ref_xchg i j st =
     (if i < length (stack st) \<and> j < length (stack st)
      then Inr (st\<lparr>stack := (stack st)[i := stack st ! j, j := stack st ! i]\<rparr>)
      else Inl (Vm_error Stk_und))"

definition ref_push :: "nat \<Rightarrow> 'r vm_state \<Rightarrow> 'r vm_result" where
  "ref_push i st =
     (if i < length (stack st) then Inr (st\<lparr>stack := stack st ! i # stack st\<rparr>)
      else Inl (Vm_error Stk_und))"

definition run_seq :: "('r vm_state \<Rightarrow> 'r vm_result) list \<Rightarrow> 'r vm_state \<Rightarrow> 'r vm_result" where
  "run_seq fs st = foldl rbind (Inr st) fs"

lemmas seq_defs = run_seq_def ref_xchg_def ref_push_def on_stack_def push_fetch_def fetch_def push_def
  swap_at_def check_underflow_eq check_underflow_p_eq rbind_rguard

lemma compound2_eq:
  assumes "length (stack st) < 2 ^ 31"
  shows "exec_xchg2 a st = run_seq [ref_xchg 1 (arg_mid a), ref_xchg 0 (arg_lo a)] st"
    and "exec_xcpu a st = run_seq [ref_xchg 0 (arg_mid a), ref_push (arg_lo a)] st"
    and "exec_puxc a st = run_seq [ref_push (arg_mid a), ref_xchg 0 1, ref_xchg 0 (arg_lo a)] st"
    and "exec_push2 a st = run_seq [ref_push (arg_mid a), ref_push (arg_lo a + 1)] st"
  using assms
  by (auto simp: exec_xchg2_def exec_xcpu_def exec_puxc_def exec_push2_def seq_defs simp del: list_update.simps)

lemma compound3_eq:
  assumes "length (stack st) < 2 ^ 31"
  shows "exec_xchg3 a st = run_seq [ref_xchg 2 (arg_hi a), ref_xchg 1 (arg_mid a), ref_xchg 0 (arg_lo a)] st"
    and "exec_xc2pu a st = run_seq [ref_xchg 1 (arg_hi a), ref_xchg 0 (arg_mid a), ref_push (arg_lo a)] st"
    and "exec_xcpuxc a st =
           run_seq [ref_xchg 1 (arg_hi a), ref_push (arg_mid a), ref_xchg 0 1, ref_xchg 0 (arg_lo a)] st"
    and "exec_xcpu2 a st = run_seq [ref_xchg 0 (arg_hi a), ref_push (arg_mid a), ref_push (arg_lo a + 1)] st"
    and "exec_puxc2 a st =
           run_seq [ref_push (arg_hi a), ref_xchg 2 0, ref_xchg 1 (arg_mid a), ref_xchg 0 (arg_lo a)] st"
    and "exec_puxcpu a st =
           run_seq [ref_push (arg_hi a), ref_xchg 0 1, ref_xchg 0 (arg_mid a), ref_push (arg_lo a)] st"
    and "exec_pu2xc a st =
           run_seq [ref_push (arg_hi a), ref_xchg 1 0, ref_push (arg_mid a), ref_xchg 1 0, ref_xchg 0 (arg_lo a)] st"
    and "exec_push3 a st =
           run_seq [ref_push (arg_hi a), ref_push (arg_mid a + 1), ref_push (arg_lo a + 2)] st"
  using assms
  by (auto simp: exec_xchg3_def exec_xc2pu_def exec_xcpuxc_def exec_xcpu2_def exec_puxc2_def
      exec_puxcpu_def exec_pu2xc_def exec_push3_def seq_defs simp del: list_update.simps)

section \<open>Rearrangements\<close>


lemma swap_at_length: "swap_at i j s = Inr s' \<Longrightarrow> length s' = length s"
  by (auto simp: swap_at_def split: if_splits)

lemma swap_at_twice: "swap_at i j s = Inr s' \<Longrightarrow> swap_at i j s' = Inr s"
  by (auto simp: swap_at_def split: if_splits) (auto intro!: nth_equalityI simp: nth_list_update)

lemma swap_at_commute: "swap_at i j s = swap_at j i s"
  by (cases "i = j") (auto simp: swap_at_def list_update_swap)

lemma block_split: "take y s @ take x (drop y s) @ drop (x + y) s = s"
  by (metis add.commute append_take_drop_id drop_drop)

lemma mset_block_split: "mset (take y s) + mset (take x (drop y s)) + mset (drop (x + y) s) = mset s"
  by (metis block_split mset_append union_assoc)

lemma rotate_top_mset: "rotate_top x y s = Inr s' \<Longrightarrow> mset s' = mset s"
  using mset_block_split [of y s x] by (auto simp: rotate_top_def ac_simps split: if_splits)

lemma rotate_top_inverse: "rotate_top x y s = Inr s' \<Longrightarrow> rotate_top y x s' = Inr s"
proof -
  assume *: "rotate_top x y s = Inr s'"
  then have len: "x + y \<le> length s" and s': "s' = take x (drop y s) @ take y s @ drop (x + y) s"
    by (auto simp: rotate_top_def split: if_splits)
  then have "take y (drop x s') = take y s" "take x s' = take x (drop y s)"
    "drop (y + x) s' = drop (x + y) s" by auto
  then show "rotate_top y x s' = Inr s" using len s' block_split [of y s x] by (simp add: rotate_top_def)
qed

lemma reverse_top_mset: "reverse_top x y s = Inr s' \<Longrightarrow> mset s' = mset s"
  using mset_block_split [of y s x] by (auto simp: reverse_top_def ac_simps split: if_splits)

lemma reverse_top_twice: "reverse_top x y s = Inr s' \<Longrightarrow> reverse_top x y s' = Inr s"
proof -
  assume *: "reverse_top x y s = Inr s'"
  then have len: "x + y \<le> length s" and s': "s' = take y s @ rev (take x (drop y s)) @ drop (x + y) s"
    by (auto simp: reverse_top_def split: if_splits)
  then have "take y s' = take y s" "take x (drop y s') = rev (take x (drop y s))"
    "drop (x + y) s' = drop (x + y) s" by auto
  then show "reverse_top x y s' = Inr s" using len s' block_split [of y s x] by (simp add: reverse_top_def)
qed

lemma check_underflow_cong: "length s = length t \<Longrightarrow> check_underflow r s = check_underflow r t"
  by (simp add: check_underflow_def at_least_def depth_def)

lemma check_underflow_p_cong: "length s = length t \<Longrightarrow> check_underflow_p r s = check_underflow_p r t"
  by (simp add: check_underflow_p_def more_than_def depth_def)

lemma mset_length: "mset s = mset t \<Longrightarrow> length s = length t"
  by (metis size_mset)

lemmas rearrange_defs = exec_swap_def exec_xchg0_def exec_xchg0_l_def exec_xchg_def exec_xchg1_def
  exec_xchg2_def exec_xchg3_def exec_rot_def exec_rotrev_def exec_2swap_def exec_blkswap_def
  exec_reverse_def

lemma on_stack_InrE:
  assumes "on_stack f st = Inr st'"
  obtains s where "f (stack st) = Inr s" "st' = st\<lparr>stack := s\<rparr>"
  using assms by (auto simp: on_stack_def rbind_eq_Inr_iff)

text \<open>A checked rearrangement and the checked inverse rearrangement.\<close>

lemma checked_inverse:
  assumes "on_stack (\<lambda>s. rbind (check_underflow r s) (\<lambda>_. F s)) st = Inr st'"
    and inv: "\<And>s s'. F s = Inr s' \<Longrightarrow> G s' = Inr s \<and> length s' = length s"
  shows "on_stack (\<lambda>s. rbind (check_underflow r s) (\<lambda>_. G s)) st' = Inr st"
proof -
  obtain s' where s': "check_underflow r (stack st) = Inr ()" "F (stack st) = Inr s'" "st' = st\<lparr>stack := s'\<rparr>"
    using assms(1) by (auto simp: rsimps elim: on_stack_InrE)
  then have "check_underflow r s' = Inr ()"
    using inv by (simp add: check_underflow_def at_least_def depth_def)
  with s' inv show ?thesis by (simp add: on_stack_def)
qed

lemma checked_inverse_p:
  assumes "on_stack (\<lambda>s. rbind (check_underflow_p r s) (\<lambda>_. F s)) st = Inr st'"
    and inv: "\<And>s s'. F s = Inr s' \<Longrightarrow> G s' = Inr s \<and> length s' = length s"
  shows "on_stack (\<lambda>s. rbind (check_underflow_p r s) (\<lambda>_. G s)) st' = Inr st"
proof -
  obtain s' where s': "check_underflow_p r (stack st) = Inr ()" "F (stack st) = Inr s'" "st' = st\<lparr>stack := s'\<rparr>"
    using assms(1) by (auto simp: rsimps elim: on_stack_InrE)
  then have "check_underflow_p r s' = Inr ()"
    using inv by (simp add: check_underflow_p_def more_than_def depth_def)
  with s' inv show ?thesis by (simp add: on_stack_def)
qed

lemma swap_at_inverse: "swap_at i j s = Inr s' \<Longrightarrow> swap_at i j s' = Inr s \<and> length s' = length s"
  using swap_at_twice swap_at_length by blast

lemma swap_pair_inverse:
  "rbind (swap_at i j s) (swap_at k l) = Inr s' \<Longrightarrow>
   rbind (swap_at k l s') (swap_at i j) = Inr s \<and> length s' = length s"
  unfolding rbind_eq_Inr_iff using swap_at_inverse by metis

lemma swap_pair_commute:
  assumes "distinct [i, j, k, l]"
  shows "rbind (swap_at i j s) (swap_at k l) = rbind (swap_at k l s) (swap_at i j)"
proof -
  have "s[i := s ! j, j := s ! i, k := s ! l, l := s ! k] = s[k := s ! l, l := s ! k, i := s ! j, j := s ! i]"
    if "i < length s" "j < length s" "k < length s" "l < length s"
    by (rule nth_equalityI) (use assms that in \<open>auto simp: nth_list_update\<close>)
  with assms show ?thesis by (simp add: swap_at_def)
qed

lemma blkswap_inverse:
  assumes "x < 16" "y < 16" "exec_blkswap (16 * x + y) st = Inr st'"
  shows "exec_blkswap (16 * y + x) st' = Inr st"
proof -
  have arg: "arg_mid (16 * u + v) = u" "arg_lo (16 * u + v) = v" if "u < 16" "v < 16" for u v
    using that by (auto simp: arg_mid_def arg_lo_def)
  have eq: "exec_blkswap (16 * u + v) st =
      on_stack (\<lambda>s. rbind (check_underflow [int (u + v + 2)] s) (\<lambda>_. rotate_top (u + 1) (v + 1) s)) st"
    if "u < 16" "v < 16" for u v and st :: "'a vm_state"
    by (simp add: exec_blkswap_def arg [OF that])
  have "exec_blkswap (16 * y + x) st' =
      on_stack (\<lambda>s. rbind (check_underflow [int (x + y + 2)] s) (\<lambda>_. rotate_top (y + 1) (x + 1) s)) st'"
    using eq [OF assms(2,1)] by (simp only: add.commute [of y x])
  moreover have "on_stack (\<lambda>s. rbind (check_underflow [int (x + y + 2)] s) (\<lambda>_. rotate_top (y + 1) (x + 1) s)) st' = Inr st"
    using assms(3) [unfolded eq [OF assms(1,2)]]
    by (rule checked_inverse) (blast intro: rotate_top_inverse mset_length rotate_top_mset)
  ultimately show ?thesis by (simp only:)
qed

lemma rot_inverses:
  "exec_rot st = Inr st' \<Longrightarrow> exec_rotrev st' = Inr st"
  "exec_rotrev st = Inr st' \<Longrightarrow> exec_rot st' = Inr st"
  unfolding rearrange_defs by (erule checked_inverse, erule swap_pair_inverse)+

lemma reverse_involution: "exec_reverse a st = Inr st' \<Longrightarrow> exec_reverse a st' = Inr st"
  unfolding rearrange_defs
  by (erule checked_inverse) (blast intro: reverse_top_twice mset_length reverse_top_mset)

lemma swap_2swap_involution:
  "exec_2swap st = Inr st' \<Longrightarrow> exec_2swap st' = Inr st"
  unfolding rearrange_defs
  by (erule checked_inverse) (subst swap_pair_commute, simp, erule swap_pair_inverse)

lemma xchg_involutions:
  "exec_swap st = Inr st' \<Longrightarrow> exec_swap st' = Inr st"
  "exec_xchg0 a st = Inr st' \<Longrightarrow> exec_xchg0 a st' = Inr st"
  "exec_xchg0_l a st = Inr st' \<Longrightarrow> exec_xchg0_l a st' = Inr st"
  unfolding rearrange_defs
  by ((erule checked_inverse checked_inverse_p, erule swap_at_inverse))+

lemma xchg_checked_involutions:
  "exec_xchg a st = Inr st' \<Longrightarrow> exec_xchg a st' = Inr st"
  "exec_xchg1 a st = Inr st' \<Longrightarrow> exec_xchg1 a st' = Inr st"
proof -
  assume *: "exec_xchg a st = Inr st'"
  then have ok: "\<not> (arg_mid a = 0 \<or> arg_mid a \<ge> arg_lo a)"
    by (auto simp: exec_xchg_def on_stack_def rsimps)
  show "exec_xchg a st' = Inr st"
    using * unfolding exec_xchg_def simp_thms rguard_True rbind_Inr eqTrueI [OF ok]
    by (rule checked_inverse_p) (erule swap_at_inverse)
next
  assume *: "exec_xchg1 a st = Inr st'"
  then have ok: "arg_lo a \<ge> 2"
    by (auto simp: exec_xchg1_def on_stack_def rsimps)
  show "exec_xchg1 a st' = Inr st"
    using * unfolding exec_xchg1_def rguard_True rbind_Inr eqTrueI [OF ok]
    by (rule checked_inverse_p) (erule swap_at_inverse)
qed

lemmas involutions = reverse_involution swap_2swap_involution xchg_involutions xchg_checked_involutions

section \<open>Properties\<close>

text \<open>
  C26. ROLL, ROLLREV, ONLYTOPX and ONLYX compute, on every branch, what the swap and move loops
  of their implementations are for: after the index operand has been read (stack underflow, a
  type error or a range error otherwise), ROLL moves the entry with that index to the top,
  ROLLREV moves the top entry down to that index, ONLYTOPX keeps exactly the topmost entries
  and ONLYX exactly the bottommost ones; an index beyond the stack is a stack underflow, and
  large indices are paid for before any entry moves.
\<close>

theorem indexed_block_operations:
  assumes "length (stack st) < 2 ^ 31"
  shows "exec_roll st =
      rbind (index_operand (max_index st) (stack st)) (\<lambda>(x, t).
        if x \<ge> length t then Inl (Vm_error Stk_und)
        else rbind (consume_gas (max (int x - 255) 0) (st\<lparr>stack := t\<rparr>))
               (\<lambda>st'. Inr (st'\<lparr>stack := t ! x # take x t @ drop (Suc x) t\<rparr>))) \<and>
    exec_rollrev st =
      rbind (index_operand (max_index st) (stack st)) (\<lambda>(x, t).
        if x \<ge> length t then Inl (Vm_error Stk_und)
        else rbind (consume_gas (max (int x - 255) 0) (st\<lparr>stack := t\<rparr>))
               (\<lambda>st'. Inr (st'\<lparr>stack := take x (tl t) @ hd t # drop (Suc x) t\<rparr>))) \<and>
    exec_onlytop_x st =
      rbind (index_operand (max_index st) (stack st)) (\<lambda>(x, t).
        if x > length t then Inl (Vm_error Stk_und)
        else if x = length t then Inr (st\<lparr>stack := t\<rparr>)
        else rbind (consume_gas (max (int x - 255) 0) (st\<lparr>stack := t\<rparr>))
               (\<lambda>st'. Inr (st'\<lparr>stack := take x t\<rparr>))) \<and>
    exec_only_x st =
      rbind (index_operand (max_index st) (stack st)) (\<lambda>(x, t).
        if x > length t then Inl (Vm_error Stk_und)
        else Inr (st\<lparr>stack := drop (length t - x) t\<rparr>))"
  using exec_roll_eq [OF assms] exec_rollrev_eq [OF assms] exec_onlytop_x_eq [OF assms]
    exec_only_x_eq [OF assms] by blast

definition demo_gas :: gas_limits where
  "demo_gas = gas_limits_init 1000 1000000 0"

definition demo_vm :: "int option list \<Rightarrow> unit vm_state" where
  "demo_vm vs = \<lparr>stack = map Int_e vs, gas = demo_gas, global_version = 9\<rparr>"

theorem indexed_block_operations_witness:
  "exec_roll (demo_vm [Some 2, Some 10, Some 11, Some 12, Some 13]) = Inr (demo_vm [Some 12, Some 10, Some 11, Some 13]) \<and>
   exec_onlytop_x (demo_vm [Some 2, Some 10, Some 11, Some 12, Some 13]) = Inr (demo_vm [Some 10, Some 11])"
  using indexed_block_operations [of "demo_vm [Some 2, Some 10, Some 11, Some 12, Some 13]"]
  by (simp_all add: demo_vm_def demo_gas_def index_operand_def max_index_def consume_gas_def
      gas_consume_chk_def gas_consume_def gas_limits_init_def)

text \<open>
  C27. Every compound stack instruction equals the sequence of exchanges and pushes that it
  abbreviates, errors included: the underflow checks that the implementation makes up front
  fail exactly when one of the single checks of the sequence would.
\<close>

theorem compound_instructions_are_sequences:
  assumes "length (stack st) < 2 ^ 31"
  shows "exec_xchg2 a st = run_seq [ref_xchg 1 (arg_mid a), ref_xchg 0 (arg_lo a)] st \<and>
    exec_xcpu a st = run_seq [ref_xchg 0 (arg_mid a), ref_push (arg_lo a)] st \<and>
    exec_puxc a st = run_seq [ref_push (arg_mid a), ref_xchg 0 1, ref_xchg 0 (arg_lo a)] st \<and>
    exec_push2 a st = run_seq [ref_push (arg_mid a), ref_push (arg_lo a + 1)] st \<and>
    exec_xchg3 a st = run_seq [ref_xchg 2 (arg_hi a), ref_xchg 1 (arg_mid a), ref_xchg 0 (arg_lo a)] st \<and>
    exec_xc2pu a st = run_seq [ref_xchg 1 (arg_hi a), ref_xchg 0 (arg_mid a), ref_push (arg_lo a)] st \<and>
    exec_xcpuxc a st =
           run_seq [ref_xchg 1 (arg_hi a), ref_push (arg_mid a), ref_xchg 0 1, ref_xchg 0 (arg_lo a)] st \<and>
    exec_xcpu2 a st = run_seq [ref_xchg 0 (arg_hi a), ref_push (arg_mid a), ref_push (arg_lo a + 1)] st \<and>
    exec_puxc2 a st =
           run_seq [ref_push (arg_hi a), ref_xchg 2 0, ref_xchg 1 (arg_mid a), ref_xchg 0 (arg_lo a)] st \<and>
    exec_puxcpu a st =
           run_seq [ref_push (arg_hi a), ref_xchg 0 1, ref_xchg 0 (arg_mid a), ref_push (arg_lo a)] st \<and>
    exec_pu2xc a st =
           run_seq [ref_push (arg_hi a), ref_xchg 1 0, ref_push (arg_mid a), ref_xchg 1 0, ref_xchg 0 (arg_lo a)] st \<and>
    exec_push3 a st =
           run_seq [ref_push (arg_hi a), ref_push (arg_mid a + 1), ref_push (arg_lo a + 2)] st"
  using compound2_eq [OF assms] compound3_eq [OF assms] by blast

theorem compound_instructions_are_sequences_witness:
  "exec_pu2xc 0x123 (demo_vm [Some 10, Some 11, Some 12]) =
   run_seq [ref_push 1, ref_xchg 1 0, ref_push 2, ref_xchg 1 0, ref_xchg 0 3] (demo_vm [Some 10, Some 11, Some 12])"
  using compound_instructions_are_sequences [of "demo_vm [Some 10, Some 11, Some 12]" "0x123"]
  by (simp add: demo_vm_def arg_hi_def arg_mid_def arg_lo_def)



text \<open>
  C29. The inverse pairs of stack instructions cancel: ROT and ROTREV, BLKSWAP of two blocks and
  BLKSWAP of the blocks the other way round, and REVERSE, SWAP, 2SWAP and the exchanges of two
  entries with themselves, each give back the state before.
\<close>

theorem inverse_rearrangements_cancel:
  "(exec_rot st = Inr st' \<longrightarrow> exec_rotrev st' = Inr st) \<and>
   (exec_rotrev st = Inr st' \<longrightarrow> exec_rot st' = Inr st) \<and>
   (x < 16 \<and> y < 16 \<and> exec_blkswap (16 * x + y) st = Inr st' \<longrightarrow> exec_blkswap (16 * y + x) st' = Inr st) \<and>
   (exec_reverse a st = Inr st' \<longrightarrow> exec_reverse a st' = Inr st) \<and>
   (exec_swap st = Inr st' \<longrightarrow> exec_swap st' = Inr st) \<and>
   (exec_2swap st = Inr st' \<longrightarrow> exec_2swap st' = Inr st) \<and>
   (exec_xchg0 a st = Inr st' \<longrightarrow> exec_xchg0 a st' = Inr st) \<and>
   (exec_xchg0_l a st = Inr st' \<longrightarrow> exec_xchg0_l a st' = Inr st) \<and>
   (exec_xchg a st = Inr st' \<longrightarrow> exec_xchg a st' = Inr st) \<and>
   (exec_xchg1 a st = Inr st' \<longrightarrow> exec_xchg1 a st' = Inr st)"
  by (intro conjI impI; (elim conjE)?, erule involutions rot_inverses blkswap_inverse [rotated 2])

theorem inverse_rearrangements_cancel_witness:
  "exec_blkswap 0x01 (demo_vm [Some 1, Some 2, Some 3, Some 4]) = Inr (demo_vm [Some 3, Some 1, Some 2, Some 4]) \<and>
   exec_blkswap 0x10 (demo_vm [Some 3, Some 1, Some 2, Some 4]) = Inr (demo_vm [Some 1, Some 2, Some 3, Some 4])"
proof -
  have run: "exec_blkswap (16 * 0 + 1) (demo_vm [Some 1, Some 2, Some 3, Some 4]) = Inr (demo_vm [Some 3, Some 1, Some 2, Some 4])"
    by code_simp
  have "exec_blkswap (16 * 1 + 0) (demo_vm [Some 3, Some 1, Some 2, Some 4]) = Inr (demo_vm [Some 1, Some 2, Some 3, Some 4])"
    by (rule inverse_rearrangements_cancel [THEN conjunct2, THEN conjunct2, THEN conjunct1, rule_format])
      (intro conjI run; simp)
  with run show ?thesis by simp
qed

end
