(* ===== verification/VM_Tuple_Ops.thy ===== *)
theory VM_Tuple_Ops
  imports VM_Stack_Props
begin

text \<open>
  The tuple instructions, \<^verbatim>\<open>crypto/vm/tupleops.cpp\<close>: one definition per \<open>exec_\<close> function, the
  loops of them as recursive functions, and the proof that on a well-formed stack none of them
  leaves the stack or a tuple, and that the stack stays well-formed.
\<close>

section \<open>The instructions\<close>

definition exec_push_null :: "'r vm_state \<Rightarrow> 'r vm_result" where
  "exec_push_null = on_stack (\<lambda>s. Inr (push Null_e s))"

definition exec_is_null :: "'r vm_state \<Rightarrow> 'r vm_result" where
  "exec_is_null = on_stack (\<lambda>s.
     rbind (pop_chk s) (\<lambda>(e, t). Inr (push_bool (is_null e) t)))"

text \<open>\<open>for (int i = 0; i < depth; i++) swap(stack[i], stack[i + count])\<close>, with \<open>n\<close> rounds left.\<close>

fun null_rotate_loop :: "nat \<Rightarrow> nat \<Rightarrow> nat \<Rightarrow> 'r stack \<Rightarrow> vm_fault + 'r stack" where
  "null_rotate_loop cnt i 0 s = Inr s"
| "null_rotate_loop cnt i (Suc n) s = rbind (swap_at i (i + cnt) s) (null_rotate_loop cnt (i + 1) n)"

definition exec_null_swap_if :: "bool \<Rightarrow> nat \<Rightarrow> 'r vm_state \<Rightarrow> 'r vm_result" where
  "exec_null_swap_if cond dpth = on_stack (\<lambda>s.
     rbind (check_underflow [int (dpth + 1)] s) (\<lambda>_.
     rbind (pop_int_finite s) (\<lambda>(x, t).
     rbind (if (sgn x = 0) \<noteq> cond then null_rotate_loop 1 0 dpth (push Null_e t) else Inr t) (\<lambda>u.
     push_int (Some x) u))))"

definition exec_null_swap_if_many :: "bool \<Rightarrow> nat \<Rightarrow> nat \<Rightarrow> 'r vm_state \<Rightarrow> 'r vm_result" where
  "exec_null_swap_if_many cond dpth cnt = on_stack (\<lambda>s.
     rbind (check_underflow [int (dpth + 1)] s) (\<lambda>_.
     rbind (pop_int_finite s) (\<lambda>(x, t).
     rbind (if (sgn x = 0) \<noteq> cond then null_rotate_loop cnt 0 dpth (((push Null_e) ^^ cnt) t) else Inr t) (\<lambda>u.
     push_int (Some x) u))))"

text \<open>\<open>for (int i = n - 1; i >= 0; i--) tuple.push_back(std::move(stack[i]))\<close>.\<close>

fun mktuple_loop :: "nat \<Rightarrow> 'r stack_entry list \<Rightarrow> 'r stack \<Rightarrow> vm_fault + 'r stack_entry list \<times> 'r stack" where
  "mktuple_loop 0 tup s = Inr (tup, s)"
| "mktuple_loop (Suc i) tup s =
     rbind (fetch i s) (\<lambda>e. mktuple_loop i (tup @ [e]) (s[i := Null_e]))"

definition exec_mktuple_common :: "nat \<Rightarrow> 'r vm_state \<Rightarrow> 'r vm_result" where
  "exec_mktuple_common n st =
     rbind (check_underflow [int n] (stack st)) (\<lambda>_.
     rbind (mktuple_loop n [] (stack st)) (\<lambda>(tup, s).
     rbind (pop_many n s) (\<lambda>t.
     rbind (consume_tuple_gas n (st\<lparr>stack := t\<rparr>)) (on_stack (\<lambda>u. Inr (push_tuple tup u))))))"

definition exec_mktuple :: "nat \<Rightarrow> 'r vm_state \<Rightarrow> 'r vm_result" where
  "exec_mktuple args = exec_mktuple_common (arg_lo args)"

definition exec_mktuple_var :: "'r vm_state \<Rightarrow> 'r vm_result" where
  "exec_mktuple_var st =
     rbind (pop_smallint_range 255 (stack st)) (\<lambda>(n, t). exec_mktuple_common n (st\<lparr>stack := t\<rparr>))"

definition exec_tuple_index_common :: "nat \<Rightarrow> 'r stack \<Rightarrow> vm_fault + 'r stack" where
  "exec_tuple_index_common n s =
     rbind (pop_tuple_range 255 0 s) (\<lambda>(tup, t).
     rbind (tuple_index tup n) (\<lambda>e. Inr (push e t)))"

definition exec_tuple_index :: "nat \<Rightarrow> 'r vm_state \<Rightarrow> 'r vm_result" where
  "exec_tuple_index args = on_stack (exec_tuple_index_common (arg_lo args))"

definition exec_tuple_index_var :: "'r vm_state \<Rightarrow> 'r vm_result" where
  "exec_tuple_index_var = on_stack (\<lambda>s.
     rbind (check_underflow [2] s) (\<lambda>_.
     rbind (pop_smallint_range 254 s) (\<lambda>(n, t). exec_tuple_index_common n t)))"

definition exec_tuple_quiet_index_common :: "nat \<Rightarrow> 'r stack \<Rightarrow> vm_fault + 'r stack" where
  "exec_tuple_quiet_index_common n s =
     rbind (pop_maybe_tuple_range 255 s) (\<lambda>(tup, t). Inr (push (tuple_extend_index tup n) t))"

definition exec_tuple_quiet_index :: "nat \<Rightarrow> 'r vm_state \<Rightarrow> 'r vm_result" where
  "exec_tuple_quiet_index args = on_stack (exec_tuple_quiet_index_common (arg_lo args))"

definition exec_tuple_quiet_index_var :: "'r vm_state \<Rightarrow> 'r vm_result" where
  "exec_tuple_quiet_index_var = on_stack (\<lambda>s.
     rbind (check_underflow [2] s) (\<lambda>_.
     rbind (pop_smallint_range 254 s) (\<lambda>(n, t). exec_tuple_quiet_index_common n t)))"

text \<open>The pushing loop of \<open>do_explode_tuple\<close>, with \<open>n\<close> rounds left.\<close>

fun explode_loop :: "'r stack_entry list \<Rightarrow> nat \<Rightarrow> nat \<Rightarrow> 'r stack \<Rightarrow> vm_fault + 'r stack" where
  "explode_loop tup i 0 s = Inr s"
| "explode_loop tup i (Suc n) s =
     (if i < length tup then explode_loop tup (i + 1) n (push (tup ! i) s) else Inl Out_of_bounds)"

definition do_explode_tuple :: "'r stack_entry list \<Rightarrow> nat \<Rightarrow> 'r vm_state \<Rightarrow> 'r vm_result" where
  "do_explode_tuple tup n st =
     rbind (on_stack (explode_loop tup 0 n) st) (consume_tuple_gas n)"

definition exec_untuple_common :: "nat \<Rightarrow> 'r vm_state \<Rightarrow> 'r vm_result" where
  "exec_untuple_common n st =
     rbind (pop_tuple_range n n (stack st)) (\<lambda>(tup, t). do_explode_tuple tup n (st\<lparr>stack := t\<rparr>))"

definition exec_untuple :: "nat \<Rightarrow> 'r vm_state \<Rightarrow> 'r vm_result" where
  "exec_untuple args = exec_untuple_common (arg_lo args)"

definition exec_untuple_var :: "'r vm_state \<Rightarrow> 'r vm_result" where
  "exec_untuple_var st =
     rbind (check_underflow [2] (stack st)) (\<lambda>_.
     rbind (pop_smallint_range 255 (stack st)) (\<lambda>(n, t). exec_untuple_common n (st\<lparr>stack := t\<rparr>)))"

definition exec_untuple_first_common :: "nat \<Rightarrow> 'r vm_state \<Rightarrow> 'r vm_result" where
  "exec_untuple_first_common n st =
     rbind (pop_tuple_range 255 n (stack st)) (\<lambda>(tup, t). do_explode_tuple tup n (st\<lparr>stack := t\<rparr>))"

definition exec_untuple_first :: "nat \<Rightarrow> 'r vm_state \<Rightarrow> 'r vm_result" where
  "exec_untuple_first args = exec_untuple_first_common (arg_lo args)"

definition exec_untuple_first_var :: "'r vm_state \<Rightarrow> 'r vm_result" where
  "exec_untuple_first_var st =
     rbind (check_underflow [2] (stack st)) (\<lambda>_.
     rbind (pop_smallint_range 255 (stack st)) (\<lambda>(n, t). exec_untuple_first_common n (st\<lparr>stack := t\<rparr>)))"

definition exec_explode_tuple_common :: "nat \<Rightarrow> 'r vm_state \<Rightarrow> 'r vm_result" where
  "exec_explode_tuple_common n st =
     rbind (pop_tuple_range n 0 (stack st)) (\<lambda>(tup, t).
     rbind (do_explode_tuple tup (length tup) (st\<lparr>stack := t\<rparr>))
       (on_stack (\<lambda>u. Inr (push_smallint (int (length tup)) u))))"

definition exec_explode_tuple :: "nat \<Rightarrow> 'r vm_state \<Rightarrow> 'r vm_result" where
  "exec_explode_tuple args = exec_explode_tuple_common (arg_lo args)"

definition exec_explode_tuple_var :: "'r vm_state \<Rightarrow> 'r vm_result" where
  "exec_explode_tuple_var st =
     rbind (check_underflow [2] (stack st)) (\<lambda>_.
     rbind (pop_smallint_range 255 (stack st)) (\<lambda>(n, t). exec_explode_tuple_common n (st\<lparr>stack := t\<rparr>)))"

definition exec_tuple_set_index_common :: "nat \<Rightarrow> 'r vm_state \<Rightarrow> 'r vm_result" where
  "exec_tuple_set_index_common idx st =
     rbind (pop (stack st)) (\<lambda>(x, s).
     rbind (pop_tuple_range 255 0 s) (\<lambda>(tup, t).
     if idx \<ge> length tup then Inl (Vm_error Range_chk)
     else rbind (consume_tuple_gas (length tup) (st\<lparr>stack := t\<rparr>))
            (on_stack (\<lambda>u. Inr (push (Tuple_e (tup[idx := x])) u)))))"

definition exec_tuple_set_index :: "nat \<Rightarrow> 'r vm_state \<Rightarrow> 'r vm_result" where
  "exec_tuple_set_index args st =
     rbind (check_underflow [2] (stack st)) (\<lambda>_. exec_tuple_set_index_common (arg_lo args) st)"

definition exec_tuple_set_index_var :: "'r vm_state \<Rightarrow> 'r vm_result" where
  "exec_tuple_set_index_var st =
     rbind (check_underflow [3] (stack st)) (\<lambda>_.
     rbind (pop_smallint_range 254 (stack st)) (\<lambda>(n, t). exec_tuple_set_index_common n (st\<lparr>stack := t\<rparr>)))"

definition exec_tuple_quiet_set_index_common :: "nat \<Rightarrow> 'r vm_state \<Rightarrow> 'r vm_result" where
  "exec_tuple_quiet_set_index_common idx st =
     rbind (pop (stack st)) (\<lambda>(x, s).
     rbind (pop_maybe_tuple_range 255 s) (\<lambda>(tup, t).
     if idx \<ge> 255 then Inl (Vm_error Range_chk)
     else (case tuple_extend_set_index tup idx x False of
             (tup', tpay) \<Rightarrow>
               rbind (if tpay > 0 then consume_tuple_gas tpay (st\<lparr>stack := t\<rparr>) else Inr (st\<lparr>stack := t\<rparr>))
                 (on_stack (\<lambda>u. Inr (push_maybe_tuple tup' u))))))"

definition exec_tuple_quiet_set_index :: "nat \<Rightarrow> 'r vm_state \<Rightarrow> 'r vm_result" where
  "exec_tuple_quiet_set_index args st =
     rbind (check_underflow [2] (stack st)) (\<lambda>_. exec_tuple_quiet_set_index_common (arg_lo args) st)"

definition exec_tuple_quiet_set_index_var :: "'r vm_state \<Rightarrow> 'r vm_result" where
  "exec_tuple_quiet_set_index_var st =
     rbind (check_underflow [3] (stack st)) (\<lambda>_.
     rbind (pop_smallint_range 254 (stack st)) (\<lambda>(n, t). exec_tuple_quiet_set_index_common n (st\<lparr>stack := t\<rparr>)))"

definition exec_tuple_length :: "'r vm_state \<Rightarrow> 'r vm_result" where
  "exec_tuple_length = on_stack (\<lambda>s.
     rbind (pop_tuple_range 255 0 s) (\<lambda>(tup, t). Inr (push_smallint (int (length tup)) t)))"

definition exec_tuple_length_quiet :: "'r vm_state \<Rightarrow> 'r vm_result" where
  "exec_tuple_length_quiet = on_stack (\<lambda>s.
     rbind (pop_chk s) (\<lambda>(e, t).
     Inr (push_smallint (case as_tuple e of Some tup \<Rightarrow> int (length tup) | None \<Rightarrow> -1) t)))"

definition exec_is_tuple :: "'r vm_state \<Rightarrow> 'r vm_result" where
  "exec_is_tuple = on_stack (\<lambda>s.
     rbind (pop_chk s) (\<lambda>(e, t). Inr (push_bool (is_tuple e) t)))"

definition exec_tuple_last :: "'r vm_state \<Rightarrow> 'r vm_result" where
  "exec_tuple_last = on_stack (\<lambda>s.
     rbind (pop_tuple_range 255 1 s) (\<lambda>(tup, t).
     if tup = [] then Inl Out_of_bounds else Inr (push (last tup) t)))"

definition exec_tuple_push :: "'r vm_state \<Rightarrow> 'r vm_result" where
  "exec_tuple_push st =
     rbind (check_underflow [2] (stack st)) (\<lambda>_.
     rbind (pop (stack st)) (\<lambda>(x, s).
     rbind (pop_tuple_range 254 0 s) (\<lambda>(tup, t).
     rbind (consume_tuple_gas (length (tup @ [x])) (st\<lparr>stack := t\<rparr>))
       (on_stack (\<lambda>u. Inr (push (Tuple_e (tup @ [x])) u))))))"

definition exec_tuple_pop :: "'r vm_state \<Rightarrow> 'r vm_result" where
  "exec_tuple_pop st =
     rbind (pop_tuple_range 255 1 (stack st)) (\<lambda>(tup, t).
     if tup = [] then Inl Out_of_bounds
     else rbind (consume_tuple_gas (length (butlast tup)) (st\<lparr>stack := t\<rparr>))
            (on_stack (\<lambda>u. Inr (push (last tup) (push (Tuple_e (butlast tup)) u)))))"

definition exec_tuple_index2 :: "nat \<Rightarrow> 'r vm_state \<Rightarrow> 'r vm_result" where
  "exec_tuple_index2 args = on_stack (\<lambda>s.
     rbind (pop_tuple_range 255 0 s) (\<lambda>(tup, t).
     rbind (tuple_index tup ((args div 4) mod 4)) (\<lambda>e.
     case as_tuple_range 255 0 e of
       None \<Rightarrow> Inl (Vm_error Type_chk)
     | Some t1 \<Rightarrow> rbind (tuple_index t1 (args mod 4)) (\<lambda>e1. Inr (push e1 t)))))"

definition exec_tuple_index3 :: "nat \<Rightarrow> 'r vm_state \<Rightarrow> 'r vm_result" where
  "exec_tuple_index3 args = on_stack (\<lambda>s.
     rbind (pop_tuple_range 255 0 s) (\<lambda>(tup, t).
     rbind (tuple_index tup ((args div 16) mod 4)) (\<lambda>e.
     case as_tuple_range 255 0 e of
       None \<Rightarrow> Inl (Vm_error Type_chk)
     | Some t1 \<Rightarrow>
         rbind (tuple_index t1 ((args div 4) mod 4)) (\<lambda>e1.
         case as_tuple_range 255 0 e1 of
           None \<Rightarrow> Inl (Vm_error Type_chk)
         | Some t2 \<Rightarrow> rbind (tuple_index t2 (args mod 4)) (\<lambda>e2. Inr (push e2 t))))))"

section \<open>Safety\<close>

lemma faultless_tuple_index [faultless_intros]:
  "\<lbrakk>stack_ok tup; \<And>e. entry_ok e \<Longrightarrow> P e\<rbrakk> \<Longrightarrow> faultless P (tuple_index tup n)"
  by (simp add: tuple_index_def stack_ok_nth)

lemma faultless_null_rotate_loop [faultless_intros]:
  "\<lbrakk>stack_ok s; i + n + cnt \<le> length s; \<And>s'. stack_ok s' \<Longrightarrow> P s'\<rbrakk>
   \<Longrightarrow> faultless P (null_rotate_loop cnt i n s)"
  by (induction n arbitrary: i s) (auto intro!: faultless_intros)

lemma push_nulls [simp]: "((push Null_e) ^^ n) s = replicate n Null_e @ s"
  by (induction n) (auto simp: push_def)

lemma stack_ok_nulls [simp]: "stack_ok (replicate n Null_e)"
  by (simp add: stack_ok_def list_all_iff)

lemma mktuple_loop_eq:
  "n \<le> length s \<Longrightarrow>
   mktuple_loop n tup s = Inr (tup @ rev (take n s), replicate n Null_e @ drop n s)"
proof (induction n arbitrary: tup s)
  case (Suc n)
  then have "take (Suc n) s = take n s @ [s ! n]" "drop n (s[n := Null_e]) = Null_e # drop (Suc n) s"
    by (simp_all add: take_Suc_conv_app_nth drop_update_swap Cons_nth_drop_Suc [symmetric])
  with Suc show ?case by (simp add: fetch_def replicate_append_same flip: replicate_Suc)
qed simp

lemma explode_loop_eq:
  "i + n \<le> length tup \<Longrightarrow> explode_loop tup i n s = Inr (rev (take n (drop i tup)) @ s)"
proof (induction n arbitrary: i s)
  case (Suc n)
  then have "take (Suc n) (drop i tup) = tup ! i # take n (drop (Suc i) tup)"
    by (simp add: Cons_nth_drop_Suc [symmetric])
  with Suc show ?case by (simp add: push_def)
qed simp

lemma stack_ok_rev [simp]: "stack_ok (rev s) = stack_ok s"
  by (simp add: stack_ok_def)

lemma faultless_push_simps [simp]:
  "stack_ok (push_bool b s) = stack_ok s" "stack_ok (push e s) \<longleftrightarrow> entry_ok e \<and> stack_ok s"
  "stack_ok (push_tuple t s) \<longleftrightarrow> length t \<le> 255 \<and> stack_ok t \<and> stack_ok s"
  "n \<le> 255 \<Longrightarrow> stack_ok (push_smallint (int n) s) = stack_ok s"
  "stack_ok (push_smallint (-1) s) = stack_ok s"
  using entry_ok_small [of "int n"]
  by (auto simp: push_bool_def push_smallint_def push_def push_tuple_def stack_ok_def signed_fits_bits_def)

lemma faultless_mktuple_common:
  "n \<le> 255 \<Longrightarrow> stack_ok (stack st) \<Longrightarrow> faultless vm_ok (exec_mktuple_common n st)"
  unfolding exec_mktuple_common_def
  by (intro faultless_rbind faultless_check_underflow)
    (auto simp: mktuple_loop_eq pop_many_def stack_ok_take stack_ok_drop intro!: faultless_intros)

lemma faultless_do_explode_tuple:
  assumes "stack_ok tup" "n \<le> length tup" "stack_ok (stack st)" "\<And>st. stack_ok (stack st) \<Longrightarrow> P st"
  shows "faultless P (do_explode_tuple tup n st)"
  unfolding do_explode_tuple_def
  using assms by (auto simp: on_stack_def explode_loop_eq stack_ok_take intro!: faultless_intros)

lemma faultless_set_index_common:
  "\<lbrakk>stack_ok (stack st); 2 \<le> length (stack st)\<rbrakk> \<Longrightarrow> faultless vm_ok (exec_tuple_set_index_common n st)"
  unfolding exec_tuple_set_index_common_def
  by (intro faultless_rbind faultless_pop)
    (auto simp: stack_ok_update intro!: faultless_intros)

lemma tuple_extend_set_index_ok:
  assumes "case tup of None \<Rightarrow> True | Some t \<Rightarrow> stack_ok t \<and> length t \<le> 255" "entry_ok x" "idx < 255"
  shows "case fst (tuple_extend_set_index tup idx x f) of None \<Rightarrow> True | Some t \<Rightarrow> stack_ok t \<and> length t \<le> 255"
  using assms
  by (auto simp: tuple_extend_set_index_def resize_def stack_ok_take stack_ok_update
      simp del: list_update.simps replicate.simps split: option.splits)

lemma stack_ok_push_maybe_tuple:
  "\<lbrakk>case tup of None \<Rightarrow> True | Some t \<Rightarrow> stack_ok t \<and> length t \<le> 255; stack_ok s\<rbrakk>
   \<Longrightarrow> stack_ok (push_maybe_tuple tup s)"
  by (auto simp: push_maybe_tuple_def split: option.splits)

lemma faultless_quiet_set_index_common:
  assumes "stack_ok (stack st)" "2 \<le> length (stack st)"
  shows "faultless vm_ok (exec_tuple_quiet_set_index_common n st)"
proof -
  have "faultless vm_ok (case tuple_extend_set_index tup n x False of (tup', tpay) \<Rightarrow>
          rbind (if tpay > 0 then consume_tuple_gas tpay (st\<lparr>stack := t\<rparr>) else Inr (st\<lparr>stack := t\<rparr>))
            (on_stack (\<lambda>u. Inr (push_maybe_tuple tup' u))))"
    if "case tup of None \<Rightarrow> True | Some t \<Rightarrow> stack_ok t \<and> length t \<le> 255" "entry_ok x" "n < 255" "stack_ok t"
    for tup x t
    using tuple_extend_set_index_ok [OF that(1-3), of False] that(4)
    by (cases "tuple_extend_set_index tup n x False")
      (auto intro!: faultless_intros stack_ok_push_maybe_tuple)
  with assms show ?thesis
    unfolding exec_tuple_quiet_set_index_common_def
    by (intro faultless_rbind faultless_pop) (auto intro!: faultless_intros)
qed

lemmas tuple_rules = faultless_intros faultless_mktuple_common faultless_do_explode_tuple
  faultless_set_index_common faultless_quiet_set_index_common

lemma faultless_index_common [faultless_intros]:
  "stack_ok s \<Longrightarrow> faultless stack_ok (exec_tuple_index_common n s)"
  "stack_ok s \<Longrightarrow> faultless stack_ok (exec_tuple_quiet_index_common n s)"
  unfolding exec_tuple_index_common_def exec_tuple_quiet_index_common_def
  by (auto intro!: faultless_intros simp: tuple_extend_index_def stack_ok_nth split: option.splits)

lemma stack_ok_last: "stack_ok t \<Longrightarrow> t \<noteq> [] \<Longrightarrow> entry_ok (last t) \<and> stack_ok (butlast t)"
  by (auto simp: stack_ok_def list_all_iff dest: in_set_butlastD)

lemma tuple_access_safe:
  "instr_safe exec_push_null" "instr_safe exec_is_null" "instr_safe (exec_null_swap_if c d)"
  "instr_safe (exec_null_swap_if_many c d k)" "instr_safe (exec_tuple_index a)"
  "instr_safe exec_tuple_index_var" "instr_safe (exec_tuple_quiet_index a)"
  "instr_safe exec_tuple_quiet_index_var" "instr_safe exec_tuple_length" "instr_safe exec_tuple_length_quiet"
  "instr_safe exec_is_tuple" "instr_safe exec_tuple_last"
  unfolding exec_push_null_def exec_is_null_def exec_null_swap_if_def exec_null_swap_if_many_def
    exec_tuple_index_def exec_tuple_index_var_def exec_tuple_quiet_index_def exec_tuple_quiet_index_var_def
    exec_tuple_length_def exec_tuple_length_quiet_def exec_is_tuple_def exec_tuple_last_def
  by (auto intro!: instr_safeI faultless_intros simp: push_def [of Null_e] stack_ok_last
      split: option.splits)

lemma tuple_nested_safe: "instr_safe (exec_tuple_index2 a)" "instr_safe (exec_tuple_index3 a)"
  unfolding exec_tuple_index2_def exec_tuple_index3_def
  by (auto intro!: instr_safeI faultless_intros simp: as_tuple_range_Some split: option.splits)

lemma tuple_build_safe:
  "instr_safe (exec_mktuple a)" "instr_safe exec_mktuple_var" "instr_safe (exec_tuple_set_index a)"
  "instr_safe exec_tuple_set_index_var" "instr_safe (exec_tuple_quiet_set_index a)"
  "instr_safe exec_tuple_quiet_set_index_var" "instr_safe exec_tuple_push" "instr_safe exec_tuple_pop"
  unfolding exec_mktuple_def exec_mktuple_var_def exec_tuple_set_index_def exec_tuple_set_index_var_def
    exec_tuple_quiet_set_index_def exec_tuple_quiet_set_index_var_def exec_tuple_push_def exec_tuple_pop_def
  by (auto intro!: instr_safeI tuple_rules simp: arg_lo_def stack_ok_last)

lemma tuple_unpack_safe:
  "instr_safe (exec_untuple a)" "instr_safe exec_untuple_var" "instr_safe (exec_untuple_first a)"
  "instr_safe exec_untuple_first_var" "instr_safe (exec_explode_tuple a)" "instr_safe exec_explode_tuple_var"
  unfolding exec_untuple_def exec_untuple_var_def exec_untuple_first_def exec_untuple_first_var_def
    exec_explode_tuple_def exec_explode_tuple_var_def exec_untuple_common_def exec_untuple_first_common_def
    exec_explode_tuple_common_def
  by (auto intro!: instr_safeI tuple_rules simp: vm_ok_def)

section \<open>Properties\<close>

text \<open>What TUPLE and UNTUPLE compute when the machine does not run out of gas.\<close>

definition pays :: "nat \<Rightarrow> 'r vm_state \<Rightarrow> bool" where
  "pays n st = (global_version st \<ge> 4 \<longrightarrow> int n \<le> gas_remaining (gas st))"

lemma consume_tuple_gas_eq:
  "consume_tuple_gas n st =
   (if pays n st then Inr (st\<lparr>gas := gas_consume (int n) (gas st)\<rparr>) else Inl Vm_no_gas)"
  by (auto simp: consume_tuple_gas_def consume_gas_def gas_consume_chk_def gas_consume_def pays_def Let_def)

lemma exec_mktuple_common_eq:
  "length (stack st) < 2 ^ 31 \<Longrightarrow>
   exec_mktuple_common n st =
     (if n > length (stack st) then Inl (Vm_error Stk_und)
      else rbind (consume_tuple_gas n st)
        (\<lambda>st'. Inr (st'\<lparr>stack := Tuple_e (rev (take n (stack st))) # drop n (stack st)\<rparr>)))"
  by (auto simp: exec_mktuple_common_def check_underflow_eq mktuple_loop_eq pop_many_def on_stack_def
      consume_tuple_gas_eq pays_def push_tuple_def push_def)

lemma pop_tuple_range_Tuple:
  "Suc (length s) < 2 ^ 31 \<Longrightarrow>
   pop_tuple_range mx mn (Tuple_e t # s) =
   (if length t > mx \<or> length t < mn then Inl (Vm_error Type_chk) else Inr (t, s))"
  by (simp add: pop_tuple_range_def pop_chk_eq)

lemma exec_untuple_common_eq:
  "\<lbrakk>stack st = Tuple_e t # s; length (stack st) < 2 ^ 31\<rbrakk> \<Longrightarrow>
   exec_untuple_common n st =
     (if length t \<noteq> n then Inl (Vm_error Type_chk)
      else rbind (consume_tuple_gas n st) (\<lambda>st'. Inr (st'\<lparr>stack := rev t @ s\<rparr>)))"
  by (auto simp: exec_untuple_common_def pop_tuple_range_Tuple do_explode_tuple_def on_stack_def
      explode_loop_eq consume_tuple_gas_eq pays_def)

text \<open>
  C30. TUPLE and UNTUPLE are inverse to each other: if TUPLE \<open>n\<close> succeeds, then UNTUPLE \<open>n\<close> on its
  result puts exactly the entries back that TUPLE took, in their order, unless it runs out of
  gas; both instructions pay one unit of gas per component.
\<close>

theorem tuple_untuple_roundtrip:
  assumes "length (stack st) + 1 < 2 ^ 31" "exec_mktuple_common n st = Inr st'"
  shows "exec_untuple_common n st' =
    (if pays (2 * n) st then Inr (st\<lparr>gas := gas_consume (2 * int n) (gas st)\<rparr>) else Inl Vm_no_gas)"
proof -
  have len: "length (stack st) < 2 ^ 31" using assms(1) by simp
  have n: "n \<le> length (stack st)" and st': "st' = st\<lparr>gas := gas_consume (int n) (gas st),
      stack := Tuple_e (rev (take n (stack st))) # drop n (stack st)\<rparr>"
    using assms(2) unfolding exec_mktuple_common_eq [OF len]
    by (auto simp: consume_tuple_gas_eq split: if_splits)
  have "exec_untuple_common n st' = rbind (consume_tuple_gas n st') (\<lambda>u. Inr (u\<lparr>stack := stack st\<rparr>))"
    using exec_untuple_common_eq [of st' "rev (take n (stack st))" "drop n (stack st)" n] assms(1) n
    by (simp add: st')
  then show ?thesis by (auto simp: consume_tuple_gas_eq st' pays_def gas_consume_def)
qed

theorem tuple_untuple_roundtrip_witness:
  "exec_untuple_common 2
     ((demo_vm [Some 7])\<lparr>gas := gas_consume 2 demo_gas, stack := [Tuple_e [Int_e (Some 6), Int_e (Some 5)], Int_e (Some 7)]\<rparr>)
   = Inr ((demo_vm [Some 5, Some 6, Some 7])\<lparr>gas := gas_consume 4 demo_gas\<rparr>)"
proof -
  have "exec_mktuple_common 2 (demo_vm [Some 5, Some 6, Some 7]) = Inr ((demo_vm [Some 7])
      \<lparr>gas := gas_consume 2 demo_gas, stack := [Tuple_e [Int_e (Some 6), Int_e (Some 5)], Int_e (Some 7)]\<rparr>)"
    by code_simp
  then have "exec_untuple_common 2
     ((demo_vm [Some 7])\<lparr>gas := gas_consume 2 demo_gas, stack := [Tuple_e [Int_e (Some 6), Int_e (Some 5)], Int_e (Some 7)]\<rparr>)
     = (if pays (2 * 2) (demo_vm [Some 5, Some 6, Some 7])
        then Inr ((demo_vm [Some 5, Some 6, Some 7])\<lparr>gas := gas_consume (2 * int 2) (gas (demo_vm [Some 5, Some 6, Some 7]))\<rparr>)
        else Inl Vm_no_gas)"
    by (intro tuple_untuple_roundtrip) (simp_all add: demo_vm_def)
  then show ?thesis
    by (simp add: demo_vm_def demo_gas_def pays_def gas_limits_init_def)
qed

text \<open>
  The indexed tuple accesses agree: after SETINDEXQ of a component below 255, INDEXQ of any
  component reads the new value at that index and at every other index what it read before, a
  missing component (or a missing tuple) reading as null; and the tuple stays within the 255
  components that every tuple instruction accepts.
\<close>

theorem quiet_set_index_reads_back:
  assumes "idx < 255" "case tup of None \<Rightarrow> True | Some t \<Rightarrow> length t \<le> 255"
  shows "tuple_extend_index (fst (tuple_extend_set_index tup idx x False)) k =
      (if k = idx then x else tuple_extend_index tup k) \<and>
    (case fst (tuple_extend_set_index tup idx x False) of None \<Rightarrow> True | Some t \<Rightarrow> length t \<le> 255)"
proof (cases tup)
  case None
  then show ?thesis using assms
    by (auto simp: tuple_extend_set_index_def tuple_extend_index_def nth_list_update
        simp del: replicate.simps list_update.simps)
next
  case (Some t)
  then show ?thesis using assms
    by (auto simp: tuple_extend_set_index_def tuple_extend_index_def resize_def nth_list_update nth_append)
qed

theorem quiet_set_index_reads_back_witness:
  "tuple_extend_index (fst (tuple_extend_set_index (Some [Int_e (Some 1)]) 3 (Int_e (Some 9)) False)) 3 =
     (Int_e (Some 9) :: unit stack_entry) \<and>
   fst (tuple_extend_set_index (Some [Int_e (Some 1)]) 3 (Int_e (Some 9)) False) =
     Some [Int_e (Some 1), Null_e, Null_e, Int_e (Some 9) :: unit stack_entry]"
  using quiet_set_index_reads_back [of 3 "Some [Int_e (Some 1) :: unit stack_entry]" "Int_e (Some 9)" 3]
  by (simp add: tuple_extend_set_index_def resize_def eval_nat_numeral)

end
