(* ===== verification/VM_Opctable.thy ===== *)
theory VM_Opctable
  imports VM_Tuple_Ops
begin

text \<open>
  The opcode table of the virtual machine (\<^verbatim>\<open>crypto/vm/opctable.cpp\<close>): instructions with their
  ranges of 24-bit opcodes, the sorted table they are inserted into, its completion by dummy instructions to
  a partition of all opcodes, the binary search, and the dispatch of one instruction with its gas.

  The code that is executed is the bit string of the code slice; its references are
  not looked at by any instruction modelled here.
\<close>

section \<open>Instructions\<close>

definition max_opcode_bits :: nat where
  "max_opcode_bits = 24"

definition top_opcode :: nat where
  "top_opcode = 2 ^ max_opcode_bits"

definition gas_per_instr :: int where
  "gas_per_instr = 10"

definition gas_per_bit :: int where
  "gas_per_bit = 1"

type_synonym 'r code_result = "vm_fault + 'r vm_state \<times> bits"

text \<open>
  The classes derived from \<open>OpcodeInstr\<close>: every instruction has a range of opcodes; the numbers after
  it are \<open>opc_bits\<close> and, where the class has it, \<open>tot_bits\<close>.
\<close>

datatype 'r opcode_instr =
    Dummy nat nat
  | Simple nat nat nat string "nat \<Rightarrow> nat \<Rightarrow> bits \<Rightarrow> 'r vm_state \<Rightarrow> 'r code_result"
  | Simplest nat nat nat string "'r vm_state \<Rightarrow> 'r vm_result"
  | Fixed nat nat nat nat "nat \<Rightarrow> string" "nat \<Rightarrow> 'r vm_state \<Rightarrow> 'r vm_result"
  | Ext nat nat nat nat "bits \<Rightarrow> nat \<Rightarrow> nat \<Rightarrow> string \<times> bits"
      "nat \<Rightarrow> nat \<Rightarrow> bits \<Rightarrow> 'r vm_state \<Rightarrow> 'r code_result" "bits \<Rightarrow> nat \<Rightarrow> nat \<Rightarrow> nat"
  | With_version "'r opcode_instr" int

fun get_opcode_range :: "'r opcode_instr \<Rightarrow> nat \<times> nat" where
  "get_opcode_range (Dummy a b) = (a, b)"
| "get_opcode_range (Simple a b opc name exec) = (a, b)"
| "get_opcode_range (Simplest a b opc name exec) = (a, b)"
| "get_opcode_range (Fixed a b opc tot dump exec) = (a, b)"
| "get_opcode_range (Ext a b opc tot dump exec len) = (a, b)"
| "get_opcode_range (With_version i v) = get_opcode_range i"

definition opcode_range :: "nat \<Rightarrow> nat \<Rightarrow> vm_fault + nat \<times> nat" where
  "opcode_range opcode n =
     (if opcode < 2 ^ n \<and> n \<le> max_opcode_bits
      then Inr (opcode * 2 ^ (max_opcode_bits - n), (opcode + 1) * 2 ^ (max_opcode_bits - n))
      else Inl Assertion_failed)"

definition mksimple :: "nat \<Rightarrow> nat \<Rightarrow> string \<Rightarrow> ('r vm_state \<Rightarrow> 'r vm_result) \<Rightarrow> vm_fault + 'r opcode_instr" where
  "mksimple opcode opc_bits name exec =
     rbind (opcode_range opcode opc_bits) (\<lambda>(a, b). Inr (Simplest a b opc_bits name exec))"

definition mkfixed ::
    "nat \<Rightarrow> nat \<Rightarrow> nat \<Rightarrow> (nat \<Rightarrow> string) \<Rightarrow> (nat \<Rightarrow> 'r vm_state \<Rightarrow> 'r vm_result) \<Rightarrow> vm_fault + 'r opcode_instr" where
  "mkfixed opcode opc_bits arg_bits dump exec =
     rbind (opcode_range opcode opc_bits)
       (\<lambda>(a, b). if arg_bits + opc_bits \<le> max_opcode_bits
                 then Inr (Fixed a b opc_bits (opc_bits + arg_bits) dump exec)
                 else Inl Assertion_failed)"

definition mkfixedrange ::
    "nat \<Rightarrow> nat \<Rightarrow> nat \<Rightarrow> nat \<Rightarrow> (nat \<Rightarrow> string) \<Rightarrow> (nat \<Rightarrow> 'r vm_state \<Rightarrow> 'r vm_result) \<Rightarrow> vm_fault + 'r opcode_instr" where
  "mkfixedrange opcode_min opcode_max tot_bits arg_bits dump exec =
     (if arg_bits \<le> tot_bits \<and> tot_bits \<le> max_opcode_bits \<and>
         opcode_min < opcode_max \<and> opcode_max \<le> 2 ^ tot_bits
      then Inr (Fixed (opcode_min * 2 ^ (max_opcode_bits - tot_bits)) (opcode_max * 2 ^ (max_opcode_bits - tot_bits))
                  (tot_bits - arg_bits) tot_bits dump exec)
      else Inl Assertion_failed)"

definition mkext ::
    "nat \<Rightarrow> nat \<Rightarrow> nat \<Rightarrow> (bits \<Rightarrow> nat \<Rightarrow> nat \<Rightarrow> string \<times> bits) \<Rightarrow>
     (nat \<Rightarrow> nat \<Rightarrow> bits \<Rightarrow> 'r vm_state \<Rightarrow> 'r code_result) \<Rightarrow> (bits \<Rightarrow> nat \<Rightarrow> nat \<Rightarrow> nat) \<Rightarrow> vm_fault + 'r opcode_instr" where
  "mkext opcode opc_bits arg_bits dump exec comp_len =
     rbind (opcode_range opcode opc_bits)
       (\<lambda>(a, b). if arg_bits + opc_bits \<le> max_opcode_bits
                 then Inr (Ext a b opc_bits (opc_bits + arg_bits) dump exec comp_len)
                 else Inl Assertion_failed)"

definition mkextrange ::
    "nat \<Rightarrow> nat \<Rightarrow> nat \<Rightarrow> nat \<Rightarrow> (bits \<Rightarrow> nat \<Rightarrow> nat \<Rightarrow> string \<times> bits) \<Rightarrow>
     (nat \<Rightarrow> nat \<Rightarrow> bits \<Rightarrow> 'r vm_state \<Rightarrow> 'r code_result) \<Rightarrow> (bits \<Rightarrow> nat \<Rightarrow> nat \<Rightarrow> nat) \<Rightarrow> vm_fault + 'r opcode_instr" where
  "mkextrange opcode_min opcode_max tot_bits arg_bits dump exec comp_len =
     (if arg_bits \<le> tot_bits \<and> tot_bits \<le> max_opcode_bits \<and>
         opcode_min < opcode_max \<and> opcode_max \<le> 2 ^ tot_bits
      then Inr (Ext (opcode_min * 2 ^ (max_opcode_bits - tot_bits)) (opcode_max * 2 ^ (max_opcode_bits - tot_bits))
                  (tot_bits - arg_bits) tot_bits dump exec comp_len)
      else Inl Assertion_failed)"

definition require_version :: "int \<Rightarrow> vm_fault + 'r opcode_instr \<Rightarrow> vm_fault + 'r opcode_instr" where
  "require_version v m = rbind m (\<lambda>i. Inr (With_version i v))"

section \<open>The table\<close>

record 'r opcode_table =
  instructions :: "(nat \<times> 'r opcode_instr) list"
  instruction_list :: "(nat \<times> 'r opcode_instr) list"
  is_final :: bool

definition empty_table :: "'r opcode_table" where
  "empty_table = \<lparr>instructions = [], instruction_list = [], is_final = False\<rparr>"

text \<open>
  \<open>insert_bool\<close>, on the ordered map as a list sorted by the key: the entries below and from
  \<open>lower_bound(range.first)\<close> on.
\<close>

definition insert_bool :: "'r opcode_instr \<Rightarrow> 'r opcode_table \<Rightarrow> vm_fault + bool \<times> 'r opcode_table" where
  "insert_bool instr t =
     (if is_final t then Inr (False, t)
      else
        case get_opcode_range instr of (lo, hi) \<Rightarrow>
        if \<not> (lo < hi \<and> hi \<le> top_opcode) then Inl Assertion_failed
        else
          let below = takeWhile (\<lambda>(k, _). k < lo) (instructions t);
              above = dropWhile (\<lambda>(k, _). k < lo) (instructions t)
          in if above \<noteq> [] \<and> fst (hd above) < hi then Inr (False, t)
             else if below \<noteq> [] then
               (case get_opcode_range (snd (last below)) of (plo, phi) \<Rightarrow>
                  if \<not> (plo < phi \<and> plo = fst (last below)) then Inl Assertion_failed
                  else if phi > lo then Inr (False, t)
                  else Inr (True, t\<lparr>instructions := below @ (lo, instr) # above\<rparr>))
             else Inr (True, t\<lparr>instructions := below @ (lo, instr) # above\<rparr>))"

text \<open>\<open>insert\<close>: a failure is fatal.\<close>

definition insert_instr :: "'r opcode_instr \<Rightarrow> 'r opcode_table \<Rightarrow> vm_fault + 'r opcode_table" where
  "insert_instr instr t =
     rbind (insert_bool instr t) (\<lambda>(ok, t'). if ok then Inr t' else Inl Assertion_failed)"

fun finalize_loop :: "nat \<Rightarrow> (nat \<times> 'r opcode_instr) list \<Rightarrow> vm_fault + (nat \<times> 'r opcode_instr) list" where
  "finalize_loop prev [] =
     Inr (if prev < top_opcode then [(prev, Dummy prev top_opcode)] else [])"
| "finalize_loop prev ((k, x) # xs) =
     (case get_opcode_range x of (lo, hi) \<Rightarrow>
        if \<not> (lo = k \<and> lo < hi \<and> lo \<ge> prev \<and> hi \<le> top_opcode) then Inl Assertion_failed
        else rbind (finalize_loop hi xs) (\<lambda>rest.
               Inr ((if lo > prev then [(prev, Dummy prev lo)] else []) @ (k, x) # rest)))"

definition finalize :: "'r opcode_table \<Rightarrow> vm_fault + 'r opcode_table" where
  "finalize t =
     (if is_final t then Inr t
      else rbind (finalize_loop 0 (instructions t)) (\<lambda>l. Inr (t\<lparr>instruction_list := l, is_final := True\<rparr>)))"

text \<open>The binary search of \<open>lookup_instr\<close>, between the positions \<open>i\<close> and \<open>j\<close>.\<close>

function lookup_loop :: "(nat \<times> 'r opcode_instr) list \<Rightarrow> nat \<Rightarrow> nat \<Rightarrow> nat \<Rightarrow> nat" where
  "lookup_loop l opcode i j =
     (if j - i > 1 then
        let k = (j + i) div 2
        in if fst (l ! k) \<le> opcode then lookup_loop l opcode k j else lookup_loop l opcode i k
      else i)"
  by pat_completeness auto

termination lookup_loop
  by (relation "measure (\<lambda>(l, opcode, i, j). j - i)") auto

declare lookup_loop.simps [simp del]

definition lookup_instr :: "'r opcode_table \<Rightarrow> nat \<Rightarrow> vm_fault + 'r opcode_instr" where
  "lookup_instr t opcode =
     (if instruction_list t = [] then Inl Assertion_failed
      else Inr (snd (instruction_list t ! lookup_loop (instruction_list t) opcode 0 (length (instruction_list t)))))"

text \<open>
  The opcode that the second \<open>lookup_instr\<close> prefetches: the first 24 bits of the code, filled up with
  zeros, and the number of bits that are there.
\<close>

definition prefetch_opcode :: "bits \<Rightarrow> nat \<times> nat" where
  "prefetch_opcode cs =
     (let n = min max_opcode_bits (length cs)
      in (bits_to_nat (take n cs) * 2 ^ (max_opcode_bits - n), n))"

section \<open>Dispatch\<close>

text \<open>The methods \<open>dispatch\<close>, \<open>dump\<close> and \<open>instr_len\<close> of the classes, and their virtual calls.\<close>

definition dispatch_dummy :: "'r vm_state \<Rightarrow> 'r code_result" where
  "dispatch_dummy st = rbind (consume_gas gas_per_instr st) (\<lambda>_. Inl (Vm_error Inv_opcode))"

definition dispatch_simple ::
    "nat \<Rightarrow> (nat \<Rightarrow> nat \<Rightarrow> bits \<Rightarrow> 'r vm_state \<Rightarrow> 'r code_result) \<Rightarrow> nat \<Rightarrow> nat \<Rightarrow> bits \<Rightarrow> 'r vm_state \<Rightarrow> 'r code_result" where
  "dispatch_simple opc exec opcode n cs st =
     rbind (consume_gas (gas_per_instr + int opc * gas_per_bit) st) (\<lambda>st.
       if n < opc then Inl (Vm_error Inv_opcode)
       else exec (opcode div 2 ^ (max_opcode_bits - opc)) opc (drop opc cs) st)"

definition dispatch_simplest ::
    "nat \<Rightarrow> ('r vm_state \<Rightarrow> 'r vm_result) \<Rightarrow> nat \<Rightarrow> nat \<Rightarrow> bits \<Rightarrow> 'r vm_state \<Rightarrow> 'r code_result" where
  "dispatch_simplest opc exec opcode n cs st =
     rbind (consume_gas (gas_per_instr + int opc * gas_per_bit) st) (\<lambda>st.
       if n < opc then Inl (Vm_error Inv_opcode)
       else rbind (exec st) (\<lambda>st'. Inr (st', drop opc cs)))"

definition dispatch_fixed ::
    "nat \<Rightarrow> (nat \<Rightarrow> 'r vm_state \<Rightarrow> 'r vm_result) \<Rightarrow> nat \<Rightarrow> nat \<Rightarrow> bits \<Rightarrow> 'r vm_state \<Rightarrow> 'r code_result" where
  "dispatch_fixed tot exec opcode n cs st =
     rbind (consume_gas (gas_per_instr + int tot * gas_per_bit) st) (\<lambda>st.
       if n < tot then Inl (Vm_error Inv_opcode)
       else rbind (exec (opcode div 2 ^ (max_opcode_bits - tot)) st) (\<lambda>st'. Inr (st', drop tot cs)))"

definition dispatch_ext ::
    "nat \<Rightarrow> (nat \<Rightarrow> nat \<Rightarrow> bits \<Rightarrow> 'r vm_state \<Rightarrow> 'r code_result) \<Rightarrow> nat \<Rightarrow> nat \<Rightarrow> bits \<Rightarrow> 'r vm_state \<Rightarrow> 'r code_result" where
  "dispatch_ext tot exec opcode n cs st =
     rbind (consume_gas (gas_per_instr + int tot * gas_per_bit) st) (\<lambda>st.
       if n < tot then Inl (Vm_error Inv_opcode)
       else exec (opcode div 2 ^ (max_opcode_bits - tot)) tot cs st)"

fun dispatch_instr :: "'r opcode_instr \<Rightarrow> nat \<Rightarrow> nat \<Rightarrow> bits \<Rightarrow> 'r vm_state \<Rightarrow> 'r code_result" where
  "dispatch_instr (Dummy a b) opcode n cs st = dispatch_dummy st"
| "dispatch_instr (Simple a b opc name exec) opcode n cs st = dispatch_simple opc exec opcode n cs st"
| "dispatch_instr (Simplest a b opc name exec) opcode n cs st = dispatch_simplest opc exec opcode n cs st"
| "dispatch_instr (Fixed a b opc tot dump exec) opcode n cs st = dispatch_fixed tot exec opcode n cs st"
| "dispatch_instr (Ext a b opc tot dump exec len) opcode n cs st = dispatch_ext tot exec opcode n cs st"
| "dispatch_instr (With_version i v) opcode n cs st =
     (if global_version st < v then rbind (consume_gas gas_per_instr st) (\<lambda>_. Inl (Vm_error Inv_opcode))
      else dispatch_instr i opcode n cs st)"

lemmas dispatch_defs = dispatch_dummy_def dispatch_simple_def dispatch_simplest_def dispatch_fixed_def dispatch_ext_def

definition dump_simple :: "nat \<Rightarrow> string \<Rightarrow> nat \<Rightarrow> bits \<Rightarrow> string \<times> bits" where
  "dump_simple opc name n cs = (if n < opc then ('''', cs) else (name, drop opc cs))"

definition dump_simplest :: "nat \<Rightarrow> string \<Rightarrow> nat \<Rightarrow> bits \<Rightarrow> string \<times> bits" where
  "dump_simplest opc name n cs = (if n < opc then ('''', cs) else (name, drop opc cs))"

definition dump_fixed :: "nat \<Rightarrow> (nat \<Rightarrow> string) \<Rightarrow> nat \<Rightarrow> nat \<Rightarrow> bits \<Rightarrow> string \<times> bits" where
  "dump_fixed tot dump opcode n cs =
     (if n < tot then ('''', cs) else (dump (opcode div 2 ^ (max_opcode_bits - tot)), drop tot cs))"

definition dump_ext :: "nat \<Rightarrow> (bits \<Rightarrow> nat \<Rightarrow> nat \<Rightarrow> string \<times> bits) \<Rightarrow> nat \<Rightarrow> nat \<Rightarrow> bits \<Rightarrow> string \<times> bits" where
  "dump_ext tot dump opcode n cs =
     (if n < tot then ('''', cs) else dump cs (opcode div 2 ^ (max_opcode_bits - tot)) tot)"

fun dump_opcode :: "'r opcode_instr \<Rightarrow> nat \<Rightarrow> nat \<Rightarrow> bits \<Rightarrow> string \<times> bits" where
  "dump_opcode (Dummy a b) opcode n cs = ('''', cs)"
| "dump_opcode (Simple a b opc name exec) opcode n cs = dump_simple opc name n cs"
| "dump_opcode (Simplest a b opc name exec) opcode n cs = dump_simplest opc name n cs"
| "dump_opcode (Fixed a b opc tot dump exec) opcode n cs = dump_fixed tot dump opcode n cs"
| "dump_opcode (Ext a b opc tot dump exec len) opcode n cs = dump_ext tot dump opcode n cs"
| "dump_opcode (With_version i v) opcode n cs = dump_opcode i opcode n cs"

lemmas dump_defs = dump_simple_def dump_simplest_def dump_fixed_def dump_ext_def

definition len_simple :: "nat \<Rightarrow> nat \<Rightarrow> nat" where
  "len_simple opc n = (if n < opc then 0 else opc)"

definition len_simplest :: "nat \<Rightarrow> nat \<Rightarrow> nat" where
  "len_simplest opc n = (if n < opc then 0 else opc)"

definition len_fixed :: "nat \<Rightarrow> nat \<Rightarrow> nat" where
  "len_fixed tot n = (if n < tot then 0 else tot)"

definition len_ext :: "nat \<Rightarrow> (bits \<Rightarrow> nat \<Rightarrow> nat \<Rightarrow> nat) \<Rightarrow> nat \<Rightarrow> nat \<Rightarrow> bits \<Rightarrow> nat" where
  "len_ext tot len opcode n cs = (if n < tot then 0 else len cs (opcode div 2 ^ (max_opcode_bits - tot)) tot)"

fun opcode_len :: "'r opcode_instr \<Rightarrow> nat \<Rightarrow> nat \<Rightarrow> bits \<Rightarrow> nat" where
  "opcode_len (Dummy a b) opcode n cs = 0"
| "opcode_len (Simple a b opc name exec) opcode n cs = len_simple opc n"
| "opcode_len (Simplest a b opc name exec) opcode n cs = len_simplest opc n"
| "opcode_len (Fixed a b opc tot dump exec) opcode n cs = len_fixed tot n"
| "opcode_len (Ext a b opc tot dump exec len) opcode n cs = len_ext tot len opcode n cs"
| "opcode_len (With_version i v) opcode n cs = opcode_len i opcode n cs"

lemmas len_defs = len_simple_def len_simplest_def len_fixed_def len_ext_def

definition dispatch :: "'r opcode_table \<Rightarrow> bits \<Rightarrow> 'r vm_state \<Rightarrow> 'r code_result" where
  "dispatch t cs st =
     (if \<not> is_final t then Inl Assertion_failed
      else case prefetch_opcode cs of (opcode, n) \<Rightarrow>
        rbind (lookup_instr t opcode) (\<lambda>instr. dispatch_instr instr opcode n cs st))"

definition dump_instr :: "'r opcode_table \<Rightarrow> bits \<Rightarrow> vm_fault + string \<times> bits" where
  "dump_instr t cs =
     (if \<not> is_final t then Inl Assertion_failed
      else case prefetch_opcode cs of (opcode, n) \<Rightarrow>
        rbind (lookup_instr t opcode) (\<lambda>instr. Inr (dump_opcode instr opcode n cs)))"

definition instr_len :: "'r opcode_table \<Rightarrow> bits \<Rightarrow> vm_fault + nat" where
  "instr_len t cs =
     (if \<not> is_final t then Inl Assertion_failed
      else case prefetch_opcode cs of (opcode, n) \<Rightarrow>
        rbind (lookup_instr t opcode) (\<lambda>instr. Inr (opcode_len instr opcode n cs)))"

text \<open>
  The part of \<open>step\<close> and of one round of the loop of \<open>run_inner\<close> for a code slice that has bits left: the
  dispatch and the check of the gas.
\<close>

definition step_code :: "'r opcode_table \<Rightarrow> bits \<Rightarrow> 'r vm_state \<Rightarrow> 'r code_result" where
  "step_code t cs st =
     rbind (dispatch t cs st) (\<lambda>(st', cs'). rbind (gas_check (gas st')) (\<lambda>_. Inr (st', cs')))"

text \<open>
  The loop as long as the code slice has bits, in at most the given number of rounds: the number of
  executed instructions, the state and the remaining code.
\<close>

fun run_code :: "'r opcode_table \<Rightarrow> nat \<Rightarrow> bits \<Rightarrow> 'r vm_state \<Rightarrow> vm_fault + nat \<times> 'r vm_state \<times> bits" where
  "run_code t 0 cs st = Inr (0, st, cs)"
| "run_code t (Suc fuel) cs st =
     (if cs = [] then Inr (0, st, cs)
      else rbind (step_code t cs st) (\<lambda>(st', cs').
             rbind (run_code t fuel cs' st') (\<lambda>(k, r). Inr (Suc k, r))))"

text \<open>Inserting the instructions of a list one after the other, as the \<open>register_\<close> functions do.\<close>

fun register_all :: "(vm_fault + 'r opcode_instr) list \<Rightarrow> 'r opcode_table \<Rightarrow> vm_fault + 'r opcode_table" where
  "register_all [] t = Inr t"
| "register_all (m # ms) t = rbind m (\<lambda>i. rbind (insert_instr i t) (register_all ms))"

section \<open>The table partitions the opcodes\<close>

definition opcode_min :: "'r opcode_instr \<Rightarrow> nat" where
  "opcode_min i = fst (get_opcode_range i)"

definition opcode_max :: "'r opcode_instr \<Rightarrow> nat" where
  "opcode_max i = snd (get_opcode_range i)"

definition in_range :: "nat \<Rightarrow> 'r opcode_instr \<Rightarrow> bool" where
  "in_range opcode i = (opcode_min i \<le> opcode \<and> opcode < opcode_max i)"

lemma range_eq: "get_opcode_range i = (opcode_min i, opcode_max i)"
  by (simp add: opcode_min_def opcode_max_def)

lemma range_simps [simp]:
  "opcode_min (Dummy a b) = a" "opcode_max (Dummy a b) = b"
  "opcode_min (With_version i v) = opcode_min i" "opcode_max (With_version i v) = opcode_max i"
  by (simp_all add: opcode_min_def opcode_max_def)

text \<open>The invariant of the map: sorted, disjoint, non-empty ranges from \<open>prev\<close> on.\<close>

fun ranges_ok :: "nat \<Rightarrow> (nat \<times> 'r opcode_instr) list \<Rightarrow> bool" where
  "ranges_ok prev [] = (prev \<le> top_opcode)"
| "ranges_ok prev ((k, x) # xs) =
     (opcode_min x = k \<and> prev \<le> k \<and> k < opcode_max x \<and> opcode_max x \<le> top_opcode \<and> ranges_ok (opcode_max x) xs)"

text \<open>A completed table: its ranges follow each other without a gap up to the last opcode.\<close>

fun partition_from :: "nat \<Rightarrow> (nat \<times> 'r opcode_instr) list \<Rightarrow> bool" where
  "partition_from prev [] = (prev = top_opcode)"
| "partition_from prev ((k, x) # xs) =
     (k = prev \<and> opcode_min x = k \<and> k < opcode_max x \<and> partition_from (opcode_max x) xs)"

lemma ranges_ok_top: "ranges_ok prev l \<Longrightarrow> prev \<le> top_opcode"
  by (cases l) auto

lemma finalize_loop_partition:
  assumes "ranges_ok prev l"
  shows "\<exists>l'. finalize_loop prev l = Inr l' \<and> partition_from prev l' \<and>
    set l \<subseteq> set l' \<and> (\<forall>p \<in> set l'. p \<in> set l \<or> (\<exists>a b. snd p = Dummy a b))"
  using assms
proof (induction prev l rule: finalize_loop.induct)
  case (2 prev k x xs)
  from 2(1) [OF range_eq [of x, symmetric]] 2(2) obtain l' where l': "finalize_loop (opcode_max x) xs = Inr l'"
    "partition_from (opcode_max x) l'" "set xs \<subseteq> set l'" "\<forall>p \<in> set l'. p \<in> set xs \<or> (\<exists>a b. snd p = Dummy a b)"
    by (auto simp: range_eq)
  with 2(2) show ?case by (auto simp: range_eq)
qed auto

lemma partition_nth:
  assumes "partition_from prev l" "i < length l"
  shows "fst (l ! i) = opcode_min (snd (l ! i)) \<and>
    opcode_max (snd (l ! i)) = (if Suc i < length l then fst (l ! Suc i) else top_opcode)"
  using assms
proof (induction prev l arbitrary: i rule: partition_from.induct)
  case (2 prev k x xs)
  show ?case
  proof (cases i)
    case 0
    with 2 show ?thesis by (cases xs) auto
  next
    case (Suc j)
    with 2 show ?thesis by auto
  qed
qed simp

lemma lookup_loop_correct:
  assumes "i < j" "j \<le> length l" "fst (l ! i) \<le> opcode" "j < length l \<Longrightarrow> opcode < fst (l ! j)"
  shows "lookup_loop l opcode i j < length l \<and> fst (l ! lookup_loop l opcode i j) \<le> opcode \<and>
    (Suc (lookup_loop l opcode i j) < length l \<longrightarrow> opcode < fst (l ! Suc (lookup_loop l opcode i j)))"
  using assms
proof (induction l opcode i j rule: lookup_loop.induct)
  case (1 l opcode i j)
  let ?k = "(j + i) div 2"
  show ?case
  proof (cases "j - i > 1")
    case True
    then have "i < ?k" "?k < j" by auto
    with 1 True show ?thesis
      by (cases "fst (l ! ?k) \<le> opcode") (simp_all add: lookup_loop.simps [of l opcode i j] Let_def)
  next
    case False
    with 1(3) have "j = Suc i" by simp
    with 1 show ?thesis by (simp add: lookup_loop.simps)
  qed
qed

lemma partition_lookup:
  assumes "partition_from 0 l" "opcode < top_opcode"
  shows "l \<noteq> [] \<and> snd (l ! lookup_loop l opcode 0 (length l)) \<in> snd ` set l \<and>
    in_range opcode (snd (l ! lookup_loop l opcode 0 (length l)))"
proof -
  have "l \<noteq> []" using assms by auto
  moreover from this assms(1) have "fst (l ! 0) = 0" by (cases l) auto
  ultimately have "lookup_loop l opcode 0 (length l) < length l \<and> fst (l ! lookup_loop l opcode 0 (length l)) \<le> opcode \<and>
    (Suc (lookup_loop l opcode 0 (length l)) < length l \<longrightarrow> opcode < fst (l ! Suc (lookup_loop l opcode 0 (length l))))"
    by (intro lookup_loop_correct) auto
  with partition_nth [OF assms(1)] assms(2) \<open>l \<noteq> []\<close> show ?thesis
    by (auto simp: in_range_def)
qed

lemma ranges_ok_lower: "ranges_ok prev l \<Longrightarrow> (k, x) \<in> set l \<Longrightarrow> prev \<le> k"
  by (induction prev l rule: ranges_ok.induct) fastforce+

lemma ranges_ok_min: "ranges_ok prev l \<Longrightarrow> (k, x) \<in> set l \<Longrightarrow> opcode_min x = k \<and> k < opcode_max x \<and> opcode_max x \<le> top_opcode"
  by (induction prev l rule: ranges_ok.induct) auto

text \<open>The ranges of two different entries do not meet.\<close>

lemma ranges_ok_unique:
  assumes "ranges_ok prev l" "(k, x) \<in> set l" "(k', y) \<in> set l" "in_range opcode x" "in_range opcode y"
  shows "x = y"
  using assms
proof (induction prev l rule: ranges_ok.induct)
  case (2 prev k0 z xs)
  have "\<not> in_range opcode w" if "(j, w) \<in> set xs" "in_range opcode z" for j w
    using that 2(2) ranges_ok_lower [of "opcode_max z" xs j w] ranges_ok_min [of "opcode_max z" xs j w]
    by (auto simp: in_range_def)
  with 2 show ?case by auto
qed simp

lemma partition_ranges_ok: "partition_from prev l \<Longrightarrow> ranges_ok prev l"
proof (induction prev l rule: partition_from.induct)
  case (2 prev k x xs)
  then show ?case using ranges_ok_top [of "opcode_max x" xs] by auto
qed simp

section \<open>Insertion\<close>

definition ranges_end :: "nat \<Rightarrow> (nat \<times> 'r opcode_instr) list \<Rightarrow> nat" where
  "ranges_end prev l = (if l = [] then prev else opcode_max (snd (last l)))"

lemma ranges_ok_append:
  "ranges_ok prev (xs @ ys) \<longleftrightarrow> ranges_ok prev xs \<and> ranges_ok (ranges_end prev xs) ys"
  by (induction prev xs rule: ranges_ok.induct) (auto simp: ranges_end_def dest: ranges_ok_top)

lemma ranges_ok_restart:
  "ranges_ok p l \<Longrightarrow> (l = [] \<Longrightarrow> q \<le> top_opcode) \<Longrightarrow> (l \<noteq> [] \<Longrightarrow> q \<le> fst (hd l)) \<Longrightarrow> ranges_ok q l"
  by (cases l) auto

lemma ranges_ok_max_le: "ranges_ok prev l \<Longrightarrow> (k, x) \<in> set l \<Longrightarrow> opcode_max x \<le> ranges_end prev l"
proof (induction prev l rule: ranges_ok.induct)
  case (2 prev j y ys)
  have "opcode_max y \<le> opcode_max (snd (last ys))" if "ys \<noteq> []"
  proof -
    from that have "(fst (last ys), snd (last ys)) \<in> set ys" by simp
    with 2(2) ranges_ok_lower [of "opcode_max y" ys] ranges_ok_min [of "opcode_max y" ys] show ?thesis
      by fastforce
  qed
  with 2 show ?case by (auto simp: ranges_end_def split: if_splits)
qed simp

definition overlaps :: "'r opcode_instr \<Rightarrow> 'r opcode_instr \<Rightarrow> bool" where
  "overlaps x y = (opcode_min x < opcode_max y \<and> opcode_min y < opcode_max x)"

definition has_overlap :: "'r opcode_instr \<Rightarrow> (nat \<times> 'r opcode_instr) list \<Rightarrow> bool" where
  "has_overlap i l = list_ex (\<lambda>(_, x). overlaps x i) l"

lemma insert_bool_correct:
  assumes ok: "ranges_ok 0 (instructions t)" and "\<not> is_final t"
    and i: "opcode_min i < opcode_max i" "opcode_max i \<le> top_opcode"
  shows "if has_overlap i (instructions t) then insert_bool i t = Inr (False, t)
    else \<exists>l. insert_bool i t = Inr (True, t\<lparr>instructions := l\<rparr>) \<and> ranges_ok 0 l \<and>
      set l = insert (opcode_min i, i) (set (instructions t))"
proof -
  define below where "below = takeWhile (\<lambda>(k, _). k < opcode_min i) (instructions t)"
  define above where "above = dropWhile (\<lambda>(k, _). k < opcode_min i) (instructions t)"
  have split: "instructions t = below @ above" by (simp add: below_def above_def)
  note okb = ok [unfolded split ranges_ok_append]
  have head: "opcode_min i \<le> fst (hd above)" if "above \<noteq> []"
    using hd_dropWhile [of "\<lambda>(k, _). k < opcode_min i" "instructions t"] that by (auto simp: above_def split: prod.splits)
  have above: "opcode_min x = k \<and> k < opcode_max x \<and> fst (hd above) \<le> k" if "(k, x) \<in> set above" for k x
    using that okb ranges_ok_min [of _ above k x] ranges_ok_lower [of "fst (hd above)" above k x]
      ranges_ok_restart [of "ranges_end 0 below" above "fst (hd above)"] by fastforce
  have below: "opcode_min x = k \<and> k < opcode_min i \<and> opcode_max x \<le> ranges_end 0 below" if "(k, x) \<in> set below" for k x
    using that okb ranges_ok_min [of 0 below k x] ranges_ok_max_le [of 0 below k x] set_takeWhileD
    by (fastforce simp: below_def)
  let ?A = "above \<noteq> [] \<and> fst (hd above) < opcode_max i" and ?B = "ranges_end 0 below > opcode_min i"
  have last: "(fst (last below), snd (last below)) \<in> set below" if "below \<noteq> []" using that by simp
  have hd: "(fst (hd above), snd (hd above)) \<in> set above" if "above \<noteq> []" using that by simp
  have "?A \<Longrightarrow> overlaps (snd (hd above)) i" using above [OF hd] head i(1) by (auto simp: overlaps_def)
  moreover have "?B \<Longrightarrow> below \<noteq> [] \<and> overlaps (snd (last below)) i"
    using below [OF last] i(1) by (cases "below = []") (auto simp: overlaps_def ranges_end_def)
  moreover have "?A" if "(k, x) \<in> set above" "overlaps x i" for k x
    using above [OF that(1)] that by (auto simp: overlaps_def)
  moreover have "?B" if "(k, x) \<in> set below" "overlaps x i" for k x
    using below [OF that(1)] that by (auto simp: overlaps_def)
  moreover have "has_overlap i (instructions t) \<longleftrightarrow> (\<exists>k x. ((k, x) \<in> set below \<or> (k, x) \<in> set above) \<and> overlaps x i)"
    by (auto simp: has_overlap_def split list_ex_iff)
  ultimately have iff: "has_overlap i (instructions t) \<longleftrightarrow> ?A \<or> ?B"
    using hd last by blast
  have prev: "opcode_min (snd (last below)) = fst (last below) \<and> fst (last below) < opcode_max (snd (last below))"
    if "below \<noteq> []" using okb ranges_ok_min [OF _ last [OF that]] by blast
  have new: "ranges_ok 0 (below @ (opcode_min i, i) # above)" if "\<not> ?A" "\<not> ?B"
    using okb that i by (auto simp: ranges_ok_append not_less intro: ranges_ok_restart)
  show ?thesis
  proof (cases "?A \<or> ?B")
    case True
    then show ?thesis
      using iff assms(2) i prev
      unfolding insert_bool_def range_eq prod.case below_def [symmetric] above_def [symmetric] Let_def
      by (cases "below = []") (auto simp: ranges_end_def)
  next
    case False
    then have "insert_bool i t = Inr (True, t\<lparr>instructions := below @ (opcode_min i, i) # above\<rparr>)"
      using assms(2) i prev
      unfolding insert_bool_def range_eq prod.case below_def [symmetric] above_def [symmetric] Let_def
      by (cases "below = []") (auto simp: ranges_end_def)
    moreover have "set (below @ (opcode_min i, i) # above) = insert (opcode_min i, i) (set (instructions t))"
      by (simp add: split)
    moreover have "\<not> has_overlap i (instructions t)" using iff False by blast
    ultimately show ?thesis using False new by auto
  qed
qed

text \<open>Registering a list of instructions.\<close>

definition range_ok :: "'r opcode_instr \<Rightarrow> bool" where
  "range_ok i = (opcode_min i < opcode_max i \<and> opcode_max i \<le> top_opcode)"

lemma register_all_ok:
  assumes "register_all ms t = Inr t'" "ranges_ok 0 (instructions t)" "\<not> is_final t"
  shows "ranges_ok 0 (instructions t') \<and> \<not> is_final t' \<and>
    snd ` set (instructions t') = snd ` set (instructions t) \<union> {i. Inr i \<in> set ms}"
  using assms
proof (induction ms arbitrary: t)
  case (Cons m ms)
  then obtain i t1 where m: "m = Inr i" and ins: "insert_instr i t = Inr t1" and rest: "register_all ms t1 = Inr t'"
    by (auto simp: rsimps)
  have r: "opcode_min i < opcode_max i" "opcode_max i \<le> top_opcode"
    using ins Cons.prems(3) by (auto simp: insert_instr_def insert_bool_def range_eq rsimps split: if_splits)
  obtain l where "t1 = t\<lparr>instructions := l\<rparr>" "ranges_ok 0 l" "set l = insert (opcode_min i, i) (set (instructions t))"
    using ins insert_bool_correct [OF Cons.prems(2,3) r] by (auto simp: insert_instr_def rsimps split: if_splits)
  with Cons.IH [OF rest] Cons.prems m show ?case by auto
qed simp

text \<open>A registered table can be completed, and a search in it finds the instruction of the opcode.\<close>

definition complete_table :: "(vm_fault + 'r opcode_instr) list \<Rightarrow> vm_fault + 'r opcode_table" where
  "complete_table ms = rbind (register_all ms empty_table) finalize"

lemma complete_table_ok:
  assumes "register_all ms empty_table = Inr t0"
  obtains t where "complete_table ms = Inr t" "is_final t" "partition_from 0 (instruction_list t)"
    "\<And>i. Inr i \<in> set ms \<Longrightarrow> i \<in> snd ` set (instruction_list t)"
    "\<And>i. i \<in> snd ` set (instruction_list t) \<Longrightarrow> Inr i \<in> set ms \<or> (\<exists>a b. i = Dummy a b)"
proof -
  have ok: "ranges_ok 0 (instructions t0) \<and> \<not> is_final t0 \<and> snd ` set (instructions t0) = {i. Inr i \<in> set ms}"
    using register_all_ok [OF assms] by (simp add: empty_table_def)
  obtain l where l: "finalize_loop 0 (instructions t0) = Inr l" "partition_from 0 l" "set (instructions t0) \<subseteq> set l"
    "\<forall>p \<in> set l. p \<in> set (instructions t0) \<or> (\<exists>a b. snd p = Dummy a b)"
    using finalize_loop_partition [OF conjunct1 [OF ok]] by blast
  let ?t = "t0\<lparr>instruction_list := l, is_final := True\<rparr>"
  show ?thesis
  proof (rule that [of ?t])
    show "complete_table ms = Inr ?t" using assms ok l by (simp add: complete_table_def finalize_def)
    show "i \<in> snd ` set (instruction_list ?t)" if "Inr i \<in> set ms" for i
    proof -
      have "i \<in> snd ` set (instructions t0)" unfolding ok [THEN conjunct2, THEN conjunct2] using that by simp
      then show ?thesis using l(3) by auto
    qed
    show "Inr i \<in> set ms \<or> (\<exists>a b. i = Dummy a b)" if "i \<in> snd ` set (instruction_list ?t)" for i
    proof -
      from that obtain p where p: "p \<in> set l" "i = snd p" by auto
      with l(4) have "i \<in> snd ` set (instructions t0) \<or> (\<exists>a b. i = Dummy a b)" by blast
      then show ?thesis unfolding ok [THEN conjunct2, THEN conjunct2] by simp
    qed
  qed (use l in auto)
qed

lemma prefetch_opcode_less: "fst (prefetch_opcode cs) < top_opcode"
proof -
  define n where "n = min max_opcode_bits (length cs)"
  have "bits_to_nat (take n cs) < 2 ^ n" using bits_to_nat_less [of "take n cs"] by (simp add: n_def min_def split: if_splits)
  then have "bits_to_nat (take n cs) * 2 ^ (max_opcode_bits - n) < 2 ^ n * 2 ^ (max_opcode_bits - n)" by simp
  also have "\<dots> = top_opcode" unfolding power_add [symmetric] top_opcode_def by (simp add: n_def)
  finally show ?thesis by (simp add: prefetch_opcode_def n_def Let_def)
qed

section \<open>Instructions that keep the machine well-formed\<close>

text \<open>No instruction gives gas back or changes the version.\<close>

definition spent :: "'r vm_state \<Rightarrow> 'r vm_state \<Rightarrow> bool" where
  "spent st st' = (gas_remaining (gas st') \<le> gas_remaining (gas st) \<and> global_version st' = global_version st)"

definition never_refunds :: "('r vm_state \<Rightarrow> 'r vm_result) \<Rightarrow> bool" where
  "never_refunds f = (\<forall>st st'. f st = Inr st' \<longrightarrow> spent st st')"

lemma spent_refl [simp]: "spent st st" "spent st (st\<lparr>stack := s\<rparr>)"
  by (simp_all add: spent_def)

lemma spent_stack [simp]: "spent st (st'\<lparr>stack := s\<rparr>) = spent st st'" "spent (st\<lparr>stack := s\<rparr>) st' = spent st st'"
  by (simp_all add: spent_def)

lemma spent_trans: "spent a b \<Longrightarrow> spent b c \<Longrightarrow> spent a c"
  by (auto simp: spent_def)

lemma consume_gas_spent: "consume_gas n st = Inr st' \<Longrightarrow> 0 \<le> n \<Longrightarrow> spent st st'"
  by (auto simp: consume_gas_def gas_consume_chk_def gas_consume_def spent_def Let_def rsimps split: if_splits)

lemma consume_gas_exact:
  "consume_gas n st = Inr st' \<Longrightarrow> gas_remaining (gas st') = gas_remaining (gas st) - n \<and>
    global_version st' = global_version st \<and> stack st' = stack st"
  by (auto simp: consume_gas_def gas_consume_chk_def gas_consume_def Let_def rsimps split: if_splits)

lemma never_refundsI: "(\<And>st st'. f st = Inr st' \<Longrightarrow> spent st st') \<Longrightarrow> never_refunds f"
  by (simp add: never_refunds_def)

lemma never_refundsD: "never_refunds f \<Longrightarrow> f st = Inr st' \<Longrightarrow> spent st st'"
  by (simp add: never_refunds_def)

lemma on_stack_never_refunds [simp]: "never_refunds (on_stack f)"
  by (auto simp: never_refunds_def on_stack_def rsimps)

text \<open>
  What the machine needs of an instruction that is in its table: bits to fetch, and an action that on
  every argument that the opcodes of its range can have is safe and does not give gas back.
\<close>

definition action_ok :: "('r vm_state \<Rightarrow> 'r vm_result) \<Rightarrow> bool" where
  "action_ok f = (instr_safe f \<and> never_refunds f)"

definition code_action_ok :: "(bits \<Rightarrow> 'r vm_state \<Rightarrow> 'r code_result) \<Rightarrow> bits \<Rightarrow> nat \<Rightarrow> bool" where
  "code_action_ok f cs bound =
     (\<forall>st. vm_ok st \<longrightarrow> faultless (\<lambda>(st', cs'). vm_ok st' \<and> spent st st' \<and> length cs' \<le> bound) (f cs st))"

fun instr_ok :: "'r opcode_instr \<Rightarrow> bool" where
  "instr_ok (Dummy a b) = True"
| "instr_ok (Simple a b opc name exec) =
     (0 < opc \<and> (\<forall>args cs. code_action_ok (exec args opc) cs (length cs)))"
| "instr_ok (Simplest a b opc name exec) = (0 < opc \<and> action_ok exec)"
| "instr_ok (Fixed a b opc tot dump exec) =
     (0 < tot \<and> (\<forall>opcode. a \<le> opcode \<and> opcode < b \<longrightarrow> action_ok (exec (opcode div 2 ^ (max_opcode_bits - tot)))))"
| "instr_ok (Ext a b opc tot dump exec len) =
     (0 < tot \<and> (\<forall>opcode cs. a \<le> opcode \<and> opcode < b \<and> tot \<le> length cs \<longrightarrow>
        code_action_ok (exec (opcode div 2 ^ (max_opcode_bits - tot)) tot) cs (length cs - 1)))"
| "instr_ok (With_version i v) = instr_ok i"

lemma faultless_consume_gas_exact:
  assumes "\<And>st'. \<lbrakk>gas_remaining (gas st') = gas_remaining (gas st) - n; global_version st' = global_version st;
    stack st' = stack st\<rbrakk> \<Longrightarrow> P st'"
  shows "faultless P (consume_gas n st)"
proof (cases "consume_gas n st")
  case (Inl f)
  then show ?thesis
    by (auto simp: consume_gas_def gas_consume_chk_def Let_def rsimps split: if_splits)
qed (use assms consume_gas_exact in auto)

text \<open>One dispatched instruction: no undefined behaviour, at least the price of an instruction, and progress in the code.\<close>

definition step_ok :: "'r vm_state \<Rightarrow> bits \<Rightarrow> 'r vm_state \<times> bits \<Rightarrow> bool" where
  "step_ok st cs r =
     (vm_ok (fst r) \<and> gas_remaining (gas (fst r)) + gas_per_instr \<le> gas_remaining (gas st) \<and>
      global_version (fst r) = global_version st \<and> length (snd r) < length cs)"

lemma action_ok_faultless:
  assumes "action_ok f" "vm_ok st"
  shows "faultless (\<lambda>st'. vm_ok st' \<and> spent st st') (f st)"
  using assms by (auto simp: action_ok_def faultless_def dest: instr_safeD never_refundsD split: sum.splits)

lemma code_action_ok_faultless:
  assumes "code_action_ok f cs bound" "vm_ok st"
  shows "faultless (\<lambda>(st', cs'). vm_ok st' \<and> spent st st' \<and> length cs' \<le> bound) (f cs st)"
  using assms by (simp add: code_action_ok_def)

lemma faultless_charge:
  assumes "\<And>st'. \<lbrakk>\<not> n < w; gas_remaining (gas st') = gas_remaining (gas st) - c; global_version st' = global_version st;
      stack st' = stack st\<rbrakk> \<Longrightarrow> faultless P (f st')"
  shows "faultless P (rbind (consume_gas c st) (\<lambda>st. if n < w then Inl (Vm_error Inv_opcode) else f st))"
  using assms by (auto intro!: faultless_rbind faultless_consume_gas_exact)

lemma step_okI:
  assumes "vm_ok st1" "spent st' st1" "length cs1 < length cs"
    "gas_remaining (gas st') = gas_remaining (gas st) - (gas_per_instr + int w * gas_per_bit)"
    "global_version st' = global_version st"
  shows "step_ok st cs (st1, cs1)"
  using assms by (auto simp: step_ok_def spent_def gas_per_bit_def)

lemma dispatch_instr_ok:
  fixes i :: "'r opcode_instr"
  assumes "instr_ok i" "in_range opcode i" "vm_ok st" "n \<le> length cs"
  shows "faultless (step_ok st cs) (dispatch_instr i opcode n cs st)"
  using assms
proof (induction i opcode n cs st rule: dispatch_instr.induct)
  case (1 a b opcode n cs st)
  then show ?case by (auto simp: dispatch_dummy_def intro!: faultless_rbind faultless_consume_gas)
next
  case (2 a b opc name exec opcode n cs st)
  show ?case
    unfolding dispatch_instr.simps dispatch_defs
  proof (rule faultless_charge)
    fix st' :: "'r vm_state"
    assume st': "\<not> n < opc" "stack st' = stack st" "global_version st' = global_version st"
      "gas_remaining (gas st') = gas_remaining (gas st) - (gas_per_instr + int opc * gas_per_bit)"
    let ?x = "exec (opcode div 2 ^ (max_opcode_bits - opc)) opc"
    have "code_action_ok ?x (drop opc cs) (length (drop opc cs))"
      using 2(1) unfolding instr_ok.simps by blast
    from code_action_ok_faultless [OF this, of st'] st' 2
    have "faultless (\<lambda>(st1, cs1). vm_ok st1 \<and> spent st' st1 \<and> length cs1 \<le> length (drop opc cs)) (?x (drop opc cs) st')"
      by (simp add: vm_ok_def)
    then show "faultless (step_ok st cs) (?x (drop opc cs) st')"
      by (rule faultless_mono) (use st' 2 in \<open>auto intro!: step_okI\<close>)
  qed
next
  case (3 a b opc name exec opcode n cs st)
  then show ?case
    unfolding dispatch_instr.simps dispatch_defs
    by (intro faultless_charge faultless_rbind faultless_mono [OF action_ok_faultless])
      (auto simp: vm_ok_def intro!: step_okI)
next
  case (4 a b opc tot dump exec opcode n cs st)
  then show ?case
    unfolding dispatch_instr.simps dispatch_defs
    by (intro faultless_charge faultless_rbind faultless_mono [OF action_ok_faultless])
      (auto simp: in_range_def opcode_min_def opcode_max_def vm_ok_def intro!: step_okI)
next
  case (5 a b opc tot dump exec len opcode n cs st)
  show ?case
    unfolding dispatch_instr.simps dispatch_defs
  proof (rule faultless_charge)
    fix st' :: "'r vm_state"
    assume st': "\<not> n < tot" "stack st' = stack st" "global_version st' = global_version st"
      "gas_remaining (gas st') = gas_remaining (gas st) - (gas_per_instr + int tot * gas_per_bit)"
    let ?x = "exec (opcode div 2 ^ (max_opcode_bits - tot)) tot"
    have "code_action_ok ?x cs (length cs - 1)"
      using 5 st'(1) by (simp add: in_range_def opcode_min_def opcode_max_def)
    from code_action_ok_faultless [OF this, of st'] st' 5
    have "faultless (\<lambda>(st1, cs1). vm_ok st1 \<and> spent st' st1 \<and> length cs1 \<le> length cs - 1) (?x cs st')"
      by (simp add: vm_ok_def)
    then show "faultless (step_ok st cs) (?x cs st')"
      by (rule faultless_mono) (use st' 5 in \<open>auto intro!: step_okI\<close>)
  qed
next
  case (6 i v opcode n cs st)
  then show ?case by (auto intro!: faultless_rbind faultless_consume_gas simp: in_range_def)
qed

section \<open>Instruction sets\<close>

text \<open>
  The contract between the machine and the functions that register groups of instructions: the ranges
  of the instructions can all be inserted, and every instruction is safe.
\<close>

locale instruction_set =
  fixes ms :: "(vm_fault + 'r opcode_instr) list"
  assumes registers: "\<exists>t. register_all ms empty_table = Inr t"
    and instrs_ok: "Inr i \<in> set ms \<Longrightarrow> instr_ok i"
begin

text \<open>The completed table sends every opcode to the instruction of its range, or to a dummy if there is none.\<close>

lemma completes: "\<exists>t. complete_table ms = Inr t \<and> is_final t"
  using registers complete_table_ok [of ms] by metis

lemma lookup_finds:
  assumes "complete_table ms = Inr t" "opcode < top_opcode"
  shows "\<exists>i. lookup_instr t opcode = Inr i \<and> in_range opcode i \<and> (Inr i \<in> set ms \<or> (\<exists>a b. i = Dummy a b)) \<and>
    (\<forall>j. Inr j \<in> set ms \<and> in_range opcode j \<longrightarrow> i = j)"
proof -
  obtain t0 where "register_all ms empty_table = Inr t0" using registers by blast
  then obtain t1 where t1: "complete_table ms = Inr t1" "is_final t1" "partition_from 0 (instruction_list t1)"
    "\<And>i. Inr i \<in> set ms \<Longrightarrow> i \<in> snd ` set (instruction_list t1)"
    "\<And>i. i \<in> snd ` set (instruction_list t1) \<Longrightarrow> Inr i \<in> set ms \<or> (\<exists>a b. i = Dummy a b)"
    by (rule complete_table_ok) blast
  with assms(1) have [simp]: "t1 = t" by simp
  note p = partition_lookup [OF t1(3) assms(2)]
  define i where "i = snd (instruction_list t ! lookup_loop (instruction_list t) opcode 0 (length (instruction_list t)))"
  have i: "lookup_instr t opcode = Inr i" "i \<in> snd ` set (instruction_list t)" "in_range opcode i"
    using p by (simp_all add: lookup_instr_def i_def)
  have "i = j" if j: "Inr j \<in> set ms" "in_range opcode j" for j
  proof -
    obtain k where "(k, i) \<in> set (instruction_list t)" using i(2) by auto
    moreover obtain k' where "(k', j) \<in> set (instruction_list t)" using t1(4) [OF j(1)] by auto
    ultimately show ?thesis
      using ranges_ok_unique [OF partition_ranges_ok [OF t1(3)]] i(3) j(2) by simp
  qed
  with i t1(5) show ?thesis by auto
qed

lemma dispatch_safe:
  assumes "complete_table ms = Inr t" "vm_ok st"
  shows "faultless (step_ok st cs) (dispatch t cs st)"
proof -
  obtain opcode n where op: "prefetch_opcode cs = (opcode, n)" by fastforce
  then have "opcode < top_opcode" "n \<le> length cs"
    using prefetch_opcode_less [of cs] by (auto simp: prefetch_opcode_def Let_def)
  with lookup_finds [OF assms(1)] obtain i where "lookup_instr t opcode = Inr i" "in_range opcode i" "instr_ok i"
    using instrs_ok by (metis instr_ok.simps(1))
  moreover have "is_final t" using completes assms(1) by auto
  ultimately show ?thesis
    using dispatch_instr_ok [of i opcode st n cs] assms(2) \<open>n \<le> length cs\<close> op by (simp add: dispatch_def)
qed

lemma step_safe:
  assumes "complete_table ms = Inr t" "vm_ok st"
  shows "faultless (\<lambda>r. step_ok st cs r \<and> 0 \<le> gas_remaining (gas (fst r))) (step_code t cs st)"
  unfolding step_code_def
  by (rule faultless_rbind, rule faultless_mono [OF dispatch_safe [OF assms]])
    (auto simp: gas_check_def rguard_def)

text \<open>
  A run: no undefined behaviour, at least the price of an instruction for every instruction, and all the
  code is executed when there are as many rounds as there are bits.
\<close>

lemma run_safe:
  assumes "complete_table ms = Inr t" "vm_ok st" "0 \<le> gas_remaining (gas st)"
  shows "faultless (\<lambda>(k, st', cs'). vm_ok st' \<and> 0 \<le> gas_remaining (gas st') \<and>
      gas_remaining (gas st') + gas_per_instr * int k \<le> gas_remaining (gas st) \<and>
      (length cs \<le> fuel \<longrightarrow> cs' = [])) (run_code t fuel cs st)"
  using assms(2,3)
proof (induction fuel arbitrary: cs st)
  case (Suc fuel)
  show ?case
  proof (cases "cs = []")
    case False
    have "faultless (\<lambda>(st', cs'). faultless (\<lambda>(k, st', cs'). vm_ok st' \<and> 0 \<le> gas_remaining (gas st') \<and>
        gas_remaining (gas st') + gas_per_instr * int k \<le> gas_remaining (gas st) \<and>
        (length cs \<le> Suc fuel \<longrightarrow> cs' = []))
        (rbind (run_code t fuel cs' st') (\<lambda>(k, r). Inr (Suc k, r)))) (step_code t cs st)"
    proof (rule faultless_mono [OF step_safe [OF assms(1) Suc.prems(1)]], clarify, rule faultless_rbind)
      fix st' cs'
      assume step: "step_ok st cs (st', cs')" "0 \<le> gas_remaining (gas (fst (st', cs')))"
      then have "vm_ok st'" "0 \<le> gas_remaining (gas st')" by (auto simp: step_ok_def)
      from Suc.IH [OF this, of cs'] step False show "faultless (\<lambda>x. faultless (\<lambda>(k, st', cs'). vm_ok st' \<and> 0 \<le> gas_remaining (gas st') \<and>
        gas_remaining (gas st') + gas_per_instr * int k \<le> gas_remaining (gas st) \<and>
        (length cs \<le> Suc fuel \<longrightarrow> cs' = [])) (case x of (k, r) \<Rightarrow> Inr (Suc k, r))) (run_code t fuel cs' st')"
        by (elim faultless_mono) (auto simp: step_ok_def gas_per_instr_def)
    qed
    with False show ?thesis by (auto intro: faultless_rbind simp: case_prod_beta')
  qed (use Suc.prems in simp)
qed simp

text \<open>As many rounds as the code has bits, or as the gas can pay for, are enough.\<close>

lemma step_InrD:
  assumes "complete_table ms = Inr t" "vm_ok st" "step_code t cs st = Inr (st', cs')"
  shows "vm_ok st' \<and> length cs' < length cs \<and> 0 \<le> gas_remaining (gas st') \<and>
    gas_remaining (gas st') + gas_per_instr \<le> gas_remaining (gas st)"
  using step_safe [OF assms(1,2), of cs] assms(3) by (simp add: step_ok_def)

lemma run_fuel_code:
  assumes "complete_table ms = Inr t" "vm_ok st" "length cs \<le> fuel"
  shows "run_code t fuel cs st = run_code t (length cs) cs st"
  using assms(2,3)
proof (induction "length cs" arbitrary: cs st fuel rule: less_induct)
  case less
  show ?case
  proof (cases "cs = []")
    case True
    then show ?thesis by (cases fuel) auto
  next
    case False
    then obtain k f where k: "length cs = Suc k" "fuel = Suc f" "k \<le> f" using less.prems(2) by (cases cs; cases fuel) auto
    have "run_code t f cs' st' = run_code t k cs' st'" if st: "step_code t cs st = Inr (st', cs')" for st' cs'
    proof -
      note s = step_InrD [OF assms(1) less.prems(1) st]
      have "run_code t f cs' st' = run_code t (length cs') cs' st'" "run_code t k cs' st' = run_code t (length cs') cs' st'"
        by (rule less.hyps; use s k in simp)+
      then show ?thesis by simp
    qed
    then show ?thesis using k False by (cases "step_code t cs st") auto
  qed
qed

lemma run_fuel_gas:
  assumes "complete_table ms = Inr t" "vm_ok st" "nat (gas_remaining (gas st)) div 10 < fuel"
  shows "run_code t fuel cs st = run_code t (Suc (nat (gas_remaining (gas st)) div 10)) cs st"
  using assms(2,3)
proof (induction "nat (gas_remaining (gas st)) div 10" arbitrary: cs st fuel rule: less_induct)
  case less
  let ?n = "nat (gas_remaining (gas st)) div 10"
  obtain f where f: "fuel = Suc f" "?n \<le> f" using less.prems(2) by (cases fuel) auto
  have "run_code t f cs' st' = run_code t ?n cs' st'" if st: "step_code t cs st = Inr (st', cs')" for st' cs'
  proof -
    note s = step_InrD [OF assms(1) less.prems(1) st]
    let ?m = "nat (gas_remaining (gas st')) div 10"
    have "nat (gas_remaining (gas st')) + 10 \<le> nat (gas_remaining (gas st))" using s unfolding gas_per_instr_def by linarith
    from div_le_mono [OF this, of 10] have m: "?m < ?n" by simp
    then have "run_code t f cs' st' = run_code t (Suc ?m) cs' st'" "run_code t ?n cs' st' = run_code t (Suc ?m) cs' st'"
      by (rule less.hyps; use s f m in simp)+
    then show ?thesis by simp
  qed
  then show ?case using f by (cases "step_code t cs st") auto
qed

lemma run_fuel:
  assumes "complete_table ms = Inr t" "vm_ok st"
    and "length cs \<le> fuel \<or> nat (gas_remaining (gas st)) div 10 < fuel"
  shows "run_code t fuel cs st = run_code t (length cs) cs st"
proof -
  let ?F = "fuel + length cs + Suc (nat (gas_remaining (gas st)) div 10)"
  have "run_code t ?F cs st = run_code t (length cs) cs st" using assms(1,2) by (rule run_fuel_code) simp
  moreover have "run_code t ?F cs st = run_code t (Suc (nat (gas_remaining (gas st)) div 10)) cs st"
    using assms(1,2) by (rule run_fuel_gas) simp
  ultimately show ?thesis using assms(3) run_fuel_code [OF assms(1,2)] run_fuel_gas [OF assms(1,2)] by metis
qed

end

text \<open>
  Instructions that leave the code right behind themselves, where the disassembler and the length computation
  see the end of the instruction too.
\<close>

fun instr_linear :: "'r opcode_instr \<Rightarrow> bool" where
  "instr_linear (Dummy a b) = True"
| "instr_linear (Simple a b opc name exec) = False"
| "instr_linear (Simplest a b opc name exec) = True"
| "instr_linear (Fixed a b opc tot dump exec) = True"
| "instr_linear (Ext a b opc tot dump exec len) =
     (\<forall>args cs st st' cs'. exec args tot cs st = Inr (st', cs') \<longrightarrow>
        cs' = drop (len cs args tot) cs \<and> len cs args tot \<le> length cs \<and> snd (dump cs args tot) = cs')"
| "instr_linear (With_version i v) = instr_linear i"

lemma dispatch_instr_linear:
  assumes "instr_linear i" "n \<le> length cs" "dispatch_instr i opcode n cs st = Inr (st', cs')"
  shows "cs' = drop (opcode_len i opcode n cs) cs \<and> opcode_len i opcode n cs \<le> length cs \<and>
    snd (dump_opcode i opcode n cs) = cs'"
  using assms
  by (induction i) (auto simp: dispatch_defs dump_defs len_defs rsimps split: if_splits)

locale linear_instruction_set = instruction_set ms for ms :: "(vm_fault + 'r opcode_instr) list" +
  assumes linear: "Inr i \<in> set ms \<Longrightarrow> instr_linear i"
begin

lemma lengths_agree:
  assumes "complete_table ms = Inr t" "vm_ok st" "dispatch t cs st = Inr (st', cs')"
  shows "\<exists>n text. instr_len t cs = Inr n \<and> 0 < n \<and> n \<le> length cs \<and> cs' = drop n cs \<and> dump_instr t cs = Inr (text, cs')"
proof -
  obtain opcode n where op: "prefetch_opcode cs = (opcode, n)" by fastforce
  then have "opcode < top_opcode" "n \<le> length cs"
    using prefetch_opcode_less [of cs] by (auto simp: prefetch_opcode_def Let_def)
  from lookup_finds [OF assms(1) this(1)] obtain i
    where i: "lookup_instr t opcode = Inr i" "Inr i \<in> set ms \<or> (\<exists>a b. i = Dummy a b)" by blast
  then have "instr_linear i" using linear by auto
  moreover have fin: "is_final t" using completes assms(1) by auto
  with assms(3) op i(1) have "dispatch_instr i opcode n cs st = Inr (st', cs')" by (simp add: dispatch_def)
  ultimately have d: "cs' = drop (opcode_len i opcode n cs) cs" "opcode_len i opcode n cs \<le> length cs"
    "snd (dump_opcode i opcode n cs) = cs'"
    using dispatch_instr_linear [of i n cs opcode st st' cs'] \<open>n \<le> length cs\<close> by auto
  have "length cs' < length cs" using dispatch_safe [OF assms(1,2), of cs] assms(3) by (simp add: step_ok_def)
  with d(1) have "0 < opcode_len i opcode n cs" by (cases "opcode_len i opcode n cs") auto
  moreover have "instr_len t cs = Inr (opcode_len i opcode n cs)" "dump_instr t cs = Inr (dump_opcode i opcode n cs)"
    using fin op i(1) by (simp_all add: instr_len_def dump_instr_def)
  moreover have "dump_opcode i opcode n cs = (fst (dump_opcode i opcode n cs), cs')" using d(3) by (metis prod.collapse)
  ultimately show ?thesis using d(1,2) by metis
qed

end

section \<open>Lists of instructions in ascending order\<close>

text \<open>Instructions given in the order of their opcodes can be registered.\<close>

fun ascending :: "nat \<Rightarrow> (vm_fault + 'r opcode_instr) list \<Rightarrow> bool" where
  "ascending prev [] = True"
| "ascending prev (m # ms) =
     (case m of
        Inl _ \<Rightarrow> False
      | Inr i \<Rightarrow> prev \<le> opcode_min i \<and> opcode_min i < opcode_max i \<and> opcode_max i \<le> top_opcode \<and>
                 ascending (opcode_max i) ms)"

lemma sorted_wrt_mset:
  assumes "symp R"
  shows "mset xs = mset ys \<Longrightarrow> sorted_wrt R xs \<Longrightarrow> sorted_wrt R ys"
proof (induction xs arbitrary: ys)
  case (Cons x xs)
  then have "x \<in> set ys" by (metis list.set_intros(1) mset_eq_setD)
  then obtain us vs where ys: "ys = us @ x # vs" by (meson split_list)
  with Cons.prems have m: "mset xs = mset (us @ vs)" by simp
  then have "set xs = set us \<union> set vs" by (metis mset_eq_setD set_append)
  with Cons.prems(2) have x: "\<forall>u \<in> set us \<union> set vs. R x u \<and> R u x" using sympD [OF assms] by auto
  from Cons.IH [OF m] Cons.prems(2) have "sorted_wrt R (us @ vs)" by simp
  with x show ?case by (auto simp: ys sorted_wrt_append)
qed simp

definition apart :: "vm_fault + 'r opcode_instr \<Rightarrow> vm_fault + 'r opcode_instr \<Rightarrow> bool" where
  "apart m m' = (\<forall>i j. m = Inr i \<and> m' = Inr j \<longrightarrow> \<not> overlaps i j)"

definition mk_range_ok :: "vm_fault + 'r opcode_instr \<Rightarrow> bool" where
  "mk_range_ok m = (case m of Inl _ \<Rightarrow> False | Inr i \<Rightarrow> range_ok i)"

lemma apart_symp: "symp apart"
  by (auto simp: symp_def apart_def overlaps_def)

lemma register_apart:
  assumes "sorted_wrt apart ms" "list_all mk_range_ok ms" "ranges_ok 0 (instructions t)" "\<not> is_final t"
    and "\<And>i. Inr i \<in> set ms \<Longrightarrow> \<not> has_overlap i (instructions t)"
  shows "\<exists>t'. register_all ms t = Inr t'"
  using assms
proof (induction ms arbitrary: t)
  case (Cons m ms)
  then obtain i where m: "m = Inr i" "opcode_min i < opcode_max i" "opcode_max i \<le> top_opcode"
    by (auto simp: mk_range_ok_def range_ok_def split: sum.splits)
  from insert_bool_correct [OF Cons.prems(3,4) m(2,3)] Cons.prems(5) [of i] m(1)
  obtain l where l: "insert_bool i t = Inr (True, t\<lparr>instructions := l\<rparr>)" "ranges_ok 0 l"
    "set l = insert (opcode_min i, i) (set (instructions t))" by auto
  have "\<not> has_overlap j l" if "Inr j \<in> set ms" for j
    using Cons.prems(1) Cons.prems(5) [of j] that m(1)
    by (auto simp: has_overlap_def list_ex_iff l(3) apart_def)
  with Cons.IH [of "t\<lparr>instructions := l\<rparr>"] Cons.prems l m(1) show ?case
    by (auto simp: insert_instr_def)
qed simp

lemma ascending_apart: "ascending prev ms \<Longrightarrow>
  sorted_wrt apart ms \<and> list_all mk_range_ok ms \<and> (\<forall>i. Inr i \<in> set ms \<longrightarrow> prev \<le> opcode_min i)"
  by (induction prev ms rule: ascending.induct)
    (fastforce simp: apart_def overlaps_def mk_range_ok_def range_ok_def split: sum.splits)+

text \<open>So can they in every other order.\<close>

lemma ascending_registers:
  assumes "ascending 0 ms'" "mset ms = mset ms'"
  shows "\<exists>t. register_all ms empty_table = Inr t"
proof (rule register_apart)
  note a = ascending_apart [OF assms(1)]
  show "sorted_wrt apart ms" using sorted_wrt_mset [OF apart_symp, of ms' ms] a assms(2) by simp
  have "set ms = set ms'" using assms(2) by (rule mset_eq_setD)
  then show "list_all mk_range_ok ms" using a by (simp add: list_all_iff)
qed (auto simp: empty_table_def has_overlap_def)

lemma ascending_append:
  "ascending prev xs \<Longrightarrow> ascending next ys \<Longrightarrow> (\<And>i. Inr i \<in> set xs \<Longrightarrow> opcode_max i \<le> next) \<Longrightarrow> prev \<le> next \<Longrightarrow>
    ascending prev (xs @ ys)"
proof (induction prev xs rule: ascending.induct)
  case (1 prev)
  then show ?case by (cases ys) (auto split: sum.splits)
qed (auto split: sum.splits)

lemma ascending_mk:
  "ascending prev (mksimple opcode n name f # ms) \<longleftrightarrow>
     opcode < 2 ^ n \<and> n \<le> max_opcode_bits \<and> prev \<le> opcode * 2 ^ (max_opcode_bits - n) \<and>
     ascending ((opcode + 1) * 2 ^ (max_opcode_bits - n)) ms"
  "ascending prev (mkfixed opcode n a dump g # ms) \<longleftrightarrow>
     opcode < 2 ^ n \<and> a + n \<le> max_opcode_bits \<and> prev \<le> opcode * 2 ^ (max_opcode_bits - n) \<and>
     ascending ((opcode + 1) * 2 ^ (max_opcode_bits - n)) ms"
  "ascending prev (mkfixedrange lo hi tot a dump g # ms) \<longleftrightarrow>
     a \<le> tot \<and> tot \<le> max_opcode_bits \<and> lo < hi \<and> hi \<le> 2 ^ tot \<and> prev \<le> lo * 2 ^ (max_opcode_bits - tot) \<and>
     ascending (hi * 2 ^ (max_opcode_bits - tot)) ms"
  "ascending prev (mkextrange lo hi tot a dump' g' len # ms) \<longleftrightarrow>
     a \<le> tot \<and> tot \<le> max_opcode_bits \<and> lo < hi \<and> hi \<le> 2 ^ tot \<and> prev \<le> lo * 2 ^ (max_opcode_bits - tot) \<and>
     ascending (hi * 2 ^ (max_opcode_bits - tot)) ms"
proof -
  have top: "c * 2 ^ (max_opcode_bits - k) \<le> top_opcode" if "c \<le> 2 ^ k" "k \<le> max_opcode_bits" for c k :: nat
  proof -
    have "c * 2 ^ (max_opcode_bits - k) \<le> 2 ^ k * 2 ^ (max_opcode_bits - k)"
      using that(1) by (rule mult_right_mono) simp
    also have "\<dots> = top_opcode" unfolding power_add [symmetric] top_opcode_def using that(2) by simp
    finally show ?thesis .
  qed
  show "ascending prev (mksimple opcode n name f # ms) \<longleftrightarrow>
     opcode < 2 ^ n \<and> n \<le> max_opcode_bits \<and> prev \<le> opcode * 2 ^ (max_opcode_bits - n) \<and>
     ascending ((opcode + 1) * 2 ^ (max_opcode_bits - n)) ms"
    "ascending prev (mkfixed opcode n a dump g # ms) \<longleftrightarrow>
     opcode < 2 ^ n \<and> a + n \<le> max_opcode_bits \<and> prev \<le> opcode * 2 ^ (max_opcode_bits - n) \<and>
     ascending ((opcode + 1) * 2 ^ (max_opcode_bits - n)) ms"
    using top [of "opcode + 1" n]
    by (auto simp: mksimple_def mkfixed_def opcode_range_def opcode_min_def opcode_max_def split: if_splits)
  show "ascending prev (mkfixedrange lo hi tot a dump g # ms) \<longleftrightarrow>
     a \<le> tot \<and> tot \<le> max_opcode_bits \<and> lo < hi \<and> hi \<le> 2 ^ tot \<and> prev \<le> lo * 2 ^ (max_opcode_bits - tot) \<and>
     ascending (hi * 2 ^ (max_opcode_bits - tot)) ms"
    "ascending prev (mkextrange lo hi tot a dump' g' len # ms) \<longleftrightarrow>
     a \<le> tot \<and> tot \<le> max_opcode_bits \<and> lo < hi \<and> hi \<le> 2 ^ tot \<and> prev \<le> lo * 2 ^ (max_opcode_bits - tot) \<and>
     ascending (hi * 2 ^ (max_opcode_bits - tot)) ms"
    using top [of hi tot]
    by (auto simp: mkfixedrange_def mkextrange_def opcode_min_def opcode_max_def)
qed

text \<open>Instructions whose actions are safe on every argument that their opcodes can have.\<close>

definition mk_ok :: "vm_fault + 'r opcode_instr \<Rightarrow> bool" where
  "mk_ok m = (\<forall>i. m = Inr i \<longrightarrow> instr_ok i)"

lemma mk_ok_simple: "0 < n \<Longrightarrow> action_ok f \<Longrightarrow> mk_ok (mksimple opcode n name f)"
  by (auto simp: mk_ok_def mksimple_def opcode_range_def split: if_splits)

lemma opcode_args:
  fixes opcode :: nat
  assumes "lo * 2 ^ k \<le> opcode" "opcode < hi * 2 ^ k"
  shows "lo \<le> opcode div 2 ^ k \<and> opcode div 2 ^ k < hi"
  using assms by (simp add: less_eq_div_iff_mult_less_eq div_less_iff_less_mult)

lemma mk_ok_fixed:
  assumes "0 < n" "\<And>x. opcode * 2 ^ a \<le> x \<Longrightarrow> x < (opcode + 1) * 2 ^ a \<Longrightarrow> action_ok (g x)"
  shows "mk_ok (mkfixed opcode n a dump g)"
proof -
  have "action_ok (g (op div 2 ^ (max_opcode_bits - (n + a))))"
    if fits: "a + n \<le> max_opcode_bits" and op: "opcode * 2 ^ (max_opcode_bits - n) \<le> op"
      "op < (opcode + 1) * 2 ^ (max_opcode_bits - n)" for op
  proof -
    have "(2 :: nat) ^ (max_opcode_bits - n) = 2 ^ a * 2 ^ (max_opcode_bits - (n + a))"
      unfolding power_add [symmetric] using fits by simp
    with op opcode_args [of "opcode * 2 ^ a" "max_opcode_bits - (n + a)" op "(opcode + 1) * 2 ^ a"]
    show ?thesis by (intro assms(2)) (simp_all only: mult.assoc)
  qed
  with assms(1) show ?thesis
    by (auto simp: mk_ok_def mkfixed_def opcode_range_def split: if_splits)
qed

lemma mk_ok_fixedrange:
  assumes "0 < tot" "\<And>x. lo \<le> x \<Longrightarrow> x < hi \<Longrightarrow> action_ok (g x)"
  shows "mk_ok (mkfixedrange lo hi tot a dump g)"
  using assms opcode_args [of lo "max_opcode_bits - tot" _ hi] by (auto simp: mk_ok_def mkfixedrange_def)

lemma mk_ok_extrange:
  assumes "0 < tot" "\<And>x cs. lo \<le> x \<Longrightarrow> x < hi \<Longrightarrow> tot \<le> length cs \<Longrightarrow> code_action_ok (g x tot) cs (length cs - 1)"
  shows "mk_ok (mkextrange lo hi tot a dump g len)"
  using assms opcode_args [of lo "max_opcode_bits - tot" _ hi] by (auto simp: mk_ok_def mkextrange_def)

lemma mk_ok_version: "mk_ok m \<Longrightarrow> mk_ok (require_version v m)"
  by (auto simp: mk_ok_def require_version_def rsimps)

end
