(* ===== verification/VM_Dump.thy ===== *)
theory VM_Dump
  imports VM_Opctable
begin

text \<open>
  The disassembler of the instructions with register and constant operands: the functions of the
  namespace \<open>instr\<close> of \<^verbatim>\<open>crypto/vm/opctable.cpp\<close>, with the output of integers to a stream.
\<close>

section \<open>Integers on a stream\<close>

fun show_nat :: "nat \<Rightarrow> string" where
  "show_nat n =
     (if n < 10 then [char_of (48 + n)] else show_nat (n div 10) @ [char_of (48 + n mod 10)])"

declare show_nat.simps [simp del]

definition show_int :: "int \<Rightarrow> string" where
  "show_int i = (if i < 0 then CHR ''-'' # show_nat (nat (- i)) else show_nat (nat i))"

section \<open>Operands\<close>

definition dump_1sr :: "string \<Rightarrow> string \<Rightarrow> nat \<Rightarrow> string" where
  "dump_1sr pre suf args = pre @ ''s'' @ show_nat (args mod 16) @ suf"

definition dump_1sr_l :: "string \<Rightarrow> string \<Rightarrow> nat \<Rightarrow> string" where
  "dump_1sr_l pre suf args = pre @ ''s'' @ show_nat (args mod 256) @ suf"

definition dump_2sr :: "string \<Rightarrow> string \<Rightarrow> nat \<Rightarrow> string" where
  "dump_2sr pre suf args =
     pre @ ''s'' @ show_nat (arg_mid args) @ '',s'' @ show_nat (arg_lo args) @ suf"

definition dump_2sr_adj :: "nat \<Rightarrow> string \<Rightarrow> string \<Rightarrow> nat \<Rightarrow> string" where
  "dump_2sr_adj adj pre suf args =
     pre @ ''s'' @ show_int (int (arg_mid args) - int (arg_mid adj)) @
     '',s'' @ show_int (int (arg_lo args) - int (arg_lo adj)) @ suf"

definition dump_3sr :: "string \<Rightarrow> string \<Rightarrow> nat \<Rightarrow> string" where
  "dump_3sr pre suf args =
     pre @ ''s'' @ show_nat (arg_hi args) @ '',s'' @ show_nat (arg_mid args) @
     '',s'' @ show_nat (arg_lo args) @ suf"

definition dump_3sr_adj :: "nat \<Rightarrow> string \<Rightarrow> string \<Rightarrow> nat \<Rightarrow> string" where
  "dump_3sr_adj adj pre suf args =
     pre @ ''s'' @ show_int (int (arg_hi args) - int (arg_hi adj)) @
     '',s'' @ show_int (int (arg_mid args) - int (arg_mid adj)) @
     '',s'' @ show_int (int (arg_lo args) - int (arg_lo adj)) @ suf"

definition dump_1c :: "string \<Rightarrow> string \<Rightarrow> nat \<Rightarrow> string" where
  "dump_1c pre suf args = pre @ show_nat (args mod 16) @ suf"

definition dump_1c_l_add :: "int \<Rightarrow> string \<Rightarrow> string \<Rightarrow> nat \<Rightarrow> string" where
  "dump_1c_l_add adj pre suf args = pre @ show_int (int (args mod 256) + adj) @ suf"

definition dump_2c :: "string \<Rightarrow> string \<Rightarrow> string \<Rightarrow> nat \<Rightarrow> string" where
  "dump_2c pre interfix suf args =
     pre @ show_nat (arg_mid args) @ interfix @ show_nat (arg_lo args) @ suf"

definition dump_2c_add :: "nat \<Rightarrow> string \<Rightarrow> string \<Rightarrow> string \<Rightarrow> nat \<Rightarrow> string" where
  "dump_2c_add add pre interfix suf args =
     pre @ show_nat (arg_mid args + arg_mid add) @ interfix @ show_nat (arg_lo args + arg_lo add) @ suf"

definition dump_xchg :: "nat \<Rightarrow> string" where
  "dump_xchg args =
     (let x = arg_mid args; y = arg_lo args
      in if x = 0 \<or> x \<ge> y then '''' else ''XCHG s'' @ show_nat x @ '',s'' @ show_nat y)"

definition dump_tuple_index2 :: "nat \<Rightarrow> string" where
  "dump_tuple_index2 args = ''INDEX2 '' @ show_nat (args div 4 mod 4) @ '','' @ show_nat (args mod 4)"

definition dump_tuple_index3 :: "nat \<Rightarrow> string" where
  "dump_tuple_index3 args =
     ''INDEX3 '' @ show_nat (args div 16 mod 4) @ '','' @ show_nat (args div 4 mod 4) @ '','' @ show_nat (args mod 4)"

end
