(* ===== verification/Bigint.thy ===== *)
theory Bigint
  imports Ton_Prelude
begin

text \<open>
  The big integers of the virtual machine, \<open>AnyIntView\<close> and \<open>BigIntG\<close> of
  \<^verbatim>\<open>crypto/common/bigint.hpp\<close>, at the level of their digits.

  A number is a vector of \<open>n\<close> signed 64-bit digits in base \<open>2 ^ 52\<close>, least significant first; \<open>n = 0\<close>
  is the invalid number (not a number).  Here it is the list of its first \<open>n\<close> digits, so that
  the empty list is the invalid number; the capacity \<open>max_size()\<close> of the vector is an argument \<open>m\<close> of
  the operations that may outgrow it.  A number is normalised when every digit is in
  \<open>[- 2 ^ 51, 2 ^ 51)\<close> and the topmost digit is not a superfluous zero; arithmetic leaves
  numbers denormalised, and \<open>normalize_bool_any\<close> propagates the carries.

  Digits are integers of HOL; that the 64-bit arithmetic of the code does not overflow is a
  bound on the digits, proved separately.  A shift \<open>x >> k\<close> of a signed word is \<open>x div 2 ^ k\<close> and the
  mask \<open>x & (2 ^ k - 1)\<close> is \<open>x mod 2 ^ k\<close>, rounding towards minus infinity in both cases.
\<close>

type_synonym digits = "int list"

definition word_shift :: nat where
  "word_shift = 52"

definition Base :: int where
  "Base = 2 ^ 52"

definition Half :: int where
  "Half = 2 ^ 51"

definition MaxDenorm :: int where
  "MaxDenorm = 2 ^ 11"

section \<open>The value of a number\<close>

fun big_val :: "digits \<Rightarrow> int" where
  "big_val [] = 0"
| "big_val (d # ds) = d + Base * big_val ds"

definition is_valid :: "digits \<Rightarrow> bool" where
  "is_valid ds = (ds \<noteq> [])"

text \<open>The abstraction to the integers with a not-a-number value.\<close>

definition big_abs :: "digits \<Rightarrow> int option" where
  "big_abs ds = (if is_valid ds then Some (big_val ds) else None)"

definition digit_ok :: "int \<Rightarrow> bool" where
  "digit_ok d = (- Half \<le> d \<and> d < Half)"

definition normalized :: "digits \<Rightarrow> bool" where
  "normalized ds = (ds \<noteq> [] \<and> list_all digit_ok ds \<and> (length ds > 1 \<longrightarrow> last ds \<noteq> 0))"

section \<open>Normalisation\<close>

text \<open>The second loop of \<open>normalize_bool_any\<close>: the digits and the carry out of the top.\<close>

fun norm_carry :: "int \<Rightarrow> digits \<Rightarrow> digits \<times> int" where
  "norm_carry val [] = ([], val)"
| "norm_carry val (d # ds) =
     (let v = val + (d + Half); (ds', c) = norm_carry (v div Base) ds
      in ((v mod Base - Half) # ds', c))"

text \<open>The loop that appends digits while there is a carry, with \<open>k\<close> unused words left.\<close>

fun norm_grow :: "nat \<Rightarrow> int \<Rightarrow> digits option" where
  "norm_grow 0 val = None"
| "norm_grow (Suc k) val =
     (let v = val + Half; d = v mod Base - Half; v' = v div Base
      in if v' = 0 then Some [d] else map_option (Cons d) (norm_grow k v'))"

text \<open>\<open>while (size() > 1 && !digits[size() - 1]) dec_size()\<close>.\<close>

fun strip_top_rev :: "digits \<Rightarrow> digits" where
  "strip_top_rev (e # d # ds) = (if e = 0 then strip_top_rev (d # ds) else e # d # ds)"
| "strip_top_rev ds = ds"

definition strip_top :: "digits \<Rightarrow> digits" where
  "strip_top ds = rev (strip_top_rev (rev ds))"

definition normalize_bool_any :: "nat \<Rightarrow> digits \<Rightarrow> digits" where
  "normalize_bool_any m ds =
     (if \<not> is_valid ds then []
      else
        let pre = takeWhile (\<lambda>d. d < Half \<and> d \<ge> - Half) ds;
            (post, val) = norm_carry 0 (drop (length pre) ds)
        in if val \<noteq> 0 then
             (case norm_grow (m - length ds) val of
                None \<Rightarrow> []
              | Some ext \<Rightarrow> strip_top (pre @ post @ ext))
           else strip_top (pre @ post))"

section \<open>Sums, negation, small products\<close>

fun zip_digits :: "(int \<Rightarrow> int \<Rightarrow> int) \<Rightarrow> digits \<Rightarrow> digits \<Rightarrow> digits" where
  "zip_digits f xs [] = xs"
| "zip_digits f [] ys = map (f 0) ys"
| "zip_digits f (x # xs) (y # ys) = f x y # zip_digits f xs ys"

definition add_any :: "nat \<Rightarrow> digits \<Rightarrow> digits \<Rightarrow> digits" where
  "add_any m x y =
     (if length y \<le> length x then
        if \<not> is_valid y then [] else zip_digits (+) x y
      else
        if \<not> is_valid x then x
        else if length y > m then []
        else zip_digits (+) x y)"

definition sub_any :: "nat \<Rightarrow> digits \<Rightarrow> digits \<Rightarrow> digits" where
  "sub_any m x y =
     (if length y \<le> length x then
        if \<not> is_valid y then [] else zip_digits (-) x y
      else
        if \<not> is_valid x then x
        else if length y > m then []
        else zip_digits (-) x y)"

definition negate_any :: "digits \<Rightarrow> digits" where
  "negate_any x = map (\<lambda>d. - d) x"

definition mul_tiny_any :: "int \<Rightarrow> digits \<Rightarrow> digits" where
  "mul_tiny_any y x = map (\<lambda>d. d * y) x"

text \<open>\<open>digits[0] += y\<close>; on the invalid number the digit written is not part of the number.\<close>

definition add_tiny :: "int \<Rightarrow> digits \<Rightarrow> digits" where
  "add_tiny y x = (case x of [] \<Rightarrow> [] | d # ds \<Rightarrow> (d + y) # ds)"

text \<open>\<open>BigIntG::logical_not\<close>: the lowest digit is complemented, the others are negated.\<close>

definition logical_not :: "digits \<Rightarrow> digits" where
  "logical_not x = (case x of [] \<Rightarrow> [] | d # ds \<Rightarrow> (- d - 1) # map (\<lambda>d. - d) ds)"

definition set_pow2_any :: "nat \<Rightarrow> int \<Rightarrow> digits" where
  "set_pow2_any m exponent =
     (if exponent < 0 \<or> exponent \<ge> int (m * 52) then []
      else
        let k = nat exponent div 52; r = nat exponent mod 52
        in if r = 51 \<and> k + 1 < m then replicate k 0 @ [- Half, 1]
           else replicate k 0 @ [2 ^ r])"

definition set_any :: "nat \<Rightarrow> digits \<Rightarrow> digits \<times> bool" where
  "set_any m y = (if length y \<le> m then (y, True) else (take m y, False))"

text \<open>\<open>while (size() <= k) digits[inc_size()] = 0\<close>, and the same with \<open><\<close>.\<close>

definition pad_to :: "nat \<Rightarrow> digits \<Rightarrow> digits" where
  "pad_to k x = x @ replicate (k - length x) 0"

definition add_pow2_any :: "nat \<Rightarrow> int \<Rightarrow> int \<Rightarrow> digits \<Rightarrow> digits" where
  "add_pow2_any m exponent factor x =
     (if exponent < 0 \<or> exponent \<ge> int (m * 52) then []
      else if \<not> is_valid x then []
      else
        let k = nat exponent div 52; r = nat exponent mod 52; x' = pad_to (k + 1) x
        in x'[k := x' ! k + factor * 2 ^ r])"

text \<open>The constructor from a 64-bit word: one digit, or two when it does not fit one
  (flipping bit 51 of the word and keeping the low 52 bits is adding \<open>2 ^ 51\<close> modulo \<open>2 ^ 52\<close>).\<close>

definition big_of_word :: "int \<Rightarrow> digits" where
  "big_of_word x =
     (if x \<ge> - Half \<and> x < Half then [x]
      else
        let d0 = (x + Half) mod Base - Half
        in [d0, x div Base + (if d0 < 0 then 1 else 0)])"

section \<open>The value under normalisation\<close>

lemma Base_pos [simp]: "0 < Base" and Half_pos [simp]: "0 < Half" and Base_Half: "Base = 2 * Half"
  by (simp_all add: Base_def Half_def)

lemma Base_power_pos [simp]: "0 < Base ^ m" and Base_nonneg [simp]: "0 \<le> Base" "0 \<le> Base ^ m"
  and Base_nonzero [simp]: "Base \<noteq> 0"
  by (simp_all add: Base_def)

lemma div_Base_bounds: "a * Base \<le> v \<Longrightarrow> a \<le> v div Base" "v < b * Base \<Longrightarrow> v div Base < b"
proof -
  show "a \<le> v div Base" if "a * Base \<le> v"
    using zdiv_mono1 [OF that, of Base] Base_pos by simp
  show "v div Base < b" if "v < b * Base"
  proof -
    have "Base * (v div Base) \<le> v"
      using mult_div_mod_eq [of Base v] pos_mod_sign [of Base v] Base_pos by linarith
    also have "v < Base * b" using that by (simp only: mult.commute)
    finally have "Base * (v div Base) < Base * b" .
    then show ?thesis by simp
  qed
qed

lemma digit_ok_carry [simp]: "digit_ok (v mod Base - Half)"
  using pos_mod_bound [of Base v] pos_mod_sign [of Base v] by (simp add: digit_ok_def Base_Half)

lemma carry_value: "(v mod Base - Half) + Base * (v div Base) = v - Half"
  using mult_div_mod_eq [of Base v] by simp

lemma big_val_append: "big_val (xs @ ys) = big_val xs + Base ^ length xs * big_val ys"
  by (induction xs) (auto simp: algebra_simps)

lemma big_val_zeros [simp]: "big_val (replicate k 0) = 0"
  by (induction k) auto

lemma norm_carry_value:
  "norm_carry val ds = (ds', c) \<Longrightarrow>
   big_val ds' + Base ^ length ds * c = val + big_val ds \<and> length ds' = length ds \<and> list_all digit_ok ds'"
proof (induction ds arbitrary: val ds' c)
  case (Cons d ds)
  let ?v = "val + (d + Half)"
  obtain ds'' where rec: "norm_carry (?v div Base) ds = (ds'', c)" and ds': "ds' = (?v mod Base - Half) # ds''"
    using Cons.prems by (auto simp: Let_def split: prod.splits)
  from Cons.IH [OF rec] have IH: "big_val ds'' + Base ^ length ds * c = ?v div Base + big_val ds"
    "length ds'' = length ds" "list_all digit_ok ds''" by auto
  have "big_val ds' + Base ^ length (d # ds) * c
      = (?v mod Base - Half) + Base * (big_val ds'' + Base ^ length ds * c)"
    by (simp add: ds' algebra_simps)
  also have "\<dots> = (?v mod Base - Half) + Base * (?v div Base) + Base * big_val ds"
    by (simp only: IH(1) distrib_left add.assoc)
  also have "\<dots> = val + big_val (d # ds)" by (simp only: carry_value big_val.simps)
  finally show ?case using IH ds' by simp
qed auto

lemma norm_carry_skip:
  "list_all digit_ok pre \<Longrightarrow> norm_carry 0 (pre @ ds) = (let (ds', c) = norm_carry 0 ds in (pre @ ds', c))"
proof (induction pre)
  case (Cons d pre)
  then have "(d + Half) div Base = 0" "(d + Half) mod Base = d + Half"
    by (auto simp: digit_ok_def Base_Half intro: div_pos_pos_trivial mod_pos_pos_trivial)
  with Cons show ?case by (simp add: Let_def split: prod.splits)
qed (auto split: prod.splits)

lemma norm_grow_value:
  "norm_grow k val = Some ds \<Longrightarrow>
   big_val ds = val \<and> list_all digit_ok ds \<and> ds \<noteq> [] \<and> length ds \<le> k"
proof (induction k arbitrary: val ds)
  case (Suc k)
  let ?v = "val + Half"
  show ?case
  proof (cases "?v div Base = 0")
    case True
    with Suc.prems carry_value [of ?v] digit_ok_carry [of ?v] show ?thesis by (auto simp: Let_def)
  next
    case False
    with Suc.prems obtain ds' where rec: "norm_grow k (?v div Base) = Some ds'"
      and ds: "ds = (?v mod Base - Half) # ds'" by (auto simp: Let_def)
    with Suc.IH [OF rec] carry_value [of ?v] show ?thesis by simp
  qed
qed simp

text \<open>The values of \<open>m\<close> digits in range form one interval, of \<open>Base ^ m\<close> numbers.\<close>

fun all_ones :: "nat \<Rightarrow> int" where
  "all_ones 0 = 0"
| "all_ones (Suc m) = 1 + Base * all_ones m"

definition fits_words :: "nat \<Rightarrow> int \<Rightarrow> bool" where
  "fits_words m v = (- Half * all_ones m \<le> v \<and> v \<le> (Half - 1) * all_ones m)"

lemma all_ones_width: "(Base - 1) * all_ones m = Base ^ m - 1"
  by (induction m) (auto simp: algebra_simps)

lemma all_ones_nonneg [simp]: "0 \<le> all_ones m"
  by (induction m) auto

lemma digits_fit: "list_all digit_ok ds \<Longrightarrow> fits_words (length ds) (big_val ds)"
proof (induction ds)
  case (Cons d ds)
  then have IH: "- Half * all_ones (length ds) \<le> big_val ds" "big_val ds \<le> (Half - 1) * all_ones (length ds)"
    and d: "- Half \<le> d" "d \<le> Half - 1" by (auto simp: fits_words_def digit_ok_def)
  have "Base * (- Half * all_ones (length ds)) \<le> Base * big_val ds"
    "Base * big_val ds \<le> Base * ((Half - 1) * all_ones (length ds))"
    using IH by (intro mult_left_mono; simp)+
  with d show ?case by (auto simp: fits_words_def algebra_simps)
qed (simp add: fits_words_def)

lemma fits_words_mono: "fits_words k v \<Longrightarrow> k \<le> m \<Longrightarrow> fits_words m v"
proof (induction m arbitrary: k)
  case (Suc m)
  have "all_ones m \<le> all_ones (Suc m)"
    using mult_right_mono [of 1 Base "all_ones m"] by (simp add: Base_def)
  then have "fits_words m v \<Longrightarrow> fits_words (Suc m) v"
    using mult_left_mono [of "all_ones m" "all_ones (Suc m)" Half]
      mult_left_mono [of "all_ones m" "all_ones (Suc m)" "Half - 1"]
    by (auto simp: fits_words_def Half_def)
  with Suc show ?case by (cases "k = Suc m") auto
qed simp

text \<open>A carry out of \<open>m\<close> digits in range does not fit \<open>m\<close> digits.\<close>

lemma carry_overflows:
  assumes "fits_words m v" "c \<noteq> 0"
  shows "\<not> fits_words m (v + Base ^ m * c)"
proof -
  have w: "(Half - 1) * all_ones m - (- Half * all_ones m) = Base ^ m - 1"
    using all_ones_width [of m] by (simp add: Base_Half algebra_simps)
  have "Base ^ m * c \<ge> Base ^ m \<or> Base ^ m * c \<le> - (Base ^ m)"
  proof (cases "0 < c")
    case True
    then have "Base ^ m * 1 \<le> Base ^ m * c" by (intro mult_left_mono) auto
    then show ?thesis by simp
  next
    case False
    with assms(2) have "c \<le> - 1" by simp
    then have "Base ^ m * c \<le> Base ^ m * (- 1)" by (intro mult_left_mono) auto
    then show ?thesis by simp
  qed
  then show ?thesis
    using assms(1) w unfolding fits_words_def by linarith
qed

lemma all_ones_add: "all_ones (k + m) = all_ones k + Base ^ k * all_ones m"
  by (induction k) (auto simp: algebra_simps)

text \<open>If the whole number fits, so does the part of it above its \<open>k\<close> lowest digits.\<close>

lemma fits_words_high:
  assumes "fits_words k v" "fits_words (k + m) (v + Base ^ k * c)"
  shows "fits_words m c"
proof -
  have w: "(Half - 1) * all_ones k + Half * all_ones k = Base ^ k - 1"
    using all_ones_width [of k] by (simp add: Base_Half algebra_simps)
  have v: "- (Half * all_ones k) \<le> v" "v \<le> (Half - 1) * all_ones k"
    using assms(1) by (auto simp: fits_words_def)
  have "- (Half * all_ones k) - Base ^ k * (Half * all_ones m) \<le> v + Base ^ k * c"
    "v + Base ^ k * c \<le> (Half - 1) * all_ones k + Base ^ k * ((Half - 1) * all_ones m)"
    using assms(2) by (simp_all add: fits_words_def all_ones_add algebra_simps)
  then have "Base ^ k * (- 1) < Base ^ k * (c + Half * all_ones m)"
    "Base ^ k * (c - (Half - 1) * all_ones m) < Base ^ k * 1"
    using v w by (simp_all add: distrib_left right_diff_distrib)
  then have "- 1 < c + Half * all_ones m" "c - (Half - 1) * all_ones m < 1"
    by (simp_all only: mult_less_cancel_left_pos [OF Base_power_pos])
  then show ?thesis by (simp add: fits_words_def)
qed

lemma norm_grow_None:
  assumes "norm_grow k val = None" "val \<noteq> 0"
  shows "\<not> fits_words k val"
  using assms
proof (induction k arbitrary: val)
  case 0
  then show ?case by (auto simp: fits_words_def)
next
  case (Suc k)
  let ?v = "val + Half"
  from Suc.prems have "?v div Base \<noteq> 0" "norm_grow k (?v div Base) = None"
    by (auto simp: Let_def split: if_splits)
  with Suc.IH have no: "\<not> fits_words k (?v div Base)" by blast
  show ?case
  proof
    assume "fits_words (Suc k) val"
    then have "- Half * all_ones k * Base \<le> ?v" "?v < (Half - 1) * all_ones k * Base + Base"
      by (auto simp: fits_words_def Base_Half algebra_simps)
    then have "- Half * all_ones k \<le> ?v div Base" "?v div Base < (Half - 1) * all_ones k + 1"
      using div_Base_bounds(1) [of "- Half * all_ones k" ?v]
        div_Base_bounds(2) [of ?v "(Half - 1) * all_ones k + 1"] by (simp_all add: algebra_simps)
    with no show False by (simp add: fits_words_def)
  qed
qed

lemma strip_top_rev_props:
  "big_val (rev (strip_top_rev xs)) = big_val (rev xs)"
  "list_all P xs \<Longrightarrow> list_all P (strip_top_rev xs)"
  "strip_top_rev xs = [] \<longleftrightarrow> xs = []"
  "length (strip_top_rev xs) \<le> length xs"
  "length (strip_top_rev xs) > 1 \<Longrightarrow> hd (strip_top_rev xs) \<noteq> 0"
  by (induction xs rule: strip_top_rev.induct) (auto simp: big_val_append)

lemma strip_top_props [simp]:
  "big_val (strip_top ds) = big_val ds" "strip_top ds = [] \<longleftrightarrow> ds = []"
  by (simp_all add: strip_top_def strip_top_rev_props)

lemma strip_top_length: "length (strip_top ds) \<le> length ds"
  using strip_top_rev_props(4) [of "rev ds"] by (simp add: strip_top_def)

lemma strip_top_last: "length (strip_top ds) > 1 \<Longrightarrow> last (strip_top ds) \<noteq> 0"
  using strip_top_rev_props(5) [of "rev ds"] by (simp add: strip_top_def last_rev)

lemma normalized_strip_top: "ds \<noteq> [] \<Longrightarrow> list_all digit_ok ds \<Longrightarrow> normalized (strip_top ds)"
  using strip_top_rev_props(2) [of digit_ok "rev ds"] strip_top_last [of ds]
  by (simp add: normalized_def) (simp add: strip_top_def)

text \<open>
  Skipping the leading digits that are already in range changes nothing: normalisation is the
  carry loop over all digits, followed by the growth and the removal of zero digits.
\<close>

lemma normalize_bool_any_eq:
  assumes "ds \<noteq> []" "norm_carry 0 ds = (ds', c)"
  shows "normalize_bool_any m ds =
    (if c \<noteq> 0 then (case norm_grow (m - length ds) c of None \<Rightarrow> [] | Some ext \<Rightarrow> strip_top (ds' @ ext))
     else strip_top ds')"
proof -
  define pre where "pre = takeWhile (\<lambda>d. d < Half \<and> d \<ge> - Half) ds"
  have split: "ds = pre @ drop (length pre) ds"
    unfolding pre_def by (simp add: dropWhile_eq_drop [symmetric])
  have "list_all digit_ok pre"
    unfolding pre_def by (auto simp: list_all_iff digit_ok_def dest: set_takeWhileD)
  then have "norm_carry 0 (pre @ drop (length pre) ds) =
      (let (post, c) = norm_carry 0 (drop (length pre) ds) in (pre @ post, c))"
    by (rule norm_carry_skip)
  then obtain post where "norm_carry 0 (drop (length pre) ds) = (post, c)" "pre @ post = ds'"
    using assms(2) split by (auto split: prod.splits)
  then show ?thesis
    using assms(1)
    by (auto simp: normalize_bool_any_def is_valid_def pre_def [symmetric] simp flip: append_assoc
        split: option.splits)
qed

lemma normalize_correct:
  assumes "ds \<noteq> []" "length ds \<le> m"
  shows "if fits_words m (big_val ds)
    then normalized (normalize_bool_any m ds) \<and> big_val (normalize_bool_any m ds) = big_val ds \<and>
         length (normalize_bool_any m ds) \<le> m
    else normalize_bool_any m ds = []"
proof -
  obtain ds' c where nc: "norm_carry 0 ds = (ds', c)" by fastforce
  note v = norm_carry_value [OF nc]
  have fit: "fits_words (length ds) (big_val ds')" using digits_fit [of ds'] v by simp
  show ?thesis
  proof (cases "c = 0")
    case True
    then have "fits_words m (big_val ds)"
      using fit v assms(2) by (auto intro: fits_words_mono)
    moreover have "ds' \<noteq> []" using v assms(1) by auto
    ultimately show ?thesis
      using True v assms strip_top_length [of ds']
      by (auto simp: normalize_bool_any_eq [OF assms(1) nc] normalized_strip_top)
  next
    case False
    show ?thesis
    proof (cases "norm_grow (m - length ds) c")
      case None
      have "\<not> fits_words (m - length ds) c" using norm_grow_None None False by blast
      then have "\<not> fits_words (length ds + (m - length ds)) (big_val ds' + Base ^ length ds * c)"
        using fits_words_high [OF fit] by blast
      then have "\<not> fits_words m (big_val ds)" using v assms(2) by simp
      with None False show ?thesis by (simp add: normalize_bool_any_eq [OF assms(1) nc])
    next
      case (Some ext)
      note g = norm_grow_value [OF Some]
      have dig: "list_all digit_ok (ds' @ ext)" and val: "big_val (ds' @ ext) = big_val ds"
        and len: "length (ds' @ ext) \<le> m"
        using v g assms(2) by (auto simp: big_val_append)
      have "fits_words m (big_val ds)"
        using digits_fit [OF dig] len unfolding val by (rule fits_words_mono)
      with Some False dig val len strip_top_length [of "ds' @ ext"] g show ?thesis
        by (auto simp: normalize_bool_any_eq [OF assms(1) nc] normalized_strip_top)
    qed
  qed
qed

section \<open>The value of sums and small products\<close>

lemma zip_digits_props [simp]:
  "big_val (zip_digits (+) x y) = big_val x + big_val y"
  "big_val (zip_digits (-) x y) = big_val x - big_val y"
  "length (zip_digits f x y) = max (length x) (length y)"
  "zip_digits f x y = [] \<longleftrightarrow> x = [] \<and> y = []"
proof -
  have pos: "map ((+) 0) y = y" for y :: digits by (induction y) auto
  show "big_val (zip_digits (+) x y) = big_val x + big_val y"
    by (induction "(+) :: int \<Rightarrow> int \<Rightarrow> int" x y rule: zip_digits.induct) (auto simp: pos algebra_simps)
  have neg: "big_val (map ((-) 0) y) = - big_val y" for y
    by (induction y) (auto simp: algebra_simps)
  show "big_val (zip_digits (-) x y) = big_val x - big_val y"
    by (induction "(-) :: int \<Rightarrow> int \<Rightarrow> int" x y rule: zip_digits.induct) (auto simp: neg right_diff_distrib)
  show "length (zip_digits f x y) = max (length x) (length y)"
    by (induction f x y rule: zip_digits.induct) auto
  show "zip_digits f x y = [] \<longleftrightarrow> x = [] \<and> y = []"
    by (cases x; cases y) auto
qed

text \<open>The operations on valid numbers within the capacity, and with an invalid operand.\<close>

lemma add_any_props:
  "x \<noteq> [] \<Longrightarrow> y \<noteq> [] \<Longrightarrow> length y \<le> m \<Longrightarrow> add_any m x y = zip_digits (+) x y"
  "sub_any m x [] = []" "add_any m x [] = []" "add_any m [] y = []" "sub_any m [] y = []"
  "x \<noteq> [] \<Longrightarrow> y \<noteq> [] \<Longrightarrow> length y \<le> m \<Longrightarrow> sub_any m x y = zip_digits (-) x y"
  by (auto simp: add_any_def sub_any_def is_valid_def)

lemma negate_any_props [simp]:
  "big_val (negate_any x) = - big_val x" "length (negate_any x) = length x" "negate_any x = [] \<longleftrightarrow> x = []"
  by (induction x) (auto simp: negate_any_def algebra_simps)

lemma mul_tiny_any_props [simp]:
  "big_val (mul_tiny_any y x) = big_val x * y" "length (mul_tiny_any y x) = length x" "mul_tiny_any y x = [] \<longleftrightarrow> x = []"
  by (induction x) (auto simp: mul_tiny_any_def algebra_simps)

lemma add_tiny_props [simp]:
  "x \<noteq> [] \<Longrightarrow> big_val (add_tiny y x) = big_val x + y" "length (add_tiny y x) = length x" "add_tiny y x = [] \<longleftrightarrow> x = []"
  by (cases x; simp add: add_tiny_def)+

lemma logical_not_props [simp]:
  "x \<noteq> [] \<Longrightarrow> big_val (logical_not x) = - big_val x - 1" "length (logical_not x) = length x"
  "logical_not x = [] \<longleftrightarrow> x = []"
proof -
  have "big_val (map (\<lambda>d. - d) ds) = - big_val ds" for ds
    using negate_any_props(1) [of ds] by (simp add: negate_any_def)
  then show "x \<noteq> [] \<Longrightarrow> big_val (logical_not x) = - big_val x - 1"
    by (cases x) (auto simp: logical_not_def)
qed (cases x; simp add: logical_not_def)+

lemma pow2_split: "(2 :: int) ^ n = Base ^ (n div 52) * 2 ^ (n mod 52)"
  unfolding Base_def power_mult [symmetric] power_add [symmetric] by simp

lemma set_pow2_any_props:
  assumes "0 \<le> e" "e < int (m * 52)"
  shows "big_val (set_pow2_any m e) = 2 ^ nat e" "set_pow2_any m e \<noteq> []" "length (set_pow2_any m e) \<le> m"
    "e < int (m * 52) - 1 \<Longrightarrow> normalized (set_pow2_any m e)"
proof -
  let ?k = "nat e div 52" and ?r = "nat e mod 52"
  have r: "?r < 52" by simp
  have k: "?k < m" using assms by (simp add: div_less_iff_less_mult)
  note pow2_split [of "nat e"]
  moreover have "Base ^ k * 2 ^ 51 = Base ^ k * (- Half) + Base ^ (k + 1)" for k
    by (simp add: Base_def Half_def algebra_simps)
  ultimately show "big_val (set_pow2_any m e) = 2 ^ nat e"
    using assms by (auto simp: set_pow2_any_def Let_def big_val_append algebra_simps)
  show "set_pow2_any m e \<noteq> []" "length (set_pow2_any m e) \<le> m"
    using assms k by (auto simp: set_pow2_any_def Let_def)
  show "normalized (set_pow2_any m e)" if "e < int (m * 52) - 1"
  proof (cases "?r = 51")
    case True
    then have "?k + 1 < m" using that assms div_mult_mod_eq [of "nat e" 52] by linarith
    with True assms show ?thesis
      by (auto simp: set_pow2_any_def Let_def normalized_def digit_ok_def Half_def list_all_iff)
  next
    case False
    then have "(2 :: int) ^ ?r < Half" using r unfolding Half_def by (intro power_strict_increasing) auto
    with False assms show ?thesis
      by (auto simp: set_pow2_any_def Let_def normalized_def digit_ok_def list_all_iff less_imp_le
          intro: order_trans [of "- Half" 0])
  qed
qed

lemma pad_to_props [simp]:
  "big_val (pad_to k x) = big_val x" "length (pad_to k x) = max k (length x)"
  by (auto simp: pad_to_def big_val_append)

lemma big_val_update:
  "i < length x \<Longrightarrow> big_val (x[i := d]) = big_val x + Base ^ i * (d - x ! i)"
proof (induction x arbitrary: i)
  case (Cons a x)
  show ?case
  proof (cases i)
    case (Suc j)
    with Cons show ?thesis by (simp add: distrib_left mult.assoc)
  qed simp
qed simp

lemma add_pow2_any_value:
  assumes "x \<noteq> []" "0 \<le> e" "e < int (m * 52)"
  shows "big_val (add_pow2_any m e f x) = big_val x + f * 2 ^ nat e"
proof -
  show ?thesis
    using assms pow2_split [of "nat e"] by (simp add: add_pow2_any_def is_valid_def Let_def big_val_update less_max_iff_disj)
qed

lemma low_digit:
  "(x + Half) mod Base - Half = (if x mod Base < Half then x mod Base else x mod Base - Base)"
proof -
  have r: "0 \<le> x mod Base" "x mod Base < Base" by simp_all
  have "(x + Half) mod Base = (x mod Base + Half) mod Base" by (simp add: mod_add_left_eq)
  also have "\<dots> = (if x mod Base < Half then x mod Base + Half else x mod Base + Half - Base)"
  proof (cases "x mod Base < Half")
    case True
    have "(x mod Base + Half) mod Base = x mod Base + Half"
      by (intro mod_pos_pos_trivial) (use True r Base_Half Half_pos in linarith)+
    with True show ?thesis by simp
  next
    case False
    have "(x mod Base + Half) mod Base = (x mod Base + Half - Base) mod Base" by simp
    also have "\<dots> = x mod Base + Half - Base"
      by (intro mod_pos_pos_trivial) (use False r Base_Half in linarith)+
    finally show ?thesis using False by simp
  qed
  finally show ?thesis by simp
qed

lemma big_of_word_value: "big_val (big_of_word x) = x"
proof -
  have "\<not> x mod Base < 0" "x mod Base - Base < 0" by (simp_all add: not_less)
  with mult_div_mod_eq [of Base x] show ?thesis
    unfolding big_of_word_def Let_def low_digit by (simp add: distrib_left)
qed

end
