(* ===== verification/Bigint_Mul.thy ===== *)
theory Bigint_Mul
  imports Bigint
begin

text \<open>
  Products of big integers, \<open>add_mul_any\<close> and \<open>mul_add_short_any\<close> of
  \<^verbatim>\<open>crypto/common/bigint.hpp\<close>, and the operators of \<^verbatim>\<open>crypto/common/refint.cpp\<close> that the virtual machine
  computes with: each is shown to compute the integer operation it is named after, for the
  five-word integers (\<open>BigInt256\<close>) of the machine.
\<close>

section \<open>Products\<close>

text \<open>\<open>BigIntInfo::add_mul(&digits[p + 1], &digits[p], x, y)\<close>.\<close>

definition add_mul_at :: "nat \<Rightarrow> int \<Rightarrow> int \<Rightarrow> digits \<Rightarrow> digits" where
  "add_mul_at p x y ds =
     (let z = x * y; ds' = ds[p := ds ! p + z mod Base]
      in ds'[p + 1 := ds' ! (p + 1) + z div Base])"

text \<open>The inner loop, over the digits \<open>zs\<close> of the second factor, from position \<open>p\<close> on.\<close>

fun add_mul_row :: "nat \<Rightarrow> int \<Rightarrow> digits \<Rightarrow> digits \<Rightarrow> digits" where
  "add_mul_row p yv [] ds = ds"
| "add_mul_row p yv (z # zs) ds = add_mul_row (p + 1) yv zs (add_mul_at p yv z ds)"

text \<open>The outer loop, over the digits of the first factor.\<close>

fun add_mul_rows :: "nat \<Rightarrow> digits \<Rightarrow> digits \<Rightarrow> digits \<Rightarrow> digits" where
  "add_mul_rows i [] zs ds = ds"
| "add_mul_rows i (y # ys) zs ds = add_mul_rows (i + 1) ys zs (add_mul_row i y zs ds)"

definition add_mul_any :: "nat \<Rightarrow> digits \<Rightarrow> digits \<Rightarrow> digits \<Rightarrow> digits" where
  "add_mul_any m x y z =
     (let rn = length y + length z
      in if \<not> is_valid y \<or> \<not> is_valid z \<or> \<not> is_valid x then []
         else if rn > m + 1 then []
         else if rn < m + 1 then add_mul_rows 0 y z (pad_to rn x)
         else
           let x0 = pad_to (rn - 1) x;
               x1 = add_mul_rows 0 (butlast y) z x0;
               i = length y - 1;
               x2 = add_mul_row i (last y) (butlast z) x1;
               p = i + (length z - 1);
               t = last y * last z;
               x3 = x2[p := x2 ! p + t mod Base];
               hi = t div Base
           in if hi \<noteq> 0 \<and> hi \<noteq> -1 then []
              else x3[length x3 - 1 := last x3 + hi * Base])"

text \<open>The loop of \<open>mul_add_short_any\<close>: the digits and the last carry.\<close>

fun mul_short_loop :: "int \<Rightarrow> int \<Rightarrow> digits \<Rightarrow> digits \<times> int" where
  "mul_short_loop y z [] = ([], z)"
| "mul_short_loop y z (d # ds) =
     (let t = y * d; (ds', c) = mul_short_loop y (t div Base) ds
      in ((t mod Base + z) # ds', c))"

text \<open>The result is the digits and the returned flag.\<close>

definition mul_add_short_any :: "nat \<Rightarrow> int \<Rightarrow> int \<Rightarrow> digits \<Rightarrow> digits \<times> bool" where
  "mul_add_short_any m y z x =
     (if \<not> is_valid x then (x, False)
      else
        (case mul_short_loop y z x of
           (ds, c) \<Rightarrow>
             if c = 0 then (ds, True)
             else if length ds < m then (ds @ [c], True)
             else
               let c' = c + last ds div Base;
                   ds' = ds[length ds - 1 := last ds mod Base]
               in if c' = 0 \<or> c' = -1
                  then (ds'[length ds - 1 := last ds mod Base + c' * Base], True)
                  else (ds', False)))"

definition mul_short :: "nat \<Rightarrow> int \<Rightarrow> digits \<Rightarrow> digits" where
  "mul_short m y x = (case mul_add_short_any m y 0 x of (ds, ok) \<Rightarrow> if ok then ds else [])"

definition mul_short_opt :: "nat \<Rightarrow> int \<Rightarrow> digits \<Rightarrow> digits" where
  "mul_short_opt m y x =
     (if y \<le> MaxDenorm \<and> y \<ge> - MaxDenorm then mul_tiny_any y x else mul_short m y x)"

section \<open>The value of a product\<close>

lemma add_mul_at_props:
  assumes "p + 1 < length ds"
  shows "big_val (add_mul_at p x y ds) = big_val ds + Base ^ p * (x * y)"
    "length (add_mul_at p x y ds) = length ds"
proof -
  have "Base ^ p * (x * y mod Base) + Base ^ (p + 1) * (x * y div Base) =
      Base ^ p * (x * y mod Base + Base * (x * y div Base))"
    by (simp only: distrib_left power_add power_one_right mult.assoc)
  then have "Base ^ p * (x * y mod Base) + Base ^ (p + 1) * (x * y div Base) = Base ^ p * (x * y)"
    by (simp only: mod_mult_div_eq)
  then show "big_val (add_mul_at p x y ds) = big_val ds + Base ^ p * (x * y)"
    using assms by (simp add: add_mul_at_def Let_def big_val_update del: power_Suc)
  show "length (add_mul_at p x y ds) = length ds"
    by (simp add: add_mul_at_def Let_def)
qed

lemma add_mul_row_props:
  "p + length zs < length ds \<Longrightarrow>
   big_val (add_mul_row p yv zs ds) = big_val ds + Base ^ p * (yv * big_val zs) \<and>
   length (add_mul_row p yv zs ds) = length ds"
  by (induction p yv zs ds rule: add_mul_row.induct) (auto simp: add_mul_at_props algebra_simps)

lemma add_mul_rows_props:
  "ys = [] \<or> i + length ys + length zs \<le> length ds \<Longrightarrow>
   big_val (add_mul_rows i ys zs ds) = big_val ds + Base ^ i * (big_val ys * big_val zs) \<and>
   length (add_mul_rows i ys zs ds) = length ds"
  by (induction i ys zs ds rule: add_mul_rows.induct) (auto simp: add_mul_row_props algebra_simps)

lemma big_val_last: "ds \<noteq> [] \<Longrightarrow> big_val ds = big_val (butlast ds) + Base ^ (length ds - 1) * last ds"
  using big_val_append [of "butlast ds" "[last ds]"] by simp

text \<open>
  If the product is computed at all, it is exact; it is given up when one of two conditions on
  the leading digits of the factors shows that it is too large.
\<close>

lemma add_mul_any_value:
  assumes "x \<noteq> []" "y \<noteq> []" "z \<noteq> []" "length x \<le> m"
  defines "rn \<equiv> length y + length z"
  shows "if rn > m + 1 \<or> rn = m + 1 \<and> last y * last z div Base \<notin> {0, -1}
    then add_mul_any m x y z = []
    else big_val (add_mul_any m x y z) = big_val x + big_val y * big_val z \<and>
         add_mul_any m x y z \<noteq> [] \<and> length (add_mul_any m x y z) \<le> m"
proof -
  consider (big) "rn > m + 1" | (small) "rn < m + 1" | (edge) "rn = m + 1" by linarith
  then show ?thesis
  proof cases
    case big
    with assms show ?thesis by (simp add: add_mul_any_def is_valid_def Let_def)
  next
    case small
    have "add_mul_any m x y z = add_mul_rows 0 y z (pad_to rn x)"
      using small assms by (simp add: add_mul_any_def is_valid_def Let_def)
    with small assms add_mul_rows_props [of y 0 z "pad_to rn x"] show ?thesis
      by (auto simp: rn_def simp flip: length_greater_0_conv)
  next
    case edge
    define x0 where "x0 = pad_to (rn - 1) x"
    define x1 where "x1 = add_mul_rows 0 (butlast y) z x0"
    define x2 where "x2 = add_mul_row (length y - 1) (last y) (butlast z) x1"
    define t where "t = last y * last z"
    let ?p = "length y - 1 + (length z - 1)"
    define x3 where "x3 = x2[?p := x2 ! ?p + t mod Base]"
    have l0: "length x0 = m" and v0: "big_val x0 = big_val x"
      using edge assms by (auto simp: x0_def)
    have l: "length y > 0" "length z > 0" using assms by auto
    have "0 + length (butlast y) + length z \<le> length x0" using edge l l0 unfolding rn_def length_butlast by linarith
    then have 1: "big_val x1 = big_val x + big_val (butlast y) * big_val z" "length x1 = m"
      using add_mul_rows_props [of "butlast y" 0 z x0] v0 l0 by (auto simp: x1_def)
    have "length y - 1 + length (butlast z) < length x1" using edge l 1 unfolding rn_def length_butlast by linarith
    then have 2: "big_val x2 = big_val x1 + Base ^ (length y - 1) * (last y * big_val (butlast z))" "length x2 = m"
      using add_mul_row_props [of "length y - 1" "butlast z" x1 "last y"] 1 by (auto simp: x2_def)
    have p: "?p = m - 1" "0 < m" using edge l unfolding rn_def by linarith+
    then have 3: "big_val x3 = big_val x2 + Base ^ ?p * (t mod Base)" "length x3 = m"
      using 2 by (auto simp: x3_def big_val_update)
    have res: "add_mul_any m x y z =
        (if t div Base \<noteq> 0 \<and> t div Base \<noteq> -1 then [] else x3[length x3 - 1 := last x3 + t div Base * Base])"
      using edge assms by (simp add: add_mul_any_def is_valid_def Let_def x0_def x1_def x2_def x3_def t_def rn_def)
    have "big_val (x3[length x3 - 1 := last x3 + t div Base * Base]) = big_val x3 + Base ^ ?p * (t div Base * Base)"
      using 3 p by (simp add: big_val_update last_conv_nth flip: length_greater_0_conv)
    also have "\<dots> = big_val x2 + Base ^ ?p * t"
      using 3 mod_div_mult_eq [of t Base] by (simp flip: distrib_left)
    also have "\<dots> = big_val x1 + Base ^ (length y - 1) * (last y * (big_val (butlast z) + Base ^ (length z - 1) * last z))"
      by (simp add: 2 t_def power_add algebra_simps)
    also have "\<dots> = big_val x + (big_val (butlast y) + Base ^ (length y - 1) * last y) * big_val z"
      using assms big_val_last [of z] by (simp add: 1 algebra_simps)
    also have "\<dots> = big_val x + big_val y * big_val z"
      using assms big_val_last [of y] by simp
    finally show ?thesis
      using edge res 3 p by (auto simp: t_def simp flip: length_greater_0_conv)
  qed
qed

lemma mul_short_loop_value:
  "mul_short_loop y z ds = (ds', c) \<Longrightarrow>
   big_val ds' + Base ^ length ds * c = y * big_val ds + z \<and> length ds' = length ds"
proof (induction y z ds arbitrary: ds' c rule: mul_short_loop.induct)
  case (2 y z d ds)
  let ?t = "y * d"
  obtain ds'' where rec: "mul_short_loop y (?t div Base) ds = (ds'', c)" and ds': "ds' = (?t mod Base + z) # ds''"
    using 2(2) by (auto simp: Let_def split: prod.splits)
  from 2(1) [OF refl rec] have IH: "big_val ds'' + Base ^ length ds * c = y * big_val ds + ?t div Base"
    "length ds'' = length ds" by auto
  have "big_val ds' + Base ^ length (d # ds) * c = ?t mod Base + z + Base * (big_val ds'' + Base ^ length ds * c)"
    by (simp add: ds' algebra_simps)
  also have "\<dots> = (?t mod Base + Base * (?t div Base)) + z + y * (Base * big_val ds)"
    unfolding IH(1) by (simp add: algebra_simps)
  also have "\<dots> = y * big_val (d # ds) + z"
    unfolding mod_mult_div_eq by (simp add: algebra_simps)
  finally show ?case using IH(2) ds' by simp
qed auto

text \<open>A product with a short factor that is not given up is exact.\<close>

lemma mul_short_value:
  assumes "x \<noteq> []" "length x \<le> m" "mul_short m y x \<noteq> []"
  shows "big_val (mul_short m y x) = big_val x * y \<and> length (mul_short m y x) \<le> m"
proof -
  obtain ds c where loop: "mul_short_loop y 0 x = (ds, c)" by fastforce
  note v = mul_short_loop_value [OF loop]
  have ds: "ds \<noteq> []" using v assms(1) by auto
  consider (no) "c = 0" | (grow) "c \<noteq> 0" "length ds < m" | (top) "c \<noteq> 0" "length ds = m"
    using v assms(2) by linarith
  then show ?thesis
  proof cases
    case top
    let ?c = "c + last ds div Base"
    have ok: "?c = 0 \<or> ?c = -1" and
      eq: "mul_short m y x = ds[length ds - 1 := last ds mod Base + ?c * Base]"
      using top assms loop v
      by (auto simp: mul_short_def mul_add_short_any_def is_valid_def Let_def split: if_splits)
    have "last ds mod Base + ?c * Base - last ds = c * Base"
      using mod_div_mult_eq [of "last ds" Base] by (simp add: algebra_simps)
    then have "big_val (mul_short m y x) = big_val ds + Base ^ (length ds - 1) * (c * Base)"
      using ds unfolding eq by (simp add: big_val_update last_conv_nth)
    also have "\<dots> = big_val ds + Base ^ length ds * c"
      using ds by (cases "length ds") (auto simp: algebra_simps)
    finally show ?thesis using v eq top by (simp add: algebra_simps)
  qed (use assms loop v in \<open>auto simp: mul_short_def mul_add_short_any_def is_valid_def big_val_append algebra_simps\<close>)
qed

section \<open>The leading digit bounds the value\<close>

lemma low_part_bound:
  assumes "list_all digit_ok ds"
  shows "3 * \<bar>big_val ds\<bar> \<le> 2 * Base ^ length ds"
proof -
  have "(Base - 1) * all_ones (length ds) = Base ^ length ds - 1" by (rule all_ones_width)
  moreover have "3 * (Half * all_ones (length ds)) \<le> 2 * ((Base - 1) * all_ones (length ds))"
    using mult_right_mono [of "3 * Half" "2 * (Base - 1)" "all_ones (length ds)"]
    by (simp add: Base_def Half_def)
  moreover have "\<bar>big_val ds\<bar> \<le> Half * all_ones (length ds)"
    using digits_fit [OF assms] all_ones_nonneg [of "length ds"]
    unfolding fits_words_def left_diff_distrib mult_minus_left by linarith
  ultimately show ?thesis by linarith
qed

lemma top_digit_bound:
  assumes "ds \<noteq> []" "list_all digit_ok ds"
  shows "(3 * \<bar>last ds\<bar> - 2) * Base ^ (length ds - 1) \<le> 3 * \<bar>big_val ds\<bar>"
proof -
  have "3 * \<bar>big_val (butlast ds)\<bar> \<le> 2 * Base ^ (length ds - 1)"
    using low_part_bound [of "butlast ds"] assms by (simp add: list_all_iff in_set_butlastD)
  moreover have "\<bar>Base ^ (length ds - 1) * last ds\<bar> = Base ^ (length ds - 1) * \<bar>last ds\<bar>"
    by (simp add: abs_mult)
  moreover have "(3 * \<bar>last ds\<bar> - 2) * Base ^ (length ds - 1) =
      3 * (Base ^ (length ds - 1) * \<bar>last ds\<bar>) - 2 * Base ^ (length ds - 1)"
    by (simp add: algebra_simps)
  ultimately show ?thesis
    using big_val_last [OF assms(1)] by linarith
qed

section \<open>The operators of the machine's integers\<close>

text \<open>\<open>BigInt256\<close> is \<open>BigIntG<257>\<close>, which has five words.\<close>

definition words_256 :: nat where
  "words_256 = 5"

definition refint_add :: "digits \<Rightarrow> digits \<Rightarrow> digits" where
  "refint_add x y = normalize_bool_any words_256 (add_any words_256 x y)"

definition refint_add_long :: "digits \<Rightarrow> int \<Rightarrow> digits" where
  "refint_add_long x y = normalize_bool_any words_256 (add_tiny y x)"

definition refint_sub :: "digits \<Rightarrow> digits \<Rightarrow> digits" where
  "refint_sub x y = normalize_bool_any words_256 (sub_any words_256 x y)"

definition refint_sub_long :: "digits \<Rightarrow> int \<Rightarrow> digits" where
  "refint_sub_long x y = normalize_bool_any words_256 (add_tiny (- y) x)"

definition refint_neg :: "digits \<Rightarrow> digits" where
  "refint_neg x = normalize_bool_any words_256 (negate_any x)"

definition refint_not :: "digits \<Rightarrow> digits" where
  "refint_not x = normalize_bool_any words_256 (logical_not x)"

definition refint_mul :: "digits \<Rightarrow> digits \<Rightarrow> digits" where
  "refint_mul x y = normalize_bool_any words_256 (add_mul_any words_256 [0] x y)"

definition refint_mul_long :: "digits \<Rightarrow> int \<Rightarrow> digits" where
  "refint_mul_long x y = normalize_bool_any words_256 (mul_short_opt words_256 y x)"

text \<open>
  The integers of the machine: the invalid number, or a normalised number of at most five
  digits.  \<open>computes r v\<close> says that \<open>r\<close> is such an integer and represents the exact result \<open>v\<close> of an
  operation: the invalid number stands for an invalid operand (\<open>None\<close>) and for results that
  do not fit the 257 bits of an integer on the stack.
\<close>

definition refint_ok :: "digits \<Rightarrow> bool" where
  "refint_ok r = (r = [] \<or> normalized r \<and> length r \<le> words_256)"

definition fits_257 :: "int \<Rightarrow> bool" where
  "fits_257 v = (- (2 ^ 256) \<le> v \<and> v < 2 ^ 256)"

definition computes :: "digits \<Rightarrow> int option \<Rightarrow> bool" where
  "computes r v =
     (refint_ok r \<and>
      (case v of
         None \<Rightarrow> r = []
       | Some i \<Rightarrow> if r = [] then \<not> fits_257 i else big_val r = i))"

lemma fits_257_words: "fits_257 v \<Longrightarrow> fits_words words_256 v"
  by (simp add: fits_257_def fits_words_def words_256_def eval_nat_numeral Base_def Half_def)

lemma computes_normalize:
  assumes "x \<noteq> []" "length x \<le> words_256"
  shows "computes (normalize_bool_any words_256 x) (Some (big_val x))"
proof (cases "fits_words words_256 (big_val x)")
  case True
  moreover have "normalize_bool_any words_256 x \<noteq> []"
    using normalize_correct [OF assms] True by (auto simp: normalized_def)
  ultimately show ?thesis
    using normalize_correct [OF assms] by (auto simp: computes_def refint_ok_def)
next
  case False
  then have "normalize_bool_any words_256 x = []" "\<not> fits_257 (big_val x)"
    using normalize_correct [OF assms] fits_257_words by auto
  then show ?thesis by (simp add: computes_def refint_ok_def)
qed

lemma normalize_invalid [simp]: "normalize_bool_any m [] = []"
  by (simp add: normalize_bool_any_def is_valid_def)

lemma computes_invalid [simp]: "computes [] None"
  by (simp add: computes_def refint_ok_def)

lemma refint_ok_cases:
  assumes "refint_ok x"
  obtains "x = []" "big_abs x = None" | "normalized x" "x \<noteq> []" "length x \<le> words_256" "big_abs x = Some (big_val x)"
  using assms by (auto simp: refint_ok_def big_abs_def is_valid_def normalized_def)

text \<open>The lift of an integer operation to operands that may be invalid.\<close>

definition lift1 :: "(int \<Rightarrow> int) \<Rightarrow> int option \<Rightarrow> int option" where
  "lift1 f a = map_option f a"

definition lift2 :: "(int \<Rightarrow> int \<Rightarrow> int) \<Rightarrow> int option \<Rightarrow> int option \<Rightarrow> int option" where
  "lift2 f a b = (case (a, b) of (Some x, Some y) \<Rightarrow> Some (f x y) | _ \<Rightarrow> None)"

lemma refint_unary_correct:
  assumes "refint_ok x"
  shows "computes (refint_neg x) (lift1 uminus (big_abs x))"
    and "computes (refint_not x) (lift1 (\<lambda>v. - v - 1) (big_abs x))"
    and "computes (refint_add_long x k) (lift1 (\<lambda>v. v + k) (big_abs x))"
    and "computes (refint_sub_long x k) (lift1 (\<lambda>v. v - k) (big_abs x))"
    and "\<bar>k\<bar> \<le> MaxDenorm \<Longrightarrow> computes (refint_mul_long x k) (lift1 (\<lambda>v. v * k) (big_abs x))"
proof -
  note d = refint_neg_def refint_not_def refint_add_long_def refint_sub_long_def refint_mul_long_def
    mul_short_opt_def lift1_def
  have "computes (normalize_bool_any words_256 (f x)) (map_option g (big_abs x))"
    if "f [] = []" "\<And>x. x \<noteq> [] \<Longrightarrow> f x \<noteq> [] \<and> length (f x) = length x \<and> big_val (f x) = g (big_val x)" for f g
    using assms
  proof (rule refint_ok_cases)
    assume "x = []" "big_abs x = None"
    with that(1) show ?thesis by simp
  next
    assume "normalized x" "x \<noteq> []" "length x \<le> words_256" "big_abs x = Some (big_val x)"
    with that(2) [of x] computes_normalize [of "f x"] show ?thesis by simp
  qed
  note gen = this
  show "computes (refint_neg x) (lift1 uminus (big_abs x))"
    unfolding d by (rule gen) auto
  show "computes (refint_not x) (lift1 (\<lambda>v. - v - 1) (big_abs x))"
    unfolding d by (rule gen) auto
  show "computes (refint_add_long x k) (lift1 (\<lambda>v. v + k) (big_abs x))"
    unfolding d by (rule gen) auto
  show "computes (refint_sub_long x k) (lift1 (\<lambda>v. v - k) (big_abs x))"
    unfolding d by (rule gen) auto
  show "computes (refint_mul_long x k) (lift1 (\<lambda>v. v * k) (big_abs x))" if "\<bar>k\<bar> \<le> MaxDenorm"
    unfolding d using that by (intro gen) (auto simp: abs_le_iff)
qed

lemma refint_add_sub_correct:
  assumes "refint_ok x" "refint_ok y"
  shows "computes (refint_add x y) (lift2 (+) (big_abs x) (big_abs y))"
    and "computes (refint_sub x y) (lift2 (-) (big_abs x) (big_abs y))"
proof -
  have "computes (refint_add x y) (lift2 (+) (big_abs x) (big_abs y)) \<and>
      computes (refint_sub x y) (lift2 (-) (big_abs x) (big_abs y))"
  proof (cases "x = [] \<or> y = []")
    case True
    then show ?thesis
      by (auto simp: refint_add_def refint_sub_def add_any_props lift2_def big_abs_def is_valid_def
          split: option.splits)
  next
    case False
    then have "length x \<le> words_256" "length y \<le> words_256" using assms by (auto simp: refint_ok_def)
    with False computes_normalize [of "zip_digits (+) x y"] computes_normalize [of "zip_digits (-) x y"]
    show ?thesis
      by (simp add: refint_add_def refint_sub_def add_any_props lift2_def big_abs_def is_valid_def)
  qed
  then show "computes (refint_add x y) (lift2 (+) (big_abs x) (big_abs y))"
    and "computes (refint_sub x y) (lift2 (-) (big_abs x) (big_abs y))" by auto
qed

lemma large_div: "z div Base \<notin> {0, -1} \<Longrightarrow> Base \<le> \<bar>z\<bar>"
proof (rule ccontr)
  assume *: "z div Base \<notin> {0, -1}" and "\<not> Base \<le> \<bar>z\<bar>"
  then have "z < Base" "- Base < z" by auto
  then have "z div Base < 1" "- 1 \<le> z div Base"
    using div_Base_bounds(2) [of z 1] div_Base_bounds(1) [of "-1" z] by auto
  with * show False by auto
qed

lemma large_factors:
  assumes "Base \<le> a * b" "a \<le> Half" "b \<le> Half" "0 \<le> a" "0 \<le> b"
  shows "2 \<le> a \<and> 2 \<le> b"
proof -
  have small: "u * v < Base" if "u \<le> 1" "0 \<le> u" "v \<le> Half" "0 \<le> v" for u v
  proof -
    have "u * v \<le> 1 * Half" using that by (intro mult_mono) auto
    with Base_Half Half_pos show ?thesis by linarith
  qed
  have "\<not> a \<le> 1" using small [of a b] assms by auto
  moreover have "\<not> b \<le> 1" using small [of b a] assms by (auto simp: mult.commute)
  ultimately show ?thesis by simp
qed

text \<open>A product that \<open>add_mul_any\<close> gives up does not fit 257 bits.\<close>

lemma large_product:
  assumes y: "normalized y" "length y \<le> words_256" and z: "normalized z" "length z \<le> words_256"
    and big: "length y + length z > words_256 + 1 \<or>
      length y + length z = words_256 + 1 \<and> last y * last z div Base \<notin> {0, -1}"
  shows "\<not> fits_257 (big_val y * big_val z)"
proof -
  have ny: "y \<noteq> []" "list_all digit_ok y" and nz: "z \<noteq> []" "list_all digit_ok z"
    using y z by (auto simp: normalized_def)
  define n where "n = length y - 1 + (length z - 1)"
  define ty where "ty = 3 * \<bar>last y\<bar> - 2"
  define tz where "tz = 3 * \<bar>last z\<bar> - 2"
  have t: "0 \<le> ty \<and> 0 \<le> tz \<and> 9 * 2 ^ 256 < ty * tz * Base ^ n"
  proof (cases "length y + length z > words_256 + 1")
    case True
    then have "length y > 1" "length z > 1" "5 \<le> n" using y z by (auto simp: words_256_def n_def)
    then have "1 \<le> \<bar>last y\<bar>" "1 \<le> \<bar>last z\<bar>" using y z by (auto simp: normalized_def)
    then have "1 \<le> ty" "1 \<le> tz" by (auto simp: ty_def tz_def)
    then have "1 * 1 * Base ^ 5 \<le> ty * tz * Base ^ n"
      using \<open>5 \<le> n\<close> by (intro mult_mono power_increasing) (auto simp: Base_def)
    moreover have "9 * 2 ^ 256 < Base ^ 5" by (simp add: Base_def)
    ultimately show ?thesis using \<open>1 \<le> ty\<close> \<open>1 \<le> tz\<close> by linarith
  next
    case False
    then have n: "n = 4" and hi: "last y * last z div Base \<notin> {0, -1}"
      using big ny nz by (auto simp: n_def words_256_def simp flip: length_greater_0_conv)
    have "Base \<le> \<bar>last y\<bar> * \<bar>last z\<bar>" using hi large_div by (simp flip: abs_mult)
    moreover have "\<bar>last y\<bar> \<le> Half" "\<bar>last z\<bar> \<le> Half"
      using ny nz last_in_set by (fastforce simp: list_all_iff digit_ok_def)+
    ultimately have "2 \<le> \<bar>last y\<bar> \<and> 2 \<le> \<bar>last z\<bar>" and ab: "Base \<le> \<bar>last y\<bar> * \<bar>last z\<bar>"
      using large_factors [of "\<bar>last y\<bar>" "\<bar>last z\<bar>"] by simp_all
    then have le: "2 * \<bar>last y\<bar> \<le> ty" "2 * \<bar>last z\<bar> \<le> tz" by (auto simp: ty_def tz_def)
    then have "(2 * \<bar>last y\<bar>) * (2 * \<bar>last z\<bar>) \<le> ty * tz" by (intro mult_mono) auto
    then have "4 * (\<bar>last y\<bar> * \<bar>last z\<bar>) \<le> ty * tz" by simp
    with ab Base_pos have "Base \<le> ty * tz" by linarith
    then have "Base * Base ^ 4 \<le> ty * tz * Base ^ n" unfolding n by (intro mult_right_mono) auto
    moreover have "9 * 2 ^ 256 < Base * Base ^ 4" by (simp add: Base_def)
    ultimately show ?thesis using le by linarith
  qed
  have "(ty * Base ^ (length y - 1)) * (tz * Base ^ (length z - 1)) \<le> (3 * \<bar>big_val y\<bar>) * (3 * \<bar>big_val z\<bar>)"
    by (rule mult_mono) (use top_digit_bound [OF ny] top_digit_bound [OF nz] t in \<open>simp_all add: ty_def tz_def\<close>)
  also have "(ty * Base ^ (length y - 1)) * (tz * Base ^ (length z - 1)) = ty * tz * Base ^ n"
    by (simp add: n_def power_add)
  finally have "9 * 2 ^ 256 < 9 * \<bar>big_val y * big_val z\<bar>" using t by (simp add: abs_mult)
  then show ?thesis unfolding fits_257_def by linarith
qed

lemma refint_mul_correct:
  assumes "refint_ok x" "refint_ok y"
  shows "computes (refint_mul x y) (lift2 (*) (big_abs x) (big_abs y))"
proof (cases "x = [] \<or> y = []")
  case True
  then show ?thesis
    by (auto simp: refint_mul_def add_mul_any_def lift2_def big_abs_def is_valid_def Let_def split: option.splits)
next
  case False
  then have n: "normalized x" "length x \<le> words_256" "normalized y" "length y \<le> words_256"
    and v: "lift2 (*) (big_abs x) (big_abs y) = Some (big_val x * big_val y)"
    using assms by (auto simp: refint_ok_def lift2_def big_abs_def is_valid_def)
  let ?r = "add_mul_any words_256 [0] x y"
  have val: "if length x + length y > words_256 + 1 \<or>
      length x + length y = words_256 + 1 \<and> last x * last y div Base \<notin> {0, -1}
    then ?r = [] else big_val ?r = big_val [0] + big_val x * big_val y \<and> ?r \<noteq> [] \<and> length ?r \<le> words_256"
    using False by (intro add_mul_any_value) (auto simp: words_256_def)
  show ?thesis
  proof (cases "?r = []")
    case True
    then have "\<not> fits_257 (big_val x * big_val y)"
      using val by (intro large_product n) (auto split: if_splits)
    with True show ?thesis by (simp add: refint_mul_def v computes_def refint_ok_def)
  next
    case False
    then have "big_val ?r = big_val x * big_val y" "length ?r \<le> words_256"
      using val by (auto split: if_splits)
    with False computes_normalize [of ?r] show ?thesis by (simp add: refint_mul_def v)
  qed
qed

end
