(* ===== verification/Bigint_Cmp.thy ===== *)
theory Bigint_Cmp
  imports Bigint_Mul
begin

text \<open>
  Signs, comparisons and range checks of big integers (\<^verbatim>\<open>crypto/common/bigint.hpp\<close>), computed on the
  digits without converting the number, and the proof that they decide the corresponding
  facts about its value.
\<close>

section \<open>Definitions\<close>

text \<open>\<open>sgn()\<close>; the sign of the invalid number is \<open>0x80000000\<close>, the least 32-bit integer.\<close>

definition sgn_any :: "digits \<Rightarrow> int" where
  "sgn_any x =
     (if is_valid x then (if last x > 0 then 1 else if last x < 0 then -1 else 0) else - (2 ^ 31))"

text \<open>The loop of \<open>cmp_any\<close>, on the digits from the topmost one down.\<close>

fun cmp_loop :: "digits \<Rightarrow> digits \<Rightarrow> int" where
  "cmp_loop (a # as) (b # bs) = (if a < b then -1 else if a > b then 1 else cmp_loop as bs)"
| "cmp_loop _ _ = 0"

definition cmp_any :: "digits \<Rightarrow> digits \<Rightarrow> int" where
  "cmp_any x y =
     (if length y < length x then if last x < 0 then -1 else 1
      else if length y > length x then if last y > 0 then -1 else 1
      else cmp_loop (rev x) (rev y))"

definition cmp_any_word :: "digits \<Rightarrow> int \<Rightarrow> int" where
  "cmp_any_word x y =
     (if length x = 1 then (if x ! 0 < y then -1 else if x ! 0 > y then 1 else 0)
      else if length x = 0 then - (2 ^ 31)
      else if length x = 2 \<and> (y \<ge> Half \<or> y < - Half) then
        let x0 = x ! 0 mod Base; y0 = y mod Base;
            x1 = x ! 1 + x ! 0 div Base; y1 = y div Base
        in if x1 < y1 then -1 else if x1 > y1 then 1
           else if x0 < y0 then -1 else if x0 > y0 then 1 else 0
      else if last x < 0 then -1 else 1)"

definition eq_any :: "digits \<Rightarrow> digits \<Rightarrow> bool" where
  "eq_any x y = (if length y \<noteq> length x then False else x = y)"

definition eq_any_word :: "digits \<Rightarrow> int \<Rightarrow> bool" where
  "eq_any_word x y = (length x = 1 \<and> x ! 0 = y)"

text \<open>
  The final loops of the range checks: the sign of the topmost digit that is not zero, of the
  digits from the topmost one down.
\<close>

fun low_sign :: "digits \<Rightarrow> int" where
  "low_sign [] = 0"
| "low_sign (d # ds) = (if d < 0 then -1 else if d > 0 then 1 else low_sign ds)"

definition unsigned_fits_bits_any :: "int \<Rightarrow> digits \<Rightarrow> bool" where
  "unsigned_fits_bits_any nbits x =
     (if \<not> is_valid x then False
      else if sgn_any x < 0 then False
      else if sgn_any x = 0 then True
      else if nbits \<ge> int (length x * 52) then True
      else if nbits < 0 then False
      else
        let k = nat nbits div 52; r = nat nbits mod 52; tail = low_sign (rev (take k x)) < 0
        in if length x \<ge> k + 2 then
             if \<not> (length x = k + 2 \<and> r = 51) then False
             else if x ! (k + 1) \<noteq> 1 then False
             else if x ! k > - Half then False
             else if x ! k < - Half then True
             else tail
           else if length x \<le> k then True
           else if x ! k > 2 ^ r then False
           else if x ! k < 2 ^ r then True
           else tail)"

text \<open>The part of \<open>signed_fits_bits_any\<close> after the special cases: is \<open>x\<close>, of the sign \<open>s\<close>, within \<open>2 ^ (52 * k + r)\<close>.\<close>

definition signed_fits_core :: "int \<Rightarrow> nat \<Rightarrow> nat \<Rightarrow> digits \<Rightarrow> bool" where
  "signed_fits_core s k r x =
     (let l = low_sign (rev (take k x));
          tail = (if l < 0 then s > 0 else if l > 0 then s < 0 else s < 0);
          val = (if s > 0 then x ! k else - (x ! k))
      in if length x \<le> k then True
         else if length x \<ge> k + 2 then
           if \<not> (length x = k + 2 \<and> r = 51) then False
           else if x ! (k + 1) \<noteq> s then False
           else if val > - Half then False else if val < - Half then True else tail
         else if val > 2 ^ r then False else if val < 2 ^ r then True else tail)"

definition signed_fits_bits_any :: "int \<Rightarrow> digits \<Rightarrow> bool" where
  "signed_fits_bits_any nbits x =
     (if \<not> is_valid x then False
      else if nbits > int (length x * 52) then True
      else if sgn_any x = 0 then True
      else if nbits \<le> 0 then False
      else signed_fits_core (sgn_any x) (nat (nbits - 1) div 52) (nat (nbits - 1) mod 52) x)"

text \<open>A 64-bit signed word of the value \<open>v\<close> modulo \<open>2 ^ 64\<close>.\<close>

definition wrap64 :: "int \<Rightarrow> int" where
  "wrap64 v = signed_take_bit 63 v"

text \<open>The loop of \<open>to_long_any\<close> over the digits 1 to \<open>n\<close>: is the excess \<open>w\<close> exactly their value.\<close>

fun to_long_loop :: "int \<Rightarrow> digits \<Rightarrow> bool" where
  "to_long_loop w [] = False"
| "to_long_loop w [d] = (w = d)"
| "to_long_loop w (d # ds) = (if (w - d) mod Base \<noteq> 0 then False else to_long_loop ((w - d) div Base) ds)"

definition to_long_any :: "digits \<Rightarrow> int" where
  "to_long_any x =
     (case x of
        [] \<Rightarrow> - (2 ^ 63)
      | [d] \<Rightarrow> d
      | d0 # d1 # ds \<Rightarrow>
          let v = wrap64 (d0 + d1 * Base);
              w = (v mod Base - d0) div Base + v div Base
          in if to_long_loop w (d1 # ds) then v else - (2 ^ 63))"

text \<open>The sign of a number whose digits need not be normalised.\<close>

fun sgn_un_loop :: "int \<Rightarrow> digits \<Rightarrow> int" where
  "sgn_un_loop v [] = (if v > 0 then 1 else if v < 0 then -1 else 0)"
| "sgn_un_loop v (w # ws) =
     (let v' = v * Base
      in if w \<ge> - v' + MaxDenorm then 1
         else if w \<le> - v' - MaxDenorm then -1
         else sgn_un_loop (v' + w) ws)"

definition sgn_un_any :: "digits \<Rightarrow> int" where
  "sgn_un_any x =
     (case rev x of
        [] \<Rightarrow> 0
      | v # ws \<Rightarrow>
          if ws \<noteq> [] \<and> v \<ge> MaxDenorm then 1
          else if ws \<noteq> [] \<and> v \<le> - MaxDenorm then -1
          else sgn_un_loop v ws)"

text \<open>
  \<open>cmp_un_any\<close> compares the transformed number \<open>tr x\<close> with \<open>y\<close>.  The two loops over the digits that only
  one of the numbers has either return a verdict (\<open>Inl\<close>) or the value of these digits (\<open>Inr\<close>);
  the second test of the first loop is the one of the source, \<open>w <= -v + MaxDenorm\<close>.
\<close>

fun cmp_un_high_x :: "(int \<Rightarrow> int) \<Rightarrow> int \<Rightarrow> digits \<Rightarrow> int + int" where
  "cmp_un_high_x tr v [] = Inr v"
| "cmp_un_high_x tr v (d # ds) =
     (let v' = v * Base; w = tr d
      in if w \<ge> - v' + MaxDenorm then Inl 1
         else if w \<le> - v' + MaxDenorm then Inl (-1)
         else cmp_un_high_x tr (v' + w) ds)"

fun cmp_un_high_y :: "int \<Rightarrow> digits \<Rightarrow> int + int" where
  "cmp_un_high_y v [] = Inr v"
| "cmp_un_high_y v (w # ws) =
     (let v' = v * Base
      in if w \<le> v' - MaxDenorm then Inl 1
         else if w \<ge> v' + MaxDenorm then Inl (-1)
         else cmp_un_high_y (v' - w) ws)"

definition cmp_un_any :: "(int \<Rightarrow> int) \<Rightarrow> digits \<Rightarrow> digits \<Rightarrow> int" where
  "cmp_un_any tr x y =
     (let xn = length x; yn = length y;
          high =
            (if yn < xn then
               let v = tr (last x)
               in if v \<ge> MaxDenorm then Inl 1
                  else if v \<le> - MaxDenorm then Inl (-1)
                  else cmp_un_high_x tr v (rev (drop yn (butlast x)))
             else if yn > xn then
               let v = - last y
               in if v \<ge> MaxDenorm then Inl 1
                  else if v \<le> - MaxDenorm then Inl (-1)
                  else cmp_un_high_y v (rev (drop xn (butlast y)))
             else Inr 0)
      in case high of
           Inl r \<Rightarrow> r
         | Inr v \<Rightarrow> sgn_un_loop v (rev (map2 (\<lambda>a b. tr a - b) x y)))"

section \<open>The topmost digit decides\<close>

lemma digits_diff:
  assumes "list_all digit_ok x" "list_all digit_ok y" "length x = length y"
  shows "\<bar>big_val x - big_val y\<bar> < Base ^ length x"
proof -
  have "(Half - 1) * all_ones (length x) + Half * all_ones (length x) = Base ^ length x - 1"
    using all_ones_width [of "length x"] by (simp add: Base_Half algebra_simps)
  then show ?thesis
    using digits_fit [OF assms(1)] digits_fit [OF assms(2)] assms(3)
    unfolding fits_words_def by simp linarith
qed

lemma top_digit_decides:
  assumes "\<bar>l1 - l2\<bar> < P" "d1 < d2"
  shows "l1 + P * d1 < l2 + P * (d2 :: int)"
proof -
  have "P * (d1 + 1) \<le> P * d2" using assms by (intro mult_left_mono) auto
  then show ?thesis using assms(1) by (simp add: distrib_left abs_less_iff)
qed

lemma cmp_loop_correct:
  assumes "length x = length y" "list_all digit_ok x" "list_all digit_ok y"
  shows "cmp_loop (rev x) (rev y) = sgn (big_val x - big_val y)"
  using assms
proof (induction x arbitrary: y rule: rev_induct)
  case (snoc a x)
  then obtain b y' where y: "y = y' @ [b]" "length y' = length x" by (cases y rule: rev_exhaust) auto
  have d: "\<bar>big_val x - big_val y'\<bar> < Base ^ length x"
    using snoc.prems y by (intro digits_diff) auto
  consider "a < b" | "a > b" | "a = b" by linarith
  then show ?case
  proof cases
    case 1
    with top_digit_decides [OF d 1] y show ?thesis by (simp add: big_val_append)
  next
    case 2
    have "\<bar>big_val y' - big_val x\<bar> < Base ^ length x" using d by linarith
    with top_digit_decides [OF this 2] y 2 show ?thesis by (simp add: big_val_append)
  next
    case 3
    with snoc y show ?thesis by (simp add: big_val_append)
  qed
qed simp

lemma low_sign_correct: "list_all digit_ok x \<Longrightarrow> low_sign (rev x) = sgn (big_val x)"
proof -
  have "low_sign ds = cmp_loop ds (replicate (length ds) 0)" for ds
    by (induction ds) auto
  then have "low_sign (rev x) = cmp_loop (rev x) (rev (replicate (length x) 0))" by simp
  also assume "list_all digit_ok x"
  then have "cmp_loop (rev x) (rev (replicate (length x) 0)) = sgn (big_val x - big_val (replicate (length x) 0))"
    by (intro cmp_loop_correct) (auto simp: digit_ok_def list_all_iff Half_def)
  finally show ?thesis by simp
qed

lemma big_val_pad: "big_val (y @ replicate k 0) = big_val y"
  by (simp add: big_val_append)

lemma sgn_any_correct: "normalized x \<Longrightarrow> sgn_any x = sgn (big_val x)"
proof -
  assume n: "normalized x"
  then have x: "x \<noteq> []" "list_all digit_ok x" by (auto simp: normalized_def)
  obtain d ds where r: "rev x = d # ds" using x by (cases "rev x") auto
  then have l: "last x = d" by (metis last_rev list.sel(1) rev_rev_ident hd_rev)
  have "low_sign (rev x) = sgn (big_val x)" using x by (intro low_sign_correct)
  moreover have "d = 0 \<Longrightarrow> ds = []"
    using n l r by (metis length_rev length_Cons length_greater_0_conv less_one linorder_neqE_nat normalized_def
        One_nat_def Suc_less_eq)
  ultimately show ?thesis using r l x by (cases "d = 0") (auto simp: sgn_any_def is_valid_def)
qed

lemma normalized_last: "normalized u \<Longrightarrow> normalized v \<Longrightarrow> length v < length u \<Longrightarrow> last u \<noteq> 0"
  by (cases v) (auto simp: normalized_def)

text \<open>Of two normalised numbers, the one with more digits is decided by its topmost digit.\<close>

lemma more_digits:
  assumes u: "normalized u" and v: "normalized v" and len: "length v < length u"
  shows "last u < 0 \<Longrightarrow> big_val u < big_val v" "\<not> last u < 0 \<Longrightarrow> big_val v < big_val u"
proof -
  let ?k = "length u - 1"
  have nu: "u \<noteq> []" "list_all digit_ok (butlast u)" "last u \<noteq> 0"
    using u normalized_last [OF u v len] by (auto simp: normalized_def list_all_iff dest: in_set_butlastD)
  have "list_all digit_ok (v @ replicate (?k - length v) 0)"
    using v by (auto simp: normalized_def digit_ok_def list_all_iff Half_def)
  then have "\<bar>big_val (butlast u) - big_val (v @ replicate (?k - length v) 0)\<bar> < Base ^ length (butlast u)"
    using nu len by (intro digits_diff) auto
  then have d: "\<bar>big_val (butlast u) - big_val v\<bar> < Base ^ ?k" by (simp add: big_val_pad)
  then have d': "\<bar>big_val v - big_val (butlast u)\<bar> < Base ^ ?k" by linarith
  note val = big_val_last [OF nu(1)]
  show "big_val u < big_val v" if "last u < 0"
    using top_digit_decides [OF d that] val by simp
  show "big_val v < big_val u" if "\<not> last u < 0"
    using top_digit_decides [OF d', of 0 "last u"] that nu(3) val by simp
qed

lemma cmp_any_correct:
  assumes "normalized x" "normalized y"
  shows "cmp_any x y = sgn (big_val x - big_val y)"
proof -
  consider "length y < length x" | "length x < length y" | "length x = length y" by linarith
  then show ?thesis
  proof cases
    case 1
    then show ?thesis using more_digits [OF assms 1] by (auto simp: cmp_any_def)
  next
    case 2
    moreover have "last y \<noteq> 0" using normalized_last [OF assms(2,1) 2] .
    ultimately show ?thesis using more_digits [OF assms(2,1) 2] by (auto simp: cmp_any_def)
  next
    case 3
    then show ?thesis using assms cmp_loop_correct by (auto simp: cmp_any_def normalized_def)
  qed
qed

lemma eq_any_correct:
  assumes "normalized x" "normalized y"
  shows "eq_any x y \<longleftrightarrow> big_val x = big_val y"
proof
  assume "big_val x = big_val y"
  then have "cmp_any x y = 0" using cmp_any_correct [OF assms] by simp
  then have len: "length x = length y" and "cmp_loop (rev x) (rev y) = 0"
    by (auto simp: cmp_any_def split: if_splits)
  moreover have "cmp_loop xs ys = 0 \<Longrightarrow> length xs = length ys \<Longrightarrow> xs = ys" for xs ys
    by (induction xs ys rule: cmp_loop.induct) (auto split: if_splits)
  ultimately show "eq_any x y" by (metis eq_any_def length_rev rev_is_rev_conv)
qed (auto simp: eq_any_def split: if_splits)

section \<open>Range checks\<close>

text \<open>
  The comparison of a number \<open>W = P * v + l\<close> with \<open>P * q\<close>, where the lower part \<open>l\<close> is smaller than
  \<open>P\<close>: the leading parts decide it, and if they agree the sign of the lower part does.
\<close>

lemma compare_leading:
  fixes v q l P :: int
  assumes "\<bar>l\<bar> < P"
  shows "v > q \<Longrightarrow> P * q < P * v + l" "v < q \<Longrightarrow> P * v + l < P * q"
    "v = q \<Longrightarrow> P * v + l < P * q \<longleftrightarrow> l < 0" "v = q \<Longrightarrow> P * v + l \<le> P * q \<longleftrightarrow> l \<le> 0"
  using top_digit_decides [of 0 l P q v] top_digit_decides [of l 0 P v q] assms by (auto simp: add.commute)

lemma low_part_less: "list_all digit_ok ds \<Longrightarrow> \<bar>big_val ds\<bar> < Base ^ length ds"
proof -
  assume "list_all digit_ok ds"
  then have "3 * \<bar>big_val ds\<bar> \<le> 2 * Base ^ length ds" by (rule low_part_bound)
  moreover have "2 * Base ^ length ds < 3 * Base ^ length ds" by simp
  ultimately show ?thesis by linarith
qed

lemma big_val_split:
  "k < length x \<Longrightarrow> big_val x = big_val (take k x) + Base ^ k * (x ! k + Base * big_val (drop (Suc k) x))"
  using big_val_append [of "take k x" "x ! k # drop (Suc k) x"] by (simp add: id_take_nth_drop [symmetric])

text \<open>
  The specification of the signed range check in terms of the sign \<open>s\<close> and the magnitude
  \<open>s * v\<close>: the positive bound is strict, the negative one is not.
\<close>

definition magnitude_fits :: "int \<Rightarrow> int \<Rightarrow> int \<Rightarrow> bool" where
  "magnitude_fits s w b = (if s > 0 then w < b else w \<le> b)"

lemma magnitude_fits_iff:
  "s = sgn v \<Longrightarrow> 0 < b \<Longrightarrow> v \<noteq> 0 \<Longrightarrow> magnitude_fits s (s * v) b \<longleftrightarrow> - b \<le> v \<and> v < b"
  by (auto simp: magnitude_fits_def sgn_if)

lemma magnitude_leading:
  assumes l: "\<bar>l\<bar> < P" and s: "s = 1 \<or> s = -1"
  shows "s * a > q \<Longrightarrow> \<not> magnitude_fits s (s * (l + P * a)) (P * q)"
    "s * a < q \<Longrightarrow> magnitude_fits s (s * (l + P * a)) (P * q)"
    "s * a = q \<Longrightarrow> magnitude_fits s (s * (l + P * a)) (P * q) \<longleftrightarrow>
      (if l < 0 then s > 0 else if l > 0 then s < 0 else s < 0)"
proof -
  have eq: "s * (l + P * a) = P * (s * a) + s * l" by (simp add: algebra_simps)
  have l': "\<bar>s * l\<bar> < P" using l s by auto
  show "s * a > q \<Longrightarrow> \<not> magnitude_fits s (s * (l + P * a)) (P * q)"
    using compare_leading(1) [OF l', of q "s * a"] unfolding eq by (auto simp: magnitude_fits_def)
  show "s * a < q \<Longrightarrow> magnitude_fits s (s * (l + P * a)) (P * q)"
    using compare_leading(2) [OF l', of "s * a" q] unfolding eq by (auto simp: magnitude_fits_def)
  show "s * a = q \<Longrightarrow> magnitude_fits s (s * (l + P * a)) (P * q) \<longleftrightarrow>
      (if l < 0 then s > 0 else if l > 0 then s < 0 else s < 0)"
    unfolding eq using s by (auto simp: magnitude_fits_def)
qed

lemma few_digits_fit:
  assumes "normalized x" "length x \<le> k"
  shows "- (Base ^ k * 2 ^ r) \<le> big_val x" "big_val x < Base ^ k * 2 ^ r"
proof -
  have "\<bar>big_val x\<bar> < Base ^ length x" using assms by (intro low_part_less) (auto simp: normalized_def)
  also have "\<dots> \<le> Base ^ k" using assms(2) by (intro power_increasing) (auto simp: Base_def)
  also have "\<dots> \<le> Base ^ k * 2 ^ r" by simp
  finally show "- (Base ^ k * 2 ^ r) \<le> big_val x" "big_val x < Base ^ k * 2 ^ r" by auto
qed

lemma many_digits_do_not_fit:
  assumes "normalized x" "k + 2 \<le> length x" "r < 52" "length x \<noteq> k + 2 \<or> r \<noteq> 51"
  shows "Base ^ k * 2 ^ r < \<bar>big_val x\<bar>"
proof -
  have n: "x \<noteq> []" "list_all digit_ok x" "last x \<noteq> 0" using assms by (auto simp: normalized_def)
  have "3 * (Base ^ k * 2 ^ r) < Base ^ (length x - 1)"
  proof (cases "length x = k + 2")
    case True
    then have "r \<le> 50" using assms by simp
    then have "(2 :: int) ^ r \<le> 2 ^ 50" by (intro power_increasing) auto
    then have "3 * 2 ^ r < Base" by (simp add: Base_def)
    then have "Base ^ k * (3 * 2 ^ r) < Base ^ k * Base" by (intro mult_strict_left_mono) auto
    with True show ?thesis by (simp add: algebra_simps)
  next
    case False
    have "(2 :: int) ^ r \<le> 2 ^ 51" using assms(3) by (intro power_increasing) auto
    then have "3 * 2 ^ r < Base ^ 2" by (simp add: Base_def)
    then have "Base ^ k * (3 * 2 ^ r) < Base ^ k * Base ^ 2" by (intro mult_strict_left_mono) auto
    also have "\<dots> \<le> Base ^ (length x - 1)"
      unfolding power_add [symmetric] using False assms(2) by (intro power_increasing) (auto simp: Base_def)
    finally show ?thesis by (simp add: algebra_simps)
  qed
  moreover have "1 * Base ^ (length x - 1) \<le> (3 * \<bar>last x\<bar> - 2) * Base ^ (length x - 1)"
    using n(3) by (intro mult_right_mono) auto
  ultimately show ?thesis using top_digit_bound [OF n(1,2)] by linarith
qed

lemma signed_fits_core_correct:
  assumes n: "normalized x" and v: "big_val x \<noteq> 0" and r: "r < 52"
  defines "s \<equiv> sgn (big_val x)"
  shows "signed_fits_core s k r x \<longleftrightarrow> magnitude_fits s (s * big_val x) (Base ^ k * 2 ^ r)"
proof -
  let ?v = "big_val x" and ?l = "big_val (take k x)"
  have x: "x \<noteq> []" "list_all digit_ok x" using n by (auto simp: normalized_def)
  have s: "s = 1 \<or> s = -1" using v by (auto simp: s_def sgn_if)
  have sv: "s * ?v = \<bar>?v\<bar>" by (simp add: s_def abs_sgn mult.commute)
  have last: "sgn (last x) = s"
    using sgn_any_correct [OF n] x by (auto simp: sgn_any_def is_valid_def s_def sgn_if split: if_splits)
  have low: "list_all digit_ok (take k x)" using x by (auto simp: list_all_iff dest: in_set_takeD)
  have lsgn: "low_sign (rev (take k x)) = sgn ?l" using low by (rule low_sign_correct)
  consider (few) "length x \<le> k" | (one) "length x = k + 1" | (two) "length x = k + 2" "r = 51"
    | (many) "k + 2 \<le> length x" "length x \<noteq> k + 2 \<or> r \<noteq> 51" by linarith
  then show ?thesis
  proof cases
    case few
    then show ?thesis using few_digits_fit [OF n few, of r] v
      by (simp add: signed_fits_core_def magnitude_fits_iff s_def)
  next
    case many
    then show ?thesis using many_digits_do_not_fit [OF n many(1) r many(2)] sv
      by (auto simp: signed_fits_core_def magnitude_fits_def Let_def)
  next
    case one
    then have l: "\<bar>?l\<bar> < Base ^ k" and v: "?v = ?l + Base ^ k * (x ! k)"
      using low_part_less [OF low] big_val_split [of k x] by (simp_all add: min_def)
    have val: "(if s > 0 then x ! k else - (x ! k)) = s * x ! k" using s by auto
    show ?thesis
      using magnitude_leading [OF l s, where q = "2 ^ r" and a = "x ! k"] one
      unfolding v [symmetric] signed_fits_core_def Let_def val lsgn
      by (auto simp: sgn_if split: if_splits)
  next
    case two
    have "drop (Suc k) x = [x ! (k + 1)]" using two Cons_nth_drop_Suc [of "Suc k" x] by simp
    then have l: "\<bar>?l\<bar> < Base ^ k" and v: "?v = ?l + Base ^ k * (x ! k + Base * x ! (k + 1))"
      using low_part_less [OF low] big_val_split [of k x] two by (simp_all add: min_def)
    have "last x = x ! (k + 1)" using two x by (simp add: last_conv_nth)
    with last have t: "sgn (x ! (k + 1)) = s" by simp
    have "- Half \<le> x ! k \<and> x ! k < Half" using x two by (simp add: list_all_length digit_ok_def)
    then have dig: "- Half \<le> s * x ! k" "s * x ! k \<le> Half" using s by auto
    have val: "(if s > 0 then x ! k else - (x ! k)) = s * x ! k" using s by auto
    show ?thesis
    proof (cases "x ! (k + 1) = s")
      case True
      have "s * (x ! k + Base * x ! (k + 1)) = s * x ! k + Base" using s True by (auto simp: algebra_simps)
      then show ?thesis
        using magnitude_leading [OF l s, where q = "2 ^ r" and a = "x ! k + Base * x ! (k + 1)"] two True
        unfolding v [symmetric] signed_fits_core_def Let_def val lsgn
        by (auto simp: sgn_if Base_def Half_def split: if_splits)
    next
      case False
      then have "2 \<le> s * x ! (k + 1)" using t s by (auto simp: sgn_if split: if_splits)
      then have "Base * 2 \<le> Base * (s * x ! (k + 1))" by (intro mult_left_mono) auto
      then have "2 ^ r < s * (x ! k + Base * x ! (k + 1))"
        using dig two by (simp add: algebra_simps Base_def Half_def)
      then show ?thesis
        using magnitude_leading(1) [OF l s, where q = "2 ^ r" and a = "x ! k + Base * x ! (k + 1)"] two False
        unfolding v [symmetric] signed_fits_core_def Let_def by auto
    qed
  qed
qed

lemma signed_fits_bits_any_correct:
  assumes n: "normalized x"
  shows "signed_fits_bits_any nbits x \<longleftrightarrow>
    (if nbits \<le> 0 then big_val x = 0 else - (2 ^ nat (nbits - 1)) \<le> big_val x \<and> big_val x < 2 ^ nat (nbits - 1))"
proof -
  have x: "x \<noteq> []" using n by (auto simp: normalized_def)
  let ?v = "big_val x" and ?k = "nat (nbits - 1) div 52" and ?r = "nat (nbits - 1) mod 52"
  have sgn: "sgn_any x = sgn ?v" using n by (rule sgn_any_correct)
  have pow: "2 ^ nat (nbits - 1) = Base ^ ?k * 2 ^ ?r" by (rule pow2_split)
  consider (wide) "nbits > int (length x * 52)" | (zero) "nbits \<le> int (length x * 52)" "?v = 0"
    | (neg) "nbits \<le> 0" "?v \<noteq> 0" | (cmp) "0 < nbits" "nbits \<le> int (length x * 52)" "?v \<noteq> 0"
    by linarith
  then show ?thesis
  proof cases
    case wide
    then have k: "length x \<le> ?k" "0 < nbits" by auto
    with wide x few_digits_fit [OF n k(1), of ?r] show ?thesis
      by (simp add: signed_fits_bits_any_def is_valid_def pow)
  next
    case cmp
    then have "signed_fits_bits_any nbits x = signed_fits_core (sgn ?v) ?k ?r x"
      using x by (simp add: signed_fits_bits_any_def is_valid_def sgn sgn_eq_0_iff)
    also have "\<dots> = magnitude_fits (sgn ?v) (sgn ?v * ?v) (2 ^ nat (nbits - 1))"
      unfolding pow using cmp n by (intro signed_fits_core_correct) auto
    finally show ?thesis using cmp by (simp add: magnitude_fits_iff)
  qed (use x in \<open>simp_all add: signed_fits_bits_any_def is_valid_def sgn sgn_eq_0_iff\<close>)
qed

lemma unsigned_fits_bits_any_signed:
  assumes "sgn_any x > 0"
  shows "unsigned_fits_bits_any nbits x = signed_fits_bits_any (nbits + 1) x"
proof -
  have "is_valid x" "sgn_any x = 1" using assms by (auto simp: sgn_any_def split: if_splits)
  note s = this
  define k where "k = nat nbits div 52"
  define r where "r = nat nbits mod 52"
  define tail where "tail = (low_sign (rev (take k x)) < 0)"
  show ?thesis
    unfolding unsigned_fits_bits_any_def signed_fits_bits_any_def signed_fits_core_def Let_def
    unfolding s(2) diff_add_cancel add_diff_cancel_right' k_def [symmetric] r_def [symmetric] tail_def [symmetric]
    using s(1) by (cases "length x \<le> k") simp_all
qed

lemma unsigned_fits_bits_any_correct:
  assumes "normalized x"
  shows "unsigned_fits_bits_any nbits x \<longleftrightarrow>
    big_val x = 0 \<or> 0 \<le> nbits \<and> 0 \<le> big_val x \<and> big_val x < 2 ^ nat nbits"
proof (cases "sgn_any x > 0")
  case True
  then have v: "0 < big_val x" using sgn_any_correct [OF assms] by simp
  then show ?thesis
    using signed_fits_bits_any_correct [OF assms, of "nbits + 1"] unsigned_fits_bits_any_signed [OF True, of nbits]
    by (auto intro: order_trans [of _ 0])
next
  case False
  then show ?thesis
    using sgn_any_correct [OF assms] assms
    by (auto simp: unsigned_fits_bits_any_def is_valid_def normalized_def)
qed

lemma lexicographic_pair:
  fixes P :: int
  assumes "0 \<le> x0" "x0 < P" "0 \<le> y0" "y0 < P"
  shows "sgn (x1 * P + x0 - (y1 * P + y0)) =
    (if x1 < y1 then -1 else if x1 > y1 then 1 else if x0 < y0 then -1 else if x0 > y0 then 1 else 0)"
  using top_digit_decides [of x0 y0 P x1 y1] top_digit_decides [of y0 x0 P y1 x1] assms
  by (auto simp: mult.commute add.commute)

lemma cmp_any_word_correct:
  assumes n: "normalized x" and y: "- (2 ^ 63) \<le> y" "y < 2 ^ 63"
  shows "cmp_any_word x y = sgn (big_val x - y)"
proof -
  have x: "x \<noteq> []" using n by (simp add: normalized_def)
  consider (one) d where "x = [d]" | (two) d0 d1 where "x = [d0, d1]" "y \<ge> Half \<or> y < - Half"
    | (narrow) "2 \<le> length x" "- Half \<le> y" "y < Half" | (three) "3 \<le> length x"
    using x by (cases "- Half \<le> y \<and> y < Half"; cases x rule: remdups_adj.cases; cases "tl (tl x) = []")
      (auto simp: not_le Suc_le_eq)
  then show ?thesis
  proof cases
    case one
    then show ?thesis by (simp add: cmp_any_word_def sgn_if)
  next
    case two
    have "big_val x - y = (d1 + d0 div Base) * Base + d0 mod Base - (y div Base * Base + y mod Base)"
      using two mult_div_mod_eq [of Base d0] by (simp add: algebra_simps)
    then show ?thesis
      using two lexicographic_pair [of "d0 mod Base" Base "y mod Base" "d1 + d0 div Base" "y div Base"]
      by (auto simp: cmp_any_word_def Let_def)
  next
    case narrow
    then have "normalized [y]" by (simp add: normalized_def digit_ok_def)
    then show ?thesis using more_digits [OF n, of "[y]"] narrow by (auto simp: cmp_any_word_def)
  next
    case three
    then have "Base ^ 1 * 2 ^ 11 < \<bar>big_val x\<bar>" by (intro many_digits_do_not_fit n) auto
    then have big: "2 ^ 63 < \<bar>big_val x\<bar>" by (simp add: Base_def)
    moreover have "sgn (big_val x) = (if last x < 0 then -1 else 1)"
      using sgn_any_correct [OF n] big x by (auto simp: sgn_any_def is_valid_def sgn_if split: if_splits)
    ultimately show ?thesis using three y by (auto simp: cmp_any_word_def sgn_if split: if_splits)
  qed
qed

section \<open>Conversion to a 64-bit word\<close>

lemma exact_division: "w = d + Base * t \<longleftrightarrow> (w - d) mod Base = 0 \<and> (w - d) div Base = t"
proof
  assume "w = d + Base * t"
  then have "w - d = Base * t" by simp
  then show "(w - d) mod Base = 0 \<and> (w - d) div Base = t" by (simp add: Base_def)
next
  assume "(w - d) mod Base = 0 \<and> (w - d) div Base = t"
  then show "w = d + Base * t" using mult_div_mod_eq [of Base "w - d"] by auto
qed

lemma to_long_loop_iff: "ds \<noteq> [] \<Longrightarrow> to_long_loop w ds \<longleftrightarrow> w = big_val ds"
proof (induction w ds rule: to_long_loop.induct)
  case (3 w d d' ds)
  then show ?case using exact_division [of w d "big_val (d' # ds)"] by (auto simp del: big_val.simps simp add: big_val.simps(2) [of d])
qed auto

lemma wrap64_range: "- (2 ^ 63) \<le> wrap64 v" "wrap64 v < 2 ^ 63"
  unfolding wrap64_def
  using signed_take_bit_int_greater_eq_minus_exp [of 63] signed_take_bit_int_less_exp [of 63] by simp_all

lemma wrap64_eq_iff: "wrap64 v = u \<longleftrightarrow> - (2 ^ 63) \<le> u \<and> u < 2 ^ 63 \<and> v mod 2 ^ 64 = u mod 2 ^ 64"
proof -
  have "signed_take_bit 63 v = signed_take_bit 63 u \<longleftrightarrow> take_bit 64 v = take_bit 64 u"
    using signed_take_bit_eq_iff_take_bit_eq [of 63 v u] by simp
  moreover have "- (2 ^ 63) \<le> u \<Longrightarrow> u < 2 ^ 63 \<Longrightarrow> signed_take_bit 63 u = u"
    by (rule signed_take_bit_int_eq_self)
  ultimately show ?thesis
    using wrap64_range [of v] unfolding wrap64_def take_bit_eq_mod by metis
qed

lemma to_long_any_correct:
  assumes "normalized x"
  shows "to_long_any x = (if - (2 ^ 63) \<le> big_val x \<and> big_val x < 2 ^ 63 then big_val x else - (2 ^ 63))"
proof -
  have x: "x \<noteq> []" "list_all digit_ok x" using assms by (auto simp: normalized_def)
  consider (one) d where "x = [d]" | (more) d0 d1 ds where "x = d0 # d1 # ds"
    using x by (metis list.exhaust)
  then show ?thesis
  proof cases
    case one
    then have "- (2 ^ 63) \<le> d" "d < 2 ^ 63" using x by (auto simp: digit_ok_def Half_def)
    with one show ?thesis by (simp add: to_long_any_def)
  next
    case more
    let ?v = "wrap64 (d0 + d1 * Base)"
    have "(2 :: int) ^ 64 dvd Base * Base" unfolding Base_def power_add [symmetric] by (rule le_imp_power_dvd) simp
    then have "(2 :: int) ^ 64 dvd Base * Base * big_val ds" by (rule dvd_mult2)
    then have m: "(d0 + d1 * Base) mod 2 ^ 64 = big_val x mod 2 ^ 64"
      using more by (simp add: mod_eq_dvd_iff algebra_simps)
    have dvd: "Base dvd 2 ^ 64" unfolding Base_def by (rule le_imp_power_dvd) simp
    have "?v mod 2 ^ 64 = (d0 + d1 * Base) mod 2 ^ 64"
      using wrap64_eq_iff [of "d0 + d1 * Base" ?v] by simp
    then have "?v mod Base = (d0 + d1 * Base) mod Base"
      unfolding mod_mod_cancel [OF dvd, of ?v, symmetric] mod_mod_cancel [OF dvd, of "d0 + d1 * Base", symmetric]
      by (simp only:)
    then have "Base dvd ?v mod Base - d0" by (simp flip: mod_eq_dvd_iff)
    then have "Base * ((?v mod Base - d0) div Base + ?v div Base) = ?v - d0"
      using mult_div_mod_eq [of Base ?v] by (simp add: distrib_left)
    then have "(?v mod Base - d0) div Base + ?v div Base = big_val (d1 # ds) \<longleftrightarrow> ?v = big_val x"
      using mult_cancel_left [of Base "(?v mod Base - d0) div Base + ?v div Base" "big_val (d1 # ds)"] more
      by (auto simp del: big_val.simps simp add: big_val.simps(2) [of d0])
    then have "to_long_any x = (if ?v = big_val x then big_val x else - (2 ^ 63))"
      unfolding more by (simp only: to_long_any_def list.case Let_def) (simp add: to_long_loop_iff del: big_val.simps)
    also have "?v = big_val x \<longleftrightarrow> - (2 ^ 63) \<le> big_val x \<and> big_val x < 2 ^ 63"
      using m by (simp add: wrap64_eq_iff)
    finally show ?thesis .
  qed
qed

section \<open>Numbers that are not normalised\<close>

text \<open>The digits of a denormalised number are 64-bit words with some room.\<close>

definition word_digit :: "int \<Rightarrow> bool" where
  "word_digit d = (\<bar>d\<bar> \<le> 2 ^ 62)"

lemma low_words_bound: "list_all word_digit ds \<Longrightarrow> \<bar>big_val ds\<bar> < MaxDenorm * Base ^ length ds"
proof -
  assume ok: "list_all word_digit ds"
  have "\<bar>big_val ds\<bar> \<le> 2 ^ 62 * all_ones (length ds)"
    using ok
  proof (induction ds)
    case (Cons d ds)
    have "\<bar>d + Base * big_val ds\<bar> \<le> \<bar>d\<bar> + Base * \<bar>big_val ds\<bar>"
      using abs_triangle_ineq [of d "Base * big_val ds"] by (simp add: abs_mult)
    moreover have "Base * \<bar>big_val ds\<bar> \<le> Base * (2 ^ 62 * all_ones (length ds))"
      using Cons by (intro mult_left_mono) auto
    moreover have "\<bar>d\<bar> \<le> 2 ^ 62" using Cons.prems by (simp add: word_digit_def)
    ultimately have "\<bar>d + Base * big_val ds\<bar> \<le> 2 ^ 62 + Base * (2 ^ 62 * all_ones (length ds))" by linarith
    also have "\<dots> = 2 ^ 62 * all_ones (length (d # ds))" by (simp add: algebra_simps)
    finally show ?case by simp
  qed simp
  also have "\<dots> \<le> (MaxDenorm * (Base - 1)) * all_ones (length ds)"
    by (intro mult_right_mono) (auto simp: MaxDenorm_def Base_def)
  also have "\<dots> = MaxDenorm * (Base ^ length ds - 1)"
    unfolding mult.assoc all_ones_width ..
  also have "\<dots> < MaxDenorm * Base ^ length ds" by (simp add: MaxDenorm_def)
  finally show ?thesis .
qed

lemma leading_words_decide:
  assumes "list_all word_digit ds"
  shows "v \<ge> MaxDenorm \<Longrightarrow> 0 < v * Base ^ length ds + big_val ds"
    "v \<le> - MaxDenorm \<Longrightarrow> v * Base ^ length ds + big_val ds < 0"
proof -
  note b = low_words_bound [OF assms]
  show "0 < v * Base ^ length ds + big_val ds" if "v \<ge> MaxDenorm"
  proof -
    have "MaxDenorm * Base ^ length ds \<le> v * Base ^ length ds" using that by (intro mult_right_mono) auto
    with b show ?thesis by linarith
  qed
  show "v * Base ^ length ds + big_val ds < 0" if "v \<le> - MaxDenorm"
  proof -
    have "v * Base ^ length ds \<le> - MaxDenorm * Base ^ length ds" using that by (intro mult_right_mono) auto
    with b show ?thesis by simp
  qed
qed

lemma sgn_un_loop_correct:
  "list_all word_digit ws \<Longrightarrow> sgn_un_loop v ws = sgn (v * Base ^ length ws + big_val (rev ws))"
proof (induction v ws rule: sgn_un_loop.induct)
  case (2 v w ws)
  have ok: "list_all word_digit (rev ws)" using 2 by simp
  have val: "v * Base ^ length (w # ws) + big_val (rev (w # ws)) = (v * Base + w) * Base ^ length ws + big_val (rev ws)"
    by (simp add: big_val_append algebra_simps)
  show ?case
    unfolding val using leading_words_decide [OF ok, of "v * Base + w"] 2
    by (auto simp: Let_def)
qed (simp add: sgn_if)

lemma sgn_un_any_correct: "list_all word_digit x \<Longrightarrow> sgn_un_any x = sgn (big_val x)"
proof -
  assume ok: "list_all word_digit x"
  show ?thesis
  proof (cases "rev x")
    case (Cons v ws)
    then have x: "x = rev ws @ [v]" by (metis rev_eq_Cons_iff)
    then have ws: "list_all word_digit (rev ws)" "list_all word_digit ws" using ok by simp_all
    have val: "big_val x = v * Base ^ length ws + big_val (rev ws)" by (simp add: x big_val_append)
    show ?thesis
      unfolding val sgn_un_any_def Cons
      using leading_words_decide [OF ws(1), of v] sgn_un_loop_correct [OF ws(2), of v] by auto
  qed (simp add: sgn_un_any_def)
qed

lemma cmp_un_high_y_correct:
  assumes "list_all word_digit (map uminus ws @ low)"
  shows "(case cmp_un_high_y v ws of Inl r \<Rightarrow> r | Inr v' \<Rightarrow> sgn_un_loop v' low) = sgn_un_loop v (map uminus ws @ low)"
  using assms
proof (induction v ws rule: cmp_un_high_y.induct)
  case (2 v w ws)
  have "w \<le> v * Base - MaxDenorm \<longleftrightarrow> - w \<ge> - (v * Base) + MaxDenorm"
    "w \<ge> v * Base + MaxDenorm \<longleftrightarrow> - w \<le> - (v * Base) - MaxDenorm" by linarith+
  with 2 show ?case by (simp add: Let_def)
qed simp

text \<open>
  The comparison is right when the second number has at least as many digits as the first one,
  which is how the division uses it.
\<close>

lemma cmp_un_any_correct:
  assumes "length x \<le> length y"
    and ok: "list_all word_digit (map2 (\<lambda>a b. tr a - b) x y @ map uminus (drop (length x) y))"
  shows "cmp_un_any tr x y = sgn (big_val (map2 (\<lambda>a b. tr a - b) x y @ map uminus (drop (length x) y)))"
proof (cases "length x = length y")
  case True
  then show ?thesis using ok sgn_un_loop_correct [of "rev (map2 (\<lambda>a b. tr a - b) x y)" 0]
    by (simp add: cmp_un_any_def)
next
  case False
  then have len: "length x < length y" using assms by simp
  let ?low = "map2 (\<lambda>a b. tr a - b) x y" and ?hi = "drop (length x) (butlast y)" and ?v = "- last y"
  have "y \<noteq> []" using len by auto
  then have y: "drop (length x) y = ?hi @ [last y]"
    using len drop_append [of "length x" "butlast y" "[last y]"] by simp
  define D where "D = map uminus (rev ?hi) @ rev ?low"
  have rest: "rev D = ?low @ map uminus ?hi" by (simp add: D_def rev_map)
  have okr: "list_all word_digit D" "list_all word_digit (rev D)"
    using ok unfolding rest y by (simp_all add: D_def list_all_iff ball_Un)
  have val: "big_val (?low @ map uminus (drop (length x) y)) = ?v * Base ^ length D + big_val (rev D)"
    unfolding rest y by (simp add: D_def big_val_append algebra_simps power_add)
  have "cmp_un_any tr x y =
      (if ?v \<ge> MaxDenorm then 1 else if ?v \<le> - MaxDenorm then -1 else sgn_un_loop ?v D)"
    using len cmp_un_high_y_correct [OF okr(1) [unfolded D_def], of ?v, folded D_def]
    by (auto simp: cmp_un_any_def Let_def)
  then show ?thesis
    using leading_words_decide [OF okr(2), of ?v] sgn_un_loop_correct [OF okr(1), of ?v]
    unfolding val by auto
qed

end
