(* ===== verification/Bigint_Shift.thy ===== *)
theory Bigint_Shift
  imports Bigint_Cmp
begin

text \<open>
  Shifts of big integers, \<open>lshift_any\<close> and \<open>rshift_any\<close> of \<^verbatim>\<open>crypto/common/bigint.hpp\<close>: multiplication by
  a power of two, and division by one rounded down, to the nearest integer or up.
\<close>

section \<open>Definitions\<close>

text \<open>
  The loop of \<open>lshift_any\<close> for a shift by \<open>r\<close> bits within the digits: the shifted digits and the
  bits shifted out of the topmost one.
\<close>

fun lshift_loop :: "nat \<Rightarrow> int \<Rightarrow> digits \<Rightarrow> digits \<times> int" where
  "lshift_loop r v [] = ([], v)"
| "lshift_loop r v (w # ws) =
     (let d = v + (w mod 2 ^ (52 - r)) * 2 ^ r; (ds, c) = lshift_loop r (w div 2 ^ (52 - r)) ws
      in (d # ds, c))"

definition lshift_any :: "nat \<Rightarrow> int \<Rightarrow> digits \<Rightarrow> digits" where
  "lshift_any m exponent x =
     (if exponent < 0 then []
      else if exponent = 0 then x
      else
        let q = nat exponent div 52; r = nat exponent mod 52
        in if length x + q > m then []
           else if r = 0 then replicate q 0 @ x
           else
             (case lshift_loop r 0 x of
                (ds, v) \<Rightarrow>
                  if v = 0 then replicate q 0 @ ds
                  else if length x + q < m then replicate q 0 @ ds @ [v]
                  else if v \<noteq> -1 then []
                  else replicate q 0 @ ds[length ds - 1 := last ds + v * Base]))"

text \<open>The loop of \<open>rshift_any\<close> over the digits that are shifted out completely.\<close>

fun rshift_carry :: "int \<Rightarrow> digits \<Rightarrow> int" where
  "rshift_carry v [] = v"
| "rshift_carry v (d # ds) = rshift_carry ((v + d) div Base) ds"

text \<open>The final shift of the lowest remaining word by \<open>r\<close> bits, in the rounding mode.\<close>

definition round_shift :: "int \<Rightarrow> nat \<Rightarrow> int \<Rightarrow> int" where
  "round_shift round_mode r v =
     (if round_mode = 0 then (v div 2 ^ (r - 1) + 1) div 2
      else v div 2 ^ r + (if round_mode > 0 then 1 else 0))"

definition rshift_any :: "int \<Rightarrow> int \<Rightarrow> digits \<Rightarrow> digits" where
  "rshift_any exponent round_mode x =
     (if exponent < 0 then []
      else if exponent = 0 then x
      else if exponent > int (length x * 52 + 64 - 52) then
        if round_mode = 0 then [0]
        else if round_mode < 0 then [if sgn_any x < 0 then -1 else 0]
        else [if sgn_any x > 0 then 1 else 0]
      else
        let q = nat exponent div 52; r = nat exponent mod 52;
            half = (round_mode = 0 \<and> r = 0);
            x1 = (if half then x[q - 1 := x ! (q - 1) + Half] else x);
            rm = (if half then -1 else round_mode);
            v = rshift_carry (if rm > 0 then -1 else 0) (take q x1);
            rest = drop q x1
        in if rest = [] then [round_shift rm r v]
           else if r = 0 then (hd rest + (v + (if rm > 0 then 1 else 0))) # tl rest
           else
             (case lshift_loop (52 - r) (round_shift rm r (v + hd rest)) (tl rest) of
                (ds, c) \<Rightarrow> ds @ [c]))"

definition refint_lshift :: "digits \<Rightarrow> int \<Rightarrow> digits" where
  "refint_lshift x y = normalize_bool_any words_256 (lshift_any words_256 y x)"

definition refint_rshift :: "digits \<Rightarrow> int \<Rightarrow> int \<Rightarrow> digits" where
  "refint_rshift x y round_mode = normalize_bool_any words_256 (rshift_any y round_mode x)"

section \<open>Left shifts\<close>

lemma lshift_loop_value:
  assumes "r \<le> 52" "lshift_loop r v ws = (ds, c)"
  shows "big_val ds + Base ^ length ws * c = v + 2 ^ r * big_val ws \<and> length ds = length ws"
  using assms(2)
proof (induction ws arbitrary: v ds c)
  case (Cons w ws)
  let ?M = "2 ^ (52 - r) :: int"
  have M: "?M * 2 ^ r = Base" unfolding Base_def power_add [symmetric] using assms(1) by simp
  obtain ds' where rec: "lshift_loop r (w div ?M) ws = (ds', c)" and ds: "ds = (v + w mod ?M * 2 ^ r) # ds'"
    using Cons.prems by (auto simp: Let_def split: prod.splits)
  from Cons.IH [OF rec] have IH: "big_val ds' + Base ^ length ws * c = w div ?M + 2 ^ r * big_val ws"
    "length ds' = length ws" by auto
  have "big_val ds + Base ^ length (w # ws) * c = v + w mod ?M * 2 ^ r + Base * (big_val ds' + Base ^ length ws * c)"
    by (simp add: ds algebra_simps)
  also have "\<dots> = v + w mod ?M * 2 ^ r + (Base * (w div ?M) + 2 ^ r * (Base * big_val ws))"
    unfolding IH(1) by (simp add: distrib_left mult.left_commute)
  also have "Base * (w div ?M) = ?M * (w div ?M) * 2 ^ r"
    by (simp add: mult.commute mult.left_commute flip: M)
  also have "v + w mod ?M * 2 ^ r + (?M * (w div ?M) * 2 ^ r + 2 ^ r * (Base * big_val ws))
    = v + (w mod ?M + ?M * (w div ?M)) * 2 ^ r + 2 ^ r * (Base * big_val ws)"
    by (simp only: distrib_right add.assoc)
  also have "\<dots> = v + 2 ^ r * big_val (w # ws)"
    unfolding mod_mult_div_eq by (simp add: algebra_simps)
  finally show ?case using IH(2) ds by simp
qed simp

lemma lshift_zeros: "big_val (replicate q 0 @ ds) = Base ^ q * big_val ds"
  by (simp add: big_val_append)

text \<open>A shift of a valid number that is not given up is a multiplication.\<close>

lemma lshift_any_value:
  assumes "x \<noteq> []" "0 \<le> e" "length x \<le> m" "lshift_any m e x \<noteq> []"
  shows "big_val (lshift_any m e x) = big_val x * 2 ^ nat e \<and> length (lshift_any m e x) \<le> m"
proof (cases "e = 0")
  case True
  then show ?thesis using assms by (simp add: lshift_any_def)
next
  case False
  define q where "q = nat e div 52"
  define r where "r = nat e mod 52"
  have r: "r < 52" by (simp add: r_def)
  have pow: "(2 :: int) ^ nat e = Base ^ q * 2 ^ r" unfolding q_def r_def by (rule pow2_split)
  obtain ds v where loop: "lshift_loop r 0 x = (ds, v)" by fastforce
  note val = lshift_loop_value [OF less_imp_le [OF r] loop]
  have ds: "ds \<noteq> []" using val assms(1) by auto
  have "big_val (ds[length ds - 1 := last ds + v * Base]) = big_val ds + Base ^ length ds * v"
    using ds by (cases "length ds") (auto simp: big_val_update last_conv_nth algebra_simps)
  with False assms loop val r show ?thesis
    by (auto simp: lshift_any_def Let_def pow lshift_zeros big_val_append algebra_simps
        simp flip: q_def r_def split: if_splits)
qed

lemma minus_div_floor: "0 < m \<Longrightarrow> (- a - 1) div m = - (a div m) - (1 :: int)"
proof -
  assume m: "0 < m"
  have "(- a - 1) div m = ((m - 1 - a mod m) + m * (- (a div m) - 1)) div m"
    by (rule arg_cong [where f = "\<lambda>u. u div m"]) (simp add: algebra_simps)
  also have "\<dots> = (m - 1 - a mod m) div m + (- (a div m) - 1)" using m by (subst div_mult_self2) auto
  also have "(m - 1 - a mod m) div m = 0" 
    using pos_mod_bound [OF m, of a] pos_mod_sign [OF m, of a] by (intro div_pos_pos_trivial) linarith+
  finally show ?thesis by simp
qed

text \<open>The bits shifted out of the topmost digit.\<close>

lemma lshift_loop_out:
  "x \<noteq> [] \<Longrightarrow> snd (lshift_loop r v x) = last x div 2 ^ (52 - r)"
  by (induction r v x rule: lshift_loop.induct) (auto simp: Let_def split: prod.splits)

lemma lshift_loop_nonempty: "x \<noteq> [] \<Longrightarrow> lshift_loop r v x \<noteq> ([], c)"
  by (cases x) (auto simp: Let_def split: prod.splits)

text \<open>A non-zero number whose shift is given up has a shifted value of more than 257 bits.\<close>

lemma lshift_any_overflow:
  assumes x: "normalized x" "length x \<le> words_256" "big_val x \<noteq> 0"
    and e: "0 \<le> e" "lshift_any words_256 e x = []"
  shows "\<not> fits_257 (big_val x * 2 ^ nat e)"
proof -
  define q where "q = nat e div 52"
  define r where "r = nat e mod 52"
  define t where "t = 3 * \<bar>last x\<bar> - 2"
  have r: "r < 52" by (simp add: r_def)
  have pow: "(2 :: int) ^ nat e = Base ^ q * 2 ^ r" unfolding q_def r_def by (rule pow2_split)
  have n: "x \<noteq> []" "list_all digit_ok x" using x by (auto simp: normalized_def)
  have "last x \<noteq> 0" using x n by (cases x) (auto simp: normalized_def split: if_splits)
  then have t1: "1 \<le> t" by (auto simp: t_def)
  have "3 * 2 ^ 256 < t * Base ^ (length x - 1) * (Base ^ q * 2 ^ r)"
  proof (cases "length x + q > words_256")
    case True
    then have "1 * Base ^ 5 \<le> t * Base ^ (length x - 1 + q)"
      using t1 by (intro mult_mono power_increasing) (auto simp: words_256_def Base_def)
    also have "\<dots> \<le> t * Base ^ (length x - 1 + q) * 2 ^ r" using t1 by simp
    finally have "Base ^ 5 \<le> t * Base ^ (length x - 1) * (Base ^ q * 2 ^ r)" by (simp add: power_add)
    moreover have "3 * 2 ^ 256 < Base ^ 5" by (simp add: Base_def)
    ultimately show ?thesis by linarith
  next
    case False
    then have v: "length x + q = words_256" "last x div 2 ^ (52 - r) \<notin> {0, -1}" "r \<noteq> 0" "e \<noteq> 0"
      using e n lshift_loop_out [of x r 0] lshift_loop_nonempty [of x r 0]
      by (auto simp: lshift_any_def Let_def simp flip: q_def r_def split: if_splits prod.splits)
    let ?M = "2 ^ (52 - r) :: int"
    have M: "?M * 2 ^ r = Base" unfolding Base_def power_add [symmetric] using r by simp
    have "2 ^ 1 \<le> ?M" using r by (intro power_increasing) auto
    moreover have "?M \<le> \<bar>last x\<bar>"
    proof (rule ccontr)
      assume "\<not> ?thesis"
      then have "last x div ?M = 0 \<or> (- last x - 1) div ?M = 0"
        by (cases "0 \<le> last x") (auto intro!: div_pos_pos_trivial)
      moreover have "(- last x - 1) div ?M = - (last x div ?M) - 1"
        using minus_div_floor [of ?M "last x"] by simp
      ultimately show False using v by auto
    qed
    ultimately have "?M \<le> t" by (auto simp: t_def)
    with t1 have "?M * Base ^ 4 * 2 ^ r \<le> t * Base ^ (length x - 1 + q) * 2 ^ r"
      using v(1) n by (intro mult_mono power_increasing) (auto simp: words_256_def Base_def)
    moreover have "?M * Base ^ 4 * 2 ^ r = Base ^ 5"
      unfolding M [symmetric] by (simp only: power_mult_distrib power_Suc numeral_eq_Suc pred_numeral_simps mult_ac)
    ultimately have "Base ^ 5 \<le> t * Base ^ (length x - 1) * (Base ^ q * 2 ^ r)"
      by (simp only: power_add mult.assoc)
    moreover have "3 * 2 ^ 256 < Base ^ 5" by (simp add: Base_def)
    ultimately show ?thesis by linarith
  qed
  also have "\<dots> \<le> 3 * \<bar>big_val x\<bar> * (Base ^ q * 2 ^ r)"
    using top_digit_bound [OF n] by (intro mult_right_mono) (auto simp: t_def)
  also have "\<dots> = 3 * \<bar>big_val x * (Base ^ q * 2 ^ r)\<bar>" by (simp add: abs_mult)
  finally show ?thesis unfolding fits_257_def pow by linarith
qed

section \<open>Right shifts\<close>

lemma rshift_carry_value: "rshift_carry v ds = (v + big_val ds) div Base ^ length ds"
proof (induction ds arbitrary: v)
  case (Cons d ds)
  have "(v + big_val (d # ds)) div Base ^ length (d # ds) = (v + d + Base * big_val ds) div Base div Base ^ length ds"
    by (simp add: add.assoc zdiv_zmult2_eq less_imp_le)
  also have "\<dots> = ((v + d) div Base + big_val ds) div Base ^ length ds"
    by (simp add: add.commute)
  finally show ?case using Cons.IH by simp
qed simp

text \<open>The quotient of a shift: rounded down, to the nearest integer (ties up), or up.\<close>

definition round_quotient :: "int \<Rightarrow> nat \<Rightarrow> int \<Rightarrow> int" where
  "round_quotient round_mode e v =
     (if round_mode < 0 then v div 2 ^ e
      else if round_mode = 0 then (v + 2 ^ e div 2) div 2 ^ e
      else - ((- v) div 2 ^ e))"

lemma half_power: "0 < e \<Longrightarrow> (2 :: int) ^ e div 2 = 2 ^ (e - 1)"
  by (cases e) auto

lemma round_quotient_up: "0 < rm \<Longrightarrow> round_quotient rm e v = (v - 1) div 2 ^ e + 1"
  using minus_div_floor [of "2 ^ e" "- v"] by (simp add: round_quotient_def)

lemma round_shift_quotient:
  assumes "rm = 0 \<Longrightarrow> 0 < r"
  shows "round_shift rm r v = round_quotient rm r (if rm > 0 then v + 1 else v)"
proof (cases "rm = 0")
  case True
  then obtain k where k: "r = Suc k" using assms gr0_conv_Suc by auto
  have "(v + 2 ^ k) div 2 ^ Suc k = (v + 2 ^ k) div 2 ^ k div 2"
    unfolding power_Suc2 by (rule zdiv_zmult2_eq) simp
  also have "(v + 2 ^ k) div 2 ^ k = v div 2 ^ k + 1" by (rule div_add_self2) simp
  finally show ?thesis using True k by (simp add: round_shift_def round_quotient_def)
next
  case False
  then show ?thesis by (auto simp: round_shift_def round_quotient_up) (auto simp: round_quotient_def)
qed

text \<open>Words above the bits shifted out move through the quotient.\<close>

lemma round_quotient_add:
  assumes "rm = 0 \<Longrightarrow> 0 < r"
  shows "round_quotient rm r (v + 2 ^ r * h) = round_quotient rm r v + h"
proof -
  have "(v + 2 ^ r * h + c) div 2 ^ r = (v + c) div 2 ^ r + h" for c
    using div_mult_self2 [of "2 ^ r" "v + c" h] by (simp add: algebra_simps)
  from this [of 0] this [of "-1"] this [of "2 ^ r div 2"]
  show ?thesis by (cases rm "0 :: int" rule: linorder_cases) (auto simp: round_quotient_up, auto simp: round_quotient_def)
qed

lemma round_shift_add:
  assumes "rm = 0 \<Longrightarrow> 0 < r"
  shows "round_shift rm r (v + 2 ^ r * h) = round_shift rm r v + h"
  using assms round_quotient_add [of rm r v h] round_quotient_add [of rm r "v + 1" h]
  by (auto simp: round_shift_quotient algebra_simps)

text \<open>Whole words first: the quotient by \<open>Base ^ q * 2 ^ r\<close> in two steps.\<close>

lemma round_quotient_split:
  assumes "rm = 0 \<Longrightarrow> 0 < r"
  shows "round_quotient rm (q * 52 + r) v = round_shift rm r (((if rm > 0 then -1 else 0) + v) div Base ^ q)"
proof -
  have pow: "(2 :: int) ^ (q * 52 + r) = Base ^ q * 2 ^ r"
    by (simp add: power_add power_mult mult.commute [of q] Base_def)
  have div: "u div (Base ^ q * 2 ^ r) = u div Base ^ q div 2 ^ r" for u
    by (rule zdiv_zmult2_eq) simp
  show ?thesis
  proof (cases rm "0 :: int" rule: linorder_cases)
    case equal
    have "Base ^ q * 2 ^ r div 2 = Base ^ q * 2 ^ (r - 1)"
      using assms equal by (cases r) auto
    with equal assms show ?thesis
      by (simp add: round_shift_quotient, simp add: round_quotient_def pow div half_power add.commute [of "2 ^ (r - Suc 0)"])
  next
    case less
    then show ?thesis by (simp add: round_quotient_def round_shift_def pow div)
  next
    case greater
    then show ?thesis by (simp add: round_quotient_up round_shift_def pow div)
  qed
qed

lemma small_round_quotient:
  assumes "\<bar>v\<bar> < 2 ^ (e - 1)" "0 < e"
  shows "round_quotient rm e v =
    (if rm = 0 then 0 else if rm < 0 then (if v < 0 then -1 else 0) else (if v > 0 then 1 else 0))"
proof -
  have half: "(2 :: int) ^ e = 2 * 2 ^ (e - 1)" using assms(2) by (cases e) auto
  have neg: "u div 2 ^ e = -1" if "u < 0" "\<bar>u\<bar> < 2 ^ (e - 1)" for u :: int
    using that half div_pos_neg_trivial [of "- u" "- (2 ^ e)"] by (auto simp: )
  have pos: "u div 2 ^ e = 0" if "0 \<le> u" "u < 2 ^ e" for u :: int
    using that by (rule div_pos_pos_trivial)
  show ?thesis
    using assms(1) half neg [of v] neg [of "- v"] pos [of v] pos [of "- v"] pos [of "v + 2 ^ (e - 1)"]
    by (auto simp: round_quotient_def abs_if split: if_splits)
qed

text \<open>The digits of a right shift once the rounding has been reduced to one of the whole words.\<close>

lemma rshift_words_value:
  assumes "rm = 0 \<Longrightarrow> 0 < r" "r < 52" "q \<le> length x"
  defines "v \<equiv> rshift_carry (if rm > 0 then -1 else 0) (take q x)"
  defines "rest \<equiv> drop q x"
  defines "res \<equiv> (if rest = [] then [round_shift rm r v]
    else if r = 0 then (hd rest + (v + (if rm > 0 then 1 else 0))) # tl rest
    else (case lshift_loop (52 - r) (round_shift rm r (v + hd rest)) (tl rest) of (ds, c) \<Rightarrow> ds @ [c]))"
  shows "big_val res = round_quotient rm (q * 52 + r) (big_val x) \<and> length res = max 1 (length x - q)"
proof -
  let ?i = "if rm > 0 then -1 else 0 :: int"
  have "big_val x = big_val (take q x) + Base ^ q * big_val rest"
    using big_val_append [of "take q x" rest] assms(3) by (simp add: rest_def)
  then have "(?i + big_val x) div Base ^ q = v + big_val rest"
    using div_mult_self2 [of "Base ^ q" "?i + big_val (take q x)" "big_val rest"] assms(3)
    by (simp add: v_def rshift_carry_value add.assoc)
  then have goal: "round_quotient rm (q * 52 + r) (big_val x) = round_shift rm r (v + big_val rest)"
    using round_quotient_split [OF assms(1)] by simp
  have len: "length rest = length x - q" by (simp add: rest_def)
  show ?thesis
  proof (cases rest)
    case (Cons h t)
    have Base: "Base = 2 ^ r * 2 ^ (52 - r)" unfolding Base_def power_add [symmetric] using assms(2) by simp
    have step: "round_shift rm r (v + big_val rest) = round_shift rm r (v + h) + 2 ^ (52 - r) * big_val t"
      using round_shift_add [OF assms(1), of rm "v + h" "2 ^ (52 - r) * big_val t"]
      by (simp add: Cons Base add.assoc mult.assoc)
    obtain ds c where loop: "lshift_loop (52 - r) (round_shift rm r (v + h)) t = (ds, c)" by fastforce
    have "big_val (ds @ [c]) = round_shift rm r (v + h) + 2 ^ (52 - r) * big_val t \<and> length ds = length t"
      using lshift_loop_value [OF _ loop] by (auto simp: big_val_append)
    with Cons goal step loop len assms(1) show ?thesis
      by (cases "r = 0") (auto simp: res_def round_shift_def)
  qed (use goal len in \<open>auto simp: res_def\<close>)
qed

text \<open>Unless all words are shifted out the digits need not be normalised.\<close>

lemma rshift_any_within:
  assumes "x \<noteq> []" "0 < e" "e \<le> int (length x * 52 + 64 - 52)"
  shows "big_val (rshift_any e rm x) = round_quotient rm (nat e) (big_val x) \<and>
    rshift_any e rm x \<noteq> [] \<and> length (rshift_any e rm x) \<le> length x"
proof -
  define q where "q = nat e div 52"
  define r where "r = nat e mod 52"
  define half where "half = (rm = 0 \<and> r = 0)"
  define x1 where "x1 = (if half then x[q - 1 := x ! (q - 1) + Half] else x)"
  define rm1 where "rm1 = (if half then -1 else rm)"
  have e: "nat e = q * 52 + r" and r: "r < 52" by (auto simp: q_def r_def)
  with assms have q: "q \<le> length x" by linarith
  have x1: "length x1 = length x" by (simp add: x1_def)
  have "round_quotient rm1 (q * 52 + r) (big_val x1) = round_quotient rm (nat e) (big_val x)"
  proof (cases half)
    case True
    then obtain k where k: "q = Suc k" "r = 0" "rm = 0" using assms e by (cases q) (auto simp: half_def)
    have "Base ^ k * Half = 2 ^ nat e div 2"
      unfolding e k Base_def Half_def power_mult [symmetric] power_add [symmetric]
      by (simp add: half_power algebra_simps)
    with True k q show ?thesis
      by (simp add: x1_def rm1_def big_val_update e round_quotient_def)
  qed (simp add: x1_def rm1_def e)
  moreover have "rm1 = 0 \<Longrightarrow> 0 < r" by (auto simp: rm1_def half_def split: if_splits)
  ultimately show ?thesis
    using rshift_words_value [of rm1 r q x1] assms r q x1
    unfolding rshift_any_def Let_def q_def [symmetric] r_def [symmetric] half_def [symmetric]
      x1_def [symmetric] rm1_def [symmetric]
    by (auto simp flip: length_greater_0_conv)
qed

lemma rshift_any_value:
  assumes "normalized x" "0 \<le> e"
  shows "big_val (rshift_any e rm x) = round_quotient rm (nat e) (big_val x) \<and>
    rshift_any e rm x \<noteq> [] \<and> length (rshift_any e rm x) \<le> length x"
proof -
  have n: "x \<noteq> []" "list_all digit_ok x" using assms by (auto simp: normalized_def)
  consider "e = 0" | "e > 0" "e > int (length x * 52 + 64 - 52)" | "e > 0" "e \<le> int (length x * 52 + 64 - 52)"
    using assms(2) by linarith
  then show ?thesis
  proof cases
    case 1
    then show ?thesis using n by (simp add: rshift_any_def round_quotient_def)
  next
    case 2
    have "\<bar>big_val x\<bar> < Base ^ length x" using n(2) by (rule low_part_less)
    also have "\<dots> = 2 ^ (52 * length x)" by (simp add: power_mult Base_def)
    also have "\<dots> \<le> 2 ^ (nat e - 1)" using 2 by (intro power_increasing) auto
    finally have "\<bar>big_val x\<bar> < 2 ^ (nat e - 1)" .
    with 2 n show ?thesis
      using small_round_quotient [of "big_val x" "nat e" rm] sgn_any_correct [OF assms(1)]
      by (auto simp: rshift_any_def sgn_if Suc_leI split: if_splits)
  next
    case 3
    with n(1) show ?thesis by (intro rshift_any_within) auto
  qed
qed

section \<open>The shift operators\<close>

text \<open>
  What the shift operators compute.  Two branches are artefacts of the digit code: zero shifted
  left by 260 bits or more is invalid because the zero words do not fit, and an invalid number,
  which has no digits, becomes a valid one when it is shifted by enough bits.
\<close>

definition lshift_spec :: "int \<Rightarrow> int option \<Rightarrow> int option" where
  "lshift_spec e a =
     (case a of
        Some v \<Rightarrow> if v = 0 \<and> 260 \<le> e then None else Some (v * 2 ^ nat e)
      | None \<Rightarrow> if 52 \<le> e \<and> e < 312 then Some 0 else None)"

definition rshift_spec :: "int \<Rightarrow> int \<Rightarrow> int option \<Rightarrow> int option" where
  "rshift_spec e round_mode a =
     (case a of
        Some v \<Rightarrow> Some (round_quotient round_mode (nat e) v)
      | None \<Rightarrow> if e = 0 then None else if e > 12 \<and> round_mode < 0 then Some (-1) else Some 0)"

lemma normalized_zero:
  assumes "normalized x" "big_val x = 0"
  shows "x = [0]"
proof -
  have "normalized [0]" by (simp add: normalized_def digit_ok_def Half_def)
  with assms have "eq_any x [0]" by (simp add: eq_any_correct)
  then show ?thesis by (cases "length x = 1") (auto simp: eq_any_def)
qed

lemma refint_lshift_correct:
  assumes "refint_ok x" "0 \<le> e"
  shows "computes (refint_lshift x e) (lshift_spec e (big_abs x))"
  using assms(1)
proof (rule refint_ok_cases)
  assume x: "x = []" "big_abs x = None"
  let ?q = "nat e div 52"
  have l: "lshift_any words_256 e x = (if 52 \<le> e \<and> e < 312 then replicate ?q 0 else [])"
  proof -
    have "52 \<le> e \<longleftrightarrow> ?q \<noteq> 0" "e < 312 \<longleftrightarrow> ?q \<le> words_256"
      using assms(2) by (auto simp: words_256_def)
    then show ?thesis using assms(2) x by (auto simp: lshift_any_def Let_def)
  qed
  show ?thesis
  proof (cases "52 \<le> e \<and> e < 312")
    case True
    then have "replicate ?q (0 :: int) \<noteq> []" "length (replicate ?q (0 :: int)) \<le> words_256"
      by (auto simp: words_256_def div_eq_0_iff)
    from computes_normalize [OF this] True l x show ?thesis
      by (simp add: refint_lshift_def lshift_spec_def)
  qed (use l x in \<open>auto simp: refint_lshift_def lshift_spec_def\<close>)
next
  assume x: "normalized x" "x \<noteq> []" "length x \<le> words_256" "big_abs x = Some (big_val x)"
  show ?thesis
  proof (cases "lshift_any words_256 e x = []")
    case False
    note val = lshift_any_value [OF x(2) assms(2) x(3) False]
    have "lshift_any words_256 e [0] = []" if "260 \<le> e"
      using that by (simp add: lshift_any_def Let_def words_256_def le_div_geq)
    then have "\<not> (big_val x = 0 \<and> 260 \<le> e)" using False normalized_zero [OF x(1)] by blast
    with val x(4) computes_normalize [OF False] show ?thesis
      unfolding refint_lshift_def lshift_spec_def by (cases "big_val x = 0") auto
  next
    case True
    have "\<not> fits_257 (big_val x * 2 ^ nat e)" if "big_val x \<noteq> 0"
      using lshift_any_overflow [OF x(1,3) that assms(2) True] .
    moreover have "260 \<le> e" if "big_val x = 0"
      using True assms(2) normalized_zero [OF x(1) that]
      by (auto simp: lshift_any_def Let_def words_256_def split: if_splits)
    ultimately have "lshift_spec e (big_abs x) = None \<or> \<not> fits_257 (big_val x * 2 ^ nat e)"
      using x(4) by (auto simp: lshift_spec_def)
    with True x(4) show ?thesis
      by (simp add: refint_lshift_def lshift_spec_def computes_def refint_ok_def split: if_splits)
  qed
qed

lemma refint_rshift_correct:
  assumes "refint_ok x" "0 \<le> e"
  shows "computes (refint_rshift x e rm) (rshift_spec e rm (big_abs x))"
  using assms(1)
proof (rule refint_ok_cases)
  assume x: "x = []" "big_abs x = None"
  have small: "(- 1 :: int) div 2 ^ k = -1" for k :: nat
    using minus_div_floor [of "2 ^ k" 0] by simp
  show ?thesis
  proof (cases "e = 0")
    case False
    then have "rshift_any e rm x = [if e > 12 \<and> rm < 0 then -1 else 0]"
      using assms(2) x by (auto simp: rshift_any_def Let_def sgn_any_def is_valid_def round_shift_def small)
    moreover have "computes (normalize_bool_any words_256 [v]) (Some v)" for v
      using computes_normalize [of "[v]"] by (simp add: words_256_def)
    ultimately show ?thesis using False x by (auto simp: refint_rshift_def rshift_spec_def)
  qed (use x in \<open>simp add: refint_rshift_def rshift_spec_def rshift_any_def\<close>)
next
  assume x: "normalized x" "x \<noteq> []" "length x \<le> words_256" "big_abs x = Some (big_val x)"
  with rshift_any_value [OF x(1) assms(2), of rm] computes_normalize [of "rshift_any e rm x"]
  show ?thesis by (simp add: refint_rshift_def rshift_spec_def)
qed

end
