(* ===== verification/Bigint_Logic.thy ===== *)
theory Bigint_Logic
  imports Bigint_Shift
begin

text \<open>
  The bitwise operations on big integers: \<open>log_op_any\<close> of \<^verbatim>\<open>crypto/common/bigint.hpp\<close> with its three
  instances, and the operators \<open>&\<close>, \<open>|\<close> and \<open>^\<close> of \<^verbatim>\<open>crypto/common/refint.cpp\<close>.
\<close>

unbundle bit_operations_syntax

section \<open>Definitions\<close>

record log_op =
  op :: "int \<Rightarrow> int \<Rightarrow> int"
  neutral :: int
  zero_elem :: int
  has_zero :: bool

definition LogOpAnd :: log_op where
  "LogOpAnd = \<lparr>op = (AND), neutral = -1, zero_elem = 0, has_zero = True\<rparr>"

definition LogOpOr :: log_op where
  "LogOpOr = \<lparr>op = (OR), neutral = 0, zero_elem = -1, has_zero = True\<rparr>"

definition LogOpXor :: log_op where
  "LogOpXor = \<lparr>op = (XOR), neutral = 0, zero_elem = -1, has_zero = False\<rparr>"

text \<open>
  The loops over the digits with the carries of the two operands and of the result; where one number has no
  digit any more only its carry goes on.
\<close>

fun log_loop :: "(int \<Rightarrow> int \<Rightarrow> int) \<Rightarrow> int \<Rightarrow> int \<Rightarrow> int \<Rightarrow> digits \<Rightarrow> digits \<Rightarrow> digits \<times> int \<times> int \<times> int" where
  "log_loop f cx cy cz [] [] = ([], cx, cy, cz)"
| "log_loop f cx cy cz (x # xs) (y # ys) =
     (let cx' = cx + x; cy' = cy + y; z = cz + (f cx' cy' mod Base + Half);
          (ds, r) = log_loop f (cx' div Base) (cy' div Base) (z div Base) xs ys
      in ((z mod Base - Half) # ds, r))"
| "log_loop f cx cy cz (x # xs) [] =
     (let cx' = cx + x; z = cz + (f cx' cy mod Base + Half);
          (ds, r) = log_loop f (cx' div Base) (cy div Base) (z div Base) xs []
      in ((z mod Base - Half) # ds, r))"
| "log_loop f cx cy cz [] (y # ys) =
     (let cy' = cy + y; z = cz + (f cx cy' mod Base + Half);
          (ds, r) = log_loop f (cx div Base) (cy' div Base) (z div Base) [] ys
      in ((z mod Base - Half) # ds, r))"

text \<open>The loop over the digits of \<open>y\<close> for which there is no room: they have to be zero in the result.\<close>

fun log_excess :: "(int \<Rightarrow> int \<Rightarrow> int) \<Rightarrow> int \<Rightarrow> int \<Rightarrow> int \<Rightarrow> digits \<Rightarrow> (int \<times> int \<times> int) option" where
  "log_excess f cx cy cz [] = Some (cx, cy, cz)"
| "log_excess f cx cy cz (y # ys) =
     (let cy' = cy + y; z = cz + f cx cy' mod Base
      in if z mod Base \<noteq> 0 then None
         else log_excess f (cx div Base) (cy' div Base) (z div Base) ys)"

definition log_op_any :: "nat \<Rightarrow> log_op \<Rightarrow> digits \<Rightarrow> digits \<Rightarrow> digits" where
  "log_op_any m L x y =
     (if length x = 1 \<and> has_zero L \<and> hd x = zero_elem L then x
      else if length x = 1 \<and> hd x = neutral L then (if length y \<le> m then y else [])
      else if length y = 1 \<and> has_zero L \<and> hd y = zero_elem L then [zero_elem L]
      else if length y = 1 \<and> hd y = neutral L then x
      else if length y \<le> length x then
        if \<not> is_valid y then []
        else
          (case log_loop (op L) 0 0 0 x y of
             (ds, cx, cy, cz) \<Rightarrow>
               let c = cz + op L cx cy
               in if c \<noteq> 0 then (if length x \<ge> m then [] else ds @ [c]) else strip_top ds)
      else
        if \<not> is_valid x then []
        else
          let s = min (length y) m
          in case log_loop (op L) 0 0 0 x (take s y) of
               (ds, cx, cy, cz) \<Rightarrow>
                 (case log_excess (op L) cx cy cz (drop s y) of
                    None \<Rightarrow> []
                  | Some (cx, cy, cz) \<Rightarrow> if cz + op L cx cy \<noteq> 0 then [] else strip_top ds))"

definition refint_and :: "digits \<Rightarrow> digits \<Rightarrow> digits" where
  "refint_and x y = log_op_any words_256 LogOpAnd x y"

definition refint_or :: "digits \<Rightarrow> digits \<Rightarrow> digits" where
  "refint_or x y = log_op_any words_256 LogOpOr x y"

definition refint_xor :: "digits \<Rightarrow> digits \<Rightarrow> digits" where
  "refint_xor x y = log_op_any words_256 LogOpXor x y"

section \<open>Operations that work bit by bit\<close>

text \<open>What the digit loops use of the operation: it acts separately on the low 52 bits and on the others.\<close>

locale bitwise_op =
  fixes L :: log_op
  assumes low: "op L a b mod Base = op L (a mod Base) (b mod Base) mod Base"
    and high: "op L a b div Base = op L (a div Base) (b div Base)"
    and neutral_left: "op L (neutral L) b = b"
    and neutral_right: "op L a (neutral L) = a"
    and zero_left: "has_zero L \<Longrightarrow> op L (zero_elem L) b = zero_elem L"
    and zero_right: "has_zero L \<Longrightarrow> op L a (zero_elem L) = zero_elem L"
begin

lemma low_shift: "op L (a + Base * u) (b + Base * v) mod Base = op L a b mod Base"
  by (subst low, subst (2) low) simp

lemma high_shift: "op L (a + Base * u) (b + Base * v) div Base = op L (a div Base + u) (b div Base + v)"
  by (subst high) (simp add: add.commute)

text \<open>The value of the first operand's digits with its carry, operated with the second's, is the value of the result.\<close>

lemma step_value:
  assumes "z = cz + (op L a b mod Base + Half)"
  shows "cz + op L (a + Base * u) (b + Base * v) =
    (z mod Base - Half) + Base * (z div Base + op L (a div Base + u) (b div Base + v))"
proof -
  let ?r = "op L (a + Base * u) (b + Base * v)"
  have "?r = op L a b mod Base + Base * op L (a div Base + u) (b div Base + v)"
    using mult_div_mod_eq [of Base ?r] unfolding low_shift high_shift by simp
  moreover have "z = z mod Base + Base * (z div Base)" by simp
  ultimately show ?thesis using assms by (simp add: algebra_simps)
qed

lemma log_loop_value:
  assumes "log_loop (op L) cx cy cz xs ys = (ds, cx', cy', cz')"
  shows "cz + op L (cx + big_val xs) (cy + big_val ys) = big_val ds + Base ^ length ds * (cz' + op L cx' cy') \<and>
    length ds = max (length xs) (length ys) \<and> list_all digit_ok ds"
  using assms
proof (induction "op L" cx cy cz xs ys arbitrary: ds rule: log_loop.induct)
  case (2 cx cy cz x xs y ys)
  let ?z = "cz + (op L (cx + x) (cy + y) mod Base + Half)"
  obtain ds' where rec: "log_loop (op L) ((cx + x) div Base) ((cy + y) div Base) (?z div Base) xs ys = (ds', cx', cy', cz')"
    and ds: "ds = (?z mod Base - Half) # ds'"
    using 2(2) by (auto simp: Let_def split: prod.splits)
  from 2(1) [OF refl refl refl rec] step_value [of ?z cz "cx + x" "cy + y" "big_val xs" "big_val ys"]
  show ?case by (simp add: ds algebra_simps)
next
  case (3 cx cy cz x xs)
  let ?z = "cz + (op L (cx + x) cy mod Base + Half)"
  obtain ds' where rec: "log_loop (op L) ((cx + x) div Base) (cy div Base) (?z div Base) xs [] = (ds', cx', cy', cz')"
    and ds: "ds = (?z mod Base - Half) # ds'"
    using 3(2) by (auto simp: Let_def split: prod.splits)
  from 3(1) [OF refl refl rec] step_value [of ?z cz "cx + x" "cy" "big_val xs" 0]
  show ?case by (simp add: ds algebra_simps)
next
  case (4 cx cy cz y ys)
  let ?z = "cz + (op L cx (cy + y) mod Base + Half)"
  obtain ds' where rec: "log_loop (op L) (cx div Base) ((cy + y) div Base) (?z div Base) [] ys = (ds', cx', cy', cz')"
    and ds: "ds = (?z mod Base - Half) # ds'"
    using 4(2) by (auto simp: Let_def split: prod.splits)
  from 4(1) [OF refl refl rec] step_value [of ?z cz cx "cy + y" 0 "big_val ys"]
  show ?case by (simp add: ds algebra_simps)
qed simp

text \<open>The carries of the operands stay 0 or -1, the carry of the result 0 or 1.\<close>

lemma op_signs:
  assumes "a \<in> {-1, 0}" "b \<in> {-1, 0}"
  shows "op L a b \<in> {-1, 0}"
proof -
  have "c div Base = c" if "c \<in> {-1, 0}" for c
    using that int_div_pos_eq [of "-1" Base "-1" "Base - 1"] by (auto simp: Base_def)
  then have "op L a b div Base = op L a b" using assms high [of a b] by simp
  then have "Base * op L a b + op L a b mod Base = op L a b" using mult_div_mod_eq [of Base "op L a b"] by simp
  moreover have "w = -1 \<or> w = 0" if "Base * w + r = w" "0 \<le> r" "r < Base" for w r
    using that by (simp add: Base_def) arith
  ultimately have "op L a b = -1 \<or> op L a b = 0" by simp
  then show ?thesis by simp
qed

lemma carry_steps:
  assumes "c \<in> {-1, 0}" "digit_ok d"
  shows "(c + d) div Base \<in> {-1, 0}" "c div Base \<in> {-1, 0}"
  using assms by (auto simp: digit_ok_def Base_def Half_def)

lemma result_carry: "cz \<in> {0, 1} \<Longrightarrow> (cz + (v mod Base + Half)) div Base \<in> {0, 1}"
  using pos_mod_bound [of Base v] pos_mod_sign [of Base v] by (auto simp: Base_def Half_def)

lemma log_loop_carries:
  assumes "log_loop (op L) cx cy cz xs ys = (ds, cx', cy', cz')"
    and "cx \<in> {-1, 0}" "cy \<in> {-1, 0}" "cz \<in> {0, 1}" "list_all digit_ok xs" "list_all digit_ok ys"
  shows "cx' \<in> {-1, 0} \<and> cy' \<in> {-1, 0} \<and> cz' \<in> {0, 1}"
  using assms
proof (induction "op L" cx cy cz xs ys arbitrary: ds rule: log_loop.induct)
  case (2 cx cy cz x xs y ys)
  then show ?case using carry_steps(1) [of cx x] carry_steps(1) [of cy y] result_carry [of cz] by (simp add: Let_def split: prod.splits)
next
  case (3 cx cy cz x xs)
  then show ?case using carry_steps(1) [of cx x] carry_steps(2) [of cy x] result_carry [of cz] by (simp add: Let_def split: prod.splits)
next
  case (4 cx cy cz y ys)
  then show ?case using carry_steps(2) [of cx y] carry_steps(1) [of cy y] result_carry [of cz] by (simp add: Let_def split: prod.splits)
qed simp

lemma log_op_any_value:
  assumes x: "normalized x" "length x \<le> m" and y: "normalized y" "length y \<le> m"
  defines "r \<equiv> log_op_any m L x y" and "v \<equiv> op L (big_val x) (big_val y)"
  shows "(r \<noteq> [] \<longrightarrow> big_val r = v \<and> length r \<le> m \<and> normalized r) \<and>
    (r = [] \<longrightarrow> \<not> fits_words (if length y \<le> length x then m else length y) v)"
proof -
  have ne: "x \<noteq> []" "y \<noteq> []" using x y by (auto simp: normalized_def)
  have one: "big_val u = hd u" if "length u = 1" for u using that by (cases u) auto
  consider (zx) "length x = 1" "has_zero L" "hd x = zero_elem L"
    | (nx) "length x = 1" "hd x = neutral L" "\<not> (has_zero L \<and> hd x = zero_elem L)"
    | (zy) "\<not> (length x = 1 \<and> hd x = neutral L)" "\<not> (length x = 1 \<and> has_zero L \<and> hd x = zero_elem L)"
      "length y = 1" "has_zero L" "hd y = zero_elem L"
    | (ny) "\<not> (length x = 1 \<and> hd x = neutral L)" "\<not> (length x = 1 \<and> has_zero L \<and> hd x = zero_elem L)"
      "length y = 1" "hd y = neutral L" "\<not> (has_zero L \<and> hd y = zero_elem L)"
    | (long) "\<not> (length x = 1 \<and> hd x = neutral L)" "\<not> (length x = 1 \<and> has_zero L \<and> hd x = zero_elem L)"
      "\<not> (length y = 1 \<and> hd y = neutral L)" "\<not> (length y = 1 \<and> has_zero L \<and> hd y = zero_elem L)"
    by blast
  then show ?thesis
  proof cases
    case long
    obtain ds cx cy cz where loop: "log_loop (op L) 0 0 0 x y = (ds, cx, cy, cz)" by (metis prod_cases4)
    note val = log_loop_value [OF loop]
    define c where "c = cz + op L cx cy"
    have v: "v = big_val ds + Base ^ length ds * c" "length ds = max (length x) (length y)" "ds \<noteq> []"
      using val ne by (auto simp: v_def c_def)
    have fit: "fits_words (length ds) (big_val ds)" using val digits_fit by blast
    have nofit: "\<not> fits_words (length ds) v" if "c \<noteq> 0" using carry_overflows [OF fit that] v by simp
    have r: "r = (if c = 0 then strip_top ds else if length y \<le> length x \<and> length x < m then ds @ [c] else [])"
      using long loop ne x y by (auto simp: r_def log_op_any_def is_valid_def c_def Let_def min_def)
    have c: "c \<in> {-1, 0, 1}"
      using log_loop_carries [OF loop] op_signs [of cx cy] x(1) y(1) by (auto simp: c_def normalized_def)
    have "normalized (strip_top ds)" using val v(3) by (intro normalized_strip_top) auto
    moreover have "normalized (ds @ [c])" if "c \<noteq> 0"
      using that c val by (auto simp: normalized_def digit_ok_def Half_def)
    ultimately show ?thesis
      using r v nofit x(2) y(2) strip_top_length [of ds]
      by (auto simp: big_val_append max_def split: if_splits)
  next
    case zx
    then have "r = x" "v = big_val x" using one [of x] zero_left by (simp_all add: r_def v_def log_op_any_def)
    then show ?thesis using ne x by simp
  next
    case nx
    then have "r = y" "v = big_val y" using one [of x] neutral_left y(2) by (auto simp: r_def v_def log_op_any_def)
    then show ?thesis using ne y by simp
  next
    case zy
    then have "y = [zero_elem L]" by (cases y) auto
    then have "r = y" "v = big_val y" using zy zero_right by (auto simp: r_def v_def log_op_any_def)
    then show ?thesis using ne y by simp
  next
    case ny
    then have "r = x" "v = big_val x" using one [of y] neutral_right by (auto simp: r_def v_def log_op_any_def)
    then show ?thesis using ne x by simp
  qed
qed

text \<open>With an invalid operand the result is invalid, except when the other one is the zero of the operation.\<close>

lemma log_op_any_invalid:
  "log_op_any m L [] y = (if has_zero L \<and> y = [zero_elem L] then y else [])"
  "log_op_any m L x [] = (if has_zero L \<and> x = [zero_elem L] then x else [])"
  by (cases y; auto simp: log_op_any_def is_valid_def; fail) (cases x; auto simp: log_op_any_def is_valid_def)

end

text \<open>The three operations act bit by bit.\<close>

lemma Base_take_bit: "a mod Base = take_bit 52 a" and Base_drop_bit: "a div Base = drop_bit 52 a"
  by (simp_all add: Base_def take_bit_eq_mod drop_bit_eq_div)

interpretation and_op: bitwise_op LogOpAnd
  by unfold_locales (simp_all add: LogOpAnd_def Base_take_bit Base_drop_bit drop_bit_and)

interpretation or_op: bitwise_op LogOpOr
  by unfold_locales (simp_all add: LogOpOr_def Base_take_bit Base_drop_bit drop_bit_or)

interpretation xor_op: bitwise_op LogOpXor
  by unfold_locales (simp_all add: LogOpXor_def Base_take_bit Base_drop_bit drop_bit_xor)

section \<open>The operators\<close>

definition log_exact :: "digits \<Rightarrow> digits \<Rightarrow> int \<Rightarrow> digits \<Rightarrow> bool" where
  "log_exact x y v r =
     (refint_ok r \<and> (r \<noteq> [] \<longrightarrow> big_val r = v) \<and>
      (r = [] \<longrightarrow> \<not> fits_words (if length y \<le> length x then words_256 else length y) v))"

lemma refint_logic_exact:
  assumes "normalized x" "length x \<le> words_256" "normalized y" "length y \<le> words_256"
  shows "log_exact x y (big_val x AND big_val y) (refint_and x y)"
    and "log_exact x y (big_val x OR big_val y) (refint_or x y)"
    and "log_exact x y (big_val x XOR big_val y) (refint_xor x y)"
  using and_op.log_op_any_value [OF assms] or_op.log_op_any_value [OF assms] xor_op.log_op_any_value [OF assms]
  by (auto simp: log_exact_def refint_ok_def refint_and_def refint_or_def refint_xor_def
      LogOpAnd_def LogOpOr_def LogOpXor_def)

lemma log_exact_computes: "log_exact x y v r \<Longrightarrow> length y \<le> length x \<Longrightarrow> computes r (Some v)"
  using fits_257_words by (auto simp: log_exact_def computes_def)

lemma refint_logic_invalid:
  "refint_and [] y = (if y = [0] then [0] else [])"
  "refint_or [] y = (if y = [- 1] then [- 1] else [])"
  "refint_xor [] y = []"
proof -
  have *: "length y = 1 \<and> hd y = d \<longleftrightarrow> y = [d]" for d by (cases y) auto
  show "refint_and [] y = (if y = [0] then [0] else [])" "refint_or [] y = (if y = [- 1] then [- 1] else [])"
    "refint_xor [] y = []"
    using *
    by (auto simp: refint_and_def refint_or_def refint_xor_def log_op_any_def LogOpAnd_def LogOpOr_def LogOpXor_def is_valid_def)
qed

end
