(* ===== verification/Bigint_Mod.thy ===== *)
theory Bigint_Mod
  imports Bigint_Logic
begin

text \<open>
  Remainders modulo powers of two, \<open>mod_pow2_any\<close> of \<^verbatim>\<open>crypto/common/bigint.hpp\<close>, with the three
  rounding modes.
\<close>

section \<open>Definitions\<close>

text \<open>\<open>while (q >= word_shift) { digits[inc_size()] = 0; q -= word_shift; }\<close>\<close>

function grow_loop :: "int \<Rightarrow> digits \<Rightarrow> int \<times> digits" where
  "grow_loop q x = (if q \<ge> 52 then grow_loop (q - 52) (x @ [0]) else (q, x))"
  by pat_completeness auto
termination by (relation "measure (\<lambda>(q, x). nat q)") auto

text \<open>\<open>while (q < 0) { dec_size(); q += word_shift; }\<close>\<close>

function shrink_loop :: "int \<Rightarrow> digits \<Rightarrow> int \<times> digits" where
  "shrink_loop q x = (if q < 0 then shrink_loop (q + 52) (butlast x) else (q, x))"
  by pat_completeness auto
termination by (relation "measure (\<lambda>(q, x). nat (- q))") auto

declare grow_loop.simps [simp del] shrink_loop.simps [simp del]

text \<open>\<open>while (k > 0 && !digits[k - 1]) --k\<close>: the first \<open>k\<close> digits.\<close>

definition strip_zeros :: "digits \<Rightarrow> digits" where
  "strip_zeros x = rev (dropWhile (\<lambda>d. d = 0) (rev x))"

text \<open>The power \<open>2 ^ q\<close> in place of the top digit, in two digits if there is room and it is half the base.\<close>

definition put_pow :: "nat \<Rightarrow> int \<Rightarrow> digits \<Rightarrow> digits" where
  "put_pow m q x =
     (if q = 51 \<and> length x < m then x[length x - 1 := - Half] @ [1] else x[length x - 1 := 2 ^ nat q])"

text \<open>The rest of \<open>mod_pow2_any\<close> once the topmost digit holds the \<open>q\<close> most significant bits of the result.\<close>

definition mod_pow2_tail :: "nat \<Rightarrow> int \<Rightarrow> int \<Rightarrow> digits \<Rightarrow> digits" where
  "mod_pow2_tail m exponent q x =
     (let v = last x mod 2 ^ nat q
      in if v = 0 then
           let low = strip_zeros (butlast x)
           in if low = [] then [0]
              else if last low > 0 then low
              else if exponent \<ge> int (m * 52) then []
              else if q - 52 \<ge> 0 then x[length x - 1 := 0] @ [2 ^ nat (q - 52)]
              else put_pow m q x
         else if v \<ge> Half \<and> length x < m then
           let w = (v div 2 ^ 51 + 1) div 2 in x[length x - 1 := v - w * Base] @ [w]
         else x[length x - 1 := v])"

definition mod_pow2_any :: "nat \<Rightarrow> int \<Rightarrow> digits \<Rightarrow> digits" where
  "mod_pow2_any m exponent x =
     (if \<not> is_valid x then []
      else if exponent \<le> 0 then [0]
      else
        let q0 = exponent - int ((length x - 1) * 52)
        in if q0 \<ge> 64 then
             if sgn_any x \<ge> 0 then x
             else if exponent \<ge> int (m * 52) then []
             else (case grow_loop q0 x of (q, x') \<Rightarrow> put_pow m q x')
           else (case shrink_loop q0 x of (q, x') \<Rightarrow> mod_pow2_tail m exponent q x'))"

definition mod_pow2_round :: "nat \<Rightarrow> int \<Rightarrow> int \<Rightarrow> digits \<Rightarrow> digits" where
  "mod_pow2_round m exponent round_mode x =
     (if round_mode < 0 then mod_pow2_any m exponent x
      else if \<not> is_valid x then []
      else if exponent \<le> 0 then [0]
      else if round_mode > 0 then negate_any (mod_pow2_any m exponent (negate_any x))
      else if signed_fits_bits_any exponent x then x
      else
        let r = mod_pow2_any m exponent x
        in if r = [] then []
           else if \<not> unsigned_fits_bits_any (exponent - 1) r then add_pow2_any m exponent (-1) r
           else r)"

section \<open>The loops\<close>

lemma grow_loop_eq: "0 \<le> q \<Longrightarrow> grow_loop q x = (q mod 52, x @ replicate (nat q div 52) 0)"
proof (induction q x rule: grow_loop.induct)
  case (1 q x)
  show ?case
  proof (cases "q \<ge> 52")
    case True
    then have "nat q div 52 = Suc (nat (q - 52) div 52)" by (simp add: nat_diff_distrib le_div_geq)
    moreover have "(q - 52) mod 52 = q mod 52" using mod_add_self2 [of "q - 52" 52] by simp
    ultimately show ?thesis using 1 True by (simp add: grow_loop.simps [of q])
  next
    case False
    then show ?thesis using 1(2) by (simp add: grow_loop.simps)
  qed
qed

lemma shrink_loop_eq:
  assumes "q = e - int ((length x - 1) * 52)" "0 < e" "x \<noteq> []" "q < 52"
  shows "shrink_loop q x = (e mod 52, take (nat (e div 52) + 1) x)"
  using assms
proof (induction q x rule: shrink_loop.induct)
  case (1 q x)
  let ?n = "int (length x)"
  have n: "q = e - (?n - 1) * 52" "0 < ?n" using 1(2,4) by (cases x; simp)+
  show ?case
  proof (cases "q < 0")
    case True
    have "e div 52 < ?n - 1" "0 \<le> e div 52" using n True 1(3) by presburger+
    then have len: "nat (e div 52) + 1 < length x" by linarith
    then have b: "butlast x \<noteq> []" by (cases x rule: rev_cases) auto
    have q: "q + 52 = e - int ((length (butlast x) - 1) * 52)" using n len by simp
    have "shrink_loop (q + 52) (butlast x) = (e mod 52, take (nat (e div 52) + 1) (butlast x))"
      by (rule 1(1) [OF True q 1(3) b]) (use True in simp)
    moreover have "shrink_loop q x = shrink_loop (q + 52) (butlast x)"
      using True by (subst shrink_loop.simps) simp
    moreover have "take (nat (e div 52) + 1) (butlast x) = take (nat (e div 52) + 1) x"
    proof -
      have "min (nat (e div 52) + 1) (length x - 1) = nat (e div 52) + 1" using len by linarith
      then show ?thesis unfolding butlast_conv_take take_take by simp
    qed
    ultimately show ?thesis by (simp only:)
  next
    case False
    have "e div 52 = ?n - 1" "q = e mod 52"
      using n False 1(5) int_div_pos_eq [of e 52 "?n - 1" q] int_mod_pos_eq [of e 52 "?n - 1" q] by auto
    moreover from this have "nat (e div 52) + 1 = length x" using n by linarith
    moreover have "shrink_loop q x = (q, x)" using False by (subst shrink_loop.simps) simp
    ultimately show ?thesis by (metis take_all order_refl)
  qed
qed

section \<open>Almost normalised numbers\<close>

text \<open>Digits between \<open>- Base + 1\<close> and \<open>Base - 1\<close>; the topmost one is not zero.\<close>

definition almost_digit :: "int \<Rightarrow> bool" where
  "almost_digit d = (\<bar>d\<bar> < Base)"

definition almost_normalized :: "digits \<Rightarrow> bool" where
  "almost_normalized x = (x \<noteq> [] \<and> list_all almost_digit x \<and> (1 < length x \<longrightarrow> last x \<noteq> 0))"

lemma almost_bound: "list_all almost_digit ds \<Longrightarrow> \<bar>big_val ds\<bar> < Base ^ length ds"
proof (induction ds)
  case (Cons d ds)
  then have "\<bar>d\<bar> \<le> Base - 1" "\<bar>big_val ds\<bar> \<le> Base ^ length ds - 1" by (simp_all add: almost_digit_def)
  then have "\<bar>d\<bar> + Base * \<bar>big_val ds\<bar> \<le> Base - 1 + Base * (Base ^ length ds - 1)"
    by (intro add_mono mult_left_mono) auto
  also have "\<dots> < Base ^ length (d # ds)" by (simp add: algebra_simps)
  finally show ?case using abs_triangle_ineq [of d "Base * big_val ds"] by (simp add: abs_mult)
qed simp

lemma almost_sign:
  assumes "x \<noteq> []" "list_all almost_digit x" "last x \<noteq> 0"
  shows "0 < last x \<longleftrightarrow> 0 < big_val x" "last x < 0 \<longleftrightarrow> big_val x < 0"
proof -
  let ?L = "big_val (butlast x)" and ?p = "Base ^ (length x - 1)"
  have "list_all almost_digit (butlast x)" using assms(2) by (auto simp: list_all_iff in_set_butlastD)
  from almost_bound [OF this] have L: "- ?p < ?L" "?L < ?p" by auto
  have "0 < last x \<and> 0 < big_val x \<or> last x < 0 \<and> big_val x < 0"
  proof (cases "0 < last x")
    case True
    then have "?p * 1 \<le> ?p * last x" by (intro mult_left_mono) auto
    then show ?thesis using True big_val_last [OF assms(1)] L by linarith
  next
    case False
    then have "?p * last x \<le> ?p * (- 1)" using assms(3) by (intro mult_left_mono) auto
    then show ?thesis using False assms(3) big_val_last [OF assms(1)] L by linarith
  qed
  then show "0 < last x \<longleftrightarrow> 0 < big_val x" "last x < 0 \<longleftrightarrow> big_val x < 0" by auto
qed

lemma normalized_almost: "normalized x \<Longrightarrow> almost_normalized x" "normalized x \<Longrightarrow> almost_normalized (negate_any x)"
  using Base_Half Half_pos
  by (auto simp: normalized_def almost_normalized_def almost_digit_def digit_ok_def list_all_iff negate_any_def last_map)

lemma almost_zeros: "list_all almost_digit x \<Longrightarrow> list_all almost_digit (x @ replicate k 0)"
  by (auto simp: list_all_iff almost_digit_def)

lemma strip_zeros_props:
  "big_val (strip_zeros x) = big_val x" "strip_zeros x \<noteq> [] \<Longrightarrow> last (strip_zeros x) \<noteq> 0"
  "list_all P x \<Longrightarrow> list_all P (strip_zeros x)" "length (strip_zeros x) \<le> length x"
proof -
  show "big_val (strip_zeros x) = big_val x"
    by (induction x rule: rev_induct) (auto simp: strip_zeros_def big_val_append)
  show "strip_zeros x \<noteq> [] \<Longrightarrow> last (strip_zeros x) \<noteq> 0"
    using hd_dropWhile [of "\<lambda>d. d = 0" "rev x"] by (auto simp: strip_zeros_def last_rev)
  show "list_all P x \<Longrightarrow> list_all P (strip_zeros x)"
    by (auto simp: strip_zeros_def list_all_iff dest: set_dropWhileD)
  show "length (strip_zeros x) \<le> length x"
    using length_dropWhile_le [of "\<lambda>d. d = 0" "rev x"] by (simp add: strip_zeros_def)
qed

lemma update_top: "x \<noteq> [] \<Longrightarrow> x[length x - 1 := d] = butlast x @ [d]"
  by (cases x rule: rev_cases) auto

lemma put_pow_value:
  assumes "x \<noteq> []" "0 \<le> q" "length x \<le> m"
  shows "big_val (put_pow m q x) = big_val (butlast x) + 2 ^ (52 * (length x - 1) + nat q)"
    "put_pow m q x \<noteq> []" "length (put_pow m q x) \<le> m"
proof -
  obtain y d where x: "x = y @ [d]" using assms(1) by (cases x rule: rev_cases) auto
  have p: "(2 :: int) ^ (52 * length y + nat q) = Base ^ length y * 2 ^ nat q"
    by (simp add: Base_def power_add power_mult)
  have "Base - Half = 2 ^ 51" by (simp add: Base_def Half_def)
  with p show "big_val (put_pow m q x) = big_val (butlast x) + 2 ^ (52 * (length x - 1) + nat q)"
    by (simp add: put_pow_def x big_val_append)
qed (use assms in \<open>auto simp: put_pow_def\<close>)

section \<open>The remainder\<close>

lemma almost_sgn_any:
  assumes "almost_normalized x"
  shows "sgn_any x = sgn (big_val x)"
proof (cases "last x = 0")
  case True
  with assms have "x = [0]" by (cases x rule: rev_cases) (auto simp: almost_normalized_def)
  then show ?thesis by (simp add: sgn_any_def is_valid_def)
next
  case False
  then show ?thesis
    using assms almost_sign [of x] by (auto simp: almost_normalized_def sgn_any_def is_valid_def sgn_if)
qed

text \<open>More bits are kept than the number has.\<close>

lemma word_split:
  assumes "64 \<le> q" "nat q div 52 = Suc k"
  shows "q = 52 * int (Suc k) + q mod 52"
proof -
  have "nat (q div 52) = Suc k" using assms nat_div_distrib [of q 52] by simp
  then have "q div 52 = int (Suc k)" unfolding nat_eq_iff by (simp split: if_splits)
  then show ?thesis using mult_div_mod_eq [of 52 q] by simp
qed

lemma mod_pow2_any_wide_cases:
  assumes x: "almost_normalized x" "length x \<le> m" and e: "e < int (m * 52)" "64 \<le> e - int ((length x - 1) * 52)"
  obtains "0 \<le> big_val x" "mod_pow2_any m e x = x"
  | q y where "big_val x < 0" "mod_pow2_any m e x = put_pow m q (y @ [0])" "0 \<le> q" "q < 52"
    "nat e = 52 * length y + nat q" "length y < m" "big_val y = big_val x" "\<And>P. P 0 \<Longrightarrow> list_all P x \<Longrightarrow> list_all P y"
proof (cases "0 \<le> big_val x")
  case True
  then have "mod_pow2_any m e x = x"
    using e x(1) almost_sgn_any [OF x(1)]
    by (simp add: mod_pow2_any_def is_valid_def Let_def sgn_if almost_normalized_def)
  with True show thesis by (rule that(1))
next
  case False
  let ?q = "e - int ((length x - 1) * 52)"
  have ne: "x \<noteq> []" using x by (auto simp: almost_normalized_def)
  define k where "k = nat ?q div 52 - 1"
  have "nat ?q div 52 = Suc k" using e(2) by (simp add: k_def)
  moreover have "mod_pow2_any m e x = put_pow m (?q mod 52) (x @ replicate (nat ?q div 52) 0)"
    using e False ne almost_sgn_any [OF x(1)] grow_loop_eq [of ?q x]
    by (simp add: mod_pow2_any_def is_valid_def Let_def sgn_if)
  ultimately have "mod_pow2_any m e x = put_pow m (?q mod 52) ((x @ replicate k 0) @ [0])"
    by (simp add: replicate_append_same)
  moreover have len: "nat e = 52 * length (x @ replicate k 0) + nat (?q mod 52)"
  proof -
    have "?q = 52 * int (Suc k) + ?q mod 52" using e(2) \<open>nat ?q div 52 = Suc k\<close> by (rule word_split)
    then show ?thesis using ne pos_mod_sign [of 52 ?q] by (cases x) auto
  qed
  moreover have "length (x @ replicate k 0) < m"
  proof -
    have "52 * length (x @ replicate k 0) \<le> nat e" unfolding len by (rule le_add1)
    also have "\<dots> < m * 52" using e nat_less_iff [of e "m * 52"] by simp
    finally show ?thesis by simp
  qed
  ultimately show thesis
    using False by (intro that(2) [of "?q mod 52" "x @ replicate k 0"]) (auto simp: list_all_iff big_val_append)
qed

lemma power_Base: "nat e = 52 * k + nat q \<Longrightarrow> 2 ^ nat e = Base ^ k * 2 ^ nat q"
  by (simp add: power_add power_mult Base_def)

lemma mod_pow2_any_wide:
  assumes x: "almost_normalized x" "length x \<le> m" and e: "e < int (m * 52)" "64 \<le> e - int ((length x - 1) * 52)"
  shows "mod_pow2_any m e x \<noteq> [] \<and> length (mod_pow2_any m e x) \<le> m \<and>
    big_val (mod_pow2_any m e x) = big_val x mod 2 ^ nat e"
proof -
  have ne: "x \<noteq> []" using x by (auto simp: almost_normalized_def)
  have "52 * length x \<le> nat e" using e(2) ne by (cases x) auto
  then have "Base ^ length x \<le> 2 ^ nat e"
    unfolding Base_def power_mult [symmetric] by (intro power_increasing) auto
  then have b: "- (2 ^ nat e) < big_val x" "big_val x < 2 ^ nat e"
    using almost_bound [of x] x(1) by (auto simp: almost_normalized_def)
  show ?thesis
    using assms
  proof (cases rule: mod_pow2_any_wide_cases)
    case 1
    then show ?thesis using b ne x(2) by simp
  next
    case (2 q y)
    moreover have "big_val x mod 2 ^ nat e = big_val x + 2 ^ nat e"
      using mod_pos_pos_trivial [of "big_val x + 2 ^ nat e" "2 ^ nat e"] 2 b by simp
    ultimately show ?thesis using put_pow_value [of "y @ [0]" q m] by simp
  qed
qed

text \<open>Otherwise the digits above the last one needed are dropped.\<close>

lemma shrink_loop_cases:
  assumes "x \<noteq> []" "0 < e" "e - int ((length x - 1) * 52) < 64"
  obtains s q where "shrink_loop (e - int ((length x - 1) * 52)) x = (q, take s x)" "0 < s" "s \<le> length x"
    "0 \<le> q" "q < 64" "nat e = 52 * (s - 1) + nat q" "52 \<le> q \<Longrightarrow> s = length x"
proof (cases "e - int ((length x - 1) * 52) < 52")
  case True
  have s: "nat (e div 52) + 1 \<le> length x" using True assms(1) by (cases x) auto
  have "nat e = 52 * nat (e div 52) + nat (e mod 52)"
    using mult_div_mod_eq [of 52 e] pos_mod_sign [of 52 e] assms(2) pos_imp_zdiv_nonneg_iff [of 52 e] by linarith
  with that [OF shrink_loop_eq [OF refl assms(2,1) True]] s show thesis by (simp add: pos_mod_bound)
next
  case False
  let ?q = "e - int ((length x - 1) * 52)"
  have "shrink_loop ?q x = (?q, take (length x) x)" using False by (subst shrink_loop.simps) simp
  moreover have "nat e = 52 * (length x - 1) + nat ?q" using False by linarith
  moreover have "0 < length x" "0 \<le> ?q" using assms(1) False by auto
  ultimately show thesis using assms(3) by (intro that) (simp_all only: order_refl)
qed

lemma mod_top_digit:
  assumes "0 < s" "s \<le> length x" "0 \<le> q" "nat e = 52 * (s - 1) + nat q" "52 \<le> q \<Longrightarrow> s = length x"
  shows "big_val x mod 2 ^ nat e =
    (big_val (butlast (take s x)) + Base ^ (s - 1) * (last (take s x) mod 2 ^ nat q)) mod 2 ^ nat e"
proof -
  let ?L = "big_val (butlast (take s x))" and ?P = "Base ^ (s - 1)" and ?d = "last (take s x)" and ?R = "big_val (drop s x)"
  have ne: "take s x \<noteq> []" "length (take s x) = s" using assms(1,2) by auto
  have E: "2 ^ nat e = ?P * 2 ^ nat q" by (simp add: assms(4) power_add power_mult Base_def)
  have "big_val x = big_val (take s x) + Base ^ s * ?R"
    using big_val_append [of "take s x" "drop s x"] ne by simp
  then have x: "big_val x = ?L + ?P * ?d + Base ^ s * ?R" using big_val_last [OF ne(1)] ne(2) by simp
  have "\<exists>z. Base ^ s * ?R = 2 ^ nat e * z"
  proof (cases "52 \<le> q")
    case True
    then show ?thesis using assms(5) by auto
  next
    case False
    have "Base ^ s = ?P * Base" using assms(1) by (cases s) auto
    moreover have "Base = 2 ^ nat q * 2 ^ (52 - nat q)"
      unfolding Base_def power_add [symmetric] using False assms(3) by simp
    ultimately show ?thesis unfolding E by (intro exI [of _ "2 ^ (52 - nat q) * ?R"]) simp
  qed
  then obtain z where z: "Base ^ s * ?R = 2 ^ nat e * z" by blast
  have "?P * ?d = ?P * (?d mod 2 ^ nat q) + 2 ^ nat e * (?d div 2 ^ nat q)"
  proof -
    have "?P * ?d = ?P * (2 ^ nat q * (?d div 2 ^ nat q) + ?d mod 2 ^ nat q)" by simp
    then show ?thesis unfolding E by (simp only: distrib_left mult.assoc add.commute)
  qed
  then have "big_val x = ?L + ?P * (?d mod 2 ^ nat q) + 2 ^ nat e * (?d div 2 ^ nat q + z)"
    unfolding x z by (simp add: algebra_simps)
  then show ?thesis by simp
qed

lemma mod_pow2_tail_value:
  assumes len: "length (y @ [d]) \<le> m" and q: "0 \<le> q" and e: "e < int (m * 52)"
    and E: "nat e = 52 * length y + nat q"
    and y: "list_all almost_digit y" and v: "v = d mod 2 ^ nat q" and top: "v = 0 \<Longrightarrow> y \<noteq> [] \<Longrightarrow> q < 52"
  shows "mod_pow2_tail m e q (y @ [d]) \<noteq> [] \<and> length (mod_pow2_tail m e q (y @ [d])) \<le> m \<and>
    big_val (mod_pow2_tail m e q (y @ [d])) = (big_val y + Base ^ length y * v) mod 2 ^ nat e"
proof (cases "v = 0")
  case True
  let ?low = "strip_zeros y"
  note low = strip_zeros_props(1,2) [of y] strip_zeros_props(3) [OF y] strip_zeros_props(4) [of y]
  have b: "- (2 ^ nat e) < big_val y" "big_val y < 2 ^ nat e"
  proof -
    have "Base ^ length y \<le> 2 ^ nat e" unfolding power_Base [OF E] using zero_less_power [of "2 :: int" "nat q"] by simp
    then show "- (2 ^ nat e) < big_val y" "big_val y < 2 ^ nat e" using almost_bound [OF y] by auto
  qed
  consider "?low = []" | "?low \<noteq> []" "last ?low > 0" | "?low \<noteq> []" "last ?low < 0" using low(2) by linarith
  then show ?thesis
  proof cases
    case 1
    then have "big_val y = 0" using low(1) by simp
    with 1 True v len show ?thesis by (simp add: mod_pow2_tail_def)
  next
    case 2
    then have "0 < big_val y" using almost_sign(1) [of ?low] low by auto
    with 2 True v len low(1,4) b show ?thesis by (simp add: mod_pow2_tail_def)
  next
    case 3
    then have neg: "big_val y < 0" using almost_sign(2) [of ?low] low by auto
    then have "y \<noteq> []" by auto
    with 3 True v top e have "mod_pow2_tail m e q (y @ [d]) = put_pow m q (y @ [d])" by (simp add: mod_pow2_tail_def)
    moreover have "big_val y mod 2 ^ nat e = big_val y + 2 ^ nat e"
      using mod_pos_pos_trivial [of "big_val y + 2 ^ nat e" "2 ^ nat e"] neg b by simp
    ultimately show ?thesis using put_pow_value [of "y @ [d]" q m] q len True E by simp
  qed
next
  case False
  have "0 \<le> v" "v < 2 ^ nat q" by (simp_all add: v)
  then have v': "1 \<le> v" "v \<le> 2 ^ nat q - 1" using False by linarith+
  have "Base ^ length y * 1 \<le> Base ^ length y * v" "Base ^ length y * v \<le> Base ^ length y * (2 ^ nat q - 1)"
    using v' by (intro mult_left_mono; simp)+
  then have "0 \<le> big_val y + Base ^ length y * v" "big_val y + Base ^ length y * v < 2 ^ nat e"
    using almost_bound [OF y] unfolding power_Base [OF E] right_diff_distrib mult_1_right by linarith+
  then have "(big_val y + Base ^ length y * v) mod 2 ^ nat e = big_val y + Base ^ length y * v" by simp
  moreover have "mod_pow2_tail m e q (y @ [d]) =
    (if v \<ge> Half \<and> length y + 1 < m then y @ [v - (v div 2 ^ 51 + 1) div 2 * Base, (v div 2 ^ 51 + 1) div 2] else y @ [v])"
    using False v by (simp add: mod_pow2_tail_def Let_def)
  ultimately show ?thesis using len by (auto simp: big_val_append algebra_simps)
qed

lemma mod_pow2_any_narrow_cases:
  assumes x: "almost_normalized x" "length x \<le> m" and e: "0 < e" "e - int ((length x - 1) * 52) < 64"
  obtains q y d where "mod_pow2_any m e x = mod_pow2_tail m e q (y @ [d])" "length (y @ [d]) \<le> m" "0 \<le> q" "q < 64"
    "nat e = 52 * length y + nat q" "\<And>P. list_all P x \<Longrightarrow> list_all P y"
    "big_val x mod 2 ^ nat e = (big_val y + Base ^ length y * (d mod 2 ^ nat q)) mod 2 ^ nat e"
    "d mod 2 ^ nat q = 0 \<Longrightarrow> y \<noteq> [] \<Longrightarrow> q < 52"
proof -
  have ne: "x \<noteq> []" using x by (auto simp: almost_normalized_def)
  obtain s q where sq: "shrink_loop (e - int ((length x - 1) * 52)) x = (q, take s x)" "0 < s" "s \<le> length x"
    "0 \<le> q" "q < 64" "nat e = 52 * (s - 1) + nat q" "52 \<le> q \<Longrightarrow> s = length x"
    using shrink_loop_cases [OF ne e] by blast
  define y where "y = butlast (take s x)"
  define d where "d = last (take s x)"
  have y: "take s x = y @ [d]" "s - 1 = length y" using sq(2,3) ne by (auto simp: y_def d_def)
  have "q < 52" if v: "d mod 2 ^ nat q = 0" and "y \<noteq> []"
  proof (rule ccontr)
    assume "\<not> q < 52"
    then have xd: "x = y @ [d]" "1 < length x" using sq(7) y that(2) by auto
    have "(2 :: int) ^ 52 \<le> 2 ^ nat q" using \<open>\<not> q < 52\<close> by (intro power_increasing) auto
    with xd have "\<bar>d\<bar> < 2 ^ nat q" "d \<noteq> 0"
      using x(1) by (auto simp: almost_normalized_def almost_digit_def Base_def)
    then show False
      using v zdvd_imp_le [of "2 ^ nat q" "\<bar>d\<bar>"] by (simp add: dvd_eq_mod_eq_0 [symmetric])
  qed
  moreover have "list_all P y" if "list_all P x" for P
    using that by (auto simp: y_def list_all_iff dest: in_set_butlastD in_set_takeD)
  moreover have "mod_pow2_any m e x = mod_pow2_tail m e q (y @ [d])"
    using e sq(1) ne y(1) by (simp add: mod_pow2_any_def is_valid_def Let_def)
  moreover have "length (y @ [d]) \<le> m" using sq(2,3) x(2) y by simp
  moreover have "big_val x mod 2 ^ nat e = (big_val y + Base ^ length y * (d mod 2 ^ nat q)) mod 2 ^ nat e"
    using mod_top_digit [OF sq(2,3,4,6,7)] unfolding y(2) y_def [symmetric] d_def [symmetric] .
  ultimately show thesis using sq(4,5,6) unfolding y(2) by (intro that)
qed

lemma mod_pow2_any_value:
  assumes "almost_normalized x" "length x \<le> m" "0 < e" "e < int (m * 52)"
  shows "mod_pow2_any m e x \<noteq> [] \<and> length (mod_pow2_any m e x) \<le> m \<and>
    big_val (mod_pow2_any m e x) = big_val x mod 2 ^ nat e"
proof (cases "64 \<le> e - int ((length x - 1) * 52)")
  case True
  show ?thesis by (rule mod_pow2_any_wide [OF assms(1,2,4) True])
next
  case False
  then have "e - int ((length x - 1) * 52) < 64" by simp
  with assms(1-3) show ?thesis
  proof (cases rule: mod_pow2_any_narrow_cases)
    case (1 q y d)
    have "list_all almost_digit y" using assms(1) 1(6) by (auto simp: almost_normalized_def)
    with mod_pow2_tail_value [OF 1(2,3) assms(4) 1(5) this refl 1(8)] 1(1,7) show ?thesis by simp
  qed
qed

section \<open>Normalised results\<close>

lemma put_pow_normalized:
  assumes "list_all digit_ok y" "q < 52" "q = 51 \<Longrightarrow> length y + 1 < m"
  shows "normalized (put_pow m q (y @ [d]))"
proof -
  have "(2 :: int) ^ nat q < Half" if "q \<noteq> 51"
    unfolding Half_def using that assms(2) by (intro power_strict_increasing) auto
  moreover have "- Half \<le> (2 :: int) ^ nat q" using Half_pos zero_less_power [of "2 :: int" "nat q"] by linarith
  moreover have "1 < Half" by (simp add: Half_def)
  ultimately show ?thesis using assms by (auto simp: put_pow_def normalized_def digit_ok_def)
qed

lemma mod_pow2_tail_normalized:
  assumes y: "list_all digit_ok y" "length (y @ [d]) \<le> m" and q: "q < 64" "length y + 1 = m \<Longrightarrow> q < 51"
    and e: "e < int (m * 52)" and top: "d mod 2 ^ nat q = 0 \<Longrightarrow> y \<noteq> [] \<Longrightarrow> q < 52"
  shows "normalized (mod_pow2_tail m e q (y @ [d]))"
proof (cases "d mod 2 ^ nat q = 0")
  case True
  note low = strip_zeros_props(2) [of y] strip_zeros_props(3) [OF y(1)]
  have "y \<noteq> []" if "strip_zeros y \<noteq> []" using that by (auto simp: strip_zeros_def)
  with top True have "normalized (put_pow m q (y @ [d]))" if "strip_zeros y \<noteq> []"
    using that y q(2) by (intro put_pow_normalized) (auto intro!: le_neq_implies_less)
  moreover have "\<not> 52 \<le> q" if "strip_zeros y \<noteq> []"
    using that top True \<open>strip_zeros y \<noteq> [] \<Longrightarrow> y \<noteq> []\<close> by auto
  moreover have "normalized (strip_zeros y)" if "strip_zeros y \<noteq> []" using that low by (simp add: normalized_def)
  moreover have "normalized [0]" by (simp add: normalized_def digit_ok_def Half_def)
  ultimately show ?thesis using True e by (simp add: mod_pow2_tail_def Let_def)
next
  case False
  define v where "v = d mod 2 ^ nat q"
  have "0 \<le> v" "v < 2 ^ nat q" by (simp_all add: v_def)
  moreover have "(2 :: int) ^ nat q \<le> 2 ^ 63" using q(1) by (intro power_increasing) auto
  moreover have "v \<noteq> 0" using False by (simp add: v_def)
  ultimately have v: "0 < v" "v < 2 ^ 63" by linarith+
  let ?w = "(v div 2 ^ 51 + 1) div 2"
  have w: "?w = (v + Half) div Base"
  proof -
    have "v div 2 ^ 51 + 1 = (v + Half) div Half" by (simp add: Half_def)
    then show ?thesis using zdiv_zmult2_eq [of 2 "v + Half" Half] by (simp add: Base_Half mult.commute)
  qed
  have "v - ?w * Base = (v + Half) mod Base - Half"
    using div_mult_mod_eq [of "v + Half" Base] unfolding w by linarith
  then have low: "digit_ok (v - ?w * Base)" by (simp only: digit_ok_carry)
  have high: "digit_ok ?w" "?w \<noteq> 0" if "Half \<le> v"
    using that v div_Base_bounds(1) [of 1 "v + Half"] div_Base_bounds(2) [of "v + Half" Half]
    unfolding w by (auto simp: digit_ok_def Base_def Half_def)
  have small: "digit_ok v" if "\<not> (Half \<le> v \<and> length y + 1 < m)"
  proof (cases "Half \<le> v")
    case True
    then have "length y + 1 = m" using that y(2) by simp
    then have "(2 :: int) ^ nat q \<le> 2 ^ 51" using q by (intro power_increasing) auto
    then show ?thesis using True \<open>v < 2 ^ nat q\<close> by (simp add: Half_def)
  qed (use v in \<open>simp add: digit_ok_def Half_def\<close>)
  show ?thesis
    using False low high small v y by (auto simp: mod_pow2_tail_def Let_def v_def [symmetric] normalized_def)
qed

lemma mod_pow2_any_normalized:
  assumes x: "normalized x" "length x \<le> m" and e: "0 < e" "e < int (m * 52) - 1"
  shows "normalized (mod_pow2_any m e x)"
proof -
  have ok: "list_all digit_ok x" using x by (simp add: normalized_def)
  note a = normalized_almost(1) [OF x(1)]
  show ?thesis
  proof (cases "64 \<le> e - int ((length x - 1) * 52)")
    case True
    have "e < int (m * 52)" using e by simp
    from a x(2) this True show ?thesis
    proof (cases rule: mod_pow2_any_wide_cases)
      case 1
      then show ?thesis using x by simp
    next
      case (2 q y)
      have "length y + 1 < m" if "q = 51" using 2(5,6) that e by auto
      moreover have "list_all digit_ok y" using 2(8) [of digit_ok] ok by (simp add: digit_ok_def Half_def)
      ultimately show ?thesis using put_pow_normalized [of y q m 0] 2 by simp
    qed
  next
    case False
    then have "e - int ((length x - 1) * 52) < 64" by simp
    with a x(2) e(1) show ?thesis
    proof (cases rule: mod_pow2_any_narrow_cases)
      case (1 q y d)
      have "q < 51" if "length y + 1 = m" using 1(3,5) that e by auto
      with mod_pow2_tail_normalized [OF 1(6) [OF ok] 1(2,4)] e(2) 1(1,8) show ?thesis by simp
    qed
  qed
qed

section \<open>Rounding\<close>

text \<open>The remainder that belongs to the quotient rounded in the given direction.\<close>

definition round_remainder :: "int \<Rightarrow> nat \<Rightarrow> int \<Rightarrow> int" where
  "round_remainder round_mode e v = v - round_quotient round_mode e v * 2 ^ e"

lemma round_remainder_floor: "rm < 0 \<Longrightarrow> round_remainder rm e v = v mod 2 ^ e"
  by (simp add: round_remainder_def round_quotient_def minus_div_mult_eq_mod)

lemma round_remainder_ceil: "0 < rm \<Longrightarrow> round_remainder rm e v = - ((- v) mod 2 ^ e)"
  using div_mult_mod_eq [of "- v" "2 ^ e"] by (simp add: round_remainder_def round_quotient_def)

lemma half_up_quotient:
  fixes w h :: int
  assumes "0 \<le> w" "w < 2 * h"
  shows "(w + h) div (2 * h) = (if w < h then 0 else 1)"
  using assms int_div_pos_eq [of "w + h" "2 * h" 1 "w - h"] by auto

lemma round_remainder_nearest:
  assumes "0 < e"
  shows "round_remainder 0 e v = (if v mod 2 ^ e < 2 ^ (e - 1) then v mod 2 ^ e else v mod 2 ^ e - 2 ^ e)"
proof -
  let ?p = "2 ^ e :: int" and ?h = "2 ^ (e - 1) :: int"
  have p: "?p = 2 * ?h" using assms by (cases e) auto
  have m: "0 \<le> v mod ?p" "v mod ?p < ?p" by simp_all
  have "v + ?h = v mod ?p + ?h + v div ?p * ?p" using div_mult_mod_eq [of v ?p] by linarith
  then have "(v + ?h) div ?p = v div ?p + (v mod ?p + ?h) div ?p" by (simp only: div_mult_self1) simp
  also have "(v mod ?p + ?h) div ?p = (if v mod ?p < ?h then 0 else 1)"
    using half_up_quotient [of "v mod ?p" ?h] m unfolding p by simp
  finally have "round_quotient 0 e v = v div ?p + (if v mod ?p < ?h then 0 else 1)"
    using p by (simp add: round_quotient_def)
  then show ?thesis using div_mult_mod_eq [of v ?p] by (simp add: round_remainder_def algebra_simps)
qed

lemma add_pow2_any_length:
  assumes "x \<noteq> []" "length x \<le> m" "0 \<le> e" "e < int (m * 52)"
  shows "add_pow2_any m e f x \<noteq> []" "length (add_pow2_any m e f x) \<le> m"
  using assms by (auto simp: add_pow2_any_def is_valid_def Let_def pad_to_def)

lemma mod_pow2_round_value:
  assumes x: "normalized x" "length x \<le> m" and e: "0 \<le> e" "e < int (m * 52) - 1"
  shows "mod_pow2_round m e rm x \<noteq> [] \<and> length (mod_pow2_round m e rm x) \<le> m \<and>
    big_val (mod_pow2_round m e rm x) = round_remainder rm (nat e) (big_val x)"
proof -
  have ne: "x \<noteq> []" using x by (auto simp: normalized_def)
  then have m: "0 < m" using x(2) by (cases x) auto
  note a = normalized_almost [OF x(1)]
  consider "e = 0" | "0 < e" "rm < 0" | "0 < e" "rm > 0" | "0 < e" "rm = 0" using e(1) by linarith
  then show ?thesis
  proof cases
    case 1
    then show ?thesis
      using ne m by (auto simp: mod_pow2_round_def mod_pow2_any_def is_valid_def round_remainder_def round_quotient_def)
  next
    case 2
    then show ?thesis
      using mod_pow2_any_value [OF a(1) x(2)] e by (simp add: mod_pow2_round_def round_remainder_floor)
  next
    case 3
    then show ?thesis
      using mod_pow2_any_value [OF a(2), of m e] x(2) e ne
      by (simp add: mod_pow2_round_def round_remainder_ceil is_valid_def)
  next
    case 4
    let ?r = "mod_pow2_any m e x" and ?h = "2 ^ (nat e - 1) :: int"
    have n: "nat (e - 1) = nat e - 1" by simp
    have p: "2 ^ nat e = 2 * ?h" using 4 by (cases "nat e") auto
    have r: "?r \<noteq> []" "length ?r \<le> m" "big_val ?r = big_val x mod 2 ^ nat e"
      using mod_pow2_any_value [OF a(1) x(2) 4(1)] e(2) by auto
    have fits: "signed_fits_bits_any e x \<longleftrightarrow> - ?h \<le> big_val x \<and> big_val x < ?h"
      using signed_fits_bits_any_correct [OF x(1), of e] 4 n by simp
    have big: "unsigned_fits_bits_any (e - 1) ?r \<longleftrightarrow> big_val ?r < ?h"
      using unsigned_fits_bits_any_correct [OF mod_pow2_any_normalized [OF x 4(1) e(2)], of "e - 1"] 4 r(3) n
      by (auto simp: zero_less_power)
    have "big_val x = round_remainder 0 (nat e) (big_val x)" if "- ?h \<le> big_val x" "big_val x < ?h"
    proof (cases "0 \<le> big_val x")
      case True
      then show ?thesis using that p 4 by (simp add: round_remainder_nearest mod_pos_pos_trivial)
    next
      case False
      then have "big_val x mod 2 ^ nat e = big_val x + 2 ^ nat e"
        using mod_pos_pos_trivial [of "big_val x + 2 ^ nat e" "2 ^ nat e"] that p by simp
      then show ?thesis using that p 4 by (simp add: round_remainder_nearest)
    qed
    moreover have "add_pow2_any m e (- 1) ?r \<noteq> [] \<and> length (add_pow2_any m e (- 1) ?r) \<le> m \<and>
      big_val (add_pow2_any m e (- 1) ?r) = big_val ?r - 2 ^ nat e"
      using add_pow2_any_value [of ?r e m "- 1"] add_pow2_any_length [of ?r m e "- 1"] r e 4 by simp
    ultimately show ?thesis
      using 4 ne x(2) r fits big by (auto simp: mod_pow2_round_def is_valid_def Let_def round_remainder_nearest)
  qed
qed

end
