(* ===== verification/Bigint_Size.thy ===== *)
theory Bigint_Size
  imports Bigint_Mod
begin

text \<open>
  The size of a number in bits, \<open>bit_size_any\<close> of \<^verbatim>\<open>crypto/common/bigint.hpp\<close>, which reads the leading
  one or two digits and the rest only as far as they can change the answer.
\<close>

section \<open>Definitions\<close>

fun bit_length :: "nat \<Rightarrow> nat" where
  "bit_length n = (if n = 0 then 0 else Suc (bit_length (n div 2)))"

declare bit_length.simps [simp del]

definition count_leading_zeroes64 :: "int \<Rightarrow> int" where
  "count_leading_zeroes64 v = (if v = 0 then 64 else 64 - int (bit_length (nat v)))"

text \<open>The leading word, with the second digit joined to it if it is small, and the digits below, topmost first.\<close>

definition leading_word :: "bool \<Rightarrow> digits \<Rightarrow> int \<times> digits" where
  "leading_word small ds =
     (case ds of
        d # d' # ds' \<Rightarrow> if small then (d * Base + d', ds') else (d, d' # ds')
      | _ \<Rightarrow> (hd ds, []))"

text \<open>Is the number with the leading word \<open>q\<close> and these further digits not negative?\<close>

fun size_loop :: "int \<Rightarrow> digits \<Rightarrow> bool" where
  "size_loop q [] = (q \<ge> 0)"
| "size_loop q (d # ds) =
     (if q \<ge> MaxDenorm div 2 then True
      else if q \<le> - (MaxDenorm div 2) then False
      else size_loop (q * Base + d) ds)"

definition bit_size_any :: "bool \<Rightarrow> digits \<Rightarrow> int" where
  "bit_size_any sgnd x =
     (if \<not> is_valid x then 0x7fffffff
      else if sgn_any x = 0 then 0
      else if sgn_any x \<ge> 0 then
        (case leading_word (last x < MaxDenorm div 2) (rev x) of
           (q, low) \<Rightarrow>
             if low = [] then 64 - count_leading_zeroes64 q + of_bool sgnd
             else
               let s = 64 - count_leading_zeroes64 (q - MaxDenorm div 4);
                   t = s + int (length low) * 52 + of_bool sgnd
               in if size_loop (q - 2 ^ nat s) low then t + 1 else t)
      else if sgnd then
        (case leading_word (last x > - (MaxDenorm div 2)) (rev x) of
           (q, low) \<Rightarrow>
             if low = [] then 64 - count_leading_zeroes64 (- q - 1) + 1
             else
               let s = 64 - count_leading_zeroes64 (- q - MaxDenorm div 4);
                   t = s + int (length low) * 52 + 1
               in if size_loop (q + 2 ^ nat s) low then t else t + 1)
      else 0x7fffffff)"

section \<open>Correctness\<close>

lemma bit_length_less: "bit_length n \<le> k \<longleftrightarrow> n < 2 ^ k"
proof (induction k arbitrary: n)
  case 0
  show ?case by (subst bit_length.simps) simp
next
  case (Suc k)
  show ?case using Suc [of "n div 2"] by (subst bit_length.simps) auto
qed

lemma bit_length_bounds:
  assumes "0 < v"
  shows "2 ^ (bit_length (nat v) - 1) \<le> v" "v < 2 ^ bit_length (nat v)" "0 < bit_length (nat v)"
proof -
  show l: "0 < bit_length (nat v)" using assms by (subst bit_length.simps) simp
  have "\<not> bit_length (nat v) \<le> bit_length (nat v) - 1" using l by simp
  then show "2 ^ (bit_length (nat v) - 1) \<le> v" unfolding bit_length_less by (simp add: nat_less_iff assms)
  have "nat v < 2 ^ bit_length (nat v)" using bit_length_less [of "nat v"] by blast
  then show "v < 2 ^ bit_length (nat v)" using assms by (simp add: nat_less_iff)
qed

lemma clz_bit_length: "64 - count_leading_zeroes64 v = int (bit_length (nat v))" if "0 \<le> v"
  using that by (simp add: count_leading_zeroes64_def bit_length.simps)

lemma size_loop_correct:
  "list_all digit_ok ds \<Longrightarrow> size_loop q ds \<longleftrightarrow> 0 \<le> q * Base ^ length ds + big_val (rev ds)"
proof (induction q ds rule: size_loop.induct)
  case (2 q d ds)
  let ?P = "Base ^ length (d # ds)" and ?L = "big_val (rev (d # ds))"
  have "list_all digit_ok (rev (d # ds))" using 2(2) by (simp add: list_all_iff)
  from low_part_less [OF this] have L: "- ?P < ?L" "?L < ?P" by auto
  have e: "q * ?P + ?L = (q * Base + d) * Base ^ length ds + big_val (rev ds)"
    by (simp add: big_val_append algebra_simps)
  consider "MaxDenorm div 2 \<le> q" | "q \<le> - (MaxDenorm div 2)" | "\<not> MaxDenorm div 2 \<le> q" "\<not> q \<le> - (MaxDenorm div 2)"
    by blast
  then show ?case
  proof cases
    case 1
    then have "1 * ?P \<le> q * ?P" by (intro mult_right_mono) (auto simp: MaxDenorm_def)
    then have "0 \<le> q * ?P + ?L" using L by linarith
    with 1 show ?thesis by simp
  next
    case 2
    then have "q * ?P \<le> (- 1) * ?P" by (intro mult_right_mono) (auto simp: MaxDenorm_def)
    then have "\<not> 0 \<le> q * ?P + ?L" using L by linarith
    with 2 show ?thesis by (simp add: MaxDenorm_def)
  next
    case 3
    then show ?thesis using "2.IH" "2.prems" unfolding e by simp
  qed
qed simp

text \<open>The number is within a factor of two of the power that its leading word gives.\<close>

lemma leading_bounds:
  fixes P L q :: int
  assumes "1024 \<le> q" "\<bar>L\<bar> < P"
  defines "s \<equiv> bit_length (nat (q - 512))"
  shows "2 ^ (s - 1) * P < q * P + L" "q * P + L < 2 ^ (s + 1) * P" "0 < s"
proof -
  have P: "0 < P" using assms(2) by linarith
  have b: "2 ^ (s - 1) \<le> q - 512" "q - 512 < 2 ^ s" and s: "0 < s"
    using bit_length_bounds [of "q - 512"] assms(1) by (auto simp: s_def)
  have "(512 :: int) < 2 ^ s"
  proof -
    have "\<not> bit_length (nat (q - 512)) \<le> 9" unfolding bit_length_less using assms(1) by (simp add: nat_less_iff)
    then have "(2 :: int) ^ 10 \<le> 2 ^ s" by (intro power_increasing) (auto simp: s_def)
    then show ?thesis by simp
  qed
  then have "q + 1 \<le> 2 ^ (s + 1)" using b by simp
  then have "(q + 1) * P \<le> 2 ^ (s + 1) * P" using P by (intro mult_right_mono) auto
  moreover have "2 ^ (s - 1) * P \<le> (q - 1) * P" using b P by (intro mult_right_mono) auto
  ultimately show "2 ^ (s - 1) * P < q * P + L" "q * P + L < 2 ^ (s + 1) * P" "0 < s"
    using assms(2) s unfolding distrib_right left_diff_distrib mult_1 by linarith+
qed

lemma leading_word_value:
  assumes "normalized x"
  shows "\<exists>q low. leading_word small (rev x) = (q, low) \<and> list_all digit_ok low \<and>
    big_val x = q * Base ^ length low + big_val (rev low) \<and> (low \<noteq> [] \<longrightarrow> last x \<noteq> 0) \<and>
    (q = last x \<and> (low \<noteq> [] \<longrightarrow> \<not> small) \<or> small \<and> (\<exists>d. q = last x * Base + d \<and> digit_ok d) \<and> last x \<noteq> 0)"
proof (cases x rule: rev_cases)
  case (snoc y t)
  have ok: "list_all digit_ok x" using assms by (simp add: normalized_def)
  show ?thesis
  proof (cases y rule: rev_cases)
    case Nil
    then show ?thesis using snoc by (simp add: leading_word_def)
  next
    case (snoc z u)
    have "last x \<noteq> 0" using assms \<open>x = y @ [t]\<close> snoc by (simp add: normalized_def)
    moreover have "big_val x = (t * Base + u) * Base ^ length z + big_val z"
      using \<open>x = y @ [t]\<close> snoc by (simp add: big_val_append algebra_simps)
    ultimately show ?thesis
      using \<open>x = y @ [t]\<close> snoc ok by (auto simp: leading_word_def list_all_iff big_val_append algebra_simps)
  qed
qed (use assms in \<open>simp add: normalized_def\<close>)

text \<open>The position of the leading bit of a positive number.\<close>

lemma bit_size_positive:
  assumes x: "normalized x" "0 < big_val x"
  shows "\<exists>k. bit_size_any sgnd x = int (Suc k) + of_bool sgnd \<and> 2 ^ k \<le> big_val x \<and> big_val x < 2 ^ Suc k"
proof -
  have ne: "x \<noteq> []" using x by (auto simp: normalized_def)
  have "sgn_any x = 1" using sgn_any_correct [OF x(1)] x(2) by simp
  then have t: "0 < last x" using ne by (simp add: sgn_any_def is_valid_def split: if_splits)
  obtain q low where w: "leading_word (last x < MaxDenorm div 2) (rev x) = (q, low)" "list_all digit_ok low"
    "big_val x = q * Base ^ length low + big_val (rev low)"
    "q = last x \<and> (low \<noteq> [] \<longrightarrow> \<not> last x < MaxDenorm div 2) \<or> (\<exists>d. q = last x * Base + d \<and> digit_ok d)"
    using leading_word_value [OF x(1), of "last x < MaxDenorm div 2"] by auto
  show ?thesis
  proof (cases "low = []")
    case True
    let ?k = "bit_length (nat (big_val x))"
    have "bit_size_any sgnd x = int ?k + of_bool sgnd"
      using True w(1,3) ne x(2) \<open>sgn_any x = 1\<close> by (simp add: bit_size_any_def is_valid_def clz_bit_length)
    then show ?thesis using bit_length_bounds [OF x(2)] by (intro exI [of _ "?k - 1"]) simp
  next
    case False
    let ?P = "Base ^ length low" and ?s = "bit_length (nat (q - 512))"
    have q: "1024 \<le> q"
    proof -
      have "Base \<le> last x * Base" using t mult_right_mono [of 1 "last x" Base] by simp
      then show ?thesis using w(4) False t by (auto simp: MaxDenorm_def digit_ok_def Base_def Half_def)
    qed
    have "\<bar>big_val (rev low)\<bar> < ?P" using low_part_less [of "rev low"] w(2) by (simp add: list_all_iff)
    note b = leading_bounds [OF q this]
    have P: "2 ^ (k + 52 * length low) = 2 ^ k * ?P" for k by (simp add: power_add power_mult Base_def)
    have "size_loop (q - 2 ^ ?s) low \<longleftrightarrow> 2 ^ ?s * ?P \<le> big_val x"
      unfolding size_loop_correct [OF w(2)] w(3) left_diff_distrib by linarith
    then have "bit_size_any sgnd x =
      int (if 2 ^ ?s * ?P \<le> big_val x then Suc (?s + 52 * length low) else ?s + 52 * length low) + of_bool sgnd"
      using False w(1,2) ne x(2) q \<open>sgn_any x = 1\<close>
      by (simp add: bit_size_any_def is_valid_def clz_bit_length MaxDenorm_def Let_def)
    moreover obtain j where j: "?s = Suc j" using b(3) gr0_conv_Suc by blast
    ultimately show ?thesis
      using b(1,2) P [of "Suc j"] P [of j] P [of "Suc (Suc j)"] unfolding w(3) [symmetric] j
      by (cases "2 ^ Suc j * ?P \<le> big_val x")
        (force intro!: exI [of _ "Suc j + 52 * length low"], force intro!: exI [of _ "j + 52 * length low"])
  qed
qed

text \<open>A negative number: the smallest power of two that its absolute value does not exceed.\<close>

lemma bit_size_negative:
  assumes x: "normalized x" "big_val x < 0"
  shows "\<exists>k. bit_size_any True x = int k + 1 \<and> - (2 ^ k) \<le> big_val x \<and> (k = 0 \<or> big_val x < - (2 ^ (k - 1)))"
proof -
  have ne: "x \<noteq> []" using x by (auto simp: normalized_def)
  have sg: "sgn_any x = - 1" using sgn_any_correct [OF x(1)] x(2) by simp
  then have t: "last x < 0" using ne by (simp add: sgn_any_def is_valid_def split: if_splits)
  obtain q low where w: "leading_word (last x > - (MaxDenorm div 2)) (rev x) = (q, low)" "list_all digit_ok low"
    "big_val x = q * Base ^ length low + big_val (rev low)"
    "q = last x \<and> (low \<noteq> [] \<longrightarrow> \<not> last x > - (MaxDenorm div 2)) \<or> (\<exists>d. q = last x * Base + d \<and> digit_ok d)"
    using leading_word_value [OF x(1), of "last x > - (MaxDenorm div 2)"] by auto
  show ?thesis
  proof (cases "low = []")
    case True
    let ?k = "bit_length (nat (- big_val x - 1))"
    have "bit_size_any True x = int ?k + 1"
      using True w(1,3) ne x(2) sg by (simp add: bit_size_any_def is_valid_def clz_bit_length)
    moreover have "- (2 ^ ?k) \<le> big_val x \<and> (?k = 0 \<or> big_val x < - (2 ^ (?k - 1)))"
    proof (cases "big_val x = - 1")
      case False
      then show ?thesis using bit_length_bounds [of "- big_val x - 1"] x(2) by auto
    qed (simp add: bit_length.simps)
    ultimately show ?thesis by blast
  next
    case False
    let ?P = "Base ^ length low" and ?s = "bit_length (nat (- q - 512))"
    have q: "1024 \<le> - q"
    proof -
      have "last x * Base \<le> - Base" using t mult_right_mono [of "last x" "- 1" Base] by simp
      then show ?thesis using w(4) False t by (auto simp: MaxDenorm_def digit_ok_def Base_def Half_def)
    qed
    have "\<bar>- big_val (rev low)\<bar> < ?P" using low_part_less [of "rev low"] w(2) by (simp add: list_all_iff)
    note b = leading_bounds [OF q this]
    have v: "- q * ?P + - big_val (rev low) = - big_val x" using w(3) by simp
    have P: "2 ^ (k + 52 * length low) = 2 ^ k * ?P" for k by (simp add: power_add power_mult Base_def)
    have "size_loop (q + 2 ^ ?s) low \<longleftrightarrow> - (2 ^ ?s * ?P) \<le> big_val x"
      unfolding size_loop_correct [OF w(2)] w(3) distrib_right by linarith
    then have "bit_size_any True x =
      int (if - (2 ^ ?s * ?P) \<le> big_val x then ?s + 52 * length low else Suc (?s + 52 * length low)) + 1"
      using False w(1) ne x(2) q sg by (simp add: bit_size_any_def is_valid_def clz_bit_length MaxDenorm_def Let_def)
    moreover obtain j where j: "?s = Suc j" using b(3) gr0_conv_Suc by blast
    ultimately show ?thesis
      using b(1,2) P [of "Suc j"] P [of j] P [of "Suc (Suc j)"] unfolding v j
      by (cases "- (2 ^ Suc j * ?P) \<le> big_val x")
        (force intro!: exI [of _ "Suc j + 52 * length low"], force intro!: exI [of _ "Suc (Suc j) + 52 * length low"])
  qed
qed

text \<open>The bit size is the smallest width that the size tests accept.\<close>

lemma pow2_bracket:
  fixes v :: int
  shows "2 ^ k \<le> v \<Longrightarrow> v < 2 ^ Suc k \<Longrightarrow> v < 2 ^ l \<longleftrightarrow> k < l"
    and "- (2 ^ k) \<le> v \<Longrightarrow> k = 0 \<or> v < - (2 ^ (k - 1)) \<Longrightarrow> v < 0 \<Longrightarrow> - (2 ^ l) \<le> v \<longleftrightarrow> k \<le> l"
proof -
  have up: "a \<le> b \<Longrightarrow> (2 :: int) ^ a \<le> 2 ^ b" for a b :: nat by (rule power_increasing) auto
  show "v < 2 ^ l \<longleftrightarrow> k < l" if "2 ^ k \<le> v" "v < 2 ^ Suc k"
    using that up [of "Suc k" l] up [of l k] by linarith
  show "- (2 ^ l) \<le> v \<longleftrightarrow> k \<le> l" if "- (2 ^ k) \<le> v" "k = 0 \<or> v < - (2 ^ (k - 1))" "v < 0"
    using that up [of k l] up [of l "k - 1"] by linarith
qed

lemma bit_size_least:
  assumes "normalized x" "0 \<le> n" "sgnd \<or> 0 \<le> big_val x"
  shows "bit_size_any sgnd x \<le> n \<longleftrightarrow> (if sgnd then signed_fits_bits_any n x else unsigned_fits_bits_any n x)"
proof -
  consider "big_val x = 0" | "0 < big_val x" | "big_val x < 0" by linarith
  then show ?thesis
  proof cases
    case 1
    then have "sgn_any x = 0" "is_valid x"
      using sgn_any_correct [OF assms(1)] assms(1) by (auto simp: normalized_def is_valid_def)
    then show ?thesis
      using 1 assms signed_fits_bits_any_correct [OF assms(1), of n] unsigned_fits_bits_any_correct [OF assms(1), of n]
      by (simp add: bit_size_any_def)
  next
    case 2
    then obtain k where k: "bit_size_any sgnd x = int (Suc k) + of_bool sgnd" "2 ^ k \<le> big_val x" "big_val x < 2 ^ Suc k"
      using bit_size_positive [OF assms(1)] by blast
    have "- (2 ^ l) \<le> big_val x" for l :: nat using 2 zero_less_power [of "2 :: int" l] by linarith
    with pow2_bracket(1) [OF k(2,3)] show ?thesis
      using 2 assms(2) k(1) signed_fits_bits_any_correct [OF assms(1), of n]
        unsigned_fits_bits_any_correct [OF assms(1), of n]
      by (auto simp: zless_nat_conj)
  next
    case 3
    then obtain k where k: "bit_size_any True x = int k + 1" "- (2 ^ k) \<le> big_val x" "k = 0 \<or> big_val x < - (2 ^ (k - 1))"
      using bit_size_negative [OF assms(1)] by blast
    have "big_val x < 2 ^ l" for l :: nat using 3 zero_less_power [of "2 :: int" l] by linarith
    with pow2_bracket(2) [OF k(2,3) 3] show ?thesis
      using 3 assms(2,3) k(1) signed_fits_bits_any_correct [OF assms(1), of n] by auto
  qed
qed

end
