(* ===== verification/VM_Arith.thy ===== *)
theory VM_Arith
  imports VM_Dump Bigint_Size
begin

text \<open>
  The arithmetic instructions of the virtual machine (\<^verbatim>\<open>crypto/vm/arithops.cpp\<close>) on top of the
  big integers: constants, sums, products, shifts, remainders modulo powers of two, bitwise operations,
  size tests and comparisons.  The instructions that divide by an arbitrary number
  (\<open>exec_divmod\<close>, \<open>exec_muldivmod\<close> and \<open>exec_shldivmod\<close>) are not among them.

  An integer on the stack is an object with normalised digits or the invalid number; the stack model
  holds its value.  An instruction computes on the digits of its operands and the stack gets the
  value of the digits of the result.
\<close>

unbundle bit_operations_syntax

section \<open>Integers of the stack and their digits\<close>

definition int_digits :: "int option \<Rightarrow> digits" where
  "int_digits a = (case a of None \<Rightarrow> [] | Some v \<Rightarrow> normalize_bool_any words_256 [v])"

definition via1 :: "(digits \<Rightarrow> digits) \<Rightarrow> int option \<Rightarrow> int option" where
  "via1 f a = big_abs (f (int_digits a))"

definition via2 :: "(digits \<Rightarrow> digits \<Rightarrow> digits) \<Rightarrow> int option \<Rightarrow> int option \<Rightarrow> int option" where
  "via2 f a b = big_abs (f (int_digits a) (int_digits b))"

text \<open>The instructions with one and with two integer operands and an integer result.\<close>

definition int_unop :: "(int option \<Rightarrow> int option) \<Rightarrow> bool \<Rightarrow> 'r vm_state \<Rightarrow> 'r vm_result" where
  "int_unop f quiet = on_stack (\<lambda>s.
     rbind (check_underflow [1] s) (\<lambda>_.
     rbind (pop_int s) (\<lambda>(x, t).
     push_int_quiet (f x) quiet t)))"

definition int_binop :: "(int option \<Rightarrow> int option \<Rightarrow> int option) \<Rightarrow> bool \<Rightarrow> 'r vm_state \<Rightarrow> 'r vm_result" where
  "int_binop f quiet = on_stack (\<lambda>s.
     rbind (check_underflow [2] s) (\<lambda>_.
     rbind (pop_int s) (\<lambda>(y, t).
     rbind (pop_int t) (\<lambda>(x, u).
     push_int_quiet (f x y) quiet u))))"

section \<open>Constants\<close>

definition tinyint4 :: "nat \<Rightarrow> int" where
  "tinyint4 args = int ((args + 5) mod 16) - 5"

text \<open>\<open>(signed char)args\<close> and \<open>(short)args\<close>\<close>

definition signed_char :: "nat \<Rightarrow> int" where
  "signed_char args = (if args mod 256 < 128 then int (args mod 256) else int (args mod 256) - 256)"

definition signed_short :: "nat \<Rightarrow> int" where
  "signed_short args = (if args mod 65536 < 32768 then int (args mod 65536) else int (args mod 65536) - 65536)"

definition exec_push_tinyint4 :: "nat \<Rightarrow> 'r vm_state \<Rightarrow> 'r vm_result" where
  "exec_push_tinyint4 args = on_stack (\<lambda>s. Inr (push_smallint (tinyint4 args) s))"

definition dump_push_tinyint4 :: "nat \<Rightarrow> string" where
  "dump_push_tinyint4 args = ''PUSHINT '' @ show_int (tinyint4 args)"

definition exec_push_tinyint8 :: "nat \<Rightarrow> 'r vm_state \<Rightarrow> 'r vm_result" where
  "exec_push_tinyint8 args = on_stack (\<lambda>s. Inr (push_smallint (signed_char args) s))"

definition dump_op_tinyint8 :: "string \<Rightarrow> nat \<Rightarrow> string" where
  "dump_op_tinyint8 op_prefix args = op_prefix @ show_int (signed_char args)"

definition exec_push_smallint :: "nat \<Rightarrow> 'r vm_state \<Rightarrow> 'r vm_result" where
  "exec_push_smallint args = on_stack (\<lambda>s. Inr (push_smallint (signed_short args) s))"

definition dump_push_smallint :: "nat \<Rightarrow> string" where
  "dump_push_smallint args = ''PUSHINT '' @ show_int (signed_short args)"

text \<open>\<open>fetch_int256\<close>: the bits of the slice as a two's-complement number, and the rest of the slice.\<close>

definition bits_to_int :: "bits \<Rightarrow> int" where
  "bits_to_int bs =
     (if bs \<noteq> [] \<and> hd bs then int (bits_to_nat bs) - 2 ^ length bs else int (bits_to_nat bs))"

definition fetch_int256 :: "nat \<Rightarrow> bits \<Rightarrow> (int option \<times> bits) option" where
  "fetch_int256 n cs =
     (if n \<le> length cs then Some (big_abs (int_digits (Some (bits_to_int (take n cs)))), drop n cs) else None)"

definition push_int_len :: "nat \<Rightarrow> nat" where
  "push_int_len args = 3 + (args mod 32 + 2) * 8"

definition exec_push_int :: "nat \<Rightarrow> nat \<Rightarrow> bits \<Rightarrow> 'r vm_state \<Rightarrow> 'r code_result" where
  "exec_push_int args pfx_bits cs st =
     (if \<not> pfx_bits + push_int_len args \<le> length cs then Inl (Vm_error Inv_opcode)
      else case fetch_int256 (push_int_len args) (drop pfx_bits cs) of
        None \<Rightarrow> Inl Out_of_bounds
      | Some (x, cs') \<Rightarrow> rbind (on_stack (push_int x) st) (\<lambda>st'. Inr (st', cs')))"

definition show_int_option :: "int option \<Rightarrow> string" where
  "show_int_option x = (case x of None \<Rightarrow> ''NaN'' | Some v \<Rightarrow> show_int v)"

definition dump_push_int :: "bits \<Rightarrow> nat \<Rightarrow> nat \<Rightarrow> string \<times> bits" where
  "dump_push_int cs args pfx_bits =
     (if \<not> pfx_bits + push_int_len args \<le> length cs then ('''', cs)
      else case fetch_int256 (push_int_len args) (drop pfx_bits cs) of
        None \<Rightarrow> ('''', cs)
      | Some (x, cs') \<Rightarrow> (''PUSHINT '' @ show_int_option x, cs'))"

definition compute_len_push_int :: "bits \<Rightarrow> nat \<Rightarrow> nat \<Rightarrow> nat" where
  "compute_len_push_int cs args pfx_bits =
     (if \<not> pfx_bits + push_int_len args \<le> length cs then 0 else pfx_bits + push_int_len args)"

definition exec_push_pow2 :: "nat \<Rightarrow> 'r vm_state \<Rightarrow> 'r vm_result" where
  "exec_push_pow2 args = on_stack (\<lambda>s.
     Inr (push (Int_e (big_abs (set_pow2_any words_256 (int (args mod 256) + 1)))) s))"

definition exec_push_nan :: "'r vm_state \<Rightarrow> 'r vm_result" where
  "exec_push_nan = on_stack (\<lambda>s. Inr (push (Int_e None) s))"

definition exec_push_pow2dec :: "nat \<Rightarrow> 'r vm_state \<Rightarrow> 'r vm_result" where
  "exec_push_pow2dec args = on_stack (\<lambda>s.
     Inr (push (Int_e (big_abs (normalize_bool_any words_256
       (add_tiny (- 1) (set_pow2_any words_256 (int (args mod 256) + 1)))))) s))"

definition exec_push_negpow2 :: "nat \<Rightarrow> 'r vm_state \<Rightarrow> 'r vm_result" where
  "exec_push_negpow2 args = on_stack (\<lambda>s.
     Inr (push (Int_e (big_abs (normalize_bool_any words_256
       (negate_any (set_pow2_any words_256 (int (args mod 256) + 1)))))) s))"

section \<open>Sums and products\<close>

definition exec_add :: "bool \<Rightarrow> 'r vm_state \<Rightarrow> 'r vm_result" where
  "exec_add = int_binop (via2 refint_add)"

definition exec_sub :: "bool \<Rightarrow> 'r vm_state \<Rightarrow> 'r vm_result" where
  "exec_sub = int_binop (via2 refint_sub)"

definition exec_subr :: "bool \<Rightarrow> 'r vm_state \<Rightarrow> 'r vm_result" where
  "exec_subr = int_binop (\<lambda>x y. via2 refint_sub y x)"

definition exec_negate :: "bool \<Rightarrow> 'r vm_state \<Rightarrow> 'r vm_result" where
  "exec_negate = int_unop (via1 refint_neg)"

definition exec_inc :: "bool \<Rightarrow> 'r vm_state \<Rightarrow> 'r vm_result" where
  "exec_inc = int_unop (via1 (\<lambda>x. refint_add_long x 1))"

definition exec_dec :: "bool \<Rightarrow> 'r vm_state \<Rightarrow> 'r vm_result" where
  "exec_dec = int_unop (via1 (\<lambda>x. refint_sub_long x 1))"

definition exec_add_tinyint8 :: "bool \<Rightarrow> nat \<Rightarrow> 'r vm_state \<Rightarrow> 'r vm_result" where
  "exec_add_tinyint8 quiet args = int_unop (via1 (\<lambda>x. refint_add_long x (signed_char args))) quiet"

definition exec_mul_tinyint8 :: "bool \<Rightarrow> nat \<Rightarrow> 'r vm_state \<Rightarrow> 'r vm_result" where
  "exec_mul_tinyint8 quiet args = int_unop (via1 (\<lambda>x. refint_mul_long x (signed_char args))) quiet"

definition exec_mul :: "bool \<Rightarrow> 'r vm_state \<Rightarrow> 'r vm_result" where
  "exec_mul = int_binop (via2 refint_mul)"

section \<open>Shifts\<close>

text \<open>\<open>operator>>\<close>: the shift without a rounding mode rounds down.\<close>

definition refint_shr :: "digits \<Rightarrow> int \<Rightarrow> digits" where
  "refint_shr x y = normalize_bool_any words_256 (rshift_any y (- 1) x)"

definition exec_lshift_tinyint8 :: "bool \<Rightarrow> nat \<Rightarrow> 'r vm_state \<Rightarrow> 'r vm_result" where
  "exec_lshift_tinyint8 quiet args st = int_unop (\<lambda>a.
     if global_version st \<ge> 14 \<and> a = None then None
     else via1 (\<lambda>x. refint_lshift x (int (args mod 256) + 1)) a) quiet st"

definition exec_rshift_tinyint8 :: "bool \<Rightarrow> nat \<Rightarrow> 'r vm_state \<Rightarrow> 'r vm_result" where
  "exec_rshift_tinyint8 quiet args st = int_unop (\<lambda>a.
     if global_version st \<ge> 14 \<and> a = None then None
     else via1 (\<lambda>x. refint_shr x (int (args mod 256) + 1)) a) quiet st"

text \<open>The two shifts by a number from the stack have the same body but for the shift itself.\<close>

definition shift_by_stack :: "(digits \<Rightarrow> int \<Rightarrow> digits) \<Rightarrow> bool \<Rightarrow> 'r vm_state \<Rightarrow> 'r vm_result" where
  "shift_by_stack shift_op quiet st = on_stack (\<lambda>s.
     rbind (check_underflow [2] s) (\<lambda>_.
     rbind (pop_long s) (\<lambda>(shift, t).
     if (global_version st < 13 \<or> \<not> quiet) \<and> (shift < 0 \<or> shift > 1023) then Inl (Vm_error Range_chk)
     else
       rbind (pop_int t) (\<lambda>(a, u).
       push_int_quiet
         (if global_version st \<ge> 13 \<and> (shift < 0 \<or> shift > 1023 \<or> a = None) then None
          else via1 (\<lambda>x. shift_op x shift) a) quiet u)))) st"

definition exec_lshift :: "bool \<Rightarrow> 'r vm_state \<Rightarrow> 'r vm_result" where
  "exec_lshift = shift_by_stack refint_lshift"

definition exec_rshift :: "bool \<Rightarrow> 'r vm_state \<Rightarrow> 'r vm_result" where
  "exec_rshift = shift_by_stack refint_shr"

definition exec_pow2 :: "bool \<Rightarrow> 'r vm_state \<Rightarrow> 'r vm_result" where
  "exec_pow2 quiet st = on_stack (\<lambda>s.
     rbind (check_underflow [1] s) (\<lambda>_.
     rbind (pop_long s) (\<lambda>(x, t).
     if (global_version st < 13 \<or> \<not> quiet) \<and> (x < 0 \<or> x > 1023) then Inl (Vm_error Range_chk)
     else push_int_quiet
       (if global_version st \<ge> 13 \<and> (x < 0 \<or> x > 1023) then None
        else big_abs (set_pow2_any words_256 x)) quiet t))) st"

section \<open>Quotients and remainders by powers of two\<close>

text \<open>
  The words of \<open>BigIntG<514>\<close>, the integers of double width, and the conversion back to the integers
  of the machine, which is invalid for a number with too many digits.
\<close>

definition words_512 :: nat where
  "words_512 = 10"

definition make_refint :: "digits \<Rightarrow> int option" where
  "make_refint x = (case set_any words_256 x of (y, ok) \<Rightarrow> if ok then big_abs y else None)"

text \<open>The operand of the instructions of this group: rounding mode, result mode and whether there is an addend.\<close>

definition div_round_mode :: "nat \<Rightarrow> int" where
  "div_round_mode args = int (args mod 4) - 1"

definition div_add :: "int \<Rightarrow> nat \<Rightarrow> bool" where
  "div_add version args = (args div 4 mod 4 = 0 \<and> version \<ge> 4)"

definition div_results :: "int \<Rightarrow> nat \<Rightarrow> nat" where
  "div_results version args = (if div_add version args then 3 else args div 4 mod 4)"

text \<open>One invalid result, or two where the instruction has two results.\<close>

definition push_nans :: "nat \<Rightarrow> bool \<Rightarrow> 'r stack \<Rightarrow> vm_fault + 'r stack" where
  "push_nans d quiet s =
     rbind (push_int_quiet None quiet s) (\<lambda>t. if d = 3 then push_int_quiet None quiet t else Inr t)"

definition pop_addend :: "bool \<Rightarrow> 'r stack \<Rightarrow> vm_fault + int option option \<times> 'r stack" where
  "pop_addend add s = (if add then rbind (pop_int s) (\<lambda>(w, t). Inr (Some w, t)) else Inr (None, s))"

text \<open>The results that \<open>d\<close> asks for: the quotient is bit 0, the remainder bit 1.\<close>

definition push_results :: "nat \<Rightarrow> int option \<Rightarrow> int option \<Rightarrow> bool \<Rightarrow> 'r stack \<Rightarrow> vm_fault + 'r stack" where
  "push_results d q r quiet s =
     rbind (if d = 1 \<or> d = 3 then push_int_quiet q quiet s else Inr s) (\<lambda>t.
     if d = 2 \<or> d = 3 then push_int_quiet r quiet t else Inr t)"

text \<open>The shift of \<open>exec_shrmod\<close>: from the instruction or from the stack, and whether it is in range.\<close>

definition shrmod_shift :: "bool \<Rightarrow> int \<Rightarrow> bool \<Rightarrow> nat \<Rightarrow> bool \<Rightarrow> 'r stack \<Rightarrow> vm_fault + (int \<times> bool) \<times> 'r stack" where
  "shrmod_shift y_in_args version quiet args add s =
     (if \<not> y_in_args then
        rbind (check_underflow [if add then 3 else 2] s) (\<lambda>_.
        rbind (pop_long s) (\<lambda>(y_stack, t).
        let valid_shift = (y_stack \<ge> 0 \<and> y_stack \<le> 256)
        in if (version < 14 \<or> \<not> quiet) \<and> \<not> valid_shift then Inl (Vm_error Range_chk)
           else Inr ((if valid_shift then y_stack else - 1, valid_shift), t)))
      else
        rbind (check_underflow [if add then 2 else 1] s) (\<lambda>_. Inr ((int (args mod 256) + 1, True), s)))"

definition exec_shrmod :: "nat \<Rightarrow> nat \<Rightarrow> 'r vm_state \<Rightarrow> 'r vm_result" where
  "exec_shrmod mode args0 st =
     (let version = global_version st; quiet = odd mode; y_in_args = odd (mode div 2);
          args = (if y_in_args then args0 div 256 else args0);
          round_mode = div_round_mode args; add = div_add version args; d = div_results version args
      in if d = 0 \<or> round_mode = 2 then Inl (Vm_error Inv_opcode)
         else on_stack (\<lambda>s.
           rbind (shrmod_shift y_in_args version quiet args0 add s) (\<lambda>((y, valid_shift), s1).
           rbind (pop_addend add s1) (\<lambda>(w, s2).
           rbind (pop_int s2) (\<lambda>(x, s3).
           if version \<ge> 14 \<and> (x = None \<or> w = Some None \<or> \<not> valid_shift) then push_nans d quiet s3
           else if \<not> valid_shift then Inl Assertion_failed
           else
             let rm = (if y = 0 then - 1 else round_mode)
             in case w of
                  Some w' \<Rightarrow>
                    let tmp = add_any words_512 (int_digits x) (int_digits w')
                    in push_results 3
                         (make_refint (normalize_bool_any words_512 (rshift_any y rm tmp)))
                         (make_refint (normalize_bool_any words_512
                           (mod_pow2_round words_512 y rm (normalize_bool_any words_512 tmp)))) quiet s3
                | None \<Rightarrow>
                    push_results d
                      (big_abs (refint_rshift (int_digits x) y rm))
                      (big_abs (normalize_bool_any words_256 (mod_pow2_round words_256 y rm (int_digits x)))) quiet s3)))) st)"

text \<open>The shift of \<open>exec_mulshrmod\<close>.\<close>

definition mulshrmod_shift :: "bool \<Rightarrow> int \<Rightarrow> bool \<Rightarrow> nat \<Rightarrow> bool \<Rightarrow> 'r stack \<Rightarrow> vm_fault + int \<times> 'r stack" where
  "mulshrmod_shift z_in_args version quiet args add s =
     (if \<not> z_in_args then
        rbind (check_underflow [if add then 4 else 3] s) (\<lambda>_.
        rbind (pop_long s) (\<lambda>(z, t).
        if (version < 13 \<or> \<not> quiet) \<and> (z < 0 \<or> z > 256) then Inl (Vm_error Range_chk) else Inr (z, t)))
      else
        rbind (check_underflow [if add then 3 else 2] s) (\<lambda>_. Inr (int (args mod 256) + 1, s)))"

definition exec_mulshrmod :: "nat \<Rightarrow> nat \<Rightarrow> 'r vm_state \<Rightarrow> 'r vm_result" where
  "exec_mulshrmod mode args0 st =
     (let version = global_version st; quiet = odd mode; z_in_args = odd (mode div 2);
          args = (if z_in_args then args0 div 256 else args0);
          round_mode = div_round_mode args; add = div_add version args; d = div_results version args
      in if d = 0 \<or> round_mode = 2 then Inl (Vm_error Inv_opcode)
         else on_stack (\<lambda>s.
           rbind (mulshrmod_shift z_in_args version quiet args0 add s) (\<lambda>(z, s1).
           rbind (pop_addend add s1) (\<lambda>(w, s2).
           rbind (pop_int s2) (\<lambda>(y, s3).
           rbind (pop_int s3) (\<lambda>(x, s4).
           if version \<ge> 13 \<and> (x = None \<or> y = None \<or> w = Some None \<or> z < 0 \<or> z > 256) then push_nans d quiet s4
           else
             let rm = (if z = 0 then - 1 else round_mode);
                 tmp0 = (case w of None \<Rightarrow> [0] | Some w' \<Rightarrow> int_digits w');
                 tmp = normalize_bool_any words_512 (add_mul_any words_512 tmp0 (int_digits x) (int_digits y))
             in push_results d
                  (make_refint (normalize_bool_any words_512 (rshift_any z rm tmp)))
                  (make_refint (normalize_bool_any words_512
                    (mod_pow2_round words_512 z rm (normalize_bool_any words_512 tmp)))) quiet s4))))) st)"

definition round_suffix :: "nat \<Rightarrow> string" where
  "round_suffix round_mode = (if round_mode = 0 then '''' else [''FRC'' ! round_mode])"

definition dump_shrmod :: "nat \<Rightarrow> nat \<Rightarrow> string" where
  "dump_shrmod mode args0 =
     (let y_in_args = odd (mode div 2); args = (if y_in_args then args0 div 256 else args0);
          round_mode = args mod 4; d = args div 4 mod 4;
          ending = (if d = 3 \<or> d = 0 then ''MOD'' else '''')
      in if round_mode = 3 then ''''
         else (if odd mode then ''Q'' else '''') @
              (if d = 1 then ''RSHIFT'' else if d = 2 then ''MODPOW2'' else if d = 3 then ''RSHIFT'' else ''ADDRSHIFT'') @
              (if \<not> y_in_args then ending else '''') @ round_suffix round_mode @
              (if y_in_args then ''#'' @ ending @ '' '' @ show_nat (args0 mod 256 + 1) else ''''))"

definition dump_mulshrmod :: "nat \<Rightarrow> nat \<Rightarrow> string" where
  "dump_mulshrmod mode args0 =
     (let y_in_args = odd (mode div 2); args = (if y_in_args then args0 div 256 else args0);
          round_mode = args mod 4; d = args div 4 mod 4;
          ending = (if d = 3 \<or> d = 0 then ''MOD'' else '''')
      in if round_mode = 3 then ''''
         else (if odd mode then ''Q'' else '''') @
              (if d = 1 then ''MULRSHIFT'' else if d = 2 then ''MULMODPOW2'' else if d = 3 then ''MULRSHIFT''
               else ''MULADDRSHIFT'') @
              round_suffix round_mode @ (if y_in_args then ''#'' else '''') @ ending @
              (if y_in_args then '' '' @ show_nat (args0 mod 256 + 1) else ''''))"

section \<open>Bitwise operations and sizes\<close>

definition exec_and :: "bool \<Rightarrow> 'r vm_state \<Rightarrow> 'r vm_result" where
  "exec_and quiet st = int_binop (\<lambda>x y.
     if global_version st \<ge> 13 \<and> (x = None \<or> y = None) then None else via2 refint_and x y) quiet st"

definition exec_or :: "bool \<Rightarrow> 'r vm_state \<Rightarrow> 'r vm_result" where
  "exec_or quiet st = int_binop (\<lambda>x y.
     if global_version st \<ge> 13 \<and> (x = None \<or> y = None) then None else via2 refint_or x y) quiet st"

definition exec_xor :: "bool \<Rightarrow> 'r vm_state \<Rightarrow> 'r vm_result" where
  "exec_xor = int_binop (via2 refint_xor)"

definition exec_not :: "bool \<Rightarrow> 'r vm_state \<Rightarrow> 'r vm_result" where
  "exec_not = int_unop (via1 refint_not)"

definition exec_fits_tinyint8 :: "bool \<Rightarrow> nat \<Rightarrow> 'r vm_state \<Rightarrow> 'r vm_result" where
  "exec_fits_tinyint8 quiet args = int_unop (\<lambda>x.
     if \<not> signed_fits_bits_any (int (args mod 256) + 1) (int_digits x) then None else x) quiet"

definition exec_ufits_tinyint8 :: "bool \<Rightarrow> nat \<Rightarrow> 'r vm_state \<Rightarrow> 'r vm_result" where
  "exec_ufits_tinyint8 quiet args = int_unop (\<lambda>x.
     if \<not> unsigned_fits_bits_any (int (args mod 256) + 1) (int_digits x) then None else x) quiet"

definition exec_fits :: "bool \<Rightarrow> 'r vm_state \<Rightarrow> 'r vm_result" where
  "exec_fits quiet = on_stack (\<lambda>s.
     rbind (check_underflow [2] s) (\<lambda>_.
     rbind (pop_smallint_range 1023 s) (\<lambda>(y, t).
     rbind (pop_int t) (\<lambda>(x, u).
     push_int_quiet (if \<not> signed_fits_bits_any (int y) (int_digits x) then None else x) quiet u))))"

definition exec_ufits :: "bool \<Rightarrow> 'r vm_state \<Rightarrow> 'r vm_result" where
  "exec_ufits quiet = on_stack (\<lambda>s.
     rbind (check_underflow [2] s) (\<lambda>_.
     rbind (pop_smallint_range 1023 s) (\<lambda>(y, t).
     rbind (pop_int t) (\<lambda>(x, u).
     push_int_quiet (if \<not> unsigned_fits_bits_any (int y) (int_digits x) then None else x) quiet u))))"

definition exec_bitsize :: "bool \<Rightarrow> bool \<Rightarrow> 'r vm_state \<Rightarrow> 'r vm_result" where
  "exec_bitsize sgnd quiet = on_stack (\<lambda>s.
     rbind (check_underflow [1] s) (\<lambda>_.
     rbind (pop_int s) (\<lambda>(x, t).
     let y = bit_size_any sgnd (int_digits x)
     in if y < 0x7fffffff then Inr (push_smallint y t)
        else if \<not> quiet then Inl (Vm_error Range_chk)
        else push_int_quiet None quiet t)))"

section \<open>Minimum, maximum, comparisons\<close>

definition exec_minmax :: "nat \<Rightarrow> 'r vm_state \<Rightarrow> 'r vm_result" where
  "exec_minmax mode = on_stack (\<lambda>s.
     rbind (check_underflow [2] s) (\<lambda>_.
     rbind (pop_int s) (\<lambda>(x, t).
     rbind (pop_int t) (\<lambda>(y, u).
     let quiet = odd mode;
         (x', y') = (if x = None then (x, x) else if y = None then (y, y)
                     else if cmp_any (int_digits x) (int_digits y) > 0 then (y, x) else (x, y))
     in rbind (if odd (mode div 2) then push_int_quiet x' quiet u else Inr u) (\<lambda>v.
        if odd (mode div 4) then push_int_quiet y' quiet v else Inr v)))))"

definition exec_abs :: "bool \<Rightarrow> 'r vm_state \<Rightarrow> 'r vm_result" where
  "exec_abs = int_unop (\<lambda>x. if x \<noteq> None \<and> sgn_any (int_digits x) < 0 then via1 refint_neg x else x)"

text \<open>\<open>((mode >> (4 + z * 4)) & 15) - 8\<close>\<close>

definition cmp_result :: "nat \<Rightarrow> int \<Rightarrow> int" where
  "cmp_result mode z = int (mode div 2 ^ nat (4 + z * 4) mod 16) - 8"

definition exec_sgn :: "nat \<Rightarrow> bool \<Rightarrow> 'r vm_state \<Rightarrow> 'r vm_result" where
  "exec_sgn mode quiet = on_stack (\<lambda>s.
     rbind (check_underflow [1] s) (\<lambda>_.
     rbind (pop_int s) (\<lambda>(x, t).
     if x = None then push_int_quiet x quiet t
     else Inr (push_smallint (cmp_result mode (sgn_any (int_digits x))) t))))"

definition exec_cmp :: "nat \<Rightarrow> bool \<Rightarrow> 'r vm_state \<Rightarrow> 'r vm_result" where
  "exec_cmp mode quiet = on_stack (\<lambda>s.
     rbind (check_underflow [2] s) (\<lambda>_.
     rbind (pop_int s) (\<lambda>(y, t).
     rbind (pop_int t) (\<lambda>(x, u).
     if x = None \<or> y = None then push_int_quiet None quiet u
     else Inr (push_smallint (cmp_result mode (cmp_any (int_digits x) (int_digits y))) u)))))"

definition exec_cmp_int :: "nat \<Rightarrow> bool \<Rightarrow> nat \<Rightarrow> 'r vm_state \<Rightarrow> 'r vm_result" where
  "exec_cmp_int mode quiet args = on_stack (\<lambda>s.
     rbind (check_underflow [1] s) (\<lambda>_.
     rbind (pop_int s) (\<lambda>(x, t).
     if x = None then push_int_quiet x quiet t
     else Inr (push_smallint (cmp_result mode (cmp_any_word (int_digits x) (signed_char args))) t))))"

definition exec_is_nan :: "'r vm_state \<Rightarrow> 'r vm_result" where
  "exec_is_nan = on_stack (\<lambda>s.
     rbind (check_underflow [1] s) (\<lambda>_.
     rbind (pop_int s) (\<lambda>(x, t).
     Inr (push_smallint (if x \<noteq> None then 0 else - 1) t))))"

definition exec_chk_nan :: "'r vm_state \<Rightarrow> 'r vm_result" where
  "exec_chk_nan = on_stack (\<lambda>s.
     rbind (check_underflow [1] s) (\<lambda>_.
     rbind (pop_int s) (\<lambda>(x, t).
     push_int x t)))"

end
