(* ===== verification/VM_Arith_Props.thy ===== *)
theory VM_Arith_Props
  imports VM_Arith
begin

text \<open>
  What the arithmetic instructions compute: the operations on digits are exchanged for the operations on
  integers that they implement, and the values that do not fit 257 bits are the same to the stack as the
  invalid number.
\<close>

section \<open>Values and digits\<close>

text \<open>What a number becomes on the stack: invalid, if it does not fit.\<close>

definition clamp :: "int option \<Rightarrow> int option" where
  "clamp a = (case a of None \<Rightarrow> None | Some v \<Rightarrow> if fits_257 v then Some v else None)"

definition int_ok :: "int option \<Rightarrow> bool" where
  "int_ok a = (case a of None \<Rightarrow> True | Some v \<Rightarrow> fits_257 v)"

lemma fits_257_signed: "signed_fits_bits 257 v = fits_257 v"
  by (simp add: signed_fits_bits_def fits_257_def)

lemma entry_ok_Int [simp]: "entry_ok (Int_e a) = int_ok a"
  by (cases a) (simp_all add: int_ok_def fits_257_signed)

lemma int_ok_simps [simp]: "int_ok None" "int_ok (Some v) = fits_257 v" "int_ok (clamp a)"
  by (auto simp: int_ok_def clamp_def split: option.splits)

lemma clamp_ok: "int_ok a \<Longrightarrow> clamp a = a"
  by (auto simp: clamp_def int_ok_def split: option.splits)

lemma clamp_simps [simp]: "clamp None = None" "clamp (Some v) = (if fits_257 v then Some v else None)" "clamp (clamp a) = clamp a"
  by (auto simp: clamp_def split: option.splits)

lemma push_int_quiet_clamp: "push_int_quiet a quiet s = push_int_quiet (clamp a) quiet s"
  by (auto simp: push_int_quiet_def clamp_def fits_257_signed split: option.splits)


lemma computes_clamp: "computes r v \<Longrightarrow> clamp (big_abs r) = clamp v"
  by (auto simp: computes_def clamp_def big_abs_def is_valid_def split: option.splits if_splits)

lemma int_digits_computes: "computes (int_digits (Some v)) (Some v)"
  using computes_normalize [of "[v]"] by (simp add: int_digits_def words_256_def)

lemma int_digits_ok:
  assumes "int_ok a"
  shows "refint_ok (int_digits a)" "big_abs (int_digits a) = a" "int_digits a = [] \<longleftrightarrow> a = None"
proof -
  have "refint_ok (int_digits a) \<and> big_abs (int_digits a) = a \<and> (int_digits a = [] \<longleftrightarrow> a = None)"
  proof (cases a)
    case None
    then show ?thesis by (simp add: int_digits_def refint_ok_def big_abs_def is_valid_def)
  next
    case (Some v)
    with assms int_digits_computes [of v] show ?thesis
      by (auto simp: computes_def big_abs_def is_valid_def split: if_splits)
  qed
  then show "refint_ok (int_digits a)" "big_abs (int_digits a) = a" "int_digits a = [] \<longleftrightarrow> a = None" by auto
qed

lemma int_digits_Some:
  assumes "fits_257 v"
  shows "normalized (int_digits (Some v))" "length (int_digits (Some v)) \<le> words_256" "big_val (int_digits (Some v)) = v"
proof -
  note ok = int_digits_ok [of "Some v"]
  show "normalized (int_digits (Some v))" "length (int_digits (Some v)) \<le> words_256" "big_val (int_digits (Some v)) = v"
    using ok assms by (auto simp: refint_ok_def big_abs_def split: if_splits)
qed

text \<open>Digits and values determine each other.\<close>

lemma normalized_unique: "normalized x \<Longrightarrow> normalized y \<Longrightarrow> big_val x = big_val y \<Longrightarrow> x = y"
  using eq_any_correct [of x y] by (simp add: eq_any_def split: if_split_asm)

lemma int_digits_big_abs:
  assumes "refint_ok x"
  shows "int_digits (big_abs x) = x"
  using assms
proof (rule refint_ok_cases)
  assume x: "normalized x" "x \<noteq> []" "length x \<le> words_256" "big_abs x = Some (big_val x)"
  have "fits_words words_256 (big_val x)"
    using fits_words_mono [OF digits_fit [of x] x(3)] x(1) by (simp add: normalized_def)
  then have "normalized (int_digits (big_abs x))" "big_val (int_digits (big_abs x)) = big_val x"
    using normalize_correct [of "[big_val x]" words_256] x(4) by (auto simp: int_digits_def words_256_def)
  then show ?thesis using x(1) by (intro normalized_unique)
qed (simp add: int_digits_def)

section \<open>Instructions on values\<close>

lemma push_clamp_cong: "clamp a = clamp b \<Longrightarrow> push_int_quiet a quiet s = push_int_quiet b quiet s"
  using push_int_quiet_clamp [of a quiet s] push_int_quiet_clamp [of b quiet s] by simp

lemma pop_int_ok:
  assumes "stack_ok s" "pop_int s = Inr (a, t)"
  shows "int_ok a \<and> stack_ok t"
  using faultless_pop_int [of s "\<lambda>(a, t). int_ok a \<and> stack_ok t"] assms by auto

lemma int_unop_cong:
  assumes "vm_ok st" "\<And>a. int_ok a \<Longrightarrow> clamp (f a) = clamp (g a)"
  shows "int_unop f quiet st = int_unop g quiet st"
proof -
  have "push_int_quiet (f a) quiet t = push_int_quiet (g a) quiet t" if "pop_int (stack st) = Inr (a, t)" for a t
    by (rule push_clamp_cong) (use pop_int_ok [OF _ that] assms in \<open>simp add: vm_ok_def\<close>)
  then show ?thesis
    by (cases "pop_int (stack st)") (auto simp: int_unop_def on_stack_def)
qed

lemma int_binop_cong:
  assumes "vm_ok st" "\<And>a b. int_ok a \<Longrightarrow> int_ok b \<Longrightarrow> clamp (f a b) = clamp (g a b)"
  shows "int_binop f quiet st = int_binop g quiet st"
proof (cases "pop_int (stack st)")
  case (Inr r)
  obtain b t where r: "r = (b, t)" by fastforce
  then have b: "int_ok b" "stack_ok t" using pop_int_ok [of "stack st" b t] Inr assms(1) by (auto simp: vm_ok_def)
  have "push_int_quiet (f a b) quiet u = push_int_quiet (g a b) quiet u" if "pop_int t = Inr (a, u)" for a u
    by (rule push_clamp_cong) (use pop_int_ok [OF b(2) that] assms(2) b(1) in simp)
  then show ?thesis using Inr r by (cases "pop_int t") (auto simp: int_binop_def on_stack_def)
qed (simp add: int_binop_def on_stack_def)

lemma via_clamp:
  "int_ok a \<Longrightarrow> (refint_ok (int_digits a) \<Longrightarrow> computes (f (int_digits a)) (g (big_abs (int_digits a)))) \<Longrightarrow>
    clamp (via1 f a) = clamp (g a)"
  "int_ok a \<Longrightarrow> int_ok b \<Longrightarrow> (refint_ok (int_digits a) \<Longrightarrow> refint_ok (int_digits b) \<Longrightarrow>
    computes (h (int_digits a) (int_digits b)) (k (big_abs (int_digits a)) (big_abs (int_digits b)))) \<Longrightarrow>
    clamp (via2 h a b) = clamp (k a b)"
  using computes_clamp by (simp_all add: via1_def via2_def int_digits_ok)

lemma arith_values:
  assumes "vm_ok st"
  shows "exec_add quiet st = int_binop (lift2 (+)) quiet st"
    and "exec_sub quiet st = int_binop (lift2 (-)) quiet st"
    and "exec_subr quiet st = int_binop (lift2 (\<lambda>x y. y - x)) quiet st"
    and "exec_mul quiet st = int_binop (lift2 (*)) quiet st"
    and "exec_negate quiet st = int_unop (lift1 uminus) quiet st"
    and "exec_not quiet st = int_unop (lift1 NOT) quiet st"
    and "exec_inc quiet st = int_unop (lift1 (\<lambda>x. x + 1)) quiet st"
    and "exec_dec quiet st = int_unop (lift1 (\<lambda>x. x - 1)) quiet st"
    and "exec_add_tinyint8 quiet args st = int_unop (lift1 (\<lambda>x. x + signed_char args)) quiet st"
    and "exec_mul_tinyint8 quiet args st = int_unop (lift1 (\<lambda>x. x * signed_char args)) quiet st"
proof -
  have small: "\<bar>signed_char args\<bar> \<le> MaxDenorm" by (auto simp: signed_char_def MaxDenorm_def)
  have swap: "lift2 (\<lambda>x y. y - x) a b = lift2 (-) b a" for a b by (simp add: lift2_def split: option.splits)
  show "exec_add quiet st = int_binop (lift2 (+)) quiet st" "exec_sub quiet st = int_binop (lift2 (-)) quiet st"
    "exec_mul quiet st = int_binop (lift2 (*)) quiet st"
    unfolding exec_add_def exec_sub_def exec_mul_def
    by (rule int_binop_cong [OF assms], rule via_clamp; blast intro: refint_add_sub_correct refint_mul_correct)+
  show "exec_subr quiet st = int_binop (lift2 (\<lambda>x y. y - x)) quiet st"
    unfolding exec_subr_def swap
    by (rule int_binop_cong [OF assms], rule via_clamp; blast intro: refint_add_sub_correct)
  show "exec_negate quiet st = int_unop (lift1 uminus) quiet st"
    "exec_inc quiet st = int_unop (lift1 (\<lambda>x. x + 1)) quiet st"
    "exec_dec quiet st = int_unop (lift1 (\<lambda>x. x - 1)) quiet st"
    "exec_add_tinyint8 quiet args st = int_unop (lift1 (\<lambda>x. x + signed_char args)) quiet st"
    "exec_mul_tinyint8 quiet args st = int_unop (lift1 (\<lambda>x. x * signed_char args)) quiet st"
    unfolding exec_negate_def exec_inc_def exec_dec_def exec_add_tinyint8_def exec_mul_tinyint8_def
    by (rule int_unop_cong [OF assms], rule via_clamp; blast intro: refint_unary_correct small)+
  have n: "(NOT :: int \<Rightarrow> int) = (\<lambda>v. - v - 1)" by (rule ext) (simp add: not_int_def)
  show "exec_not quiet st = int_unop (lift1 NOT) quiet st"
    unfolding exec_not_def n
    by (rule int_unop_cong [OF assms], rule via_clamp; blast intro: refint_unary_correct)
qed


section \<open>Quotients and remainders\<close>

lemma normalized_short:
  assumes "normalized x" "fits_257 (big_val x)"
  shows "length x \<le> words_256"
proof -
  note d = int_digits_Some [OF assms(2)]
  from d(2) show ?thesis unfolding normalized_unique [OF d(1) assms(1) d(3)] .
qed

lemma make_refint_clamp:
  assumes "x \<noteq> []" "length x \<le> words_512"
  shows "clamp (make_refint (normalize_bool_any words_512 x)) = clamp (Some (big_val x))"
proof (cases "fits_words words_512 (big_val x)")
  case True
  let ?r = "normalize_bool_any words_512 x"
  have r: "normalized ?r" "big_val ?r = big_val x" using normalize_correct [OF assms] True by auto
  then have "?r \<noteq> []" by (auto simp: normalized_def)
  then show ?thesis
    using normalized_short [OF r(1)] r(2) by (auto simp: make_refint_def set_any_def big_abs_def is_valid_def)
next
  case False
  have "\<not> fits_257 (big_val x)"
  proof
    assume "fits_257 (big_val x)"
    then have "fits_words words_512 (big_val x)"
      using fits_words_mono [OF fits_257_words] by (simp add: words_256_def words_512_def)
    with False show False by simp
  qed
  then show ?thesis
    using normalize_correct [OF assms] False by (simp add: make_refint_def set_any_def big_abs_def is_valid_def)
qed


text \<open>The product of two integers with an addend, at double width.\<close>

lemma fits_words_512: "\<bar>v\<bar> < 2 ^ 518 \<Longrightarrow> fits_words words_512 v"
  by (auto simp: fits_words_def words_512_def eval_nat_numeral Base_def Half_def abs_less_iff)

lemma double_width:
  assumes "x \<noteq> []" "length x \<le> words_512" "\<bar>big_val x\<bar> < 2 ^ 518" "0 \<le> e" "e \<le> 256"
  defines "t \<equiv> normalize_bool_any words_512 x"
  shows "normalized t" "big_val t = big_val x" "normalize_bool_any words_512 t = t"
    "clamp (make_refint (normalize_bool_any words_512 (rshift_any e rm t))) = clamp (Some (round_quotient rm (nat e) (big_val x)))"
    "clamp (make_refint (normalize_bool_any words_512 (mod_pow2_round words_512 e rm t))) =
      clamp (Some (round_remainder rm (nat e) (big_val x)))"
proof -
  have t: "normalized t" "big_val t = big_val x" "length t \<le> words_512"
    using normalize_correct [OF assms(1,2)] fits_words_512 [OF assms(3)] by (auto simp: t_def)
  then show "normalized t" "big_val t = big_val x" by auto
  have "t \<noteq> []" using t(1) by (auto simp: normalized_def)
  with normalize_correct [OF this t(3)] fits_words_512 [OF assms(3)] t
  show "normalize_bool_any words_512 t = t" by (intro normalized_unique) auto
  show "clamp (make_refint (normalize_bool_any words_512 (rshift_any e rm t))) = clamp (Some (round_quotient rm (nat e) (big_val x)))"
    using rshift_any_value [OF t(1) assms(4), of rm] t make_refint_clamp [of "rshift_any e rm t"] by simp
  have "e < int (words_512 * 52) - 1" using assms(5) by (simp add: words_512_def)
  from mod_pow2_round_value [OF t(1,3) assms(4) this, of rm] t(2)
  show "clamp (make_refint (normalize_bool_any words_512 (mod_pow2_round words_512 e rm t))) =
      clamp (Some (round_remainder rm (nat e) (big_val x)))"
    using make_refint_clamp [of "mod_pow2_round words_512 e rm t"] by simp
qed

lemma stack_access:
  "length s + 1 < 2 ^ 31 \<Longrightarrow> pop_int (Int_e a # s) = Inr (a, s)"
  "length s + 1 < 2 ^ 31 \<Longrightarrow> pop_long (Int_e a # s) = Inr (to_long a, s)"
  "length s < 2 ^ 31 \<Longrightarrow> check_underflow [n] s = (if n \<le> int (length s) then Inr () else Inl (Vm_error Stk_und))"
  by (simp_all add: pop_int_def pop_long_def pop_chk_def pop_def check_underflow_def at_least_def rguard_def depth_eq)

lemma push_results_cong:
  fixes s :: "'r stack"
  assumes "clamp q = clamp q'" "clamp r = clamp r'"
  shows "push_results d q r quiet s = push_results d q' r' quiet s"
proof -
  have "push_int_quiet q quiet s = push_int_quiet q' quiet s" using assms(1) by (rule push_clamp_cong)
  moreover have "push_int_quiet r quiet = (push_int_quiet r' quiet :: 'r stack \<Rightarrow> _)" using push_clamp_cong [OF assms(2)] by (rule ext)
  ultimately show ?thesis by (simp add: push_results_def)
qed

lemma product_words:
  assumes "fits_257 x" "fits_257 y" "fits_257 w"
  defines "t \<equiv> (\<lambda>w'. add_mul_any words_512 w' (int_digits (Some x)) (int_digits (Some y)))"
  shows "t [0] \<noteq> []" "length (t [0]) \<le> words_512" "big_val (t [0]) = x * y"
    "t (int_digits (Some w)) \<noteq> []" "length (t (int_digits (Some w))) \<le> words_512" "big_val (t (int_digits (Some w))) = w + x * y"
    "\<bar>x * y\<bar> < 2 ^ 518" "\<bar>w + x * y\<bar> < 2 ^ 518"
proof -
  note d = int_digits_Some [OF assms(1)] int_digits_Some [OF assms(2)] int_digits_Some [OF assms(3)]
  have ne: "int_digits (Some x) \<noteq> []" "int_digits (Some y) \<noteq> []" "int_digits (Some w) \<noteq> []"
    using d by (auto simp: normalized_def)
  have rn: "\<not> (length (int_digits (Some x)) + length (int_digits (Some y)) > words_512 + 1)"
    "length (int_digits (Some x)) + length (int_digits (Some y)) \<noteq> words_512 + 1"
    using d by (auto simp: words_256_def words_512_def)
  show "t [0] \<noteq> []" "length (t [0]) \<le> words_512" "big_val (t [0]) = x * y"
    using add_mul_any_value [of "[0]", OF _ ne(1,2), of words_512] rn d by (auto simp: t_def words_512_def)
  have "length (int_digits (Some w)) \<le> words_512" using d by (simp add: words_256_def words_512_def)
  from add_mul_any_value [OF ne(3,1,2) this] rn d
  show "t (int_digits (Some w)) \<noteq> []" "length (t (int_digits (Some w))) \<le> words_512" "big_val (t (int_digits (Some w))) = w + x * y"
    by (auto simp: t_def)
  have b: "\<bar>x\<bar> \<le> 2 ^ 256" "\<bar>y\<bar> \<le> 2 ^ 256" "\<bar>w\<bar> \<le> 2 ^ 256" using assms(1-3) by (auto simp: fits_257_def abs_le_iff)
  have "\<bar>x * y\<bar> \<le> 2 ^ 256 * 2 ^ 256" unfolding abs_mult using b by (intro mult_mono) auto
  then show "\<bar>x * y\<bar> < 2 ^ 518" "\<bar>w + x * y\<bar> < 2 ^ 518" using b(3) by auto
qed

text \<open>The operands of the instructions of this group in their order from the top of the stack.\<close>

definition div_operands :: "bool \<Rightarrow> int \<Rightarrow> bool \<Rightarrow> int \<Rightarrow> int list \<Rightarrow> 'r stack" where
  "div_operands imm z add w vs =
     map (\<lambda>v. Int_e (Some v)) ((if imm then [] else [z]) @ (if add then [w] else []) @ vs)"

definition div_args :: "nat \<Rightarrow> nat \<Rightarrow> nat" where
  "div_args mode args0 = (if odd (mode div 2) then args0 div 256 else args0)"

definition shift_given :: "nat \<Rightarrow> nat \<Rightarrow> int \<Rightarrow> bool" where
  "shift_given mode args0 z = (0 \<le> z \<and> z \<le> 256 \<and> (odd (mode div 2) \<longrightarrow> z = int (args0 mod 256) + 1))"

lemma exec_mulshrmod_value:
  fixes st :: "'r vm_state" and mode args0 :: nat and z :: int
  defines "args \<equiv> div_args mode args0" and "v \<equiv> global_version st"
  defines "rm \<equiv> (if z = 0 then - 1 else div_round_mode args)"
  assumes stack: "stack st = div_operands (odd (mode div 2)) z (div_add v args) w [y, x] @ s" "length (stack st) < 2 ^ 31"
    and ok: "fits_257 x" "fits_257 y" "fits_257 w" "shift_given mode args0 z"
    and valid: "div_results v args \<noteq> 0" "div_round_mode args \<noteq> 2"
    and p: "p = (if div_add v args then w + x * y else x * y)"
  shows "exec_mulshrmod mode args0 st =
    rbind (push_results (div_results v args) (Some (round_quotient rm (nat z) p)) (Some (round_remainder rm (nat z) p)) (odd mode) s)
      (\<lambda>s'. Inr (st\<lparr>stack := s'\<rparr>))"
proof -
  have z: "0 \<le> z" "z \<le> 256" "odd (mode div 2) \<Longrightarrow> z = int (args0 mod 256) + 1" "to_long (Some z) = z"
    using ok(4) by (auto simp: shift_given_def to_long_def)
  let ?w = "if div_add v args then int_digits (Some w) else [0]"
  let ?t = "normalize_bool_any words_512 (add_mul_any words_512 ?w (int_digits (Some x)) (int_digits (Some y)))"
  note prod = product_words [OF ok(1-3)]
  have t: "add_mul_any words_512 ?w (int_digits (Some x)) (int_digits (Some y)) \<noteq> []"
    "length (add_mul_any words_512 ?w (int_digits (Some x)) (int_digits (Some y))) \<le> words_512"
    "big_val (add_mul_any words_512 ?w (int_digits (Some x)) (int_digits (Some y))) = p"
    "\<bar>big_val (add_mul_any words_512 ?w (int_digits (Some x)) (int_digits (Some y)))\<bar> < 2 ^ 518"
    using prod p by auto
  note dw = double_width [OF t(1,2,4) z(1,2), unfolded t(3)]
  have res: "push_results d (make_refint (normalize_bool_any words_512 (rshift_any z rm ?t)))
      (make_refint (normalize_bool_any words_512 (mod_pow2_round words_512 z rm (normalize_bool_any words_512 ?t)))) q s =
    push_results d (Some (round_quotient rm (nat z) p)) (Some (round_remainder rm (nat z) p)) q s" for d q
    unfolding dw(3) using dw(4,5) by (rule push_results_cong)
  let ?s2 = "Int_e (Some y) # Int_e (Some x) # s"
  have n: "length s + 2 < 2 ^ 31" using stack by (simp add: div_operands_def split: if_splits)
  have "mulshrmod_shift (odd (mode div 2)) v (odd mode) args0 (div_add v args) (stack st) =
      Inr (z, div_operands True z (div_add v args) w [y, x] @ s)"
    using stack z by (cases "div_add v args"; cases "odd (mode div 2)")
      (simp_all add: mulshrmod_shift_def div_operands_def stack_access)
  moreover have "pop_addend (div_add v args) (div_operands True z (div_add v args) w [y, x] @ s) =
      Inr (if div_add v args then Some (Some w) else None, ?s2)"
    using stack by (auto simp: pop_addend_def div_operands_def stack_access split: if_splits)
  moreover have "pop_int ?s2 = Inr (Some y, Int_e (Some x) # s)" "pop_int (Int_e (Some x) # s) = Inr (Some x, s)"
    using n by (simp_all add: stack_access)
  ultimately show ?thesis
    using valid z(1,2) res
    unfolding exec_mulshrmod_def Let_def on_stack_def v_def [symmetric] div_args_def [symmetric] args_def [symmetric]
    by (cases "div_add v args") (simp_all add: rm_def [symmetric])
qed



lemma round_remainder_less: "\<bar>round_remainder rm e v\<bar> < 2 ^ e"
proof -
  have m: "0 \<le> u mod 2 ^ e" "u mod 2 ^ e < 2 ^ e" for u :: int by simp_all
  consider "rm < 0" | "rm > 0" | "rm = 0" "e = 0" | "rm = 0" "0 < e" by linarith
  then show ?thesis
  proof cases
    case 4
    have two: "(2 :: int) ^ e = 2 * 2 ^ (e - 1)" using 4 by (cases e) auto
    have "\<bar>if r < h then r else r - 2 * h\<bar> < 2 * h" if "0 < h" "0 \<le> r" "r < 2 * h" for r h :: int
      using that by auto
    from this [of "2 ^ (e - 1)" "v mod 2 ^ e"] m [of v] show ?thesis
      unfolding 4(1) round_remainder_nearest [OF 4(2)] two by simp
  next
    case 3
    then show ?thesis by (simp add: round_remainder_def round_quotient_def)
  qed (use m [of v] m [of "- v"] in \<open>auto simp: round_remainder_floor round_remainder_ceil\<close>)
qed

section \<open>Correctness of the instructions\<close>

text \<open>C16. The arithmetic instructions, which compute on the digits of their operands, are the integer
  operations they are named after: on a well-formed stack each equals the instruction that pops its operands,
  applies the operation to their values (an invalid operand gives an invalid result) and pushes the
  result, which becomes invalid or raises an overflow when it does not fit 257 bits.\<close>

theorem arithmetic_instructions_exact:
  assumes "vm_ok st"
  shows "exec_add quiet st = int_binop (lift2 (+)) quiet st \<and> exec_sub quiet st = int_binop (lift2 (-)) quiet st \<and>
    exec_subr quiet st = int_binop (lift2 (\<lambda>x y. y - x)) quiet st \<and> exec_mul quiet st = int_binop (lift2 (*)) quiet st \<and>
    exec_negate quiet st = int_unop (lift1 uminus) quiet st \<and> exec_not quiet st = int_unop (lift1 NOT) quiet st \<and>
    exec_inc quiet st = int_unop (lift1 (\<lambda>x. x + 1)) quiet st \<and> exec_dec quiet st = int_unop (lift1 (\<lambda>x. x - 1)) quiet st \<and>
    exec_add_tinyint8 quiet args st = int_unop (lift1 (\<lambda>x. x + signed_char args)) quiet st \<and>
    exec_mul_tinyint8 quiet args st = int_unop (lift1 (\<lambda>x. x * signed_char args)) quiet st"
  using arith_values [OF assms] by blast

definition demo_state :: "int \<Rightarrow> 'r stack \<Rightarrow> 'r vm_state" where
  "demo_state version s = \<lparr>stack = s, gas = gas_limits_init 1000 1000 0, global_version = version\<rparr>"

theorem arithmetic_instructions_exact_witness:
  "exec_mul False (demo_state 4 [Int_e (Some (2 ^ 200)), Int_e (Some (2 ^ 100))] :: unit vm_state) = Inl (Vm_error Int_ov) \<and>
   exec_mul True (demo_state 4 [Int_e (Some (2 ^ 200)), Int_e (Some (2 ^ 100))] :: unit vm_state) =
     Inr (demo_state 4 [Int_e None])"
proof -
  let ?st = "demo_state 4 [Int_e (Some (2 ^ 200)), Int_e (Some (2 ^ 100))] :: unit vm_state"
  have "vm_ok ?st" by (simp add: vm_ok_def demo_state_def fits_257_def)
  from arithmetic_instructions_exact [OF this, of False 0] arithmetic_instructions_exact [OF this, of True 0]
  show ?thesis
    by (simp add: int_binop_def on_stack_def demo_state_def stack_access lift2_def push_int_quiet_def
        fits_257_signed fits_257_def push_def)
qed

text \<open>C31. The product, with or without an addend, shifted right: the instruction computes the full product at
  double width and pushes the quotient by the power of two, rounded in the direction the instruction
  asks for, the remainder, or both, and quotient and remainder recombine to the product.\<close>

theorem product_shift_instructions_exact:
  fixes st :: "'r vm_state"
  assumes "stack st = div_operands (odd (mode div 2)) z (div_add (global_version st) (div_args mode args0)) w [y, x] @ s"
    and "length (stack st) < 2 ^ 31" "fits_257 x" "fits_257 y" "fits_257 w" "shift_given mode args0 z"
    and "div_results (global_version st) (div_args mode args0) \<noteq> 0" "div_round_mode (div_args mode args0) \<noteq> 2"
    and "p = (if div_add (global_version st) (div_args mode args0) then w + x * y else x * y)"
    and "rm = (if z = 0 then - 1 else div_round_mode (div_args mode args0))"
  shows "exec_mulshrmod mode args0 st =
      rbind (push_results (div_results (global_version st) (div_args mode args0))
        (Some (round_quotient rm (nat z) p)) (Some (round_remainder rm (nat z) p)) (odd mode) s)
      (\<lambda>s'. Inr (st\<lparr>stack := s'\<rparr>)) \<and>
    p = round_quotient rm (nat z) p * 2 ^ nat z + round_remainder rm (nat z) p \<and>
    \<bar>round_remainder rm (nat z) p\<bar> < 2 ^ nat z"
  using exec_mulshrmod_value [OF assms(1-9)] round_remainder_less [of rm "nat z" p] assms(10)
  by (simp add: round_remainder_def)

theorem product_shift_instructions_exact_witness:
  "exec_mulshrmod 0 12 (demo_state 4 [Int_e (Some 10), Int_e (Some (- 7)), Int_e (Some 1000)] :: unit vm_state) =
    Inr (demo_state 4 [Int_e (Some 168), Int_e (Some (- 7))])"
  using product_shift_instructions_exact
    [of "demo_state 4 [Int_e (Some 10), Int_e (Some (- 7)), Int_e (Some 1000)] :: unit vm_state" 0 10 12 0 "- 7" 1000 "[]" "- 7000" "- 1"]
  by (simp add: demo_state_def div_operands_def div_args_def div_add_def div_results_def div_round_mode_def
      shift_given_def fits_257_def fits_257_signed round_quotient_def round_remainder_def push_results_def
      push_int_quiet_def push_def)







end
