(* ===== verification/VM_Arith_Table.thy ===== *)
theory VM_Arith_Table
  imports VM_Arith_Props
begin

text \<open>
  The opcodes of the arithmetic instructions, as the \<open>register_\<close> functions of \<^verbatim>\<open>crypto/vm/arithops.cpp\<close>
  insert them, and the safety of the instructions.  Each function first inserts the instructions
  that raise an overflow and then the quiet ones behind the prefix \<open>0xb7\<close>; the division instructions are left out.
\<close>

section \<open>The tables\<close>

definition int_const_ops :: "(vm_fault + 'r opcode_instr) list" where
  "int_const_ops =
     [mkfixed 0x7 4 4 dump_push_tinyint4 exec_push_tinyint4,
      mkfixed 0x80 8 8 (dump_op_tinyint8 ''PUSHINT '') exec_push_tinyint8,
      mkfixed 0x81 8 16 dump_push_smallint exec_push_smallint,
      mkextrange (0x82 * 32) (0x82 * 32 + 31) 13 5 dump_push_int exec_push_int compute_len_push_int,
      mkfixedrange 0x8300 0x83ff 16 8 (dump_1c_l_add 1 ''PUSHPOW2 '' '''') exec_push_pow2,
      mksimple 0x83ff 16 ''PUSHNAN'' exec_push_nan,
      mkfixed 0x84 8 8 (dump_1c_l_add 1 ''PUSHPOW2DEC '' '''') exec_push_pow2dec,
      mkfixed 0x85 8 8 (dump_1c_l_add 1 ''PUSHNEGPOW2 '' '''') exec_push_negpow2]"

definition add_mul_ops :: "(vm_fault + 'r opcode_instr) list" where
  "add_mul_ops =
     [mksimple 0xa0 8 ''ADD'' (exec_add False),
      mksimple 0xa1 8 ''SUB'' (exec_sub False),
      mksimple 0xa2 8 ''SUBR'' (exec_subr False),
      mksimple 0xa3 8 ''NEGATE'' (exec_negate False),
      mksimple 0xa4 8 ''INC'' (exec_inc False),
      mksimple 0xa5 8 ''DEC'' (exec_dec False),
      mkfixed 0xa6 8 8 (dump_op_tinyint8 ''ADDINT '') (exec_add_tinyint8 False),
      mkfixed 0xa7 8 8 (dump_op_tinyint8 ''MULINT '') (exec_mul_tinyint8 False),
      mksimple 0xa8 8 ''MUL'' (exec_mul False)]"

definition quiet_add_mul_ops :: "(vm_fault + 'r opcode_instr) list" where
  "quiet_add_mul_ops =
     [mksimple 0xb7a0 16 ''QADD'' (exec_add True),
      mksimple 0xb7a1 16 ''QSUB'' (exec_sub True),
      mksimple 0xb7a2 16 ''QSUBR'' (exec_subr True),
      mksimple 0xb7a3 16 ''QNEGATE'' (exec_negate True),
      mksimple 0xb7a4 16 ''QINC'' (exec_inc True),
      mksimple 0xb7a5 16 ''QDEC'' (exec_dec True),
      mkfixed 0xb7a6 16 8 (dump_op_tinyint8 ''QADDINT '') (exec_add_tinyint8 True),
      mkfixed 0xb7a7 16 8 (dump_op_tinyint8 ''QMULINT '') (exec_mul_tinyint8 True),
      mksimple 0xb7a8 16 ''QMUL'' (exec_mul True)]"

definition shrmod_ops :: "(vm_fault + 'r opcode_instr) list" where
  "shrmod_ops =
     [mkfixed 0xa92 12 4 (dump_shrmod 0) (exec_shrmod 0),
      mkfixed 0xa93 12 12 (dump_shrmod 2) (exec_shrmod 2)]"

definition mulshrmod_ops :: "(vm_fault + 'r opcode_instr) list" where
  "mulshrmod_ops =
     [mkfixed 0xa9a 12 4 (dump_mulshrmod 0) (exec_mulshrmod 0),
      mkfixed 0xa9b 12 12 (dump_mulshrmod 2) (exec_mulshrmod 2)]"

definition quiet_shrmod_ops :: "(vm_fault + 'r opcode_instr) list" where
  "quiet_shrmod_ops = [mkfixed 0xb7a92 20 4 (dump_shrmod 1) (exec_shrmod 1)]"

definition quiet_mulshrmod_ops :: "(vm_fault + 'r opcode_instr) list" where
  "quiet_mulshrmod_ops = [mkfixed 0xb7a9a 20 4 (dump_mulshrmod 1) (exec_mulshrmod 1)]"

definition shift_logic_ops :: "(vm_fault + 'r opcode_instr) list" where
  "shift_logic_ops =
     [mkfixed 0xaa 8 8 (dump_1c_l_add 1 ''LSHIFT '' '''') (exec_lshift_tinyint8 False),
      mkfixed 0xab 8 8 (dump_1c_l_add 1 ''RSHIFT '' '''') (exec_rshift_tinyint8 False),
      mksimple 0xac 8 ''LSHIFT'' (exec_lshift False),
      mksimple 0xad 8 ''RSHIFT'' (exec_rshift False),
      mksimple 0xae 8 ''POW2'' (exec_pow2 False),
      mksimple 0xb0 8 ''AND'' (exec_and False),
      mksimple 0xb1 8 ''OR'' (exec_or False),
      mksimple 0xb2 8 ''XOR'' (exec_xor False),
      mksimple 0xb3 8 ''NOT'' (exec_not False),
      mkfixed 0xb4 8 8 (dump_1c_l_add 1 ''FITS '' '''') (exec_fits_tinyint8 False),
      mkfixed 0xb5 8 8 (dump_1c_l_add 1 ''UFITS '' '''') (exec_ufits_tinyint8 False),
      mksimple 0xb600 16 ''FITSX'' (exec_fits False),
      mksimple 0xb601 16 ''UFITSX'' (exec_ufits False),
      mksimple 0xb602 16 ''BITSIZE'' (exec_bitsize True False),
      mksimple 0xb603 16 ''UBITSIZE'' (exec_bitsize False False)]"

definition quiet_shift_logic_ops :: "(vm_fault + 'r opcode_instr) list" where
  "quiet_shift_logic_ops =
     [mkfixed 0xb7aa 16 8 (dump_1c_l_add 1 ''QLSHIFT '' '''') (exec_lshift_tinyint8 True),
      mkfixed 0xb7ab 16 8 (dump_1c_l_add 1 ''QRSHIFT '' '''') (exec_rshift_tinyint8 True),
      mksimple 0xb7ac 16 ''QLSHIFT'' (exec_lshift True),
      mksimple 0xb7ad 16 ''QRSHIFT'' (exec_rshift True),
      mksimple 0xb7ae 16 ''QPOW2'' (exec_pow2 True),
      mksimple 0xb7b0 16 ''QAND'' (exec_and True),
      mksimple 0xb7b1 16 ''QOR'' (exec_or True),
      mksimple 0xb7b2 16 ''QXOR'' (exec_xor True),
      mksimple 0xb7b3 16 ''QNOT'' (exec_not True),
      mkfixed 0xb7b4 16 8 (dump_1c_l_add 1 ''QFITS '' '''') (exec_fits_tinyint8 True),
      mkfixed 0xb7b5 16 8 (dump_1c_l_add 1 ''QUFITS '' '''') (exec_ufits_tinyint8 True),
      mksimple 0xb7b600 24 ''QFITSX'' (exec_fits True),
      mksimple 0xb7b601 24 ''QUFITSX'' (exec_ufits True),
      mksimple 0xb7b602 24 ''QBITSIZE'' (exec_bitsize True True),
      mksimple 0xb7b603 24 ''QUBITSIZE'' (exec_bitsize False True)]"

definition other_arith_ops :: "(vm_fault + 'r opcode_instr) list" where
  "other_arith_ops =
     [mksimple 0xb608 16 ''MIN'' (exec_minmax 2),
      mksimple 0xb609 16 ''MAX'' (exec_minmax 4),
      mksimple 0xb60a 16 ''MINMAX'' (exec_minmax 6),
      mksimple 0xb60b 16 ''ABS'' (exec_abs False)]"

definition quiet_other_arith_ops :: "(vm_fault + 'r opcode_instr) list" where
  "quiet_other_arith_ops =
     [mksimple 0xb7b608 24 ''QMIN'' (exec_minmax 3),
      mksimple 0xb7b609 24 ''QMAX'' (exec_minmax 5),
      mksimple 0xb7b60a 24 ''QMINMAX'' (exec_minmax 7),
      mksimple 0xb7b60b 24 ''QABS'' (exec_abs True)]"

definition int_cmp_ops :: "(vm_fault + 'r opcode_instr) list" where
  "int_cmp_ops =
     [mksimple 0xb8 8 ''SGN'' (exec_sgn 0x987 False),
      mksimple 0xb9 8 ''LESS'' (exec_cmp 0x887 False),
      mksimple 0xba 8 ''EQUAL'' (exec_cmp 0x878 False),
      mksimple 0xbb 8 ''LEQ'' (exec_cmp 0x877 False),
      mksimple 0xbc 8 ''GREATER'' (exec_cmp 0x788 False),
      mksimple 0xbd 8 ''NEQ'' (exec_cmp 0x787 False),
      mksimple 0xbe 8 ''GEQ'' (exec_cmp 0x778 False),
      mksimple 0xbf 8 ''CMP'' (exec_cmp 0x987 False),
      mkfixed 0xc0 8 8 (dump_op_tinyint8 ''EQINT '') (exec_cmp_int 0x878 False),
      mkfixed 0xc1 8 8 (dump_op_tinyint8 ''LESSINT '') (exec_cmp_int 0x887 False),
      mkfixed 0xc2 8 8 (dump_op_tinyint8 ''GTINT '') (exec_cmp_int 0x788 False),
      mkfixed 0xc3 8 8 (dump_op_tinyint8 ''NEQINT '') (exec_cmp_int 0x787 False),
      mksimple 0xc4 8 ''ISNAN'' exec_is_nan,
      mksimple 0xc5 8 ''CHKNAN'' exec_chk_nan]"

definition quiet_int_cmp_ops :: "(vm_fault + 'r opcode_instr) list" where
  "quiet_int_cmp_ops =
     [mksimple 0xb7b8 16 ''QSGN'' (exec_sgn 0x987 True),
      mksimple 0xb7b9 16 ''QLESS'' (exec_cmp 0x887 True),
      mksimple 0xb7ba 16 ''QEQUAL'' (exec_cmp 0x878 True),
      mksimple 0xb7bb 16 ''QLEQ'' (exec_cmp 0x877 True),
      mksimple 0xb7bc 16 ''QGREATER'' (exec_cmp 0x788 True),
      mksimple 0xb7bd 16 ''QNEQ'' (exec_cmp 0x787 True),
      mksimple 0xb7be 16 ''QGEQ'' (exec_cmp 0x778 True),
      mksimple 0xb7bf 16 ''QCMP'' (exec_cmp 0x987 True),
      mkfixed 0xb7c0 16 8 (dump_op_tinyint8 ''QEQINT '') (exec_cmp_int 0x878 True),
      mkfixed 0xb7c1 16 8 (dump_op_tinyint8 ''QLESSINT '') (exec_cmp_int 0x887 True),
      mkfixed 0xb7c2 16 8 (dump_op_tinyint8 ''QGTINT '') (exec_cmp_int 0x788 True),
      mkfixed 0xb7c3 16 8 (dump_op_tinyint8 ''QNEQINT '') (exec_cmp_int 0x787 True)]"

text \<open>In the order of \<open>register_arith_ops\<close>.\<close>

definition arith_ops :: "(vm_fault + 'r opcode_instr) list" where
  "arith_ops =
     int_const_ops @ (add_mul_ops @ quiet_add_mul_ops) @
     ((shrmod_ops @ mulshrmod_ops) @ (quiet_shrmod_ops @ quiet_mulshrmod_ops)) @
     (shift_logic_ops @ quiet_shift_logic_ops) @ (other_arith_ops @ quiet_other_arith_ops) @
     (int_cmp_ops @ quiet_int_cmp_ops)"

section \<open>Safety\<close>

lemma faultless_pop_long [faultless_intros]:
  "\<lbrakk>stack_ok s; \<And>v s'. stack_ok s' \<Longrightarrow> length s = Suc (length s') \<Longrightarrow> P (v, s')\<rbrakk> \<Longrightarrow> faultless P (pop_long s)"
  unfolding pop_long_def by (intro faultless_intros) auto

lemma action_ok_on_stack:
  assumes "\<And>st s. stack_ok s \<Longrightarrow> faultless stack_ok (f st s)"
  shows "action_ok (\<lambda>st. on_stack (f st) st)"
proof -
  have "spent st st'" if "on_stack (f st) st = Inr st'" for st st' using that by (auto simp: on_stack_def rsimps)
  moreover have "faultless vm_ok (on_stack (f st) st)" if "vm_ok st" for st
    using that assms [of "stack st" st] by (auto intro!: faultless_on_stack simp: vm_ok_def)
  ultimately show ?thesis by (simp add: action_ok_def instr_safe_def never_refunds_def)
qed

lemmas action_ok_stack = action_ok_on_stack [of "\<lambda>st. f" for f]

lemma int_op_safe:
  "action_ok (\<lambda>st. int_unop (f st) quiet st)" "action_ok (\<lambda>st. int_binop (g st) quiet st)"
  unfolding int_unop_def int_binop_def
  by (rule action_ok_on_stack; (intro faultless_intros)?; auto intro!: faultless_intros)+

lemmas int_op_safe_const = int_op_safe(1) [of "\<lambda>st. f" for f] int_op_safe(2) [of "\<lambda>st. g" for g]

lemma arith_ops_safe:
  "action_ok (exec_add quiet)" "action_ok (exec_sub quiet)" "action_ok (exec_subr quiet)" "action_ok (exec_negate quiet)"
  "action_ok (exec_inc quiet)" "action_ok (exec_dec quiet)" "action_ok (exec_add_tinyint8 quiet args)"
  "action_ok (exec_mul_tinyint8 quiet args)" "action_ok (exec_mul quiet)" "action_ok (exec_xor quiet)" "action_ok (exec_not quiet)"
  "action_ok (exec_fits_tinyint8 quiet args)" "action_ok (exec_ufits_tinyint8 quiet args)" "action_ok (exec_abs quiet)"
  "action_ok (exec_and quiet)" "action_ok (exec_or quiet)" "action_ok (exec_lshift_tinyint8 quiet args)"
  "action_ok (exec_rshift_tinyint8 quiet args)"
  unfolding exec_add_def exec_sub_def exec_subr_def exec_negate_def exec_inc_def exec_dec_def exec_add_tinyint8_def
    exec_mul_tinyint8_def exec_mul_def exec_xor_def exec_not_def exec_fits_tinyint8_def exec_ufits_tinyint8_def
    exec_abs_def exec_and_def [abs_def] exec_or_def [abs_def] exec_lshift_tinyint8_def [abs_def] exec_rshift_tinyint8_def [abs_def]
  by (rule int_op_safe int_op_safe_const)+

lemma int_ok_small: "- (2 ^ 63) \<le> v \<Longrightarrow> v < 2 ^ 63 \<Longrightarrow> fits_257 v"
  by (simp add: fits_257_def)

lemma stack_ok_push_smallint: "- (2 ^ 63) \<le> v \<Longrightarrow> v < 2 ^ 63 \<Longrightarrow> stack_ok (push_smallint v s) = stack_ok s"
  by (simp add: push_smallint_def push_def int_ok_small)

lemma small_values:
  "- (2 ^ 63) \<le> tinyint4 args" "tinyint4 args < 2 ^ 63" "- (2 ^ 63) \<le> signed_char args" "signed_char args < 2 ^ 63"
  "- (2 ^ 63) \<le> signed_short args" "signed_short args < 2 ^ 63"
  "- (2 ^ 63) \<le> cmp_result mode z" "cmp_result mode z < 2 ^ 63"
proof -
  obtain k where "cmp_result mode z = int k - 8" "k < 16"
  proof (rule that)
    show "cmp_result mode z = int (mode div 2 ^ nat (4 + z * 4) mod 16) - 8" by (simp only: cmp_result_def)
  qed simp
  then show "- (2 ^ 63) \<le> cmp_result mode z" "cmp_result mode z < 2 ^ 63" by simp_all
qed (auto simp: tinyint4_def signed_char_def signed_short_def)

lemma bit_size_bounds:
  assumes "int_ok a" "bit_size_any sgnd (int_digits a) < 0x7fffffff"
  shows "- (2 ^ 63) \<le> bit_size_any sgnd (int_digits a)"
proof (cases a)
  case None
  then show ?thesis by (simp add: int_digits_def bit_size_any_def is_valid_def)
next
  case (Some v)
  then have n: "normalized (int_digits a)" "big_val (int_digits a) = v" using int_digits_Some [of v] assms(1) by auto
  consider "v = 0" | "0 < v" | "v < 0" "sgnd" | "v < 0" "\<not> sgnd" by linarith
  then show ?thesis
  proof cases
    case 1
    then show ?thesis using sgn_any_correct [OF n(1)] n by (simp add: bit_size_any_def)
  next
    case 2
    then show ?thesis using bit_size_positive [OF n(1), of sgnd] n(2) by auto
  next
    case 3
    then show ?thesis using bit_size_negative [OF n(1)] n(2) by auto
  next
    case 4
    then show ?thesis using sgn_any_correct [OF n(1)] n by (simp add: bit_size_any_def)
  qed
qed

lemma stack_ok_push_values:
  "stack_ok (push_smallint (tinyint4 args) s) = stack_ok s" "stack_ok (push_smallint (signed_char args) s) = stack_ok s"
  "stack_ok (push_smallint (signed_short args) s) = stack_ok s" "stack_ok (push_smallint (cmp_result mode z) s) = stack_ok s"
  "stack_ok (push_smallint 0 s) = stack_ok s" "stack_ok (push_smallint (- 1) s) = stack_ok s"
  by (rule stack_ok_push_smallint; simp add: small_values [simplified])+

lemma stack_arith_safe:
  "action_ok (exec_lshift quiet)" "action_ok (exec_rshift quiet)" "action_ok (exec_pow2 quiet)" "action_ok (exec_fits quiet)"
  "action_ok (exec_ufits quiet)" "action_ok (exec_minmax mode)" "action_ok (exec_sgn mode quiet)" "action_ok (exec_cmp mode quiet)"
  "action_ok (exec_cmp_int mode quiet args)" "action_ok exec_is_nan" "action_ok exec_chk_nan"
  unfolding exec_lshift_def exec_rshift_def shift_by_stack_def [abs_def] exec_pow2_def [abs_def] exec_fits_def exec_ufits_def
    exec_minmax_def exec_sgn_def exec_cmp_def exec_cmp_int_def exec_is_nan_def exec_chk_nan_def
  by (rule action_ok_on_stack action_ok_stack,
      auto intro!: faultless_intros simp: stack_ok_push_values Let_def split: prod.splits)+

lemma stack_ok_push_size:
  assumes "int_ok a" "stack_ok s" "bit_size_any sgnd (int_digits a) < 0x7fffffff"
  shows "stack_ok (push_smallint (bit_size_any sgnd (int_digits a)) s)"
  using bit_size_bounds [OF assms(1,3)] assms by (simp add: stack_ok_push_smallint)

lemma bitsize_safe: "action_ok (exec_bitsize sgnd quiet)"
  unfolding exec_bitsize_def
  by (rule action_ok_stack, auto intro!: faultless_intros stack_ok_push_size simp: Let_def)

lemma const_ops_safe:
  "action_ok (exec_push_tinyint4 args)" "action_ok (exec_push_tinyint8 args)" "action_ok (exec_push_smallint args)"
  "action_ok exec_push_nan"
  unfolding exec_push_tinyint4_def exec_push_tinyint8_def exec_push_smallint_def exec_push_nan_def
  by (rule action_ok_stack, simp add: stack_ok_push_values push_def)+

lemma faultless_push_results [faultless_intros]:
  "\<lbrakk>stack_ok s; \<And>s'. stack_ok s' \<Longrightarrow> P s'\<rbrakk> \<Longrightarrow> faultless P (push_results d q r quiet s)"
  "\<lbrakk>stack_ok s; \<And>s'. stack_ok s' \<Longrightarrow> P s'\<rbrakk> \<Longrightarrow> faultless P (push_nans d quiet s)"
  unfolding push_results_def push_nans_def by (auto intro!: faultless_intros)

lemma faultless_pop_addend [faultless_intros]:
  "\<lbrakk>stack_ok s; \<And>w s'. stack_ok s' \<Longrightarrow> (w = None \<longleftrightarrow> \<not> add) \<Longrightarrow> P (w, s')\<rbrakk> \<Longrightarrow> faultless P (pop_addend add s)"
  unfolding pop_addend_def by (auto intro!: faultless_intros)

lemma faultless_shrmod_shift [faultless_intros]:
  "\<lbrakk>stack_ok s; \<And>y valid s'. stack_ok s' \<Longrightarrow> (\<not> valid \<longrightarrow> version \<ge> 14) \<Longrightarrow> P ((y, valid), s')\<rbrakk> \<Longrightarrow>
    faultless P (shrmod_shift imm version quiet args add s)"
  unfolding shrmod_shift_def by (auto intro!: faultless_intros simp: Let_def)

lemma faultless_mulshrmod_shift [faultless_intros]:
  "\<lbrakk>stack_ok s; \<And>z s'. stack_ok s' \<Longrightarrow> P (z, s')\<rbrakk> \<Longrightarrow> faultless P (mulshrmod_shift imm version quiet args add s)"
  unfolding mulshrmod_shift_def by (auto intro!: faultless_intros)

lemma action_ok_guarded:
  assumes "\<And>st s. \<not> bad st \<Longrightarrow> stack_ok s \<Longrightarrow> faultless stack_ok (f st s)"
  shows "action_ok (\<lambda>st. if bad st then Inl (Vm_error e) else on_stack (f st) st)"
proof -
  have "spent st st'" if "on_stack (f st) st = Inr st'" for st st' using that by (auto simp: on_stack_def rsimps)
  moreover have "faultless vm_ok (on_stack (f st) st)" if "\<not> bad st" "vm_ok st" for st
    using that assms [of st "stack st"] by (auto intro!: faultless_on_stack simp: vm_ok_def)
  ultimately show ?thesis by (auto simp: action_ok_def instr_safe_def never_refunds_def)
qed

lemma faultless_if: "\<lbrakk>c \<Longrightarrow> faultless P a; \<not> c \<Longrightarrow> faultless P b\<rbrakk> \<Longrightarrow> faultless P (if c then a else b)"
  by simp

lemma shrmod_safe: "action_ok (exec_shrmod mode args)" "action_ok (exec_mulshrmod mode args)"
  unfolding exec_shrmod_def [abs_def] exec_mulshrmod_def [abs_def] Let_def
  by (rule action_ok_guarded; auto intro!: faultless_intros faultless_if split: option.splits)+

text \<open>The opcodes of the powers of two only have operands up to 254, so that the powers fit.\<close>

lemma pow2_digits:
  assumes "1 \<le> e" "e \<le> 256"
  shows "set_pow2_any words_256 e \<noteq> []" "length (set_pow2_any words_256 e) \<le> words_256"
    "big_val (set_pow2_any words_256 e) = 2 ^ nat e"
  using set_pow2_any_props [of e words_256] assms by (auto simp: words_256_def)

lemma pow2_power: "1 \<le> e \<Longrightarrow> e \<le> 256 \<Longrightarrow> (1 :: int) \<le> 2 ^ nat e \<and> 2 ^ nat e \<le> (2 :: int) ^ 256"
  by (auto intro: power_increasing simp del: power_numeral)

lemma fits_powers:
  "1 \<le> v \<Longrightarrow> v \<le> 2 ^ 255 \<Longrightarrow> fits_257 v" "1 \<le> v \<Longrightarrow> v \<le> 2 ^ 256 \<Longrightarrow> fits_257 (v - 1)"
  "1 \<le> v \<Longrightarrow> v \<le> 2 ^ 256 \<Longrightarrow> fits_257 (- v)"
  by (auto simp: fits_257_def)

lemma push_pow2_safe: "a mod 256 \<noteq> 255 \<Longrightarrow> action_ok (exec_push_pow2 a)"
proof -
  assume a: "a mod 256 \<noteq> 255"
  let ?e = "int (a mod 256) + 1"
  have e: "1 \<le> ?e" "?e \<le> 255" "?e \<le> 256" using a mod_less_divisor [of 256 a] by (auto simp: less_Suc_eq_le)
  have "(2 :: int) ^ nat ?e \<le> 2 ^ 255" using e by (intro power_increasing) auto
  then have "fits_257 (2 ^ nat ?e)" using pow2_power [OF e(1,3)] by (intro fits_powers) auto
  then have "int_ok (big_abs (set_pow2_any words_256 ?e))"
    using pow2_digits [OF e(1,3)] by (simp add: big_abs_def is_valid_def)
  then show ?thesis unfolding exec_push_pow2_def by (intro action_ok_stack) (simp add: push_def)
qed

lemma push_pow2dec_safe: "action_ok (exec_push_pow2dec a)" "action_ok (exec_push_negpow2 a)"
proof -
  let ?e = "int (a mod 256) + 1"
  have e: "1 \<le> ?e" "?e \<le> 256" using mod_less_divisor [of 256 a] by (auto simp: less_Suc_eq_le)
  note p = pow2_digits [OF e] and b = pow2_power [OF e]
  obtain d ds where dd: "set_pow2_any words_256 ?e = d # ds" using p(1) by (cases "set_pow2_any words_256 ?e") auto
  have "add_tiny (- 1) (set_pow2_any words_256 ?e) \<noteq> []" "length (add_tiny (- 1) (set_pow2_any words_256 ?e)) \<le> words_256"
    "big_val (add_tiny (- 1) (set_pow2_any words_256 ?e)) = 2 ^ nat ?e - 1"
    using p(2,3) unfolding dd by (simp_all add: add_tiny_def)
  then have "clamp (big_abs (normalize_bool_any words_256 (add_tiny (- 1) (set_pow2_any words_256 ?e)))) = Some (2 ^ nat ?e - 1)"
    using computes_clamp [OF computes_normalize, of "add_tiny (- 1) (set_pow2_any words_256 ?e)"] 
      fits_powers(2) [of "2 ^ nat ?e"] b by simp
  moreover have "clamp (big_abs (normalize_bool_any words_256 (negate_any (set_pow2_any words_256 ?e)))) = Some (- (2 ^ nat ?e))"
    using computes_clamp [OF computes_normalize, of "negate_any (set_pow2_any words_256 ?e)"] p
      fits_powers(3) [of "2 ^ nat ?e"] b by simp
  moreover have "int_ok v" if "clamp v = Some w" for v w
    using that by (auto simp: clamp_def int_ok_def split: option.splits if_splits)
  ultimately show "action_ok (exec_push_pow2dec a)" "action_ok (exec_push_negpow2 a)"
    unfolding exec_push_pow2dec_def exec_push_negpow2_def
    by (intro action_ok_stack; simp add: push_def)+
qed

lemma push_int_linear:
  assumes "exec_push_int args pfx cs st = Inr (st', cs')"
  shows "pfx + push_int_len args \<le> length cs \<and> cs' = drop (pfx + push_int_len args) cs \<and>
    on_stack (push_int (big_abs (int_digits (Some (bits_to_int (take (push_int_len args) (drop pfx cs))))))) st = Inr st'"
  using assms by (auto simp: exec_push_int_def fetch_int256_def rsimps add.commute split: if_splits)

lemma push_int_ok:
  "code_action_ok (exec_push_int args pfx :: bits \<Rightarrow> 'r vm_state \<Rightarrow> 'r code_result) cs (length cs - 1)"
proof -
  let ?x = "big_abs (int_digits (Some (bits_to_int (take (push_int_len args) (drop pfx cs)))))"
  have push: "faultless vm_ok (on_stack (push_int ?x) st)" if "vm_ok st" for st :: "'r vm_state"
    using that by (auto intro!: faultless_on_stack faultless_intros simp: vm_ok_def)
  have spend: "spent st st'" if "on_stack (push_int ?x) st = Inr st'" for st st' :: "'r vm_state"
    using that by (auto simp: on_stack_def rsimps spent_def)
  have "faultless (\<lambda>(st', cs'). vm_ok st' \<and> spent st st' \<and> length cs' \<le> length cs - 1) (exec_push_int args pfx cs st)"
    if "vm_ok st" for st :: "'r vm_state"
    using push [OF that] spend [of st]
    by (cases "on_stack (push_int ?x) st") (auto simp: exec_push_int_def fetch_int256_def push_int_len_def)
  then show ?thesis by (simp add: code_action_ok_def)
qed

section \<open>The tables are instruction sets\<close>

lemmas arith_safe = arith_ops_safe stack_arith_safe bitsize_safe const_ops_safe shrmod_safe push_pow2_safe push_pow2dec_safe
  push_int_ok [simplified]

lemma pow2_operands:
  fixes x :: nat
  assumes "0x8300 \<le> x" "x < 0x83ff"
  shows "x mod 256 \<noteq> 255"
proof -
  obtain k where k: "x = k + 0x83 * 256" "k < 255" using assms by (intro that [of "x - 0x8300"]) auto
  show ?thesis unfolding k(1) mod_mult_self1 using k(2) by simp
qed

lemmas arith_table_defs = int_const_ops_def add_mul_ops_def quiet_add_mul_ops_def shrmod_ops_def mulshrmod_ops_def
  quiet_shrmod_ops_def quiet_mulshrmod_ops_def shift_logic_ops_def quiet_shift_logic_ops_def other_arith_ops_def
  quiet_other_arith_ops_def int_cmp_ops_def quiet_int_cmp_ops_def

lemma arith_ops_ok: "list_all mk_ok arith_ops"
  unfolding arith_ops_def arith_table_defs append.simps list.pred_inject
  by (intro conjI TrueI mk_ok_simple mk_ok_fixed mk_ok_fixedrange mk_ok_extrange)
    (simp_all add: arith_safe pow2_operands)

text \<open>The same instructions in the order of their opcodes.\<close>

definition arith_ops_by_opcode :: "(vm_fault + 'r opcode_instr) list" where
  "arith_ops_by_opcode =
     int_const_ops @ add_mul_ops @ shrmod_ops @ mulshrmod_ops @ shift_logic_ops @ other_arith_ops @
     quiet_add_mul_ops @ quiet_shrmod_ops @ quiet_mulshrmod_ops @ quiet_shift_logic_ops @ quiet_other_arith_ops @
     quiet_int_cmp_ops @ int_cmp_ops"

lemma arith_ops_by_opcode_mset: "mset arith_ops = mset arith_ops_by_opcode"
  by (simp add: arith_ops_def arith_ops_by_opcode_def)

lemma arith_ops_ascending: "ascending (0x70 * 2 ^ 16) (arith_ops_by_opcode :: (vm_fault + 'r opcode_instr) list)"
  by (simp add: arith_ops_by_opcode_def arith_table_defs ascending_mk max_opcode_bits_def del: ascending.simps(2))

end
