(* ===== verification/VM_Cp0.thy ===== *)
theory VM_Cp0
  imports VM_Arith_Table
begin

text \<open>
  The tables of the stack and the tuple instructions (\<open>register_stack_ops\<close>, \<open>register_tuple_ops\<close>), the part of the
  codepage that they form with the arithmetic instructions, and what the machine does with code made of them:
  the code is decoded in one way, nothing undefined happens whatever the code and the stack are, and every run ends.
\<close>

section \<open>The instructions that are registered\<close>

definition stack_ops :: "(vm_fault + 'r opcode_instr) list" where
  "stack_ops =
     [mksimple 0x00 8 ''NOP'' exec_nop,
      mksimple 0x01 8 ''SWAP'' exec_swap,
      mkfixedrange 0x02 0x10 8 4 (dump_1sr ''XCHG '' '''') exec_xchg0,
      mkfixed 0x10 8 8 dump_xchg exec_xchg,
      mkfixed 0x11 8 8 (dump_1sr_l ''XCHG '' '''') exec_xchg0_l,
      mkfixedrange 0x12 0x20 8 4 (dump_1sr ''XCHG s1,'' '''') exec_xchg1,
      mksimple 0x20 8 ''DUP'' exec_dup,
      mksimple 0x21 8 ''OVER'' exec_over,
      mkfixedrange 0x22 0x30 8 4 (dump_1sr ''PUSH '' '''') exec_push,
      mksimple 0x30 8 ''DROP'' exec_drop,
      mksimple 0x31 8 ''NIP'' exec_nip,
      mkfixedrange 0x32 0x40 8 4 (dump_1sr ''POP '' '''') exec_pop,
      mkfixed 0x4 4 12 (dump_3sr ''XCHG3 '' '''') exec_xchg3,
      mkfixed 0x50 8 8 (dump_2sr ''XCHG2 '' '''') exec_xchg2,
      mkfixed 0x51 8 8 (dump_2sr ''XCPU '' '''') exec_xcpu,
      mkfixed 0x52 8 8 (dump_2sr_adj 1 ''PUXC '' '''') exec_puxc,
      mkfixed 0x53 8 8 (dump_2sr ''PUSH2 '' '''') exec_push2,
      mkfixed 0x540 12 12 (dump_3sr ''XCHG3 '' '''') exec_xchg3,
      mkfixed 0x541 12 12 (dump_3sr ''XC2PU '' '''') exec_xc2pu,
      mkfixed 0x542 12 12 (dump_3sr_adj 1 ''XCPUXC '' '''') exec_xcpuxc,
      mkfixed 0x543 12 12 (dump_3sr ''XCPU2 '' '''') exec_xcpu2,
      mkfixed 0x544 12 12 (dump_3sr_adj 0x11 ''PUXC2 '' '''') exec_puxc2,
      mkfixed 0x545 12 12 (dump_3sr_adj 0x11 ''PUXCPU '' '''') exec_puxcpu,
      mkfixed 0x546 12 12 (dump_3sr_adj 0x12 ''PU2XC '' '''') exec_pu2xc,
      mkfixed 0x547 12 12 (dump_3sr ''PUSH3 '' '''') exec_push3,
      mkfixed 0x55 8 8 (dump_2c_add 0x11 ''BLKSWAP '' '','' '''') exec_blkswap,
      mkfixed 0x56 8 8 (dump_1sr_l ''PUSH '' '''') exec_push_l,
      mkfixed 0x57 8 8 (dump_1sr_l ''POP '' '''') exec_pop_l,
      mksimple 0x58 8 ''ROT'' exec_rot,
      mksimple 0x59 8 ''ROTREV'' exec_rotrev,
      mksimple 0x5a 8 ''2SWAP'' exec_2swap,
      mksimple 0x5b 8 ''2DROP'' exec_2drop,
      mksimple 0x5c 8 ''2DUP'' exec_2dup,
      mksimple 0x5d 8 ''2OVER'' exec_2over,
      mkfixed 0x5e 8 8 (dump_2c_add 0x20 ''REVERSE '' '','' '''') exec_reverse,
      mkfixed 0x5f0 12 4 (dump_1c ''BLKDROP '' '''') exec_blkdrop,
      mkfixedrange 0x5f10 0x6000 16 8 (dump_2c ''BLKPUSH '' '','' '''') exec_blkpush,
      mksimple 0x60 8 ''PICK'' exec_pick,
      mksimple 0x61 8 ''ROLL'' exec_roll,
      mksimple 0x62 8 ''ROLLREV'' exec_rollrev,
      mksimple 0x63 8 ''BLKSWX'' exec_blkswap_x,
      mksimple 0x64 8 ''REVX'' exec_reverse_x,
      mksimple 0x65 8 ''DROPX'' exec_drop_x,
      mksimple 0x66 8 ''TUCK'' exec_tuck,
      mksimple 0x67 8 ''XCHGX'' exec_xchg_x,
      mksimple 0x68 8 ''DEPTH'' exec_depth,
      mksimple 0x69 8 ''CHKDEPTH'' exec_chkdepth,
      mksimple 0x6a 8 ''ONLYTOPX'' exec_onlytop_x,
      mksimple 0x6b 8 ''ONLYX'' exec_only_x,
      mkfixedrange 0x6c10 0x6d00 16 8 (dump_2c ''BLKDROP2 '' '','' '''') exec_blkdrop2]"

definition tuple_ops :: "(vm_fault + 'r opcode_instr) list" where
  "tuple_ops =
     [mksimple 0x6d 8 ''PUSHNULL'' exec_push_null,
      mksimple 0x6e 8 ''ISNULL'' exec_is_null,
      mkfixed 0x6f0 12 4 (dump_1c ''TUPLE '' '''') exec_mktuple,
      mkfixed 0x6f1 12 4 (dump_1c ''INDEX '' '''') exec_tuple_index,
      mkfixed 0x6f2 12 4 (dump_1c ''UNTUPLE '' '''') exec_untuple,
      mkfixed 0x6f3 12 4 (dump_1c ''UNPACKFIRST '' '''') exec_untuple_first,
      mkfixed 0x6f4 12 4 (dump_1c ''EXPLODE '' '''') exec_explode_tuple,
      mkfixed 0x6f5 12 4 (dump_1c ''SETINDEX '' '''') exec_tuple_set_index,
      mkfixed 0x6f6 12 4 (dump_1c ''INDEXQ '' '''') exec_tuple_quiet_index,
      mkfixed 0x6f7 12 4 (dump_1c ''SETINDEXQ '' '''') exec_tuple_quiet_set_index,
      mksimple 0x6f80 16 ''TUPLEVAR'' exec_mktuple_var,
      mksimple 0x6f81 16 ''INDEXVAR'' exec_tuple_index_var,
      mksimple 0x6f82 16 ''UNTUPLEVAR'' exec_untuple_var,
      mksimple 0x6f83 16 ''UNPACKFIRSTVAR'' exec_untuple_first_var,
      mksimple 0x6f84 16 ''EXPLODEVAR'' exec_explode_tuple_var,
      mksimple 0x6f85 16 ''SETINDEXVAR'' exec_tuple_set_index_var,
      mksimple 0x6f86 16 ''INDEXVARQ'' exec_tuple_quiet_index_var,
      mksimple 0x6f87 16 ''SETINDEXVARQ'' exec_tuple_quiet_set_index_var,
      mksimple 0x6f88 16 ''TLEN'' exec_tuple_length,
      mksimple 0x6f89 16 ''QTLEN'' exec_tuple_length_quiet,
      mksimple 0x6f8a 16 ''ISTUPLE'' exec_is_tuple,
      mksimple 0x6f8b 16 ''LAST'' exec_tuple_last,
      mksimple 0x6f8c 16 ''TPUSH'' exec_tuple_push,
      mksimple 0x6f8d 16 ''TPOP'' exec_tuple_pop,
      mksimple 0x6fa0 16 ''NULLSWAPIF'' (exec_null_swap_if True 0),
      mksimple 0x6fa1 16 ''NULLSWAPIFNOT'' (exec_null_swap_if False 0),
      mksimple 0x6fa2 16 ''NULLROTRIF'' (exec_null_swap_if True 1),
      mksimple 0x6fa3 16 ''NULLROTRIFNOT'' (exec_null_swap_if False 1),
      mksimple 0x6fa4 16 ''NULLSWAPIF2'' (exec_null_swap_if_many True 0 2),
      mksimple 0x6fa5 16 ''NULLSWAPIFNOT2'' (exec_null_swap_if_many False 0 2),
      mksimple 0x6fa6 16 ''NULLROTRIF2'' (exec_null_swap_if_many True 1 2),
      mksimple 0x6fa7 16 ''NULLROTRIFNOT2'' (exec_null_swap_if_many False 1 2),
      mkfixed 0x6fb 12 4 dump_tuple_index2 exec_tuple_index2,
      mkfixed (0x6fc div 4) 10 6 dump_tuple_index3 exec_tuple_index3]"

section \<open>No instruction gives gas back\<close>

lemma on_stack_exact:
  "on_stack f st = Inr st' \<Longrightarrow> gas st' = gas st \<and> global_version st' = global_version st"
  by (auto simp: on_stack_def rsimps)

lemma consume_tuple_gas_exact:
  "consume_tuple_gas n st = Inr st' \<Longrightarrow> gas_remaining (gas st') = gas_remaining (gas st) - int n \<and>
    global_version st' = global_version st \<and> stack st' = stack st"
  unfolding consume_tuple_gas_def by (drule consume_gas_exact) simp

lemmas exact_dests = on_stack_exact consume_gas_exact consume_tuple_gas_exact

lemma basic_ops_never_refund:
  "never_refunds exec_nop" "never_refunds exec_swap" "never_refunds (exec_xchg0 a)" "never_refunds (exec_xchg0_l a)"
  "never_refunds (exec_xchg a)" "never_refunds (exec_xchg1 a)" "never_refunds exec_dup"
  "never_refunds exec_over" "never_refunds (exec_push a)" "never_refunds (exec_push_l a)" "never_refunds exec_drop"
  "never_refunds exec_nip" "never_refunds (exec_pop a)" "never_refunds (exec_pop_l a)" "never_refunds exec_tuck"
  "never_refunds exec_depth"
  by (simp_all add: never_refunds_def exec_nop_def, simp_all add: exec_swap_def exec_xchg0_def exec_xchg0_l_def
      exec_xchg_def exec_xchg1_def exec_dup_def exec_over_def exec_push_def exec_push_l_def exec_drop_def
      exec_nip_def exec_pop_def exec_pop_l_def exec_tuck_def exec_depth_def flip: never_refunds_def)

lemma compound_ops_never_refund:
  "never_refunds (exec_xchg2 a)" "never_refunds (exec_xcpu a)" "never_refunds (exec_puxc a)"
  "never_refunds (exec_push2 a)" "never_refunds (exec_xchg3 a)" "never_refunds (exec_xc2pu a)"
  "never_refunds (exec_xcpuxc a)" "never_refunds (exec_xcpu2 a)" "never_refunds (exec_puxc2 a)"
  "never_refunds (exec_puxcpu a)" "never_refunds (exec_pu2xc a)" "never_refunds (exec_push3 a)"
  by (simp_all add: exec_xchg2_def exec_xcpu_def exec_puxc_def exec_push2_def exec_xchg3_def exec_xc2pu_def
    exec_xcpuxc_def exec_xcpu2_def exec_puxc2_def exec_puxcpu_def exec_pu2xc_def exec_push3_def)

lemma block_ops_never_refund:
  "never_refunds (exec_blkswap a)" "never_refunds exec_rot" "never_refunds exec_rotrev" "never_refunds exec_2swap"
  "never_refunds exec_2drop" "never_refunds exec_2dup" "never_refunds exec_2over" "never_refunds (exec_reverse a)"
  "never_refunds (exec_blkdrop a)" "never_refunds (exec_blkdrop2 a)" "never_refunds (exec_blkpush a)"
  by (simp_all add: exec_blkswap_def exec_rot_def exec_rotrev_def exec_2swap_def exec_2drop_def exec_2dup_def
    exec_2over_def exec_reverse_def exec_blkdrop_def exec_blkdrop2_def exec_blkpush_def)

lemma indexed_ops_never_refund:
  "never_refunds exec_pick" "never_refunds exec_roll" "never_refunds exec_rollrev" "never_refunds exec_blkswap_x"
  "never_refunds exec_reverse_x" "never_refunds exec_drop_x" "never_refunds exec_xchg_x" "never_refunds exec_chkdepth"
  "never_refunds exec_onlytop_x" "never_refunds exec_only_x"
  unfolding exec_pick_def exec_roll_def exec_rollrev_def exec_blkswap_x_def exec_reverse_x_def
    exec_drop_x_def exec_xchg_x_def exec_chkdepth_def exec_onlytop_x_def exec_only_x_def
  by (auto intro!: never_refundsI simp: rsimps Let_def spent_def dest!: exact_dests split: if_splits)

lemma tuple_ops_never_refund:
  "never_refunds exec_push_null" "never_refunds exec_is_null" "never_refunds (exec_null_swap_if c d)"
  "never_refunds (exec_null_swap_if_many c d k)" "never_refunds (exec_tuple_index a)"
  "never_refunds exec_tuple_index_var" "never_refunds (exec_tuple_quiet_index a)"
  "never_refunds exec_tuple_quiet_index_var" "never_refunds exec_tuple_length" "never_refunds exec_tuple_length_quiet"
  "never_refunds exec_is_tuple" "never_refunds exec_tuple_last" "never_refunds (exec_tuple_index2 a)"
  "never_refunds (exec_tuple_index3 a)"
  unfolding exec_push_null_def exec_is_null_def exec_null_swap_if_def exec_null_swap_if_many_def
    exec_tuple_index_def exec_tuple_index_var_def exec_tuple_quiet_index_def exec_tuple_quiet_index_var_def
    exec_tuple_length_def exec_tuple_length_quiet_def exec_is_tuple_def exec_tuple_last_def exec_tuple_index2_def
    exec_tuple_index3_def
  by (auto intro!: never_refundsI simp: rsimps Let_def spent_def dest!: exact_dests split: if_splits)

lemma tuple_common_spent:
  "exec_mktuple_common n st = Inr st' \<Longrightarrow> spent st st'"
  "exec_tuple_set_index_common n st = Inr st' \<Longrightarrow> spent st st'"
  "exec_tuple_quiet_set_index_common n st = Inr st' \<Longrightarrow> spent st st'"
  unfolding exec_mktuple_common_def exec_tuple_set_index_common_def exec_tuple_quiet_set_index_common_def
  by (auto simp: rsimps spent_def dest!: exact_dests split: if_splits prod.splits)

lemma do_explode_tuple_spent: "do_explode_tuple tup n st = Inr st' \<Longrightarrow> spent st st'"
  unfolding do_explode_tuple_def
  by (auto simp: rsimps spent_def dest!: exact_dests split: if_splits prod.splits)

lemma tuple_build_never_refund:
  "never_refunds (exec_mktuple a)" "never_refunds exec_mktuple_var" "never_refunds (exec_tuple_set_index a)"
  "never_refunds exec_tuple_set_index_var" "never_refunds (exec_tuple_quiet_set_index a)"
  "never_refunds exec_tuple_quiet_set_index_var" "never_refunds exec_tuple_push" "never_refunds exec_tuple_pop"
  unfolding exec_mktuple_def exec_mktuple_var_def exec_tuple_set_index_def exec_tuple_set_index_var_def
    exec_tuple_quiet_set_index_def exec_tuple_quiet_set_index_var_def exec_tuple_push_def exec_tuple_pop_def
  by (auto intro!: never_refundsI simp: rsimps dest!: tuple_common_spent split: if_splits,
      auto simp: rsimps spent_def dest!: exact_dests)

lemma tuple_unpack_never_refund:
  "never_refunds (exec_untuple a)" "never_refunds exec_untuple_var" "never_refunds (exec_untuple_first a)"
  "never_refunds exec_untuple_first_var" "never_refunds (exec_explode_tuple a)" "never_refunds exec_explode_tuple_var"
  unfolding exec_untuple_def exec_untuple_var_def exec_untuple_first_def exec_untuple_first_var_def
    exec_explode_tuple_def exec_explode_tuple_var_def exec_untuple_common_def exec_untuple_first_common_def
    exec_explode_tuple_common_def
  by (auto intro!: never_refundsI simp: rsimps dest!: do_explode_tuple_spent,
      auto simp: spent_def dest!: exact_dests)

section \<open>The tables are instruction sets\<close>

lemmas ops_safe = basic_ops_safe compound_ops_safe block_ops_safe indexed_ops_safe only_ops_safe
  tuple_access_safe tuple_nested_safe tuple_build_safe tuple_unpack_safe

lemmas ops_never_refund = basic_ops_never_refund compound_ops_never_refund block_ops_never_refund
  indexed_ops_never_refund tuple_ops_never_refund tuple_build_never_refund tuple_unpack_never_refund

lemmas mk_ok_intros = mk_ok_simple mk_ok_fixed mk_ok_fixedrange

text \<open>The opcodes of the short form of XCHG s1,s(i) only have operands from 2 on, as its code assumes.\<close>

lemma xchg1_operands: "0x12 \<le> x \<Longrightarrow> x < 0x20 \<Longrightarrow> 2 \<le> arg_lo x"
  unfolding arg_lo_def by presburger

lemma stack_ops_ascending: "ascending 0 (stack_ops :: (vm_fault + 'r opcode_instr) list)"
  by (simp add: stack_ops_def ascending_mk max_opcode_bits_def del: ascending.simps(2))

lemma tuple_ops_ascending: "ascending (0x6d * 2 ^ 16) (tuple_ops :: (vm_fault + 'r opcode_instr) list)"
  by (simp add: tuple_ops_def ascending_mk max_opcode_bits_def del: ascending.simps(2))

lemma stack_ops_ok: "list_all mk_ok stack_ops"
  unfolding stack_ops_def list.pred_inject
  by (intro conjI TrueI mk_ok_intros) (simp_all add: action_ok_def ops_safe ops_never_refund xchg1_operands)

lemma tuple_ops_ok: "list_all mk_ok tuple_ops"
  unfolding tuple_ops_def list.pred_inject
  by (intro conjI TrueI mk_ok_intros) (simp_all add: action_ok_def ops_safe ops_never_refund)

lemma stack_ops_below: "Inr i \<in> set stack_ops \<Longrightarrow> opcode_max i \<le> 0x6d * 2 ^ 16"
  unfolding stack_ops_def mksimple_def mkfixed_def mkfixedrange_def opcode_range_def max_opcode_bits_def
  by (auto simp: opcode_max_def)

lemma tuple_ops_below: "Inr i \<in> set tuple_ops \<Longrightarrow> opcode_max i \<le> 0x70 * 2 ^ 16"
  unfolding tuple_ops_def mksimple_def mkfixed_def mkfixedrange_def opcode_range_def max_opcode_bits_def
  by (auto simp: opcode_max_def)

text \<open>Every instruction leaves the code right behind itself.\<close>

definition mk_linear :: "vm_fault + 'r opcode_instr \<Rightarrow> bool" where
  "mk_linear m = (\<forall>i. m = Inr i \<longrightarrow> instr_linear i)"

lemma mk_linear_simps [simp]:
  "mk_linear (mksimple opcode n name f)" "mk_linear (mkfixed opcode n a dump g)"
  "mk_linear (mkfixedrange lo hi tot a dump g)"
  by (auto simp: mk_linear_def mksimple_def mkfixed_def mkfixedrange_def rsimps split: if_splits)

lemma mk_linear_push_int [simp]:
  "mk_linear (mkextrange lo hi tot a dump_push_int exec_push_int compute_len_push_int :: vm_fault + 'r opcode_instr)"
proof -
  have "cs' = drop (compute_len_push_int cs args tot) cs \<and> compute_len_push_int cs args tot \<le> length cs \<and>
      snd (dump_push_int cs args tot) = cs'"
    if "exec_push_int args tot cs st = Inr (st', cs')" for args cs and st st' :: "'r vm_state" and cs'
    using push_int_linear [OF that]
    by (auto simp: compute_len_push_int_def dump_push_int_def fetch_int256_def add.commute)
  then show ?thesis by (auto simp: mk_linear_def mkextrange_def)
qed

lemma ops_linear: "list_all mk_linear stack_ops" "list_all mk_linear tuple_ops" "list_all mk_linear arith_ops"
  unfolding stack_ops_def tuple_ops_def arith_ops_def arith_table_defs by simp_all

text \<open>The first three groups of \<open>init_op_cp0\<close>.\<close>

definition op_cp0 :: "(vm_fault + 'r opcode_instr) list" where
  "op_cp0 = stack_ops @ tuple_ops @ arith_ops"

interpretation cp0: linear_instruction_set "op_cp0 :: (vm_fault + 'r opcode_instr) list"
proof unfold_locales
  have "ascending 0 (stack_ops @ (tuple_ops @ arith_ops_by_opcode) :: (vm_fault + 'r opcode_instr) list)"
  proof (rule ascending_append [OF stack_ops_ascending])
    show "ascending (0x6d * 2 ^ 16) (tuple_ops @ arith_ops_by_opcode :: (vm_fault + 'r opcode_instr) list)"
      using tuple_ops_ascending arith_ops_ascending by (rule ascending_append) (use tuple_ops_below in auto)
  qed (use stack_ops_below in auto)
  then show "\<exists>t. register_all op_cp0 (empty_table :: 'r opcode_table) = Inr t"
    by (rule ascending_registers) (simp add: op_cp0_def arith_ops_by_opcode_mset)
  have "list_all mk_ok (op_cp0 :: (vm_fault + 'r opcode_instr) list)" "list_all mk_linear (op_cp0 :: (vm_fault + 'r opcode_instr) list)"
    by (simp_all add: op_cp0_def stack_ops_ok tuple_ops_ok arith_ops_ok ops_linear)
  then show "instr_ok i" "instr_linear i" if "Inr i \<in> set op_cp0" for i :: "'r opcode_instr"
    using that by (auto simp: list_all_iff mk_ok_def mk_linear_def)
qed

section \<open>Running the codepage\<close>

text \<open>C12. The codepage can be registered, and it decodes every 24-bit opcode in exactly one way: the binary search of
  \<open>lookup_instr\<close> finds an instruction whose range contains the opcode, it is the registered instruction with
  that property if there is one, and a dummy instruction otherwise.\<close>

theorem opcode_decoded_uniquely:
  "\<exists>t. complete_table (op_cp0 :: (vm_fault + 'r opcode_instr) list) = Inr t \<and> is_final t \<and>
     (\<forall>opcode < top_opcode. \<exists>i. lookup_instr t opcode = Inr i \<and> in_range opcode i \<and>
        (Inr i \<in> set op_cp0 \<or> (\<exists>a b. i = Dummy a b)) \<and>
        (\<forall>j. Inr j \<in> set op_cp0 \<and> in_range opcode j \<longrightarrow> i = j))"
proof -
  obtain t where t: "complete_table (op_cp0 :: (vm_fault + 'r opcode_instr) list) = Inr t" "is_final t"
    using cp0.completes by blast
  then show ?thesis using cp0.lookup_finds [OF t(1)] by auto
qed

lemma add_registered: "Inr (Simplest 0xa00000 0xa10000 8 ''ADD'' (exec_add False)) \<in> set op_cp0"
  by (simp add: op_cp0_def arith_ops_def add_mul_ops_def mksimple_def opcode_range_def max_opcode_bits_def)

theorem opcode_decoded_uniquely_witness:
  "\<exists>t. complete_table (op_cp0 :: (vm_fault + nat opcode_instr) list) = Inr t \<and>
     lookup_instr t 0xa07122 = Inr (Simplest 0xa00000 0xa10000 8 ''ADD'' (exec_add False))"
proof -
  obtain t where t: "complete_table (op_cp0 :: (vm_fault + nat opcode_instr) list) = Inr t"
    "\<forall>opcode < top_opcode. \<exists>i. lookup_instr t opcode = Inr i \<and> in_range opcode i \<and>
        (Inr i \<in> set op_cp0 \<or> (\<exists>a b. i = Dummy a b)) \<and>
        (\<forall>j. Inr j \<in> set op_cp0 \<and> in_range opcode j \<longrightarrow> i = j)"
    using opcode_decoded_uniquely [where 'r = nat] by blast
  have "0xa07122 < top_opcode" by (simp add: top_opcode_def max_opcode_bits_def)
  from t(2) [rule_format, OF this] obtain i where i: "lookup_instr t 0xa07122 = Inr i"
    "Inr j \<in> set op_cp0 \<Longrightarrow> in_range 0xa07122 j \<Longrightarrow> i = j" for j
    by blast
  have "i = Simplest 0xa00000 0xa10000 8 ''ADD'' (exec_add False)"
    by (rule i(2) [OF add_registered]) (simp add: in_range_def opcode_min_def opcode_max_def)
  with t(1) i(1) show ?thesis by blast
qed

text \<open>C13. Whatever the code is, a round of the machine on a well-formed state (integers of 257 bits, tuples of at most
  255 entries) ends in a regular exception of the machine or in a well-formed state; it takes at least one bit of
  the code and at least the price of an instruction, and it never leaves the gas negative.\<close>

theorem rounds_keep_states_wellformed:
  assumes "complete_table (op_cp0 :: (vm_fault + 'r opcode_instr) list) = Inr t" "vm_ok st"
  shows "case step_code t cs st of
      Inl f \<Rightarrow> \<not> undefined_behaviour f
    | Inr (st', cs') \<Rightarrow> vm_ok st' \<and> length cs' < length cs \<and> 0 \<le> gas_remaining (gas st') \<and>
        gas_remaining (gas st') + gas_per_instr \<le> gas_remaining (gas st)"
  using cp0.step_safe [OF assms, of cs] cp0.step_InrD [OF assms, of cs]
  by (auto simp: faultless_def split: sum.splits)

text \<open>C14. Every run of straight-line code ends. As many rounds as the code has bits are enough, and so are as many as
  the gas can pay for; the run raises a regular exception or executes the code to its end, in a well-formed state,
  at the price of at least ten units of gas for each instruction.\<close>

theorem runs_end:
  assumes "complete_table (op_cp0 :: (vm_fault + 'r opcode_instr) list) = Inr t" "vm_ok st" "0 \<le> gas_remaining (gas st)"
    and "length cs \<le> fuel \<or> nat (gas_remaining (gas st)) div 10 < fuel"
  shows "run_code t fuel cs st = run_code t (length cs) cs st \<and>
    (case run_code t fuel cs st of
      Inl f \<Rightarrow> \<not> undefined_behaviour f
    | Inr (k, st', cs') \<Rightarrow> cs' = [] \<and> vm_ok st' \<and> 0 \<le> gas_remaining (gas st') \<and>
        gas_remaining (gas st') + 10 * int k \<le> gas_remaining (gas st))"
  using cp0.run_fuel [OF assms(1,2,4)] cp0.run_safe [OF assms(1-3), of cs "length cs"]
  by (auto simp: faultless_def gas_per_instr_def split: sum.splits)

text \<open>C15. The three readers of the code agree: where the machine executes an instruction, the length that \<open>instr_len\<close>
  gives is the number of bits that the execution takes off the code, and the disassembler stops at the same place.\<close>

theorem readers_of_code_agree:
  assumes "complete_table (op_cp0 :: (vm_fault + 'r opcode_instr) list) = Inr t" "vm_ok st" "dispatch t cs st = Inr (st', cs')"
  shows "\<exists>n text. instr_len t cs = Inr n \<and> 0 < n \<and> n \<le> length cs \<and> cs' = drop n cs \<and> dump_instr t cs = Inr (text, cs')"
  using assms by (rule cp0.lengths_agree)

text \<open>The code of one addition, run on two numbers: the machine finds the instruction and pushes the sum.\<close>

lemma dispatch_registered:
  assumes "complete_table (op_cp0 :: (vm_fault + 'r opcode_instr) list) = Inr t" "prefetch_opcode cs = (opcode, n)"
    and "Inr j \<in> set (op_cp0 :: (vm_fault + 'r opcode_instr) list)" "in_range opcode j"
  shows "dispatch t cs st = dispatch_instr j opcode n cs st" "instr_len t cs = Inr (opcode_len j opcode n cs)"
    "dump_instr t cs = Inr (dump_opcode j opcode n cs)"
proof -
  have "opcode < top_opcode" using prefetch_opcode_less [of cs] assms(2) by simp
  from cp0.lookup_finds [OF assms(1) this] assms(3,4) have "lookup_instr t opcode = Inr j" by auto
  moreover have "is_final t" by (metis assms(1) cp0.completes sum.inject(2))
  ultimately show "dispatch t cs st = dispatch_instr j opcode n cs st" "instr_len t cs = Inr (opcode_len j opcode n cs)"
    "dump_instr t cs = Inr (dump_opcode j opcode n cs)"
    using assms(2) by (simp_all add: dispatch_def instr_len_def dump_instr_def)
qed

definition add_code :: bits where
  "add_code = [True, False, True, False, False, False, False, False]"

definition add_result :: "int \<Rightarrow> nat vm_state" where
  "add_result g = (demo_state 4 [Int_e (Some 5)])\<lparr>gas := (gas_limits_init 1000 1000 0)\<lparr>gas_remaining := g\<rparr>\<rparr>"

lemma add_runs:
  assumes "complete_table (op_cp0 :: (vm_fault + nat opcode_instr) list) = Inr t"
  shows "dispatch t add_code (demo_state 4 [Int_e (Some 3), Int_e (Some 2)]) = Inr (add_result 982, [])"
    "instr_len t add_code = Inr 8" "dump_instr t add_code = Inr (''ADD'', [])"
proof -
  let ?i = "Simplest 0xa00000 0xa10000 8 ''ADD'' (exec_add False) :: nat opcode_instr"
  have p: "prefetch_opcode add_code = (0xa00000, 8)"
    by (simp add: prefetch_opcode_def add_code_def max_opcode_bits_def bits_to_nat_def)
  have r: "in_range 0xa00000 ?i" by (simp add: in_range_def opcode_min_def opcode_max_def)
  note d = dispatch_registered [OF assms p add_registered r]
  have "consume_gas 18 (demo_state 4 [Int_e (Some 3), Int_e (Some 2)]) =
      Inr ((demo_state 4 [Int_e (Some 3), Int_e (Some 2)] :: nat vm_state)\<lparr>gas := (gas_limits_init 1000 1000 0)\<lparr>gas_remaining := 982\<rparr>\<rparr>)"
    by code_simp
  moreover have "exec_add False ((demo_state 4 [Int_e (Some 3), Int_e (Some 2)] :: nat vm_state)\<lparr>gas := (gas_limits_init 1000 1000 0)\<lparr>gas_remaining := 982\<rparr>\<rparr>) =
      Inr (add_result 982)"
    by code_simp
  ultimately show "dispatch t add_code (demo_state 4 [Int_e (Some 3), Int_e (Some 2)]) = Inr (add_result 982, [])"
    by (simp add: d dispatch_defs gas_per_instr_def gas_per_bit_def) (simp add: add_code_def)
  show "instr_len t add_code = Inr 8" "dump_instr t add_code = Inr (''ADD'', [])"
    by (simp_all add: d len_defs dump_defs) (simp add: add_code_def)
qed

lemma add_state_ok: "vm_ok (demo_state 4 [Int_e (Some 3), Int_e (Some 2)])"
  by (simp add: vm_ok_def demo_state_def fits_257_def)

lemma add_step:
  assumes "complete_table (op_cp0 :: (vm_fault + nat opcode_instr) list) = Inr t"
  shows "step_code t add_code (demo_state 4 [Int_e (Some 3), Int_e (Some 2)]) = Inr (add_result 982, [])"
  by (simp add: step_code_def add_runs [OF assms]) (simp add: add_result_def gas_check_def rguard_def)

theorem rounds_keep_states_wellformed_witness:
  "\<exists>t. complete_table (op_cp0 :: (vm_fault + nat opcode_instr) list) = Inr t \<and>
     step_code t add_code (demo_state 4 [Int_e (Some 3), Int_e (Some 2)]) = Inr (add_result 982, []) \<and>
     vm_ok (add_result 982) \<and> 982 + gas_per_instr \<le> 1000"
proof -
  obtain t where t: "complete_table (op_cp0 :: (vm_fault + nat opcode_instr) list) = Inr t" using cp0.completes by blast
  from rounds_keep_states_wellformed [OF t add_state_ok, of add_code] t add_step [OF t] show ?thesis
    by (simp add: gas_per_instr_def)
qed

theorem runs_end_witness:
  "\<exists>t. complete_table (op_cp0 :: (vm_fault + nat opcode_instr) list) = Inr t \<and>
     run_code t 1000 add_code (demo_state 4 [Int_e (Some 3), Int_e (Some 2)]) = Inr (1, add_result 982, []) \<and>
     vm_ok (add_result 982)"
proof -
  obtain t where t: "complete_table (op_cp0 :: (vm_fault + nat opcode_instr) list) = Inr t" using cp0.completes by blast
  have l: "length add_code = Suc 7" by (simp add: add_code_def)
  have "0 \<le> gas_remaining (gas (demo_state 4 [Int_e (Some 3), Int_e (Some 2)] :: nat vm_state))"
    by (simp add: demo_state_def gas_limits_init_def)
  moreover have "run_code t (Suc 7) add_code (demo_state 4 [Int_e (Some 3), Int_e (Some 2)]) = Inr (1, add_result 982, [])"
    using add_step [OF t] l by (auto simp: numeral_eq_Suc)
  ultimately show ?thesis
    using runs_end [OF t add_state_ok, of add_code 1000] l t by auto
qed

theorem readers_of_code_agree_witness:
  "\<exists>t. complete_table (op_cp0 :: (vm_fault + nat opcode_instr) list) = Inr t \<and>
     instr_len t add_code = Inr 8 \<and> [] = drop 8 add_code \<and> dump_instr t add_code = Inr (''ADD'', [])"
proof -
  obtain t where t: "complete_table (op_cp0 :: (vm_fault + nat opcode_instr) list) = Inr t" using cp0.completes by blast
  from readers_of_code_agree [OF t add_state_ok add_runs(1) [OF t]] add_runs(2,3) [OF t] t show ?thesis by auto
qed

end
