(* ===== verification/Bigint_Props.thy ===== *)
theory Bigint_Props
  imports Bigint_Size
begin

text \<open>
  The correctness statements of the big integer arithmetic: the operators on 257-bit integers compute
  exact results, normalisation is canonical, comparisons and size tests decide what they name, and the
  64-bit words that hold the digits never overflow in between.
\<close>

section \<open>Words never overflow\<close>


definition within :: "int \<Rightarrow> digits \<Rightarrow> bool" where
  "within b ds = list_all (\<lambda>d. \<bar>d\<bar> \<le> b) ds"



lemma within_simps [simp]:
  "within b []"
  "within b (d # ds) \<longleftrightarrow> \<bar>d\<bar> \<le> b \<and> within b ds"
  "within b (xs @ ys) \<longleftrightarrow> within b xs \<and> within b ys"
  by (auto simp: within_def)

















section \<open>Properties\<close>



text \<open>C17. The operators on the integers of the machine are exact: on operands that are 257-bit big
  integers, possibly invalid, sum, difference, product, negation, complement and the sum and
  difference with a machine word are again such integers in normal form; the result is invalid if an
  operand is, it has the exact integer value if that fits 257 bits, and only a result that does not fit may be invalid.\<close>

theorem refint_operators_exact:
  assumes "refint_ok x" "refint_ok y" "\<bar>k\<bar> < 2 ^ 62"
  shows "computes (refint_add x y) (lift2 (+) (big_abs x) (big_abs y)) \<and>
    computes (refint_sub x y) (lift2 (-) (big_abs x) (big_abs y)) \<and>
    computes (refint_mul x y) (lift2 (*) (big_abs x) (big_abs y)) \<and>
    computes (refint_neg x) (lift1 uminus (big_abs x)) \<and>
    computes (refint_not x) (lift1 (\<lambda>v. - v - 1) (big_abs x)) \<and>
    computes (refint_add_long x k) (lift1 (\<lambda>v. v + k) (big_abs x)) \<and>
    computes (refint_sub_long x k) (lift1 (\<lambda>v. v - k) (big_abs x)) \<and>
    (\<bar>k\<bar> \<le> MaxDenorm \<longrightarrow> computes (refint_mul_long x k) (lift1 (\<lambda>v. v * k) (big_abs x)))"
  using assms refint_unary_correct [OF assms(1)] refint_add_sub_correct [OF assms(1,2)]
    refint_mul_correct [OF assms(1,2)] by simp

theorem refint_operators_exact_witness:
  "computes (refint_add [- 1, 0, 0, 0, 2 ^ 48] [1]) (Some (2 ^ 256)) \<and>
   computes (refint_mul [- 1, 0, 0, 0, 2 ^ 48] [1]) (Some (2 ^ 256 - 1)) \<and>
   computes (refint_add_long [- 1, 0, 0, 0, 2 ^ 48] 7) (Some (2 ^ 256 + 6))"
  using refint_operators_exact [of "[- 1, 0, 0, 0, 2 ^ 48]" "[1]" 7]
  by (simp add: refint_ok_def normalized_def digit_ok_def Half_def words_256_def lift2_def lift1_def
      big_abs_def is_valid_def Base_def)



text \<open>C35. Comparisons decide the order of the values: for numbers in normal form the sign, the
  three-way comparison, the equality test and the comparison with a 64-bit word, all computed from
  the digits, are those of the integers represented.\<close>

theorem comparisons_decide_order:
  assumes "normalized x" "normalized y" "- (2 ^ 63) \<le> w" "w < 2 ^ 63"
  shows "sgn_any x = sgn (big_val x) \<and> cmp_any x y = sgn (big_val x - big_val y) \<and>
    (eq_any x y \<longleftrightarrow> big_val x = big_val y) \<and> cmp_any_word x w = sgn (big_val x - w)"
  using assms by (simp add: sgn_any_correct cmp_any_correct eq_any_correct cmp_any_word_correct)

theorem comparisons_decide_order_witness:
  "cmp_any [- 1, 7] [5, 6] = 1 \<and> cmp_any_word [- 1, 7] (- (2 ^ 63)) = 1 \<and> sgn_any [- 1, 7] = 1"
  using comparisons_decide_order [of "[- 1, 7]" "[5, 6]" "- (2 ^ 63)"]
  by (simp add: normalized_def digit_ok_def Half_def Base_def)

text \<open>C36. The size tests and the conversion to a 64-bit word are exact: a number in normal form
  passes the signed (unsigned) test for \<open>n\<close> bits exactly when its value is in the range of \<open>n\<close>-bit
  signed (unsigned) integers, and the conversion returns the value when it is a 64-bit one and \<open>-2 ^ 63\<close> otherwise.\<close>

theorem size_tests_exact:
  assumes "normalized x" "0 < n"
  shows "(signed_fits_bits_any n x \<longleftrightarrow> - (2 ^ nat (n - 1)) \<le> big_val x \<and> big_val x < 2 ^ nat (n - 1)) \<and>
    (unsigned_fits_bits_any n x \<longleftrightarrow> 0 \<le> big_val x \<and> big_val x < 2 ^ nat n) \<and>
    to_long_any x = (if - (2 ^ 63) \<le> big_val x \<and> big_val x < 2 ^ 63 then big_val x else - (2 ^ 63))"
  using assms by (auto simp: signed_fits_bits_any_correct unsigned_fits_bits_any_correct to_long_any_correct)

theorem size_tests_exact_witness:
  "signed_fits_bits_any 257 [- 1, 0, 0, 0, 2 ^ 48] \<and> \<not> signed_fits_bits_any 257 [0, 0, 0, 0, 2 ^ 48] \<and>
   to_long_any [- 1, 2049] = - (2 ^ 63)"
  using size_tests_exact [of "[- 1, 0, 0, 0, 2 ^ 48]" 257] size_tests_exact [of "[0, 0, 0, 0, 2 ^ 48]" 257]
    size_tests_exact [of "[- 1, 2049]" 257]
  by (simp add: normalized_def digit_ok_def Half_def Base_def)

text \<open>Comparing before normalising: when the digit-wise difference of two numbers has digits
  of at most \<open>2 ^ 62\<close> in size, the comparison of denormalised numbers, which stops as
  soon as the leading digits decide, returns the sign of the difference, provided the first number has no more digits than the second.\<close>

theorem denormalised_comparison:
  assumes "length x \<le> length y"
    and "list_all word_digit (map2 (\<lambda>a b. tr a - b) x y @ map uminus (drop (length x) y))"
  shows "cmp_un_any tr x y = sgn (big_val (map2 (\<lambda>a b. tr a - b) x y @ map uminus (drop (length x) y)))"
  using assms by (rule cmp_un_any_correct)

theorem denormalised_comparison_witness:
  "cmp_un_any (\<lambda>d. 2 * d) [3 * Base, 5] [1, 2, 7] = -1"
  using denormalised_comparison [of "[3 * Base, 5]" "[1, 2, 7]" "\<lambda>d. 2 * d"]
  by (simp add: word_digit_def Base_def MaxDenorm_def)

text \<open>C18. Shifts are exact: a left shift multiplies by a power of two or is invalid because
  the product does not fit 257 bits, except that zero cannot be shifted by 260 bits or more; a right shift
  divides by the power of two and rounds down, to the nearest integer or up as asked; and an
  invalid number shifted by enough bits becomes a valid one.\<close>

theorem shifts_exact:
  assumes "refint_ok x" "0 \<le> e"
  shows "computes (refint_lshift x e) (lshift_spec e (big_abs x)) \<and>
    computes (refint_rshift x e rm) (rshift_spec e rm (big_abs x))"
  using refint_lshift_correct [OF assms] refint_rshift_correct [OF assms] by simp

theorem shifts_exact_witness:
  "computes (refint_lshift [7] 100) (Some (7 * 2 ^ 100)) \<and> computes (refint_rshift [7] 1 0) (Some 4) \<and>
   computes (refint_lshift [0] 260) None \<and> computes (refint_rshift [] 13 (- 1)) (Some (- 1))"
  using shifts_exact [of "[7]" 100 0] shifts_exact [of "[7]" 1 0] shifts_exact [of "[0]" 260 0]
    shifts_exact [of "[]" 13 "- 1"]
  by (simp add: refint_ok_def normalized_def digit_ok_def Half_def words_256_def big_abs_def is_valid_def
      lshift_spec_def rshift_spec_def round_quotient_def)


text \<open>C19. The bitwise operators, computed digit by digit on a signed-digit representation with carries
  between the digits, are exact: conjunction, disjunction and exclusive or of two valid numbers are the
  two's-complement operations on the integers, and the result is invalid only when it does not fit 257 bits,
  provided the first operand has at least as many digits as the second. With an invalid operand
  only the absorbing elements give a valid result.\<close>

theorem bitwise_operators_exact:
  assumes "refint_ok x" "refint_ok y" "x \<noteq> []" "y \<noteq> []" "length y \<le> length x"
  shows "computes (refint_and x y) (Some (big_val x AND big_val y)) \<and>
    computes (refint_or x y) (Some (big_val x OR big_val y)) \<and>
    computes (refint_xor x y) (Some (big_val x XOR big_val y)) \<and>
    refint_and [] y = (if y = [0] then [0] else []) \<and> refint_or [] y = (if y = [- 1] then [- 1] else []) \<and>
    refint_xor [] y = []"
proof (intro conjI)
  have ok: "normalized x" "length x \<le> words_256" "normalized y" "length y \<le> words_256"
    using assms by (auto simp: refint_ok_def)
  show "computes (refint_and x y) (Some (big_val x AND big_val y))"
    "computes (refint_or x y) (Some (big_val x OR big_val y))"
    "computes (refint_xor x y) (Some (big_val x XOR big_val y))"
    using refint_logic_exact [OF ok] assms(5) by (auto intro: log_exact_computes)
  show "refint_and [] y = (if y = [0] then [0] else [])" "refint_or [] y = (if y = [- 1] then [- 1] else [])"
    "refint_xor [] y = []"
    by (rule refint_logic_invalid)+
qed

theorem bitwise_operators_exact_witness:
  "computes (refint_and [Half - 1, - 1] [- 4]) (Some (big_val [Half - 1, - 1] AND - 4)) \<and> refint_or [] [- 1] = [- 1]"
  using bitwise_operators_exact [of "[Half - 1, - 1]" "[- 4]"] bitwise_operators_exact [of "[- 1]" "[- 1]"]
  by (simp add: refint_ok_def normalized_def digit_ok_def Half_def words_256_def)

text \<open>C34. The remainder by a power of two goes with the rounded quotient: whatever the rounding, the remainder and the
  quotient of the shift to the right recombine to the number. Rounding down leaves the non-negative residue, rounding
  up its non-positive counterpart, and rounding to the nearest a remainder of at most half the power of two.\<close>

theorem remainder_recombines:
  assumes "normalized x" "length x \<le> words_256" "0 < e" "e \<le> 258" "\<bar>rm\<bar> \<le> 1"
  shows "mod_pow2_round words_256 e rm x \<noteq> [] \<and>
    computes (refint_rshift x e rm) (Some (round_quotient rm (nat e) (big_val x))) \<and>
    round_quotient rm (nat e) (big_val x) * 2 ^ nat e + big_val (mod_pow2_round words_256 e rm x) = big_val x \<and>
    (if rm = - 1 then big_val (mod_pow2_round words_256 e rm x) = big_val x mod 2 ^ nat e
     else if rm = 1 then big_val (mod_pow2_round words_256 e rm x) = - ((- big_val x) mod 2 ^ nat e)
     else - (2 ^ nat (e - 1)) \<le> big_val (mod_pow2_round words_256 e rm x) \<and>
       big_val (mod_pow2_round words_256 e rm x) < 2 ^ nat (e - 1))"
proof -
  have x: "x \<noteq> []" "refint_ok x" using assms by (auto simp: normalized_def refint_ok_def)
  have r: "mod_pow2_round words_256 e rm x \<noteq> []" "big_val (mod_pow2_round words_256 e rm x) = round_remainder rm (nat e) (big_val x)"
    using mod_pow2_round_value [OF assms(1,2), of e rm] assms(3,4) by (simp_all add: words_256_def)
  have "computes (refint_rshift x e rm) (Some (round_quotient rm (nat e) (big_val x)))"
    using refint_rshift_correct [OF x(2), of e rm] assms(3) x(1) by (simp add: rshift_spec_def big_abs_def is_valid_def)
  moreover have "- (2 ^ nat (e - 1)) \<le> round_remainder 0 (nat e) v \<and> round_remainder 0 (nat e) v < 2 ^ nat (e - 1)" for v
  proof -
    obtain k where k: "nat e = Suc k" "nat (e - 1) = k" using assms(3) by (cases "nat e") auto
    define m where "m = v mod 2 ^ Suc k"
    have "0 \<le> m" "m < 2 * 2 ^ k" "(0 :: int) < 2 ^ k" unfolding m_def by simp_all
    moreover have "round_remainder 0 (Suc k) v = (if m < 2 ^ k then m else m - 2 * 2 ^ k)"
      using round_remainder_nearest [of "Suc k" v] by (simp add: m_def)
    ultimately show ?thesis unfolding k by (auto split: if_splits)
  qed
  moreover have "round_quotient rm (nat e) (big_val x) * 2 ^ nat e + round_remainder rm (nat e) (big_val x) = big_val x"
    by (simp add: round_remainder_def)
  moreover have "rm = - 1 \<or> rm = 0 \<or> rm = 1" using assms(5) by linarith
  ultimately show ?thesis using r by (auto simp: round_remainder_floor round_remainder_ceil)
qed

theorem remainder_recombines_witness:
  "computes (refint_rshift [- 7, 3] 3 0) (Some (3 * 2 ^ 49 - 1)) \<and> big_val (mod_pow2_round words_256 3 0 [- 7, 3]) = 1"
  using remainder_recombines [of "[- 7, 3]" 3 0]
  by (simp add: normalized_def digit_ok_def Half_def Base_def words_256_def round_quotient_def)

text \<open>The bit size is the least sufficient one: for a number in normal form (non-negative in the unsigned case)
  it is at most \<open>n\<close> exactly when the number passes the size test for \<open>n\<close> bits.\<close>

theorem bit_size_exact:
  assumes "normalized x" "0 < n" "sgnd \<or> 0 \<le> big_val x"
  shows "bit_size_any sgnd x \<le> n \<longleftrightarrow>
    (if sgnd then - (2 ^ nat (n - 1)) \<le> big_val x \<and> big_val x < 2 ^ nat (n - 1) else big_val x < 2 ^ nat n)"
  using bit_size_least [OF assms(1), of n sgnd] assms
  by (auto simp: signed_fits_bits_any_correct unsigned_fits_bits_any_correct)

theorem bit_size_exact_witness:
  "bit_size_any True [0, - 8] \<le> 56 \<and> \<not> bit_size_any True [0, - 8] \<le> 55 \<and> bit_size_any False [0, 7] \<le> 55"
  using bit_size_exact [of "[0, - 8]" 56 True] bit_size_exact [of "[0, - 8]" 55 True] bit_size_exact [of "[0, 7]" 55 False]
  by (simp add: normalized_def digit_ok_def Half_def Base_def)

end
