(* ===== verification/Fec_Field.thy ===== *)
theory Fec_Field
  imports Fec_Octet
begin

text \<open>
  The octets with the reference product as a field of the library, and the operations of the class \<open>Octet\<close> as
  the operations of that field.
\<close>

section \<open>The field\<close>

lemma xtime_pow_alpha: "(xtime ^^ k) (alpha j) = alpha (k + j)"
  by (simp add: alpha_def funpow_add)

lemma alpha_add_255: "alpha (k + 255) = alpha k"
proof -
  have "oct_exp_precalc ! 255 = 1" by code_simp
  then have "alpha 255 = 1" using oct_exp_alpha [of 255] by simp
  then show ?thesis using xtime_pow_alpha [of k 255] by (simp add: alpha_def)
qed

lemma gf_mul_commute: "gf_mul a b = gf_mul b a"
proof (cases "a = 0 \<or> b = 0")
  case True
  have "gf_mul c 0 = 0" for c using gf_mul_xor_right [of c 0 0] by simp
  with True show ?thesis by auto
next
  case False
  then obtain j k where "a = alpha j" "b = alpha k" using alpha_cases by metis
  then show ?thesis by (simp add: gf_mul_alpha xtime_pow_alpha add.commute)
qed

lemma gf_mul_assoc: "gf_mul (gf_mul a b) c = gf_mul a (gf_mul b c)"
proof (cases "a = 0")
  case False
  then obtain k where k: "a = alpha k" using alpha_cases by blast
  have "gf_mul ((xtime ^^ n) b) c = (xtime ^^ n) (gf_mul b c)" for n
    by (induction n) (simp_all add: gf_mul_xtime)
  then show ?thesis by (simp add: k gf_mul_alpha)
qed simp

lemma alpha_mult_255: "alpha (k * 255) = 1"
proof (induction k)
  case (Suc k)
  then show ?case using alpha_add_255 [of "k * 255"] by (simp add: add.commute)
qed (simp add: alpha_def)

instantiation octet :: field
begin

definition zero_octet :: octet where "0 = Octet 0"

definition one_octet :: octet where "1 = Octet 1"

definition plus_octet :: "octet \<Rightarrow> octet \<Rightarrow> octet" where "a + b = oct_add a b"

definition minus_octet :: "octet \<Rightarrow> octet \<Rightarrow> octet" where "a - b = oct_sub a b"

definition uminus_octet :: "octet \<Rightarrow> octet" where "- a = (a :: octet)"

definition times_octet :: "octet \<Rightarrow> octet \<Rightarrow> octet" where "a * b = Octet (gf_mul (oct_value a) (oct_value b))"

text \<open>The inverse is the power with the exponent 254.\<close>

definition inverse_octet :: "octet \<Rightarrow> octet" where
  "inverse a = (if oct_value a = 0 then Octet 0 else Octet ((gf_mul (oct_value a) ^^ 254) 1))"

definition divide_octet :: "octet \<Rightarrow> octet \<Rightarrow> octet" where "a div b = a * inverse (b :: octet)"

instance
proof
  fix a b c :: octet
  obtain x y z where [simp]: "a = Octet x" "b = Octet y" "c = Octet z" by (cases a; cases b; cases c)
  show "a + b + c = a + (b + c)" by (simp add: plus_octet_def xor.assoc)
  show "a + b = b + a" by (simp add: plus_octet_def xor.commute)
  show "0 + a = a" "- a + a = 0" by (simp_all add: plus_octet_def zero_octet_def uminus_octet_def)
  show "a - b = a + - b" by (simp add: plus_octet_def minus_octet_def uminus_octet_def oct_sub_def)
  show "a * b * c = a * (b * c)" "1 * a = a" "(a + b) * c = a * c + b * c" "(0 :: octet) \<noteq> 1"
    by (simp_all add: times_octet_def gf_mul_assoc one_octet_def plus_octet_def gf_mul_xor_left zero_octet_def)
  show "a * b = b * a" by (simp add: times_octet_def gf_mul_commute)
  show "a div b = a * inverse b" by (rule divide_octet_def)
  show "inverse (0 :: octet) = 0" by (simp add: inverse_octet_def zero_octet_def)
  show "inverse a * a = 1" if "a \<noteq> 0"
  proof -
    have "x \<noteq> 0" using that by (simp add: zero_octet_def)
    then obtain k where k: "x = alpha k" using alpha_cases by blast
    have "(gf_mul x ^^ n) 1 = alpha (k * n)" for n
      by (induction n) (simp_all add: k gf_mul_alpha xtime_pow_alpha, simp add: alpha_def)
    then have "gf_mul ((gf_mul x ^^ 254) 1) x = alpha (k * 255)"
      by (simp add: gf_mul_alpha k xtime_pow_alpha mult.commute [of k])
    also have "\<dots> = 1" by (rule alpha_mult_255)
    finally show ?thesis using \<open>x \<noteq> 0\<close> by (simp add: inverse_octet_def times_octet_def one_octet_def)
  qed
qed

end


section \<open>The operations compute in the field\<close>

lemma oct_add_plus [simp]: "oct_add a b = a + b"
  by (simp add: plus_octet_def)

lemma oct_self_add [simp]: "a + a = (0 :: octet)"
  by (cases a) (simp add: plus_octet_def zero_octet_def del: oct_add_plus)

lemma oct_uminus [simp]: "- a = (a :: octet)"
  by (simp add: uminus_octet_def)

lemma oct_minus_plus [simp]: "a - b = a + (b :: octet)"
  by (simp add: minus_octet_def oct_sub_def)

lemma oct_is_zero_iff [simp]: "oct_is_zero a \<longleftrightarrow> a = 0"
  by (cases a) (simp add: oct_is_zero_def zero_octet_def)

lemma oct_exp_Inr: "i < 510 \<Longrightarrow> oct_exp i = Inr (alpha i)"
  by (simp add: oct_exp_def table_at_def table_lengths oct_exp_alpha)

lemma oct_mul_times [simp]: "oct_mul a b = Inr (a * b)"
proof (cases a; cases b)
  fix x y
  assume [simp]: "a = Octet x" "b = Octet y"
  show ?thesis
  proof (cases "x = 0 \<or> y = 0")
    case True
    then show ?thesis by (auto simp: times_octet_def gf_mul_commute [of x 0])
  next
    case False
    then obtain l m where "oct_log (x - 1) = Inr l" "unat l < 255" "alpha (unat l) = x"
      "oct_log (y - 1) = Inr m" "unat m < 255" "alpha (unat m) = y"
      using oct_log_alpha by meson
    with False show ?thesis
      using gf_mul_alpha [of "unat l" y] xtime_pow_alpha [of "unat l" "unat m"] by (simp add: oct_exp_Inr times_octet_def)
  qed
qed

lemma oct_inverse_inverse [simp]: "a \<noteq> 0 \<Longrightarrow> oct_inverse a = Inr (inverse a)"
proof -
  assume a: "a \<noteq> 0"
  obtain x where [simp]: "a = Octet x" by (cases a)
  with a have "x \<noteq> 0" by (simp add: zero_octet_def)
  then obtain l where l: "oct_log (x - 1) = Inr l" "unat l < 255" "alpha (unat l) = x" using oct_log_alpha by blast
  have "gf_mul (alpha (255 - unat l)) x = alpha (0 + 255)"
    using l xtime_pow_alpha [of "255 - unat l" "unat l"] by (simp add: gf_mul_alpha)
  also have "\<dots> = 1" by (simp only: alpha_add_255) (simp add: alpha_def)
  finally have "Octet (alpha (255 - unat l)) * a = 1" by (simp add: times_octet_def one_octet_def)
  then have "inverse a = Octet (alpha (255 - unat l))" using inverse_unique [of a] by (simp add: mult.commute)
  with l show ?thesis by (simp add: oct_exp_Inr)
qed

lemma oct_div_divide: "oct_div a b = Inr (if b = 0 then a else a / b)"
proof -
  obtain x y where [simp]: "a = Octet x" "b = Octet y" by (cases a; cases b)
  show ?thesis
  proof (cases "x = 0 \<or> y = 0")
    case True
    then show ?thesis by (auto simp: zero_octet_def divide_octet_def times_octet_def)
  next
    case False
    then obtain l m where l: "oct_log (x - 1) = Inr l" "unat l < 255" "alpha (unat l) = x"
      "oct_log (y - 1) = Inr m" "unat m < 255" "alpha (unat m) = y"
      using oct_log_alpha by meson
    define q where "q = Octet (alpha (unat l + 255 - unat m))"
    have "gf_mul (alpha (unat l + 255 - unat m)) y = alpha (unat l + 255)"
      using l xtime_pow_alpha [of "unat l + 255 - unat m" "unat m"] by (simp add: gf_mul_alpha)
    then have "q * b = a" using l by (simp add: q_def times_octet_def alpha_add_255)
    moreover have "b \<noteq> 0" using False by (simp add: zero_octet_def)
    ultimately have "a / b = q" by (simp add: field_simps)
    with False l show ?thesis by (simp add: oct_exp_Inr q_def zero_octet_def)
  qed
qed

text \<open>The inverse of zero reads behind the end of the table of logarithms.\<close>

lemma oct_inverse_zero: "oct_inverse 0 = Inl Out_of_range"
proof -
  have "unat (0 - 1 :: u8) = 255" by code_simp
  then show ?thesis by (simp only: zero_octet_def oct_inverse.simps oct_log_def table_at_def table_lengths) simp
qed


text \<open>C37. The arithmetic by tables of logarithms is the arithmetic of polynomials modulo \<open>x^8 + x^4 + x^3 + x^2 + 1\<close> over two
  elements: products are exact, and for a divisor that is not zero there are a quotient and an inverse.  Division by zero returns the
  dividend, and the inverse of zero reads beyond the table of logarithms.\<close>

theorem octet_arithmetic_exact:
  "oct_mul a b = Inr (Octet (gf_mul (oct_value a) (oct_value b))) \<and>
   (if oct_is_zero b then oct_div a b = Inr a \<and> oct_inverse b = Inl Out_of_range
    else \<exists>q i. oct_div a b = Inr q \<and> oct_mul q b = Inr a \<and> oct_inverse b = Inr i \<and> oct_mul b i = Inr (Octet 1))"
  by (auto simp: times_octet_def [symmetric] oct_div_divide oct_inverse_zero one_octet_def [symmetric])

end
