(* ===== verification/Fec_Simd.thy ===== *)
theory Fec_Simd
  imports Fec_Tables
begin

text \<open>
  The row operations of \<^verbatim>\<open>tdfec/td/fec/algebra/Simd.h\<close>: \<open>Simd_null\<close> works byte by byte with the class \<open>Octet\<close>,
  \<open>Simd_sse\<close> and \<open>Simd_avx\<close> work on registers of sixteen and thirty-two bytes and look the products of the nibbles up in the tables.
  The buffers are lists of the \<open>size\<close> bytes that the operations work on.
\<close>

section \<open>Byte by byte\<close>

primrec rmap :: "('a \<Rightarrow> 'e + 'b) \<Rightarrow> 'a list \<Rightarrow> 'e + 'b list" where
  "rmap f [] = Inr []"
| "rmap f (x # xs) = rbind (f x) (\<lambda>y. rbind (rmap f xs) (\<lambda>ys. Inr (y # ys)))"

lemma rmap_Inr: "(\<And>x. x \<in> set xs \<Longrightarrow> f x = Inr (g x)) \<Longrightarrow> rmap f xs = Inr (map g xs)"
  by (induction xs) auto

primrec rfold :: "('s \<Rightarrow> 'a \<Rightarrow> 'e + 's) \<Rightarrow> 's \<Rightarrow> 'a list \<Rightarrow> 'e + 's" where
  "rfold f s [] = Inr s"
| "rfold f s (x # xs) = rbind (f s x) (\<lambda>s'. rfold f s' xs)"

lemma rfold_append: "rfold f s (xs @ ys) = rbind (rfold f s xs) (\<lambda>s'. rfold f s' ys)"
  by (induction xs arbitrary: s) (simp_all add: rbind_assoc)

lemma rfold_upt:
  assumes "P 0 s" "\<And>i s. i < n \<Longrightarrow> P i s \<Longrightarrow> (case f s i of Inl e \<Rightarrow> Q e | Inr s' \<Rightarrow> P (Suc i) s')"
  shows "case rfold f s [0..<n] of Inl e \<Rightarrow> Q e | Inr s' \<Rightarrow> P n s'"
  using assms(2)
proof (induction n)
  case 0
  then show ?case using assms(1) by simp
next
  case (Suc n)
  then have "case rfold f s [0..<n] of Inl e \<Rightarrow> Q e | Inr s' \<Rightarrow> P n s'" by simp
  moreover have "rbind (f s' n) Inr = f s' n" for s' by (cases "f s' n") simp_all
  ultimately show ?case using Suc.prems [of n] by (cases "rfold f s [0..<n]") (auto simp: rfold_append)
qed

definition null_gf256_add :: "u8 list \<Rightarrow> u8 list \<Rightarrow> u8 list" where
  "null_gf256_add ap bp = map2 (XOR) ap bp"

definition null_gf256_mul :: "u8 list \<Rightarrow> u8 \<Rightarrow> fec_fault + u8 list" where
  "null_gf256_mul ap u = rmap (\<lambda>a. rbind (oct_mul (Octet a) (Octet u)) (\<lambda>p. Inr (oct_value p))) ap"

definition null_gf256_add_mul :: "u8 list \<Rightarrow> u8 list \<Rightarrow> u8 \<Rightarrow> fec_fault + u8 list" where
  "null_gf256_add_mul ap bp u =
     rmap (\<lambda>(a, b). rbind (oct_mul (Octet b) (Octet u)) (\<lambda>p. Inr (oct_value (oct_add (Octet a) p)))) (zip ap bp)"

text \<open>Every bit of the bytes becomes a byte, lowest bit first.\<close>

definition null_gf256_from_gf2 :: "u8 list \<Rightarrow> u8 list" where
  "null_gf256_from_gf2 bp = concat (map (\<lambda>b. map (\<lambda>i. drop_bit i b AND 1) [0..<8]) bp)"

section \<open>Sixteen bytes at a time\<close>

text \<open>
  The instructions on a register, as its bytes with the lowest address first: a shift by four bits to the right within each
  64-bit half, and the selection of bytes of a table by the low nibbles of the bytes of a register.
\<close>

fun srli_lane_4 :: "u8 list \<Rightarrow> u8 list" where
  "srli_lane_4 [] = []"
| "srli_lane_4 [b] = [drop_bit 4 b]"
| "srli_lane_4 (b # c # bs) = (drop_bit 4 b OR push_bit 4 c) # srli_lane_4 (c # bs)"

definition mm_srli_epi64_4 :: "u8 list \<Rightarrow> u8 list" where
  "mm_srli_epi64_4 x = srli_lane_4 (take 8 x) @ srli_lane_4 (drop 8 x)"

definition mm_shuffle_epi8 :: "u8 list \<Rightarrow> u8 list \<Rightarrow> u8 list" where
  "mm_shuffle_epi8 table x = map (\<lambda>b. if bit b 7 then 0 else table ! unat (b AND 15)) x"

definition mm_and_mask :: "u8 list \<Rightarrow> u8 list" where
  "mm_and_mask x = map (\<lambda>b. b AND 15) x"

definition mm_xor :: "u8 list \<Rightarrow> u8 list \<Rightarrow> u8 list" where
  "mm_xor x y = map2 (XOR) x y"

definition sse_mul_16 :: "u8 \<Rightarrow> u8 list \<Rightarrow> u8 list" where
  "sse_mul_16 u ax =
     (let urow_hi = OctMulHi ! unat u; urow_lo = OctMulLo ! unat u;
          lo = mm_and_mask ax; hi = mm_and_mask (mm_srli_epi64_4 ax)
      in mm_xor (mm_shuffle_epi8 urow_lo lo) (mm_shuffle_epi8 urow_hi hi))"

function sse_gf256_mul :: "u8 list \<Rightarrow> u8 \<Rightarrow> u8 list" where
  "sse_gf256_mul ap u =
     (if ap = [] then [] else sse_mul_16 u (take 16 ap) @ sse_gf256_mul (drop 16 ap) u)"
  by pat_completeness auto
termination by (relation "measure (\<lambda>(ap, u). length ap)") auto

function sse_gf256_add_mul :: "u8 list \<Rightarrow> u8 list \<Rightarrow> u8 \<Rightarrow> u8 list" where
  "sse_gf256_add_mul ap bp u =
     (if ap = [] then []
      else mm_xor (take 16 ap) (sse_mul_16 u (take 16 bp)) @ sse_gf256_add_mul (drop 16 ap) (drop 16 bp) u)"
  by pat_completeness auto
termination by (relation "measure (\<lambda>(ap, bp, u). length ap)") auto

function sse_gf256_add :: "u8 list \<Rightarrow> u8 list \<Rightarrow> u8 list" where
  "sse_gf256_add ap bp =
     (if ap = [] then [] else mm_xor (take 16 ap) (take 16 bp) @ sse_gf256_add (drop 16 ap) (drop 16 bp))"
  by pat_completeness auto
termination by (relation "measure (\<lambda>(ap, bp). length ap)") auto

declare sse_gf256_mul.simps [simp del] sse_gf256_add_mul.simps [simp del] sse_gf256_add.simps [simp del]

section \<open>Thirty-two bytes at a time\<close>

text \<open>The instructions on registers of thirty-two bytes; a selection of bytes works within each half of the register.\<close>

definition mm256_broadcast :: "u8 list \<Rightarrow> u8 list" where
  "mm256_broadcast x = x @ x"

definition mm256_srli_epi64_4 :: "u8 list \<Rightarrow> u8 list" where
  "mm256_srli_epi64_4 x = mm_srli_epi64_4 (take 16 x) @ mm_srli_epi64_4 (drop 16 x)"

definition mm256_shuffle_epi8 :: "u8 list \<Rightarrow> u8 list \<Rightarrow> u8 list" where
  "mm256_shuffle_epi8 table x =
     mm_shuffle_epi8 (take 16 table) (take 16 x) @ mm_shuffle_epi8 (drop 16 table) (drop 16 x)"

definition mm256_cmpeq_epi8 :: "u8 list \<Rightarrow> u8 list \<Rightarrow> u8 list" where
  "mm256_cmpeq_epi8 x y = map2 (\<lambda>a b. if a = b then 255 else 0) x y"

definition avx_mul_32 :: "u8 \<Rightarrow> u8 list \<Rightarrow> u8 list" where
  "avx_mul_32 u ax =
     (let urow_hi = mm256_broadcast (OctMulHi ! unat u); urow_lo = mm256_broadcast (OctMulLo ! unat u);
          lo = mm_and_mask ax; hi = mm_and_mask (mm256_srli_epi64_4 ax)
      in mm_xor (mm256_shuffle_epi8 urow_lo lo) (mm256_shuffle_epi8 urow_hi hi))"

function avx_gf256_mul :: "u8 list \<Rightarrow> u8 \<Rightarrow> u8 list" where
  "avx_gf256_mul ap u =
     (if ap = [] then [] else avx_mul_32 u (take 32 ap) @ avx_gf256_mul (drop 32 ap) u)"
  by pat_completeness auto
termination by (relation "measure (\<lambda>(ap, u). length ap)") auto

function avx_gf256_add_mul :: "u8 list \<Rightarrow> u8 list \<Rightarrow> u8 \<Rightarrow> u8 list" where
  "avx_gf256_add_mul ap bp u =
     (if ap = [] then []
      else mm_xor (take 32 ap) (avx_mul_32 u (take 32 bp)) @ avx_gf256_add_mul (drop 32 ap) (drop 32 bp) u)"
  by pat_completeness auto
termination by (relation "measure (\<lambda>(ap, bp, u). length ap)") auto

function avx_gf256_add :: "u8 list \<Rightarrow> u8 list \<Rightarrow> u8 list" where
  "avx_gf256_add ap bp =
     (if ap = [] then [] else mm_xor (take 32 ap) (take 32 bp) @ avx_gf256_add (drop 32 ap) (drop 32 bp))"
  by pat_completeness auto
termination by (relation "measure (\<lambda>(ap, bp). length ap)") auto

text \<open>
  Four bytes of bits become thirty-two bytes: the four bytes are repeated, each is spread over eight places, all bits but one are
  set in each place, and the places that are full give 1.  A 32-bit value is its bytes in the order of the memory.
\<close>

definition get_mask :: "u8 list \<Rightarrow> u8 list" where
  "get_mask bytes =
     (let vmask = concat (replicate 8 bytes);
          shuffle = replicate 8 0 @ replicate 8 1 @ replicate 8 2 @ replicate 8 3;
          spread = mm256_shuffle_epi8 vmask shuffle;
          bit_mask = concat (replicate 4 [0xfe, 0xfd, 0xfb, 0xf7, 0xef, 0xdf, 0xbf, 0x7f])
      in map (\<lambda>b. b AND 1) (mm256_cmpeq_epi8 (map2 (OR) spread bit_mask) (replicate 32 255)))"

function avx_gf256_from_gf2 :: "u8 list \<Rightarrow> u8 list" where
  "avx_gf256_from_gf2 bp =
     (if length bp < 4 then [] else get_mask (take 4 bp) @ avx_gf256_from_gf2 (drop 4 bp))"
  by pat_completeness auto
termination by (relation "measure length") auto

declare avx_gf256_mul.simps [simp del] avx_gf256_add_mul.simps [simp del] avx_gf256_add.simps [simp del]
  avx_gf256_from_gf2.simps [simp del]

section \<open>The entries of the tables\<close>

lemma xtime_of_nat: "n < 128 \<Longrightarrow> xtime (of_nat n) = of_nat (2 * n)"
proof -
  assume n: "n < 128"
  then have "\<not> bit n 7" by (simp add: bit_iff_odd)
  then have "\<not> bit (of_nat n :: u8) 7" by (simp add: bit_simps)
  then show ?thesis by (simp add: xtime_def push_bit_eq_mult)
qed

lemma gf_mul_of_nat:
  assumes "n < 128"
  shows "gf_mul (of_nat (2 * n)) x = xtime (gf_mul (of_nat n) x)"
    "gf_mul (of_nat (2 * n + 1)) x = xtime (gf_mul (of_nat n) x) XOR x"
proof -
  show e: "gf_mul (of_nat (2 * n)) x = xtime (gf_mul (of_nat n) x)"
    using xtime_of_nat [OF assms] gf_mul_xtime [of "of_nat n" x] by simp
  have "(of_nat (2 * n + 1) :: u8) = of_nat (2 * n) XOR 1"
    by (simp add: xor_one_eq)
  then show "gf_mul (of_nat (2 * n + 1)) x = xtime (gf_mul (of_nat n) x) XOR x"
    by (simp only: gf_mul_xor_left e gf_mul_one)
qed

lemma upt_double: "[0..<2 * n] = concat (map (\<lambda>a. [2 * a, 2 * a + 1]) [0..<n])"
  by (induction n) auto

lemma product_rows_eq:
  "n \<le> 8 \<Longrightarrow> product_rows base n = map (\<lambda>a. map (gf_mul (of_nat a)) base) [0..<2 ^ n]"
proof (induction n)
  case (Suc n)
  have "(2 :: nat) ^ n \<le> 2 ^ 7" using Suc.prems by (intro power_increasing) auto
  then have a: "a < 128" if "a \<in> set [0..<2 ^ n]" for a using that by simp
  define row where "row = (\<lambda>a. map (gf_mul (of_nat a)) base)"
  define step where "step = (\<lambda>r. let d = map xtime r in [d, map2 (XOR) d base])"
  have "step (row a) = [row (2 * a), row (2 * a + 1)]" if "a \<in> set [0..<2 ^ n]" for a
    using gf_mul_of_nat [OF a [OF that]]
    by (simp add: step_def row_def Let_def zip_map1 zip_same_conv_map o_def case_prod_beta)
  then have "map (step \<circ> row) [0..<2 ^ n] = map (\<lambda>a. map row [2 * a, 2 * a + 1]) [0..<2 ^ n]"
    by (intro map_cong refl) simp
  then have "concat (map step (map row [0..<2 ^ n])) = map row [0..<2 ^ Suc n]"
    unfolding power_Suc upt_double by (simp only: map_map map_concat o_def)
  moreover have "product_rows base n = map row [0..<2 ^ n]" unfolding row_def using Suc by simp
  ultimately show ?case unfolding row_def [symmetric] by (simp only: product_rows.simps step_def)
qed simp

lemma OctMul_row:
  "OctMulLo ! unat u = map (gf_mul u) low_nibbles" "OctMulHi ! unat u = map (gf_mul u) (map (push_bit 4) low_nibbles)"
proof -
  have "unat u < 2 ^ 8" using unsigned_less [of u, where ?'a = nat] by simp
  then show "OctMulLo ! unat u = map (gf_mul u) low_nibbles" "OctMulHi ! unat u = map (gf_mul u) (map (push_bit 4) low_nibbles)"
    unfolding OctMulLo_rows OctMulHi_rows product_rows_eq [OF order.refl] by simp_all
qed

lemma low_nibbles_nth:
  assumes "k < 16"
  shows "low_nibbles ! k = of_nat k"
proof -
  have e: "low_nibbles = map of_nat [0..<16]" by code_simp
  show ?thesis unfolding e using nth_map_upt [of k 16 0 "of_nat :: nat \<Rightarrow> u8"] assms by (simp only: diff_zero add_0)
qed

section \<open>The vectorised operations are the scalar ones\<close>

lemma and_15: "b AND 15 = take_bit 4 b" for b :: u8
proof -
  have "mask 4 = (15 :: u8)" by code_simp
  then show ?thesis using take_bit_eq_mask [of 4 b] by metis
qed

lemma nibble_index: "b AND 15 = b \<Longrightarrow> unat b < 16" for b :: u8
proof -
  assume "b AND 15 = b"
  then have "b = take_bit 4 b" by (simp add: and_15)
  then have "unat b = take_bit 4 (unat b)" by (metis unsigned_take_bit_eq)
  also have "\<dots> < 2 ^ 4" by (rule take_bit_nat_less_exp)
  finally show ?thesis by simp
qed

lemma shuffle_nibbles:
  assumes "list_all (\<lambda>b. b AND 15 = b) x"
  shows "mm_shuffle_epi8 (map f low_nibbles) x = map f x"
proof -
  have "(if bit b 7 then 0 else map f low_nibbles ! unat (b AND 15)) = f b" if "b AND 15 = b" for b
  proof -
    have "\<not> bit (15 :: u8) 7" by code_simp
    then have "\<not> bit (b AND 15) 7" by (simp only: bit_and_iff) simp
    moreover have "length low_nibbles = 16" by (simp add: low_nibbles_def)
    ultimately show ?thesis using that nibble_index [OF that] low_nibbles_nth [OF nibble_index [OF that]] by simp
  qed
  with assms show ?thesis unfolding mm_shuffle_epi8_def by (simp add: list_all_iff)
qed

lemma high_nibble: "take_bit 4 (drop_bit 4 b OR push_bit 4 c) = drop_bit 4 b" for b c :: u8
  by (rule bit_eqI) (auto simp: bit_simps dest: bit_imp_le_length)

lemma high_nibbles: "mm_and_mask (srli_lane_4 x) = map (drop_bit 4) x"
proof (induction x rule: srli_lane_4.induct)
  case (2 b)
  show ?case using high_nibble [of b 0] by (simp add: mm_and_mask_def and_15)
next
  case (3 b c bs)
  then show ?case using high_nibble [of b c] by (simp add: mm_and_mask_def and_15)
qed (simp add: mm_and_mask_def)

lemma srli_length: "length (srli_lane_4 x) = length x"
  by (induction x rule: srli_lane_4.induct) simp_all

lemma sse_mul_16_eq: "sse_mul_16 u ax = map (\<lambda>a. gf_mul u a) ax"
proof -
  have lo: "mm_shuffle_epi8 (OctMulLo ! unat u) (mm_and_mask ax) = map (\<lambda>a. gf_mul u (take_bit 4 a)) ax"
    unfolding OctMul_row by (subst shuffle_nibbles) (simp_all add: mm_and_mask_def and_15 list_all_iff)
  have "mm_and_mask (mm_srli_epi64_4 ax) = map (drop_bit 4) ax"
    using high_nibbles [of "take 8 ax"] high_nibbles [of "drop 8 ax"] map_append [of "drop_bit 4" "take 8 ax" "drop 8 ax"]
    by (simp add: mm_srli_epi64_4_def mm_and_mask_def)
  moreover have "take_bit 4 (drop_bit 4 a) = drop_bit 4 a" for a :: u8 using high_nibble [of a 0] by simp
  ultimately have hi: "mm_shuffle_epi8 (OctMulHi ! unat u) (mm_and_mask (mm_srli_epi64_4 ax)) =
      map (\<lambda>a. gf_mul u (push_bit 4 (drop_bit 4 a))) ax"
    unfolding OctMul_row map_map by (subst shuffle_nibbles) (simp_all add: and_15 list_all_iff)
  have "take_bit 4 a XOR push_bit 4 (drop_bit 4 a) = a" for a :: u8
    by (rule bit_eqI) (auto simp: bit_simps)
  then show ?thesis
    by (simp add: sse_mul_16_def lo hi mm_xor_def zip_map_map zip_same_conv_map o_def flip: gf_mul_xor_right)
qed

lemma null_values:
  "null_gf256_mul ap u = Inr (map (\<lambda>a. gf_mul a u) ap)"
  "null_gf256_add_mul ap bp u = Inr (map2 (\<lambda>a b. a XOR gf_mul b u) ap bp)"
proof -
  show "null_gf256_mul ap u = Inr (map (\<lambda>a. gf_mul a u) ap)"
    unfolding null_gf256_mul_def by (rule rmap_Inr) (simp add: times_octet_def)
  show "null_gf256_add_mul ap bp u = Inr (map2 (\<lambda>a b. a XOR gf_mul b u) ap bp)"
    unfolding null_gf256_add_mul_def
    by (rule rmap_Inr) (auto simp: times_octet_def plus_octet_def simp del: oct_add_plus)
qed

lemma sse_values:
  "sse_gf256_mul ap u = map (\<lambda>a. gf_mul a u) ap"
  "length ap = length bp \<Longrightarrow> sse_gf256_add_mul ap bp u = map2 (\<lambda>a b. a XOR gf_mul b u) ap bp"
  "length ap = length bp \<Longrightarrow> sse_gf256_add ap bp = map2 (XOR) ap bp"
proof -
  have split: "map2 f ap bp = map2 f (take 16 ap) (take 16 bp) @ map2 f (drop 16 ap) (drop 16 bp)"
    if "length ap = length bp" for f :: "u8 \<Rightarrow> u8 \<Rightarrow> u8" and ap bp
    using that by (metis append_take_drop_id length_take map_append zip_append)
  show "sse_gf256_mul ap u = map (\<lambda>a. gf_mul a u) ap"
  proof (induction ap u rule: sse_gf256_mul.induct)
    case (1 ap u)
    then show ?case
      by (subst sse_gf256_mul.simps) (auto simp: sse_mul_16_eq gf_mul_commute [of u] simp flip: map_append)
  qed
  show "length ap = length bp \<Longrightarrow> sse_gf256_add_mul ap bp u = map2 (\<lambda>a b. a XOR gf_mul b u) ap bp"
  proof (induction ap bp u rule: sse_gf256_add_mul.induct)
    case (1 ap bp u)
    then show ?case using split [of ap bp "\<lambda>a b. a XOR gf_mul b u"]
      by (subst sse_gf256_add_mul.simps) (auto simp: sse_mul_16_eq mm_xor_def zip_map2 o_def case_prod_beta gf_mul_commute [of u])
  qed
  show "length ap = length bp \<Longrightarrow> sse_gf256_add ap bp = map2 (XOR) ap bp"
  proof (induction ap bp rule: sse_gf256_add.induct)
    case (1 ap bp)
    then show ?case using split [of ap bp "(XOR)"] by (subst sse_gf256_add.simps) (auto simp: mm_xor_def)
  qed
qed

lemma avx_mul_32_eq:
  assumes "length ax = 32"
  shows "avx_mul_32 u ax = map (\<lambda>a. gf_mul u a) ax"
proof -
  have row: "length (OctMulHi ! unat u) = 16" "length (OctMulLo ! unat u) = 16" by (simp_all add: OctMul_row low_nibbles_def)
  have len: "length (mm_srli_epi64_4 (take 16 ax)) = 16" using assms sse_mul_16_eq by (simp add: mm_srli_epi64_4_def srli_length)
  have halves: "take 16 (mm256_broadcast r) = r" "drop 16 (mm256_broadcast r) = r" if "length r = 16" for r
    using that by (simp_all add: mm256_broadcast_def)
  have shuffle: "mm256_shuffle_epi8 (mm256_broadcast r) (x @ y) = mm_shuffle_epi8 r x @ mm_shuffle_epi8 r y"
    if "length r = 16" "length x = 16" for r x y using that by (simp add: mm256_shuffle_epi8_def halves)
  have split: "mm_and_mask ax = mm_and_mask (take 16 ax) @ mm_and_mask (drop 16 ax)" "length (mm_and_mask x) = length x" for x
    by (simp_all add: mm_and_mask_def flip: map_append)
  have "mm_and_mask (mm256_srli_epi64_4 ax) = mm_and_mask (mm_srli_epi64_4 (take 16 ax)) @ mm_and_mask (mm_srli_epi64_4 (drop 16 ax))"
    by (simp add: mm256_srli_epi64_4_def mm_and_mask_def)
  then have "avx_mul_32 u ax = sse_mul_16 u (take 16 ax) @ sse_mul_16 u (drop 16 ax)"
    using assms row len
    by (simp add: avx_mul_32_def sse_mul_16_def Let_def split(1) shuffle split(2))
       (simp add: mm_xor_def mm_shuffle_epi8_def split(2))
  then show ?thesis by (simp add: sse_mul_16_eq flip: map_append)
qed

lemma full_place:
  assumes "i < 8"
  shows "(b OR NOT (2 ^ i) = (255 :: u8)) = bit b i"
proof -
  have "(255 :: u8) = - 1" by code_simp
  moreover have "(b OR NOT (push_bit i 1) = - 1) = bit b i"
    using assms bit_eq_iff [of "b OR NOT (push_bit i 1)" "- 1"] by (auto simp: bit_simps)
  ultimately show ?thesis by (simp only: push_bit_of_1)
qed

lemma low_bit: "drop_bit i b AND 1 = of_bool (bit b i)" for b :: u8
  by (simp add: and_one_eq bit_iff_odd_drop_bit odd_iff_mod_2_eq_one)

lemma bit_masks: "[0xfe, 0xfd, 0xfb, 0xf7, 0xef, 0xdf, 0xbf, 0x7f] = map (\<lambda>i. NOT (push_bit i (1 :: u8))) [0..<8]"
  by code_simp

lemma get_mask_eq: "get_mask [a, b, c, d] = null_gf256_from_gf2 [a, b, c, d]"
proof -
  have idx: "\<not> bit (k :: u8) 7 \<and> unat (k AND 15) = unat k" if "k \<in> {0, 1, 2, 3}" for k
  proof -
    have "list_all (\<lambda>k. \<not> bit (k :: u8) 7 \<and> unat (k AND 15) = unat k) [0, 1, 2, 3]" by code_simp
    with that show ?thesis by auto
  qed
  have "mm_shuffle_epi8 [a, b, c, d, a, b, c, d, a, b, c, d, a, b, c, d] (replicate 8 k @ replicate 8 l) =
      replicate 8 ([a, b, c, d] ! unat k) @ replicate 8 ([a, b, c, d] ! unat l)" if "k \<in> {0, 1, 2, 3}" "l \<in> {0, 1, 2, 3}" for k l
    using that idx [OF that(1)] idx [OF that(2)] by (auto simp: mm_shuffle_epi8_def)
  note shuffle = this [of 0 1] this [of 2 3]
  let ?L = "[a, b, c, d, a, b, c, d, a, b, c, d, a, b, c, d]"
  have "unat (0 :: u8) = 0 \<and> unat (1 :: u8) = 1 \<and> unat (2 :: u8) = 2 \<and> unat (3 :: u8) = 3" by code_simp
  moreover have "concat (replicate 8 [a, b, c, d]) = ?L @ ?L" by (simp add: eval_nat_numeral)
  ultimately have "mm256_shuffle_epi8 (concat (replicate 8 [a, b, c, d])) (replicate 8 0 @ replicate 8 1 @ replicate 8 2 @ replicate 8 3) =
      replicate 8 a @ replicate 8 b @ replicate 8 c @ replicate 8 d"
    using shuffle by (simp add: mm256_shuffle_epi8_def)
  moreover define M :: "u8 list" where "M = [0xfe, 0xfd, 0xfb, 0xf7, 0xef, 0xdf, 0xbf, 0x7f]"
  have "length M = 8" by (simp add: M_def)
  moreover have piece: "map (\<lambda>b. b AND 1) (mm256_cmpeq_epi8 (map2 (OR) (replicate 8 x) M) (replicate 8 255)) =
      map (\<lambda>i. drop_bit i x AND 1) [0..<8]" for x
    unfolding M_def bit_masks by (rule nth_equalityI) (simp_all add: mm256_cmpeq_epi8_def full_place low_bit)
  moreover have "replicate 32 (255 :: u8) = replicate 8 255 @ replicate 8 255 @ replicate 8 255 @ replicate 8 255"
    by (simp flip: replicate_add)
  moreover have "concat (replicate 4 M) = M @ M @ M @ M" by (simp add: eval_nat_numeral)
  ultimately show ?thesis
    unfolding get_mask_def Let_def null_gf256_from_gf2_def M_def [symmetric]
    by (simp add: mm256_cmpeq_epi8_def piece [unfolded mm256_cmpeq_epi8_def, simplified])
qed

lemma avx_from_gf2_eq: "4 dvd length bp \<Longrightarrow> avx_gf256_from_gf2 bp = null_gf256_from_gf2 bp"
proof (induction bp rule: avx_gf256_from_gf2.induct)
  case (1 bp)
  show ?case
  proof (cases "length bp < 4")
    case True
    then have "bp = []" using 1(2) by (auto dest: dvd_imp_le)
    then show ?thesis by (simp add: avx_gf256_from_gf2.simps null_gf256_from_gf2_def)
  next
    case False
    then obtain a b c d rest where bp: "bp = a # b # c # d # rest"
      by (auto simp: not_less eval_nat_numeral Suc_le_length_iff)
    then have "4 dvd length rest" using 1(2) dvd_add_right_iff [of 4 4 "length rest"] by (simp add: eval_nat_numeral)
    then have "avx_gf256_from_gf2 rest = null_gf256_from_gf2 rest" using 1(1) bp by simp
    then show ?thesis using bp get_mask_eq [of a b c d]
      by (subst avx_gf256_from_gf2.simps) (simp add: null_gf256_from_gf2_def)
  qed
qed

lemma whole_registers: "32 dvd length xs \<Longrightarrow> xs \<noteq> [] \<Longrightarrow> length (take 32 xs) = 32 \<and> 32 dvd length (drop 32 xs)"
  by (auto dest: dvd_imp_le intro: dvd_diff_nat)

lemma avx_values:
  "32 dvd length ap \<Longrightarrow> avx_gf256_mul ap u = map (\<lambda>a. gf_mul a u) ap"
  "32 dvd length ap \<Longrightarrow> length ap = length bp \<Longrightarrow> avx_gf256_add_mul ap bp u = map2 (\<lambda>a b. a XOR gf_mul b u) ap bp"
  "length ap = length bp \<Longrightarrow> avx_gf256_add ap bp = map2 (XOR) ap bp"
proof -
  have split: "map2 f ap bp = map2 f (take 32 ap) (take 32 bp) @ map2 f (drop 32 ap) (drop 32 bp)"
    if "length ap = length bp" for f :: "u8 \<Rightarrow> u8 \<Rightarrow> u8" and ap bp
    using that by (metis append_take_drop_id length_take map_append zip_append)
  show "32 dvd length ap \<Longrightarrow> avx_gf256_mul ap u = map (\<lambda>a. gf_mul a u) ap"
  proof (induction ap u rule: avx_gf256_mul.induct)
    case (1 ap u)
    then show ?case using whole_registers [of ap] avx_mul_32_eq [of "take 32 ap" u]
      by (subst avx_gf256_mul.simps) (auto simp: gf_mul_commute [of u] simp flip: map_append)
  qed
  show "32 dvd length ap \<Longrightarrow> length ap = length bp \<Longrightarrow> avx_gf256_add_mul ap bp u = map2 (\<lambda>a b. a XOR gf_mul b u) ap bp"
  proof (induction ap bp u rule: avx_gf256_add_mul.induct)
    case (1 ap bp u)
    then show ?case using split [of ap bp "\<lambda>a b. a XOR gf_mul b u"] whole_registers [of ap] avx_mul_32_eq [of "take 32 bp" u]
      by (subst avx_gf256_add_mul.simps) (auto simp: mm_xor_def zip_map2 o_def case_prod_beta gf_mul_commute [of u])
  qed
  show "length ap = length bp \<Longrightarrow> avx_gf256_add ap bp = map2 (XOR) ap bp"
  proof (induction ap bp rule: avx_gf256_add.induct)
    case (1 ap bp)
    then show ?case using split [of ap bp "(XOR)"] by (subst avx_gf256_add.simps) (auto simp: mm_xor_def)
  qed
qed

section \<open>The interface of the row operations\<close>

text \<open>
  What the matrices rely on, for rows of whole registers: the operations are those of the field on every byte.  Hence a row that is
  added twice cancels, adding a row once is adding it with factor 1, and factors multiply.
\<close>

locale row_operations =
  fixes add :: "u8 list \<Rightarrow> u8 list \<Rightarrow> u8 list" and mul :: "u8 list \<Rightarrow> u8 \<Rightarrow> u8 list"
    and add_mul :: "u8 list \<Rightarrow> u8 list \<Rightarrow> u8 \<Rightarrow> u8 list"
  assumes add_bytes: "32 dvd length a \<Longrightarrow> length b = length a \<Longrightarrow> add a b = map2 (XOR) a b"
    and mul_bytes: "32 dvd length a \<Longrightarrow> mul a u = map (\<lambda>x. gf_mul x u) a"
    and add_mul_bytes: "32 dvd length a \<Longrightarrow> length b = length a \<Longrightarrow> add_mul a b u = map2 (\<lambda>x y. x XOR gf_mul y u) a b"
begin

lemma add_mul_one: "32 dvd length a \<Longrightarrow> length b = length a \<Longrightarrow> add_mul a b 1 = add a b"
  using gf_mul_commute [of _ 1] by (simp add: add_bytes add_mul_bytes)

lemma add_mul_split:
  assumes "32 dvd length a" "length b = length a"
  shows "add_mul a b u = add a (mul b u)"
proof -
  have "length (mul b u) = length a" using assms by (simp add: mul_bytes)
  with assms show ?thesis by (simp add: add_bytes add_mul_bytes mul_bytes) (simp add: zip_map2 case_prod_beta o_def)
qed

lemma add_mul_cancel:
  assumes "32 dvd length a" "length b = length a"
  shows "add_mul (add_mul a b u) b u = a"
proof -
  have "length (add_mul a b u) = length a" using assms by (simp add: add_mul_bytes)
  with assms show ?thesis by (intro nth_equalityI) (simp_all add: add_mul_bytes xor.assoc)
qed

lemma mul_mul: "32 dvd length a \<Longrightarrow> mul (mul a u) v = mul a (gf_mul u v)"
  by (simp add: mul_bytes gf_mul_assoc)

end

text \<open>The three implementations; no lookup of the first one fails, so its results are those of \<open>Inr\<close>.\<close>

interpretation null_rows: row_operations null_gf256_add "\<lambda>a u. projr (null_gf256_mul a u)" "\<lambda>a b u. projr (null_gf256_add_mul a b u)"
  by unfold_locales (simp_all add: null_values null_gf256_add_def)

interpretation sse_rows: row_operations sse_gf256_add sse_gf256_mul sse_gf256_add_mul
  by unfold_locales (simp_all add: sse_values)

interpretation avx_rows: row_operations avx_gf256_add avx_gf256_mul avx_gf256_add_mul
  by unfold_locales (simp_all add: avx_values)

text \<open>C25. The three implementations of the row operations agree: on buffers of whole registers, the lookup of both nibbles
  of sixteen or thirty-two bytes at a time in the tables of products gives what the class \<open>Octet\<close> computes byte by byte, no
  table is read outside its bounds, and bits are expanded to bytes in the same order.\<close>

theorem vectorised_rows_equal_scalar:
  assumes "32 dvd length ap" "length bp = length ap"
  shows "null_gf256_mul ap u = Inr (sse_gf256_mul ap u) \<and> null_gf256_mul ap u = Inr (avx_gf256_mul ap u) \<and>
    null_gf256_add_mul ap bp u = Inr (sse_gf256_add_mul ap bp u) \<and> null_gf256_add_mul ap bp u = Inr (avx_gf256_add_mul ap bp u) \<and>
    null_gf256_add ap bp = sse_gf256_add ap bp \<and> null_gf256_add ap bp = avx_gf256_add ap bp \<and>
    null_gf256_from_gf2 ap = avx_gf256_from_gf2 ap"
proof -
  have "4 dvd length ap" using assms(1) by (rule dvd_trans [rotated]) simp
  then show ?thesis
    using assms
    by (simp add: null_values null_rows.add_bytes sse_rows.add_bytes sse_rows.mul_bytes sse_rows.add_mul_bytes
        avx_rows.add_bytes avx_rows.mul_bytes avx_rows.add_mul_bytes avx_from_gf2_eq)
qed

theorem vectorised_rows_equal_scalar_witness:
  "null_gf256_mul (replicate 32 100) 77 = Inr (avx_gf256_mul (replicate 32 100) 77) \<and>
   null_gf256_add_mul (replicate 32 100) (replicate 32 3) 77 =
     Inr (sse_gf256_add_mul (replicate 32 100) (replicate 32 3) 77)"
  using vectorised_rows_equal_scalar [of "replicate 32 100" "replicate 32 3" 77] by (auto simp del: sum.inject)

end
