(* ===== verification/Fec_Matrix.thy ===== *)
theory Fec_Matrix
  imports Fec_Simd
begin

text \<open>
  Matrices of octets, class \<open>MatrixGF256\<close> of \<^verbatim>\<open>tdfec/td/fec/algebra/MatrixGF256.h\<close>.  The storage is the list of the rows,
  each with its \<open>cols_\<close> bytes; the bytes that pad a row to the alignment have no influence on the others.  An access outside
  the matrix, and reading beyond the end of a slice that is shorter than a row, is a fault.
\<close>

section \<open>The class\<close>

record gf256_matrix =
  mrows :: nat
  mcols :: nat
  matrix :: "u8 list list"

text \<open>The storage is value-initialised by \<open>make_unique\<close>.\<close>

definition new_matrix :: "nat \<Rightarrow> nat \<Rightarrow> gf256_matrix" where
  "new_matrix rows cols = \<lparr>mrows = rows, mcols = cols, matrix = replicate rows (replicate cols 0)\<rparr>"

definition set_zero :: "gf256_matrix \<Rightarrow> gf256_matrix" where
  "set_zero m = m\<lparr>matrix := replicate (mrows m) (replicate (mcols m) 0)\<rparr>"

definition row_at :: "gf256_matrix \<Rightarrow> nat \<Rightarrow> fec_fault + u8 list" where
  "row_at m r = (if r < mrows m then Inr (matrix m ! r) else Inl Out_of_range)"

definition mat_get :: "gf256_matrix \<Rightarrow> nat \<Rightarrow> nat \<Rightarrow> fec_fault + octet" where
  "mat_get m r c =
     rbind (row_at m r) (\<lambda>row. if c < mcols m then Inr (Octet (row ! c)) else Inl Out_of_range)"

definition mat_set :: "gf256_matrix \<Rightarrow> nat \<Rightarrow> nat \<Rightarrow> octet \<Rightarrow> fec_fault + gf256_matrix" where
  "mat_set m r c v =
     rbind (row_at m r) (\<lambda>row.
       if c < mcols m then Inr (m\<lparr>matrix := (matrix m)[r := row[c := oct_value v]]\<rparr>) else Inl Out_of_range)"

definition row_set :: "gf256_matrix \<Rightarrow> nat \<Rightarrow> u8 list \<Rightarrow> fec_fault + gf256_matrix" where
  "row_set m a b =
     rbind (row_at m a) (\<lambda>_. if length b \<le> mcols m then Inr (m\<lparr>matrix := (matrix m)[a := b @ drop (length b) (matrix m ! a)]\<rparr>)
                            else Inl Check_failed)"

definition row_multiply :: "gf256_matrix \<Rightarrow> nat \<Rightarrow> octet \<Rightarrow> fec_fault + gf256_matrix" where
  "row_multiply m r v =
     rbind (row_at m r) (\<lambda>p. rbind (null_gf256_mul p (oct_value v)) (\<lambda>p'. Inr (m\<lparr>matrix := (matrix m)[r := p']\<rparr>)))"

definition row_add_slice :: "gf256_matrix \<Rightarrow> nat \<Rightarrow> u8 list \<Rightarrow> fec_fault + gf256_matrix" where
  "row_add_slice m a b =
     rbind (row_at m a) (\<lambda>ap.
       if length b < mcols m then Inl Out_of_range else Inr (m\<lparr>matrix := (matrix m)[a := null_gf256_add ap b]\<rparr>))"

definition row_add :: "gf256_matrix \<Rightarrow> nat \<Rightarrow> nat \<Rightarrow> fec_fault + gf256_matrix" where
  "row_add m a b = rbind (row_at m b) (\<lambda>bp. row_add_slice m a bp)"

definition row_add_mul_slice :: "gf256_matrix \<Rightarrow> nat \<Rightarrow> u8 list \<Rightarrow> octet \<Rightarrow> fec_fault + gf256_matrix" where
  "row_add_mul_slice m a b v =
     (let u = oct_value v
      in if u = 0 then Inr m
         else if u = 1 then row_add_slice m a b
         else rbind (row_at m a) (\<lambda>ap.
                if length b < mcols m then Inl Out_of_range
                else rbind (null_gf256_add_mul ap b u) (\<lambda>ap'. Inr (m\<lparr>matrix := (matrix m)[a := ap']\<rparr>))))"

definition row_add_mul :: "gf256_matrix \<Rightarrow> nat \<Rightarrow> nat \<Rightarrow> octet \<Rightarrow> fec_fault + gf256_matrix" where
  "row_add_mul m a b v = rbind (row_at m b) (\<lambda>bp. row_add_mul_slice m a bp v)"

definition apply_row_permutation :: "gf256_matrix \<Rightarrow> nat list \<Rightarrow> fec_fault + gf256_matrix" where
  "apply_row_permutation m p =
     rbind (rmap (\<lambda>r. rbind (table_at p r) (row_at m)) [0..<mrows m]) (\<lambda>rows. Inr (m\<lparr>matrix := rows\<rparr>))"

text \<open>Copying a matrix into the part of another one that begins at an offset.\<close>

definition set_from :: "gf256_matrix \<Rightarrow> gf256_matrix \<Rightarrow> nat \<Rightarrow> nat \<Rightarrow> fec_fault + gf256_matrix" where
  "set_from m src row_offset col_offset =
     rfold (\<lambda>m i.
       rbind (row_at m (row_offset + i)) (\<lambda>row. rbind (row_at src i) (\<lambda>from.
         if col_offset + length from \<le> length row then
           Inr (m\<lparr>matrix := (matrix m)[row_offset + i := take col_offset row @ from @ drop (col_offset + length from) row]\<rparr>)
         else Inl Check_failed))) m [0..<mrows src]"

definition mat_copy :: "gf256_matrix \<Rightarrow> fec_fault + gf256_matrix" where
  "mat_copy m = set_from (new_matrix (mrows m) (mcols m)) m 0 0"

definition mat_add :: "gf256_matrix \<Rightarrow> gf256_matrix \<Rightarrow> fec_fault + gf256_matrix" where
  "mat_add m n =
     (if mrows n = mrows m \<and> mcols n = mcols m then
        rfold (\<lambda>t i. rbind (row_at n i) (\<lambda>from. row_add_slice t i from)) m [0..<mrows n]
      else Inl Check_failed)"

section \<open>The entries\<close>

definition matrix_ok :: "gf256_matrix \<Rightarrow> bool" where
  "matrix_ok m = (length (matrix m) = mrows m \<and> list_all (\<lambda>r. length r = mcols m) (matrix m))"

definition entry :: "gf256_matrix \<Rightarrow> nat \<Rightarrow> nat \<Rightarrow> octet" where
  "entry m r c = Octet (matrix m ! r ! c)"

lemma matrix_ok_row: "matrix_ok m \<Longrightarrow> r < mrows m \<Longrightarrow> length (matrix m ! r) = mcols m"
  by (auto simp: matrix_ok_def list_all_length)

lemma new_matrix_ok: "matrix_ok (new_matrix rows cols)" "matrix_ok (set_zero m)"
  by (simp_all add: matrix_ok_def new_matrix_def set_zero_def list_all_iff)

lemma matrix_ok_update:
  "matrix_ok m \<Longrightarrow> length r = mcols m \<Longrightarrow> matrix_ok (m\<lparr>matrix := (matrix m)[k := r]\<rparr>)"
  by (auto simp: matrix_ok_def list_all_iff dest: set_update_subset_insert [THEN subsetD])

lemma mat_get_entry: "matrix_ok m \<Longrightarrow> r < mrows m \<Longrightarrow> c < mcols m \<Longrightarrow> mat_get m r c = Inr (entry m r c)"
  by (simp add: mat_get_def row_at_def entry_def)

text \<open>What the row operations do to the entries: \<open>changes_row m k f m'\<close> says that only row \<open>k\<close> changes.\<close>

definition changes_row :: "gf256_matrix \<Rightarrow> nat \<Rightarrow> (nat \<Rightarrow> octet) \<Rightarrow> gf256_matrix \<Rightarrow> bool" where
  "changes_row m k f m' =
     (matrix_ok m' \<and> mrows m' = mrows m \<and> mcols m' = mcols m \<and>
      (\<forall>i < mrows m. \<forall>j < mcols m. entry m' i j = (if i = k then f j else entry m i j)))"

lemma changes_row_update:
  assumes "matrix_ok m" "k < mrows m" "length r = mcols m" "\<And>j. j < mcols m \<Longrightarrow> Octet (r ! j) = f j"
  shows "changes_row m k f (m\<lparr>matrix := (matrix m)[k := r]\<rparr>)"
  using assms matrix_ok_update [OF assms(1,3)] by (auto simp: changes_row_def entry_def matrix_ok_def nth_list_update)

lemma row_multiply_changes:
  assumes "matrix_ok m" "k < mrows m"
  shows "\<exists>m'. row_multiply m k v = Inr m' \<and> changes_row m k (\<lambda>j. entry m k j * v) m'"
proof -
  let ?r = "map (\<lambda>a. gf_mul a (oct_value v)) (matrix m ! k)"
  have "row_multiply m k v = Inr (m\<lparr>matrix := (matrix m)[k := ?r]\<rparr>)"
    using assms by (simp add: row_multiply_def row_at_def null_values)
  moreover have "changes_row m k (\<lambda>j. entry m k j * v) (m\<lparr>matrix := (matrix m)[k := ?r]\<rparr>)"
    using assms matrix_ok_row [OF assms] by (intro changes_row_update) (simp_all add: entry_def times_octet_def)
  ultimately show ?thesis by blast
qed

lemma row_add_mul_changes:
  assumes "matrix_ok m" "a < mrows m" "b < mrows m"
  shows "\<exists>m'. row_add_mul m a b v = Inr m' \<and> changes_row m a (\<lambda>j. entry m a j + entry m b j * v) m'"
proof -
  note len = matrix_ok_row [OF assms(1,2)] matrix_ok_row [OF assms(1,3)]
  have plus: "Octet x + Octet y = Octet (x XOR y)" for x y by (simp add: plus_octet_def del: oct_add_plus)
  have one: "gf_mul x 1 = x" "gf_mul x 0 = 0" for x using gf_mul_commute [of x] by simp_all
  consider "oct_value v = 0" | "oct_value v = 1" | "oct_value v \<noteq> 0" "oct_value v \<noteq> 1" by blast
  then show ?thesis
  proof cases
    case 1
    then have "changes_row m a (\<lambda>j. entry m a j + entry m b j * v) m"
      using assms(1) by (simp add: changes_row_def entry_def times_octet_def plus one)
    with 1 show ?thesis using assms by (simp add: row_add_mul_def row_at_def row_add_mul_slice_def)
  next
    case 2
    let ?r = "map2 (XOR) (matrix m ! a) (matrix m ! b)"
    have "changes_row m a (\<lambda>j. entry m a j + entry m b j * v) (m\<lparr>matrix := (matrix m)[a := ?r]\<rparr>)"
      using assms len 2 by (intro changes_row_update) (simp_all add: entry_def times_octet_def plus one)
    with 2 show ?thesis
      using assms len by (simp add: row_add_mul_def row_at_def row_add_mul_slice_def row_add_slice_def null_gf256_add_def)
  next
    case 3
    let ?r = "map2 (\<lambda>x y. x XOR gf_mul y (oct_value v)) (matrix m ! a) (matrix m ! b)"
    have "changes_row m a (\<lambda>j. entry m a j + entry m b j * v) (m\<lparr>matrix := (matrix m)[a := ?r]\<rparr>)"
      using assms len by (intro changes_row_update) (simp_all add: entry_def times_octet_def plus)
    with 3 show ?thesis
      using assms len by (simp add: row_add_mul_def row_at_def row_add_mul_slice_def null_values)
  qed
qed

lemma row_add_slice_changes:
  assumes "matrix_ok m" "a < mrows m" "length b = mcols m"
  shows "\<exists>m'. row_add_slice m a b = Inr m' \<and> changes_row m a (\<lambda>j. entry m a j + Octet (b ! j)) m'"
proof -
  have "changes_row m a (\<lambda>j. entry m a j + Octet (b ! j)) (m\<lparr>matrix := (matrix m)[a := map2 (XOR) (matrix m ! a) b]\<rparr>)"
    using assms matrix_ok_row [OF assms(1,2)]
    by (intro changes_row_update) (simp_all add: entry_def plus_octet_def del: oct_add_plus)
  then show ?thesis using assms(2,3) by (simp add: row_add_slice_def row_at_def null_gf256_add_def)
qed

lemma row_set_changes:
  assumes "matrix_ok m" "a < mrows m" "length b = mcols m"
  shows "\<exists>m'. row_set m a b = Inr m' \<and> changes_row m a (\<lambda>j. Octet (b ! j)) m'"
proof -
  have "changes_row m a (\<lambda>j. Octet (b ! j)) (m\<lparr>matrix := (matrix m)[a := b]\<rparr>)"
    using assms by (intro changes_row_update) simp_all
  then show ?thesis using assms matrix_ok_row [OF assms(1,2)] by (simp add: row_set_def row_at_def)
qed

lemma set_from_copies:
  assumes "matrix_ok m" "matrix_ok src" "mcols src = mcols m" "mrows src \<le> mrows m"
  shows "\<exists>m'. set_from m src 0 0 = Inr m' \<and> matrix_ok m' \<and> mrows m' = mrows m \<and> mcols m' = mcols m \<and>
    (\<forall>i < mrows src. matrix m' ! i = matrix src ! i)"
proof -
  let ?step = "\<lambda>t i. rbind (row_at t (0 + i)) (\<lambda>row. rbind (row_at src i) (\<lambda>from.
    if 0 + length from \<le> length row then
      Inr (t\<lparr>matrix := (matrix t)[0 + i := take 0 row @ from @ drop (0 + length from) row]\<rparr>)
    else Inl Check_failed))"
  define P where "P n t = (matrix_ok t \<and> mrows t = mrows m \<and> mcols t = mcols m \<and> (\<forall>i < n. matrix t ! i = matrix src ! i))"
    for n t
  have "case ?step t i of Inl e \<Rightarrow> False | Inr t' \<Rightarrow> P (Suc i) t'" if "i < mrows src" "P i t" for i t
    using that assms matrix_ok_row [of t i] matrix_ok_row [of src i] matrix_ok_update [of t "matrix src ! i" i]
    by (auto simp: P_def row_at_def nth_list_update matrix_ok_def less_Suc_eq)
  moreover have "P 0 m" using assms by (simp add: P_def)
  ultimately have "case set_from m src 0 0 of Inl e \<Rightarrow> False | Inr t' \<Rightarrow> P (mrows src) t'"
    unfolding set_from_def by (intro rfold_upt) auto
  then show ?thesis by (cases "set_from m src 0 0") (auto simp: P_def)
qed

lemma mat_copy_same:
  assumes "matrix_ok m"
  shows "\<exists>m'. mat_copy m = Inr m' \<and> matrix m' = matrix m \<and> mrows m' = mrows m \<and> mcols m' = mcols m"
proof -
  have "mrows (new_matrix (mrows m) (mcols m)) = mrows m" "mcols (new_matrix (mrows m) (mcols m)) = mcols m"
    by (simp_all add: new_matrix_def)
  then obtain m' where m': "mat_copy m = Inr m'" "matrix_ok m'" "mrows m' = mrows m" "mcols m' = mcols m"
      "\<forall>i < mrows m. matrix m' ! i = matrix m ! i"
    using set_from_copies [of "new_matrix (mrows m) (mcols m)" m] assms by (auto simp: mat_copy_def new_matrix_ok)
  then have "matrix m' = matrix m" using assms by (intro nth_equalityI) (simp_all add: matrix_ok_def)
  with m' show ?thesis by blast
qed

lemma mat_add_entries:
  assumes "matrix_ok m" "matrix_ok n" "mrows n = mrows m" "mcols n = mcols m"
  shows "\<exists>m'. mat_add m n = Inr m' \<and> matrix_ok m' \<and> mrows m' = mrows m \<and> mcols m' = mcols m \<and>
    (\<forall>i < mrows m. \<forall>j < mcols m. entry m' i j = entry m i j + entry n i j)"
proof -
  define P where "P k t = (matrix_ok t \<and> mrows t = mrows m \<and> mcols t = mcols m \<and>
    (\<forall>i < mrows m. \<forall>j < mcols m. entry t i j = (if i < k then entry m i j + entry n i j else entry m i j)))" for k t
  let ?step = "\<lambda>t i. rbind (row_at n i) (\<lambda>from. row_add_slice t i from)"
  have "case ?step t i of Inl e \<Rightarrow> False | Inr t' \<Rightarrow> P (Suc i) t'" if i: "i < mrows n" and P: "P i t" for i t
  proof -
    have "length (matrix n ! i) = mcols t" using i P assms matrix_ok_row [of n i] by (simp add: P_def)
    then obtain t' where "row_add_slice t i (matrix n ! i) = Inr t'" "changes_row t i (\<lambda>j. entry t i j + Octet (matrix n ! i ! j)) t'"
      using row_add_slice_changes [of t i "matrix n ! i"] i P assms by (auto simp: P_def)
    then show ?thesis using i P by (auto simp: row_at_def P_def changes_row_def entry_def [of n] less_Suc_eq)
  qed
  moreover have "P 0 m" using assms by (simp add: P_def)
  ultimately have "case rfold ?step m [0..<mrows n] of Inl e \<Rightarrow> False | Inr t' \<Rightarrow> P (mrows n) t'" by (intro rfold_upt) auto
  then show ?thesis using assms by (cases "rfold ?step m [0..<mrows n]") (auto simp: mat_add_def P_def)
qed

end
