(* ===== verification/Fec_Gauss.thy ===== *)
theory Fec_Gauss
  imports Fec_Matrix
begin

text \<open>
  The solver of systems of linear equations over the octets, \<open>GaussianElimination::run\<close> of
  \<^verbatim>\<open>tdfec/td/fec/algebra/GaussianElimination.cpp\<close>: it brings the coefficients to the identity by row operations, with a
  permutation of the rows for the pivots, and applies the same operations to the right-hand sides.
\<close>

section \<open>The algorithm\<close>

function find_nonzero :: "gf256_matrix \<Rightarrow> nat list \<Rightarrow> nat \<Rightarrow> nat \<Rightarrow> fec_fault + nat" where
  "find_nonzero A row_perm col r =
     (if r < mrows A then
        rbind (table_at row_perm r) (\<lambda>p. rbind (mat_get A p col) (\<lambda>x.
          if oct_is_zero x then find_nonzero A row_perm col (Suc r) else Inr r))
      else Inr r)"
  by pat_completeness auto
termination by (relation "measure (\<lambda>(A, _, _, r). mrows A - r)") auto

declare find_nonzero.simps [simp del]

definition swap_list :: "'a list \<Rightarrow> nat \<Rightarrow> nat \<Rightarrow> 'a list" where
  "swap_list xs i j = xs[i := xs ! j, j := xs ! i]"

fun eliminate_row :: "nat list \<Rightarrow> nat \<Rightarrow> gf256_matrix \<times> gf256_matrix \<Rightarrow> nat \<Rightarrow> fec_fault + gf256_matrix \<times> gf256_matrix" where
  "eliminate_row row_perm row (A, D) zero_row =
     (if zero_row = row then Inr (A, D)
      else
        rbind (table_at row_perm zero_row) (\<lambda>z. rbind (table_at row_perm row) (\<lambda>p.
        rbind (mat_get A z row) (\<lambda>x.
        if oct_is_zero x then Inr (A, D)
        else rbind (row_add_mul A z p x) (\<lambda>A'. rbind (row_add_mul D z p x) (\<lambda>D'. Inr (A', D')))))))"

fun gauss_step ::
    "gf256_matrix \<times> gf256_matrix \<times> nat list \<Rightarrow> nat \<Rightarrow> fec_fault + gf256_matrix \<times> gf256_matrix \<times> nat list" where
  "gauss_step (A, D, row_perm) row =
     rbind (find_nonzero A row_perm row row) (\<lambda>non_zero_row.
     if non_zero_row = mrows A then Inl Non_solvable
     else
       let perm = (if non_zero_row \<noteq> row then swap_list row_perm non_zero_row row else row_perm)
       in rbind (table_at perm row) (\<lambda>p. rbind (mat_get A p row) (\<lambda>a. rbind (oct_inverse a) (\<lambda>mul.
          rbind (row_multiply A p mul) (\<lambda>A1. rbind (row_multiply D p mul) (\<lambda>D1.
          rbind (mat_get A1 p row) (\<lambda>v.
          if oct_value v \<noteq> 1 then Inl Check_failed
          else rbind (rfold (eliminate_row perm row) (A1, D1) [0..<mrows A]) (\<lambda>(A2, D2). Inr (A2, D2, perm)))))))))"

definition gauss_run :: "gf256_matrix \<Rightarrow> gf256_matrix \<Rightarrow> fec_fault + gf256_matrix" where
  "gauss_run A D =
     (if mcols A \<le> mrows A then
        rbind (rfold gauss_step (A, D, [0..<mrows A]) [0..<mcols A]) (\<lambda>(_, D', row_perm). apply_row_permutation D' row_perm)
      else Inl Check_failed)"

section \<open>Systems of linear equations\<close>

definition solves :: "nat \<Rightarrow> nat \<Rightarrow> (nat \<Rightarrow> nat \<Rightarrow> 'a :: field) \<Rightarrow> (nat \<Rightarrow> 'a) \<Rightarrow> (nat \<Rightarrow> 'a) \<Rightarrow> bool" where
  "solves rows cols a b x = (\<forall>i < rows. (\<Sum>j < cols. a i j * x j) = b i)"

lemma solves_cong:
  assumes "\<And>i j. i < rows \<Longrightarrow> j < cols \<Longrightarrow> a i j = a' i j" "\<And>i. i < rows \<Longrightarrow> b i = b' i"
  shows "solves rows cols a b x = solves rows cols a' b' x"
  unfolding solves_def using assms by (auto intro!: sum.cong)

lemma solves_scale:
  assumes "m \<noteq> 0"
  shows "solves rows cols (\<lambda>i j. if i = k then a k j * m else a i j) (\<lambda>i. if i = k then b k * m else b i) x =
    solves rows cols a b x"
proof -
  have "(\<Sum>j < cols. a k j * m * x j) = (\<Sum>j < cols. a k j * x j) * m"
    unfolding sum_distrib_right by (intro sum.cong) (simp_all add: mult_ac)
  with assms show ?thesis unfolding solves_def by (intro all_cong imp_cong) auto
qed

lemma solves_add:
  assumes "z \<noteq> k" "k < rows"
  shows "solves rows cols (\<lambda>i j. if i = z then a z j + a k j * c else a i j) (\<lambda>i. if i = z then b z + b k * c else b i) x =
    solves rows cols a b x"
proof -
  define S where "S = (\<lambda>i. \<Sum>j < cols. a i j * x j)"
  have "(\<Sum>j < cols. (a z j + a k j * c) * x j) = S z + S k * c"
    unfolding S_def sum_distrib_right sum.distrib [symmetric] by (intro sum.cong) (simp_all add: algebra_simps)
  then have "(\<Sum>j < cols. (if i = z then a z j + a k j * c else a i j) * x j) = (if i = z then S z + S k * c else S i)" for i
    by (simp add: S_def)
  moreover have "(\<forall>i < rows. (if i = z then S z + S k * c else S i) = (if i = z then b z + b k * c else b i)) \<longleftrightarrow>
      (\<forall>i < rows. S i = b i)" (is "?l \<longleftrightarrow> ?r")
  proof
    assume l: ?l
    from l [rule_format, OF assms(2)] assms(1) have k: "S k = b k" by simp
    show ?r
    proof (intro allI impI)
      fix i assume "i < rows"
      from l [rule_format, OF this] k show "S i = b i" by (simp split: if_splits)
    qed
  next
    assume r: ?r
    then show ?l using assms(2) by (simp only: split: if_split) simp
  qed
  ultimately show ?thesis unfolding solves_def by (simp only: S_def)
qed

definition transpose_at :: "nat \<Rightarrow> nat \<Rightarrow> nat \<Rightarrow> nat" where
  "transpose_at k l i = (if i = k then l else if i = l then k else i)"

lemma solves_swap:
  assumes "k < rows" "l < rows"
  shows "solves rows cols (\<lambda>i. a (transpose_at k l i)) (\<lambda>i. b (transpose_at k l i)) x = solves rows cols a b x"
proof -
  have "transpose_at k l i < rows" "transpose_at k l (transpose_at k l i) = i" if "i < rows" for i
    using assms that by (auto simp: transpose_at_def)
  then show ?thesis unfolding solves_def by metis
qed

section \<open>The invariant of the elimination\<close>

definition perm_ok :: "nat \<Rightarrow> nat list \<Rightarrow> bool" where
  "perm_ok n p = (length p = n \<and> distinct p \<and> set p = {..<n})"

lemma perm_ok_nth: "perm_ok n p \<Longrightarrow> i < n \<Longrightarrow> p ! i < n"
  unfolding perm_ok_def by (metis lessThan_iff nth_mem)

lemma perm_ok_inj: "perm_ok n p \<Longrightarrow> i < n \<Longrightarrow> j < n \<Longrightarrow> p ! i = p ! j \<longleftrightarrow> i = j"
  unfolding perm_ok_def by (metis nth_eq_iff_index_eq)

lemma table_at_perm: "perm_ok n p \<Longrightarrow> i < n \<Longrightarrow> table_at p i = Inr (p ! i)"
  by (simp add: perm_ok_def table_at_def)

lemma swap_list_nth:
  "k < length p \<Longrightarrow> l < length p \<Longrightarrow> i < length p \<Longrightarrow> swap_list p k l ! i = p ! transpose_at k l i"
  by (auto simp: swap_list_def transpose_at_def nth_list_update)

lemma perm_ok_swap: "perm_ok n p \<Longrightarrow> k < n \<Longrightarrow> l < n \<Longrightarrow> perm_ok n (swap_list p k l)"
  by (simp add: perm_ok_def swap_list_def distinct_swap)

text \<open>The rows in the order of the permutation.\<close>

definition view :: "gf256_matrix \<Rightarrow> nat list \<Rightarrow> nat \<Rightarrow> nat \<Rightarrow> octet" where
  "view m p i j = entry m (p ! i) j"

lemma view_changes:
  assumes "changes_row m (p ! k) f m'" "perm_ok (mrows m) p" "k < mrows m" "i < mrows m" "j < mcols m"
  shows "view m' p i j = (if i = k then f j else view m p i j)"
  using assms perm_ok_nth [OF assms(2,4)] perm_ok_inj [OF assms(2,4,3)] by (simp add: changes_row_def view_def)

definition same_solutions :: "gf256_matrix \<Rightarrow> gf256_matrix \<Rightarrow> gf256_matrix \<Rightarrow> gf256_matrix \<Rightarrow> nat list \<Rightarrow> bool" where
  "same_solutions A0 D0 A D p =
     (\<forall>x. solves (mrows A0) (mcols A0) (view A p) (\<lambda>_. 0) x = solves (mrows A0) (mcols A0) (entry A0) (\<lambda>_. 0) x \<and>
       (\<forall>d < mcols D0. solves (mrows A0) (mcols A0) (view A p) (\<lambda>i. view D p i d) x =
         solves (mrows A0) (mcols A0) (entry A0) (\<lambda>i. entry D0 i d) x))"

definition system_ok :: "gf256_matrix \<Rightarrow> gf256_matrix \<Rightarrow> gf256_matrix \<Rightarrow> gf256_matrix \<Rightarrow> nat list \<Rightarrow> bool" where
  "system_ok A0 D0 A D p =
     (matrix_ok A \<and> matrix_ok D \<and> mrows A = mrows A0 \<and> mcols A = mcols A0 \<and> mrows D = mrows A0 \<and>
      mcols D = mcols D0 \<and> perm_ok (mrows A0) p \<and> same_solutions A0 D0 A D p)"

lemma system_ok_scale:
  assumes ok: "system_ok A0 D0 A D p" and k: "k < mrows A0" and m: "m \<noteq> 0"
    and A': "changes_row A (p ! k) (\<lambda>j. view A p k j * m) A'" and D': "changes_row D (p ! k) (\<lambda>j. view D p k j * m) D'"
  shows "system_ok A0 D0 A' D' p"
proof -
  note o = ok [unfolded system_ok_def]
  have s: "solves (mrows A0) (mcols A0) (view A' p) b' x = solves (mrows A0) (mcols A0) (view A p) b x"
    if "\<And>i. i < mrows A0 \<Longrightarrow> b' i = (if i = k then b k * m else b i)" for b b' x
  proof -
    have "solves (mrows A0) (mcols A0) (view A' p) b' x =
        solves (mrows A0) (mcols A0) (\<lambda>i j. if i = k then view A p k j * m else view A p i j) (\<lambda>i. if i = k then b k * m else b i) x"
      by (rule solves_cong) (use that o k view_changes [OF A'] in auto)
    then show ?thesis using solves_scale [OF m] by simp
  qed
  have "solves (mrows A0) (mcols A0) (view A' p) (\<lambda>_. 0) x = solves (mrows A0) (mcols A0) (view A p) (\<lambda>_. 0) x" for x
    by (rule s) simp
  moreover have "solves (mrows A0) (mcols A0) (view A' p) (\<lambda>i. view D' p i d) x =
      solves (mrows A0) (mcols A0) (view A p) (\<lambda>i. view D p i d) x" if "d < mcols D0" for d x
    by (rule s) (use view_changes [OF D'] o k that in simp)
  ultimately have "same_solutions A0 D0 A' D' p" using o by (simp add: same_solutions_def)
  with o A' D' show ?thesis by (simp add: system_ok_def changes_row_def)
qed

lemma system_ok_add:
  assumes ok: "system_ok A0 D0 A D p" and k: "k < mrows A0" "z < mrows A0" "z \<noteq> k"
    and A': "changes_row A (p ! z) (\<lambda>j. view A p z j + view A p k j * c) A'"
    and D': "changes_row D (p ! z) (\<lambda>j. view D p z j + view D p k j * c) D'"
  shows "system_ok A0 D0 A' D' p"
proof -
  note o = ok [unfolded system_ok_def]
  have s: "solves (mrows A0) (mcols A0) (view A' p) b' x = solves (mrows A0) (mcols A0) (view A p) b x"
    if "\<And>i. i < mrows A0 \<Longrightarrow> b' i = (if i = z then b z + b k * c else b i)" for b b' x
  proof -
    have "solves (mrows A0) (mcols A0) (view A' p) b' x =
        solves (mrows A0) (mcols A0) (\<lambda>i j. if i = z then view A p z j + view A p k j * c else view A p i j)
          (\<lambda>i. if i = z then b z + b k * c else b i) x"
      by (rule solves_cong) (use that o k view_changes [OF A'] in auto)
    then show ?thesis using solves_add [OF k(3,1)] by simp
  qed
  have "solves (mrows A0) (mcols A0) (view A' p) (\<lambda>_. 0) x = solves (mrows A0) (mcols A0) (view A p) (\<lambda>_. 0) x" for x
    by (rule s) simp
  moreover have "solves (mrows A0) (mcols A0) (view A' p) (\<lambda>i. view D' p i d) x =
      solves (mrows A0) (mcols A0) (view A p) (\<lambda>i. view D p i d) x" if "d < mcols D0" for d x
    by (rule s) (use view_changes [OF D'] o k that in simp)
  ultimately have "same_solutions A0 D0 A' D' p" using o by (simp add: same_solutions_def)
  with o A' D' show ?thesis by (simp add: system_ok_def changes_row_def)
qed

lemma system_ok_swap:
  assumes ok: "system_ok A0 D0 A D p" and k: "k < mrows A0" "l < mrows A0"
  shows "system_ok A0 D0 A D (swap_list p k l)"
proof -
  note o = ok [unfolded system_ok_def]
  have v: "view m (swap_list p k l) i j = view m p (transpose_at k l i) j" if "i < mrows A0" for m i j
    using o k that by (simp add: view_def swap_list_nth perm_ok_def)
  then have "solves (mrows A0) (mcols A0) (view A (swap_list p k l)) b' x =
      solves (mrows A0) (mcols A0) (view A p) b x"
    if "\<And>i. i < mrows A0 \<Longrightarrow> b' i = b (transpose_at k l i)" for b b' x
    using that solves_swap [OF k, of "mcols A0" "view A p" b x] by (simp cong: solves_cong)
  note s = this
  have "solves (mrows A0) (mcols A0) (view A (swap_list p k l)) (\<lambda>_. 0) x = solves (mrows A0) (mcols A0) (view A p) (\<lambda>_. 0) x" for x
    by (rule s) simp
  moreover have "solves (mrows A0) (mcols A0) (view A (swap_list p k l)) (\<lambda>i. view D (swap_list p k l) i d) x =
      solves (mrows A0) (mcols A0) (view A p) (\<lambda>i. view D p i d) x" for x d
    by (rule s) (use v in simp)
  ultimately show ?thesis using o k by (simp add: system_ok_def same_solutions_def perm_ok_swap)
qed

section \<open>The loops\<close>

lemma find_nonzero_correct:
  assumes "system_ok A0 D0 A D p" "col < mcols A0" "r \<le> mrows A0"
  shows "\<exists>q. find_nonzero A p col r = Inr q \<and> r \<le> q \<and> q \<le> mrows A0 \<and> (\<forall>i. r \<le> i \<and> i < q \<longrightarrow> view A p i col = 0) \<and>
    (q < mrows A0 \<longrightarrow> view A p q col \<noteq> 0)"
  using assms(3)
proof (induction "mrows A0 - r" arbitrary: r)
  case 0
  then show ?case using assms(1) by (subst find_nonzero.simps) (auto simp: system_ok_def)
next
  case (Suc n)
  note o = assms(1) [unfolded system_ok_def]
  have t: "table_at p i = Inr (p ! i)" if "i < mrows A0" for i using o that by (intro table_at_perm) auto
  have r: "r < mrows A0" using Suc by simp
  have get: "mat_get A (p ! r) col = Inr (view A p r col)"
    using o r assms(2) perm_ok_nth [of "mrows A0" p r] by (simp add: mat_get_entry view_def)
  show ?case
  proof (cases "view A p r col = 0")
    case True
    have "n = mrows A0 - Suc r" "Suc r \<le> mrows A0" using Suc.hyps(2) r by linarith+
    from Suc.hyps(1) [OF this] obtain q where q: "find_nonzero A p col (Suc r) = Inr q" "Suc r \<le> q" "q \<le> mrows A0"
      "\<forall>i. Suc r \<le> i \<and> i < q \<longrightarrow> view A p i col = 0" "q < mrows A0 \<longrightarrow> view A p q col \<noteq> 0"
      by blast
    have "find_nonzero A p col r = Inr q"
      using o r get True q(1) by (subst find_nonzero.simps) (simp add: t)
    moreover have "\<forall>i. r \<le> i \<and> i < q \<longrightarrow> view A p i col = 0" using q(4) True by (metis Suc_leI le_neq_implies_less)
    ultimately show ?thesis using q by auto
  next
    case False
    then have "find_nonzero A p col r = Inr r"
      using o r get by (subst find_nonzero.simps) (simp add: t)
    then show ?thesis using r False by auto
  qed
qed

text \<open>The first \<open>k\<close> columns of the coefficients are those of the identity.\<close>

definition unit_cols :: "nat \<Rightarrow> gf256_matrix \<Rightarrow> nat list \<Rightarrow> nat \<Rightarrow> bool" where
  "unit_cols rows A p k = (\<forall>c < k. \<forall>i < rows. view A p i c = (if i = c then 1 else 0))"

lemma row_add_mul_view:
  assumes "matrix_ok m" "perm_ok (mrows m) p" "z < mrows m" "k < mrows m"
  shows "\<exists>m'. row_add_mul m (p ! z) (p ! k) c = Inr m' \<and> changes_row m (p ! z) (\<lambda>j. view m p z j + view m p k j * c) m'"
  unfolding view_def using assms by (intro row_add_mul_changes) (auto dest: perm_ok_nth)

lemma eliminate_row_correct:
  assumes ok: "system_ok A0 D0 A D p" and k: "k < mcols A0" "k < mrows A0" "view A p k k = 1" and z: "z < mrows A0"
    and units: "unit_cols (mrows A0) A p k"
  shows "\<exists>A' D'. eliminate_row p k (A, D) z = Inr (A', D') \<and> system_ok A0 D0 A' D' p \<and> unit_cols (mrows A0) A' p k \<and>
    view A' p k k = 1 \<and> (z \<noteq> k \<longrightarrow> view A' p z k = 0) \<and> (\<forall>i < mrows A0. i \<noteq> z \<longrightarrow> view A' p i k = view A p i k)"
proof -
  let ?c = "view A p z k"
  note o = ok [unfolded system_ok_def]
  have t: "table_at p i = Inr (p ! i)" if "i < mrows A0" for i using o that by (intro table_at_perm) auto
  have get: "mat_get A (p ! z) k = Inr ?c"
    using o k z perm_ok_nth [of "mrows A0" p z] by (simp add: mat_get_entry view_def)
  show ?thesis
  proof (cases "z = k \<or> ?c = 0")
    case True
    then have "eliminate_row p k (A, D) z = Inr (A, D)" using k z get t by auto
    with True assms show ?thesis by auto
  next
    case False
    obtain A' where A': "row_add_mul A (p ! z) (p ! k) ?c = Inr A'"
      "changes_row A (p ! z) (\<lambda>j. view A p z j + view A p k j * ?c) A'"
      using row_add_mul_view [of A p z k ?c] o k z by auto
    obtain D' where D': "row_add_mul D (p ! z) (p ! k) ?c = Inr D'"
      "changes_row D (p ! z) (\<lambda>j. view D p z j + view D p k j * ?c) D'"
      using row_add_mul_view [of D p z k ?c] o k z by auto
    have v: "view A' p i j = (if i = z then view A p z j + view A p k j * ?c else view A p i j)"
      if "i < mrows A0" "j < mcols A0" for i j
      using view_changes [OF A'(2)] o z that by simp
    have "eliminate_row p k (A, D) z = Inr (A', D')"
      using False o k z get A'(1) D'(1) by (simp add: t)
    moreover have "system_ok A0 D0 A' D' p" using system_ok_add [OF ok k(2) z _ A'(2) D'(2)] False by simp
    moreover have "unit_cols (mrows A0) A' p k" using units v k z by (auto simp: unit_cols_def)
    moreover have "view A' p k k = 1" "view A' p z k = 0" "\<forall>i < mrows A0. i \<noteq> z \<longrightarrow> view A' p i k = view A p i k"
      using v k z False by simp_all
    ultimately show ?thesis by auto
  qed
qed

lemma eliminate_correct:
  assumes "system_ok A0 D0 A D p" "k < mcols A0" "k < mrows A0" "view A p k k = 1" "unit_cols (mrows A0) A p k"
  shows "\<exists>A' D'. rfold (eliminate_row p k) (A, D) [0..<mrows A0] = Inr (A', D') \<and> system_ok A0 D0 A' D' p \<and>
    unit_cols (mrows A0) A' p (Suc k)"
proof -
  define P where "P n s = (case s of (A, D) \<Rightarrow> system_ok A0 D0 A D p \<and> view A p k k = 1 \<and> unit_cols (mrows A0) A p k \<and>
    (\<forall>i < n. i \<noteq> k \<longrightarrow> view A p i k = 0))" for n :: nat and s
  have "case eliminate_row p k s i of Inl e \<Rightarrow> False | Inr s' \<Rightarrow> P (Suc i) s'" if "i < mrows A0" "P i s" for i s
  proof -
    note i = that(1)
    obtain A D where s: "s = (A, D)" by fastforce
    from that have P: "system_ok A0 D0 A D p" "view A p k k = 1" "unit_cols (mrows A0) A p k"
      "\<forall>j < i. j \<noteq> k \<longrightarrow> view A p j k = 0" by (simp_all add: P_def s)
    obtain A' D' where e: "eliminate_row p k (A, D) i = Inr (A', D')" "system_ok A0 D0 A' D' p" "unit_cols (mrows A0) A' p k"
      "view A' p k k = 1" "i \<noteq> k \<longrightarrow> view A' p i k = 0" "\<forall>j < mrows A0. j \<noteq> i \<longrightarrow> view A' p j k = view A p j k"
      using eliminate_row_correct [OF P(1) assms(2,3) P(2) i P(3)] by blast
    have "\<forall>j < Suc i. j \<noteq> k \<longrightarrow> view A' p j k = 0" using e(5,6) P(4) i by (auto simp: less_Suc_eq)
    with e show ?thesis by (simp add: P_def s)
  qed
  moreover have "P 0 (A, D)" using assms by (simp add: P_def)
  ultimately have "case rfold (eliminate_row p k) (A, D) [0..<mrows A0] of Inl e \<Rightarrow> False | Inr s' \<Rightarrow> P (mrows A0) s'"
    by (intro rfold_upt [where P = P]) auto
  then obtain A' D' where "rfold (eliminate_row p k) (A, D) [0..<mrows A0] = Inr (A', D')" "P (mrows A0) (A', D')"
    by (cases "rfold (eliminate_row p k) (A, D) [0..<mrows A0]") auto
  then show ?thesis using assms(3) by (auto simp: P_def unit_cols_def less_Suc_eq)
qed

lemma row_multiply_view:
  assumes "matrix_ok m" "perm_ok (mrows m) p" "k < mrows m"
  shows "\<exists>m'. row_multiply m (p ! k) c = Inr m' \<and> changes_row m (p ! k) (\<lambda>j. view m p k j * c) m'"
  unfolding view_def using assms by (intro row_multiply_changes) (auto dest: perm_ok_nth)

lemma swap_unit_cols:
  assumes "unit_cols rows A p k" "perm_ok rows p" "k \<le> q" "q < rows"
  shows "unit_cols rows A (swap_list p q k) k"
proof -
  have "view A (swap_list p q k) i c = view A p (transpose_at q k i) c" if "i < rows" for i c
    using assms that by (simp add: view_def swap_list_nth perm_ok_def)
  with assms show ?thesis by (auto simp: unit_cols_def transpose_at_def)
qed

text \<open>A column without pivot gives a nonzero vector of the kernel.\<close>

definition singular :: "gf256_matrix \<Rightarrow> bool" where
  "singular A = (\<exists>v. (\<exists>j < mcols A. v j \<noteq> 0) \<and> solves (mrows A) (mcols A) (entry A) (\<lambda>_. 0) v)"

lemma no_pivot_singular:
  assumes ok: "system_ok A0 D0 A D p" and k: "k < mcols A0" "k \<le> mrows A0" and units: "unit_cols (mrows A0) A p k"
    and zero: "\<forall>i. k \<le> i \<and> i < mrows A0 \<longrightarrow> view A p i k = 0"
  shows "singular A0"
proof -
  define v where "v j = (if j < k then view A p j k else if j = k then 1 else 0)" for j
  have "(\<Sum>j < mcols A0. view A p i j * v j) = 0" if i: "i < mrows A0" for i
  proof -
    have "(\<Sum>j < mcols A0. view A p i j * v j) = (\<Sum>j \<in> {..<Suc k}. view A p i j * v j)"
      using k by (intro sum.mono_neutral_right) (auto simp: v_def)
    also have "\<dots> = (\<Sum>j < k. view A p i j * view A p j k) + view A p i k" by (simp add: v_def)
    also have "(\<Sum>j < k. view A p i j * view A p j k) = (\<Sum>j < k. if j = i then view A p i k else 0)"
      using units i by (intro sum.cong) (auto simp: unit_cols_def)
    also have "\<dots> = (if i < k then view A p i k else 0)" by (simp add: sum.delta)
    finally show ?thesis using zero i by auto
  qed
  then have "solves (mrows A0) (mcols A0) (view A p) (\<lambda>_. 0) v" by (simp add: solves_def)
  with ok have "solves (mrows A0) (mcols A0) (entry A0) (\<lambda>_. 0) v" by (simp add: system_ok_def same_solutions_def)
  moreover have "v k \<noteq> 0" by (simp add: v_def)
  ultimately show ?thesis unfolding singular_def using k by blast
qed

lemma pivot_correct:
  assumes ok: "system_ok A0 D0 A D p" and k: "k < mcols A0" "k < mrows A0" and units: "unit_cols (mrows A0) A p k"
    and pivot: "view A p k k \<noteq> 0"
  shows "\<exists>A1 D1. row_multiply A (p ! k) (inverse (view A p k k)) = Inr A1 \<and> row_multiply D (p ! k) (inverse (view A p k k)) = Inr D1 \<and>
    system_ok A0 D0 A1 D1 p \<and> unit_cols (mrows A0) A1 p k \<and> view A1 p k k = 1"
proof -
  let ?c = "inverse (view A p k k)"
  note o = ok [unfolded system_ok_def]
  obtain A1 where A1: "row_multiply A (p ! k) ?c = Inr A1" "changes_row A (p ! k) (\<lambda>j. view A p k j * ?c) A1"
    using row_multiply_view [of A p k ?c] o k by auto
  obtain D1 where D1: "row_multiply D (p ! k) ?c = Inr D1" "changes_row D (p ! k) (\<lambda>j. view D p k j * ?c) D1"
    using row_multiply_view [of D p k ?c] o k by auto
  have v: "view A1 p i j = (if i = k then view A p k j * ?c else view A p i j)" if "i < mrows A0" "j < mcols A0" for i j
    using view_changes [OF A1(2)] o k that by simp
  have "system_ok A0 D0 A1 D1 p" using system_ok_scale [OF ok k(2) _ A1(2) D1(2)] pivot by simp
  moreover have "unit_cols (mrows A0) A1 p k" using units v k by (auto simp: unit_cols_def)
  moreover have "view A1 p k k = 1" using v k pivot by simp
  ultimately show ?thesis using A1(1) D1(1) by blast
qed

lemma gauss_step_correct:
  assumes ok: "system_ok A0 D0 A D p" and k: "k < mcols A0" "mcols A0 \<le> mrows A0" and units: "unit_cols (mrows A0) A p k"
  shows "case gauss_step (A, D, p) k of
      Inl e \<Rightarrow> e = Non_solvable \<and> singular A0
    | Inr (A', D', p') \<Rightarrow> system_ok A0 D0 A' D' p' \<and> unit_cols (mrows A0) A' p' (Suc k)"
proof -
  have kr: "k < mrows A0" using k by simp
  obtain q where q: "find_nonzero A p k k = Inr q" "k \<le> q" "q \<le> mrows A0" "\<forall>i. k \<le> i \<and> i < q \<longrightarrow> view A p i k = 0"
    "q < mrows A0 \<longrightarrow> view A p q k \<noteq> 0"
    using find_nonzero_correct [OF ok k(1), of k] kr by auto
  have rows: "mrows A = mrows A0" "mrows D = mrows A0" "mcols A = mcols A0" using ok by (simp_all add: system_ok_def)
  show ?thesis
  proof (cases "q = mrows A0")
    case True
    with q no_pivot_singular [OF ok k(1) _ units] kr rows show ?thesis by simp
  next
    case False
    with q(3) have qr: "q < mrows A0" by simp
    define p1 where "p1 = (if q \<noteq> k then swap_list p q k else p)"
    have perm: "perm_ok (mrows A0) p" using ok by (simp add: system_ok_def)
    have ok1: "system_ok A0 D0 A D p1" using ok system_ok_swap [OF ok qr kr] by (simp add: p1_def)
    have units1: "unit_cols (mrows A0) A p1 k" using units swap_unit_cols [OF units perm q(2) qr] by (simp add: p1_def)
    have "p1 ! k = p ! q" using perm qr kr by (auto simp: p1_def swap_list_def perm_ok_def)
    then have pivot: "view A p1 k k \<noteq> 0" using q(5) qr by (simp add: view_def)
    obtain A1 D1 where m: "row_multiply A (p1 ! k) (inverse (view A p1 k k)) = Inr A1"
      "row_multiply D (p1 ! k) (inverse (view A p1 k k)) = Inr D1"
      "system_ok A0 D0 A1 D1 p1" "unit_cols (mrows A0) A1 p1 k" "view A1 p1 k k = 1"
      using pivot_correct [OF ok1 k(1) kr units1 pivot] by blast
    obtain A2 D2 where e: "rfold (eliminate_row p1 k) (A1, D1) [0..<mrows A0] = Inr (A2, D2)" "system_ok A0 D0 A2 D2 p1"
      "unit_cols (mrows A0) A2 p1 (Suc k)"
      using eliminate_correct [OF m(3) k(1) kr m(5,4)] by blast
    have t: "table_at p1 k = Inr (p1 ! k)" "p1 ! k < mrows A0"
      using ok1 kr by (auto simp: system_ok_def intro: table_at_perm perm_ok_nth)
    have get: "mat_get A (p1 ! k) k = Inr (view A p1 k k)" "mat_get A1 (p1 ! k) k = Inr 1"
      using ok1 m(3,5) k t(2) by (auto simp: system_ok_def mat_get_entry view_def)
    have "gauss_step (A, D, p) k = Inr (A2, D2, p1)"
      using False q(1) t(1) get pivot m(1,2) e(1) rows
      by (simp only: gauss_step.simps q(1) rbind_Inr p1_def [symmetric]) (simp add: one_octet_def)
    with e show ?thesis by simp
  qed
qed

text \<open>With the coefficients reduced to the identity the solution can be read off.\<close>

lemma reduced_solves:
  assumes "unit_cols rows A p cols" "cols \<le> rows"
  shows "solves rows cols (view A p) b x \<longleftrightarrow> (\<forall>i < rows. b i = (if i < cols then x i else 0))"
proof -
  have "(\<Sum>j < cols. view A p i j * x j) = (if i < cols then x i else 0)" if "i < rows" for i
  proof -
    have "(\<Sum>j < cols. view A p i j * x j) = (\<Sum>j < cols. if j = i then x i else 0)"
      using assms that by (intro sum.cong) (auto simp: unit_cols_def)
    then show ?thesis by simp
  qed
  then show ?thesis by (auto simp: solves_def)
qed

lemma permuted_rows:
  assumes "matrix_ok D" "perm_ok (mrows D) p"
  shows "\<exists>R. apply_row_permutation D p = Inr R \<and> matrix_ok R \<and> mrows R = mrows D \<and> mcols R = mcols D \<and>
    (\<forall>i < mrows D. \<forall>j. entry R i j = view D p i j)"
proof -
  have p: "p ! r < mrows D" "r < length p" if "r < mrows D" for r using assms that perm_ok_nth by (auto simp: perm_ok_def)
  have "rmap (\<lambda>r. rbind (table_at p r) (row_at D)) [0..<mrows D] = Inr (map (\<lambda>r. matrix D ! (p ! r)) [0..<mrows D])"
    by (rule rmap_Inr) (simp add: table_at_def row_at_def p)
  then have "apply_row_permutation D p = Inr (D\<lparr>matrix := map (\<lambda>r. matrix D ! (p ! r)) [0..<mrows D]\<rparr>)"
    by (simp add: apply_row_permutation_def)
  then show ?thesis using assms(1) p by (auto simp: matrix_ok_def list_all_iff entry_def view_def)
qed

section \<open>The result\<close>

text \<open>C24. Gaussian elimination over the octets solves the system or shows that it has no unique solution. On a
  system with at least as many equations as unknowns it never faults, and a result tells all solutions: for every column of
  right-hand sides, a vector solves the equations exactly when its components are the first rows of the result and the
  remaining rows of the result are zero. It reports a failure only if some nonzero vector solves the homogeneous system.\<close>

theorem gauss_solves:
  assumes "matrix_ok A" "matrix_ok D" "mrows D = mrows A" "mcols A \<le> mrows A"
  shows "case gauss_run A D of
      Inr R \<Rightarrow> matrix_ok R \<and> mrows R = mrows D \<and> mcols R = mcols D \<and>
        (\<forall>d < mcols D. \<forall>x. solves (mrows A) (mcols A) (entry A) (\<lambda>i. entry D i d) x \<longleftrightarrow>
          (\<forall>i < mrows A. entry R i d = (if i < mcols A then x i else 0)))
    | Inl e \<Rightarrow> e = Non_solvable \<and> singular A"
proof -
  define P where "P k s = (case s of (A', D', p) \<Rightarrow> system_ok A D A' D' p \<and> unit_cols (mrows A) A' p k)" for k s
  have "perm_ok (mrows A) [0..<mrows A]" by (auto simp: perm_ok_def)
  moreover have "solves (mrows A) (mcols A) (view A [0..<mrows A]) b x = solves (mrows A) (mcols A) (entry A) b' x"
    if "\<And>i. i < mrows A \<Longrightarrow> b i = b' i" for b b' x
    by (rule solves_cong) (use that in \<open>simp_all add: view_def\<close>)
  ultimately have "system_ok A D A D [0..<mrows A]"
    using assms by (simp add: system_ok_def same_solutions_def) (auto intro!: solves_cong simp: view_def)
  then have "P 0 (A, D, [0..<mrows A])" by (simp add: P_def unit_cols_def)
  moreover have "case gauss_step s k of Inl e \<Rightarrow> e = Non_solvable \<and> singular A | Inr s' \<Rightarrow> P (Suc k) s'"
    if "k < mcols A" "P k s" for k s
    using that assms(4) gauss_step_correct [of A D "fst s" "fst (snd s)" "snd (snd s)" k]
    by (auto simp: P_def split: sum.splits prod.splits)
  ultimately have r: "case rfold gauss_step (A, D, [0..<mrows A]) [0..<mcols A] of
      Inl e \<Rightarrow> e = Non_solvable \<and> singular A | Inr s' \<Rightarrow> P (mcols A) s'"
    by (intro rfold_upt [where P = P]) auto
  show ?thesis
  proof (cases "rfold gauss_step (A, D, [0..<mrows A]) [0..<mcols A]")
    case (Inl e)
    with r assms(4) show ?thesis by (simp add: gauss_run_def)
  next
    case (Inr s)
    obtain A' D' p where s: "s = (A', D', p)" by (cases s)
    with r Inr have ok: "system_ok A D A' D' p" and units: "unit_cols (mrows A) A' p (mcols A)" by (simp_all add: P_def)
    note o = ok [unfolded system_ok_def]
    obtain R where R: "apply_row_permutation D' p = Inr R" "matrix_ok R" "mrows R = mrows A" "mcols R = mcols D"
      "\<forall>i < mrows A. \<forall>j. entry R i j = view D' p i j"
      using permuted_rows [of D' p] o by auto
    have "solves (mrows A) (mcols A) (entry A) (\<lambda>i. entry D i d) x \<longleftrightarrow>
        (\<forall>i < mrows A. entry R i d = (if i < mcols A then x i else 0))" if "d < mcols D" for d x
    proof -
      have "solves (mrows A) (mcols A) (entry A) (\<lambda>i. entry D i d) x \<longleftrightarrow> solves (mrows A) (mcols A) (view A' p) (\<lambda>i. view D' p i d) x"
        using o that by (simp add: same_solutions_def)
      also have "\<dots> \<longleftrightarrow> (\<forall>i < mrows A. view D' p i d = (if i < mcols A then x i else 0))"
        by (rule reduced_solves [OF units assms(4)])
      finally show ?thesis using R(5) by simp
    qed
    then show ?thesis using Inr s R assms by (simp add: gauss_run_def)
  qed
qed


definition demo_coefficients :: gf256_matrix where
  "demo_coefficients = \<lparr>mrows = 3, mcols = 2, matrix = [[0, 2], [3, 1], [3, 3]]\<rparr>"

definition demo_sides :: gf256_matrix where
  "demo_sides = \<lparr>mrows = 3, mcols = 1, matrix = [[10], [18], [24]]\<rparr>"

theorem gauss_solves_witness:
  "gauss_run demo_coefficients demo_sides = Inr \<lparr>mrows = 3, mcols = 1, matrix = [[13], [5], [0]]\<rparr> \<and>
   solves 3 2 (entry demo_coefficients) (\<lambda>i. entry demo_sides i 0) (\<lambda>j. if j = 0 then Octet 13 else Octet 5)"
proof -
  have run: "gauss_run demo_coefficients demo_sides = Inr \<lparr>mrows = 3, mcols = 1, matrix = [[13], [5], [0]]\<rparr>" by code_simp
  have "matrix_ok demo_coefficients" "matrix_ok demo_sides" "mrows demo_sides = mrows demo_coefficients"
    "mcols demo_coefficients \<le> mrows demo_coefficients" by code_simp+
  from gauss_solves [OF this] run show ?thesis
    by (simp add: demo_coefficients_def demo_sides_def entry_def less_Suc_eq numeral_eq_Suc zero_octet_def)
qed

end
