(* ===== verification/Fec_Belief.thy ===== *)
theory Fec_Belief
  imports Fec_Gauss "HOL-Library.Multiset"
begin

text \<open>
  The decoder of sparse systems over two elements, class \<open>BeliefPropagationDecoding\<close> of
  \<^verbatim>\<open>tdfec/td/fec/algebra/BeliefPropagationDecoding.cpp\<close>: an equation gives the sum of some symbols, and an equation with
  one unknown symbol left determines it.  Counters and indices are natural numbers; a counter that would wrap around is a fault.
\<close>

section \<open>The state\<close>

record bp_symbol =
  is_ready :: bool
  head :: nat

record bp_equation =
  symbols_xor :: nat
  symbols_count :: nat

text \<open>The edges of a symbol form a linked list of the equations that the symbol occurs in; index 0 ends a list.\<close>

record bp_state =
  bp_C :: gf256_matrix
  bp_D :: gf256_matrix
  bp_symbols :: "bp_symbol list"
  bp_equations :: "bp_equation list"
  ready_equations :: "nat list"
  ready_symbols :: "nat list"
  bp_edges :: "(nat \<times> nat) list"

section \<open>The operations\<close>

text \<open>The initial number of rows for equations is computed in floating point; it is a parameter of the constructor.\<close>

definition bp_init :: "nat \<Rightarrow> nat \<Rightarrow> nat \<Rightarrow> bp_state" where
  "bp_init max_equation_count n symbol_size =
     \<lparr>bp_C = new_matrix n symbol_size, bp_D = new_matrix max_equation_count symbol_size,
      bp_symbols = replicate n \<lparr>is_ready = False, head = 0\<rparr>, bp_equations = [],
      ready_equations = [], ready_symbols = [], bp_edges = [(0, 0)]\<rparr>"

definition bp_is_ready :: "bp_state \<Rightarrow> bool" where
  "bp_is_ready st = (length (ready_symbols st) = mrows (bp_C st))"

definition get_symbol :: "bp_state \<Rightarrow> nat \<Rightarrow> fec_fault + u8 list" where
  "get_symbol st symbol_id =
     rbind (table_at (bp_symbols st) symbol_id) (\<lambda>symbol.
       if is_ready symbol then row_at (bp_C st) symbol_id else Inl Check_failed)"

text \<open>Visiting the equations of the edges from index \<open>i\<close> on; the first argument bounds the number of visits.\<close>

fun propagate :: "nat \<Rightarrow> nat \<Rightarrow> nat \<Rightarrow> bp_state \<Rightarrow> fec_fault + bp_state" where
  "propagate fuel symbol_id 0 st = Inr st"
| "propagate 0 symbol_id (Suc i) st = Inl Check_failed"
| "propagate (Suc fuel) symbol_id (Suc i) st =
     rbind (table_at (bp_edges st) (Suc i)) (\<lambda>(next_equation_id, next).
     rbind (row_at (bp_C st) symbol_id) (\<lambda>row.
     rbind (row_add_slice (bp_D st) next_equation_id row) (\<lambda>D.
     rbind (table_at (bp_equations st) next_equation_id) (\<lambda>next_equation.
     if symbols_count next_equation = 0 then Inl Check_failed
     else
       let e = \<lparr>symbols_xor = symbols_xor next_equation XOR symbol_id, symbols_count = symbols_count next_equation - 1\<rparr>
       in propagate fuel symbol_id next
            (st\<lparr>bp_D := D, bp_equations := (bp_equations st)[next_equation_id := e],
               ready_equations :=
                 (if symbols_count e = 1 then ready_equations st @ [next_equation_id] else ready_equations st)\<rparr>)))))"

text \<open>One round of the loop; \<open>None\<close> when the loop is left.\<close>

definition bp_round :: "bp_state \<Rightarrow> fec_fault + bp_state option" where
  "bp_round st =
     (if bp_is_ready st \<or> ready_equations st = [] then Inr None
      else
        let equation_id = last (ready_equations st); st1 = st\<lparr>ready_equations := butlast (ready_equations st)\<rparr>
        in rbind (table_at (bp_equations st) equation_id) (\<lambda>equation.
           if symbols_count equation > 1 then Inl Check_failed
           else if symbols_count equation = 0 then Inr (Some st1)
           else
             let symbol_id = symbols_xor equation
             in if \<not> symbol_id < length (bp_symbols st) then Inl Check_failed
                else if is_ready (bp_symbols st ! symbol_id) then Inr (Some st1)
                else
                  rbind (row_at (bp_D st) equation_id) (\<lambda>row.
                  rbind (row_set (bp_C st) symbol_id row) (\<lambda>C.
                  let symbol = bp_symbols st ! symbol_id;
                      st2 = st1\<lparr>bp_C := C, bp_symbols := (bp_symbols st)[symbol_id := symbol\<lparr>is_ready := True\<rparr>],
                              ready_symbols := ready_symbols st @ [symbol_id]\<rparr>
                  in rbind (propagate (length (bp_edges st)) symbol_id (head symbol) st2) (\<lambda>st3. Inr (Some st3))))))"

lemma propagate_symbols: "propagate fuel s i st = Inr st' \<Longrightarrow> bp_symbols st' = bp_symbols st"
  by (induction fuel s i st rule: propagate.induct) (auto simp: rsimps Let_def split: if_splits)

definition unready_count :: "bp_state \<Rightarrow> nat" where
  "unready_count st = length (filter (\<lambda>s. \<not> is_ready s) (bp_symbols st))"

lemma unready_update:
  assumes "i < length ss" "\<not> is_ready (ss ! i)"
  shows "length (filter (\<lambda>s. \<not> is_ready s) (ss[i := (ss ! i)\<lparr>is_ready := True\<rparr>])) < length (filter (\<lambda>s. \<not> is_ready s) ss)"
proof -
  have "ss = take i ss @ ss ! i # drop (Suc i) ss" using assms(1) by (rule id_take_nth_drop)
  then have "length (filter (\<lambda>s. \<not> is_ready s) ss) =
      length (filter (\<lambda>s. \<not> is_ready s) (take i ss)) + 1 + length (filter (\<lambda>s. \<not> is_ready s) (drop (Suc i) ss))"
    using assms(2) by (metis (no_types, lifting) filter.simps(2) filter_append length_Cons length_append add.assoc plus_1_eq_Suc)
  then show ?thesis using assms(1) by (simp add: upd_conv_take_nth_drop)
qed

lemma bp_round_decreases:
  assumes "bp_round st = Inr (Some st')"
  shows "(st', st) \<in> measures [unready_count, \<lambda>st. length (ready_equations st)]"
proof -
  have ne: "ready_equations st \<noteq> []" using assms by (auto simp: bp_round_def split: if_splits)
  then have "length (butlast (ready_equations st)) < length (ready_equations st)" by (cases "ready_equations st") auto
  then show ?thesis
    using assms ne unready_update [of _ "bp_symbols st"]
    by (auto simp: bp_round_def Let_def rsimps unready_count_def dest!: propagate_symbols split: if_splits)
qed

function bp_loop :: "bp_state \<Rightarrow> fec_fault + bp_state" where
  "bp_loop st = rbind (bp_round st) (\<lambda>r. case r of None \<Rightarrow> Inr st | Some st' \<Rightarrow> bp_loop st')"
  by pat_completeness auto
termination
  by (relation "measures [unready_count, \<lambda>st. length (ready_equations st)]") (auto dest!: bp_round_decreases)

declare bp_loop.simps [simp del]

fun add_symbol_id :: "nat \<Rightarrow> bp_state \<times> bp_equation \<Rightarrow> nat \<Rightarrow> fec_fault + bp_state \<times> bp_equation" where
  "add_symbol_id equation_id (st, equation) symbol_id =
     (if \<not> symbol_id < length (bp_symbols st) then Inl Check_failed
      else
        let symbol = bp_symbols st ! symbol_id
        in if is_ready symbol then
             rbind (row_at (bp_C st) symbol_id) (\<lambda>row. rbind (row_add_slice (bp_D st) equation_id row) (\<lambda>D.
               Inr (st\<lparr>bp_D := D\<rparr>, equation)))
           else
             let edges = bp_edges st @ [(equation_id, head symbol)]
             in Inr (st\<lparr>bp_edges := edges, bp_symbols := (bp_symbols st)[symbol_id := symbol\<lparr>head := length edges - 1\<rparr>]\<rparr>,
                     \<lparr>symbols_xor = symbols_xor equation XOR symbol_id, symbols_count = symbols_count equation + 1\<rparr>))"

definition grow_equations :: "bp_state \<Rightarrow> fec_fault + bp_state" where
  "grow_equations st =
     (if length (bp_equations st) \<ge> mrows (bp_D st) then
        rbind (set_from (new_matrix (mrows (bp_D st) * 2) (mcols (bp_D st))) (bp_D st) 0 0) (\<lambda>D. Inr (st\<lparr>bp_D := D\<rparr>))
      else Inr st)"

definition add_equation :: "nat list \<Rightarrow> u8 list \<Rightarrow> bp_state \<Rightarrow> fec_fault + bp_state" where
  "add_equation symbol_ids data st0 =
     rbind (grow_equations st0) (\<lambda>st.
     if symbol_ids = [] then Inl Check_failed
     else
       let equation_id = length (bp_equations st)
       in rbind (row_set (bp_D st) equation_id data) (\<lambda>D.
          rbind (rfold (add_symbol_id equation_id) (st\<lparr>bp_D := D\<rparr>, \<lparr>symbols_xor = 0, symbols_count = 0\<rparr>) symbol_ids) (\<lambda>(st1, equation).
          if symbols_count equation = 0 then Inr st1
          else
            let st2 = st1\<lparr>bp_equations := bp_equations st1 @ [equation]\<rparr>
            in if symbols_count equation = 1 then bp_loop (st2\<lparr>ready_equations := ready_equations st2 @ [equation_id]\<rparr>)
               else Inr st2)))"

section \<open>The invariant\<close>

text \<open>The sum of the symbols' numbers in the sense of the exclusive or.\<close>

interpretation xor_commute: comp_fun_commute "(XOR) :: nat \<Rightarrow> nat \<Rightarrow> nat"
  by unfold_locales (auto simp: xor.left_commute)

definition xor_of :: "nat multiset \<Rightarrow> nat" where
  "xor_of M = fold_mset (XOR) 0 M"

lemma xor_of_simps [simp]: "xor_of {#} = 0" "xor_of (add_mset x M) = x XOR xor_of M"
  by (simp_all add: xor_of_def)

text \<open>The equations that a linked list of edges leads to.\<close>

inductive edge_chain :: "(nat \<times> nat) list \<Rightarrow> nat \<Rightarrow> nat list \<Rightarrow> bool" for E where
  edge_end: "edge_chain E 0 []"
| edge_next: "\<lbrakk>i < length E; E ! i = (e, k); k < i; edge_chain E k L\<rbrakk> \<Longrightarrow> edge_chain E i (e # L)"

inductive_cases edge_chain_cases: "edge_chain E i L"

lemma edge_chain_length: "edge_chain E i L \<Longrightarrow> length L \<le> i \<and> (i = 0 \<or> i < length E)"
  by (induction rule: edge_chain.induct) auto

lemma edge_chain_append: "edge_chain E i L \<Longrightarrow> edge_chain (E @ F) i L"
  by (induction rule: edge_chain.induct) (auto intro: edge_chain.intros simp: nth_append)

text \<open>
  The symbols that an equation with the symbols \<open>M\<close> still waits for.  \<open>X s j\<close> is byte \<open>j\<close> of the symbol \<open>s\<close> that is to be
  found; \<open>ids\<close> are the symbols, with their multiplicities, that each equation had when it was added.
\<close>

definition waiting :: "bp_state \<Rightarrow> nat multiset \<Rightarrow> nat multiset" where
  "waiting st M = filter_mset (\<lambda>s. \<not> is_ready (bp_symbols st ! s)) M"

definition symbol_sum :: "(nat \<Rightarrow> nat \<Rightarrow> octet) \<Rightarrow> nat multiset \<Rightarrow> nat \<Rightarrow> octet" where
  "symbol_sum X M j = (\<Sum>s \<in># M. X s j)"

definition equation_ok :: "(nat \<Rightarrow> nat \<Rightarrow> octet) \<Rightarrow> bp_state \<Rightarrow> nat \<Rightarrow> nat multiset \<Rightarrow> bool" where
  "equation_ok X st e M =
     (symbols_count (bp_equations st ! e) = size M \<and> symbols_xor (bp_equations st ! e) = xor_of M \<and>
      (\<forall>j < mcols (bp_D st). entry (bp_D st) e j = symbol_sum X M j))"

definition storage_ok :: "bp_state \<Rightarrow> bool" where
  "storage_ok st =
     (matrix_ok (bp_C st) \<and> matrix_ok (bp_D st) \<and> mcols (bp_C st) = mcols (bp_D st) \<and>
      mrows (bp_C st) = length (bp_symbols st) \<and> length (bp_equations st) \<le> mrows (bp_D st))"

definition symbols_ok :: "(nat \<Rightarrow> nat \<Rightarrow> octet) \<Rightarrow> bp_state \<Rightarrow> bool" where
  "symbols_ok X st =
     ((\<forall>s < length (bp_symbols st). is_ready (bp_symbols st ! s) \<longrightarrow> (\<forall>j < mcols (bp_C st). entry (bp_C st) s j = X s j)) \<and>
      distinct (ready_symbols st) \<and>
      set (ready_symbols st) = {s. s < length (bp_symbols st) \<and> is_ready (bp_symbols st ! s)})"

definition edges_ok :: "nat multiset list \<Rightarrow> bp_state \<Rightarrow> bool" where
  "edges_ok ids st =
     (bp_edges st \<noteq> [] \<and>
      (\<forall>s < length (bp_symbols st). \<not> is_ready (bp_symbols st ! s) \<longrightarrow>
        (\<exists>L. edge_chain (bp_edges st) (head (bp_symbols st ! s)) L \<and> (\<forall>e \<in> set L. e < length ids) \<and>
          (\<forall>e < length ids. count (mset L) e = count (ids ! e) s))))"

text \<open>Every equation with one unknown is queued or will be visited; a queued equation has at most one.\<close>

definition queue_ok :: "bp_state \<Rightarrow> nat list \<Rightarrow> bool" where
  "queue_ok st rest =
     ((\<forall>e < length (bp_equations st). symbols_count (bp_equations st ! e) = 1 \<longrightarrow> e \<in> set (ready_equations st) \<union> set rest) \<and>
      (\<forall>e \<in> set (ready_equations st). e < length (bp_equations st) \<and> symbols_count (bp_equations st ! e) \<le> 1))"

section \<open>Propagation keeps the invariant\<close>

lemma oct_cancel [simp]: "a + b + a = (b :: octet)" "a + (b + a) = b" "a + (a + b) = b"
  by (metis add.commute add.left_commute add_0_right oct_self_add)+

lemma symbol_sum_add [simp]: "symbol_sum X (add_mset s M) j = X s j + symbol_sum X M j"
  by (simp add: symbol_sum_def)

lemma xor_cancel [simp]: "(x XOR y) XOR x = (y :: nat)" "x XOR (y XOR x) = y"
  by (metis xor.commute xor.left_commute xor.right_neutral xor_self_eq)+

text \<open>What a visit does to the equation \<open>e\<close>.\<close>

definition visit :: "nat \<Rightarrow> nat \<Rightarrow> gf256_matrix \<Rightarrow> bp_state \<Rightarrow> bp_state" where
  "visit s e D st =
     (let q = \<lparr>symbols_xor = symbols_xor (bp_equations st ! e) XOR s, symbols_count = symbols_count (bp_equations st ! e) - 1\<rparr>
      in st\<lparr>bp_D := D, bp_equations := (bp_equations st)[e := q],
           ready_equations := (if symbols_count q = 1 then ready_equations st @ [e] else ready_equations st)\<rparr>)"

lemma visit_ok:
  assumes st: "storage_ok st" "e < length (bp_equations st)"
    and D: "changes_row (bp_D st) e (\<lambda>j. entry (bp_D st) e j + X s j) D"
    and eqs: "\<forall>f < length (bp_equations st). equation_ok X st f (M f + replicate_mset (count (mset (e # L)) f) s)"
    and queue: "queue_ok st (e # L)"
  shows "storage_ok (visit s e D st)"
    "\<forall>f < length (bp_equations st). equation_ok X (visit s e D st) f (M f + replicate_mset (count (mset L) f) s)"
    "queue_ok (visit s e D st) L"
proof -
  have rows: "e < mrows (bp_D st)" using st by (simp add: storage_ok_def)
  show "storage_ok (visit s e D st)" using st D by (simp add: storage_ok_def visit_def Let_def changes_row_def)
  have e: "equation_ok X st e (add_mset s (M e + replicate_mset (count (mset L) e) s))" using eqs st(2) by auto
  show "\<forall>f < length (bp_equations st). equation_ok X (visit s e D st) f (M f + replicate_mset (count (mset L) f) s)"
  proof (intro allI impI)
    fix f assume f: "f < length (bp_equations st)"
    show "equation_ok X (visit s e D st) f (M f + replicate_mset (count (mset L) f) s)"
    proof (cases "f = e")
      case True
      with e D rows st(2) show ?thesis by (simp add: equation_ok_def visit_def Let_def changes_row_def)
    next
      case False
      then have "count (mset (e # L)) f = count (mset L) f" by simp
      with eqs [rule_format, OF f] D False f st show ?thesis
        by (simp add: equation_ok_def visit_def Let_def changes_row_def storage_ok_def)
    qed
  qed
  show "queue_ok (visit s e D st) L"
    using queue st(2) by (auto simp: queue_ok_def visit_def Let_def nth_list_update split: if_splits)
qed

lemma propagate_step:
  assumes "storage_ok st" "s < length (bp_symbols st)" "i < length (bp_edges st)" "bp_edges st ! i = (e, k)" "0 < i"
    and "e < length (bp_equations st)" "0 < symbols_count (bp_equations st ! e)"
    and "\<forall>j < mcols (bp_C st). entry (bp_C st) s j = X s j"
  shows "\<exists>D. changes_row (bp_D st) e (\<lambda>j. entry (bp_D st) e j + X s j) D \<and>
    propagate (Suc fuel) s i st = propagate fuel s k (visit s e D st)"
proof -
  note o = assms(1) [unfolded storage_ok_def]
  obtain i' where i: "i = Suc i'" using assms(5) by (cases i) auto
  have len: "length (matrix (bp_C st) ! s) = mcols (bp_D st)" using o assms(2) matrix_ok_row [of "bp_C st" s] by simp
  obtain D where D: "row_add_slice (bp_D st) e (matrix (bp_C st) ! s) = Inr D"
    "changes_row (bp_D st) e (\<lambda>j. entry (bp_D st) e j + Octet (matrix (bp_C st) ! s ! j)) D"
    using row_add_slice_changes [of "bp_D st" e "matrix (bp_C st) ! s"] o assms(6) len by auto
  have "changes_row (bp_D st) e (\<lambda>j. entry (bp_D st) e j + X s j) D"
    using D(2) assms(8) o by (simp add: changes_row_def entry_def)
  moreover have "propagate (Suc fuel) s i st = propagate fuel s k (visit s e D st)"
    using assms o D(1) by (simp add: i table_at_def row_at_def visit_def Let_def)
  ultimately show ?thesis by blast
qed

lemma propagate_ok:
  assumes "edge_chain E i L" "bp_edges st = E" "length L \<le> fuel" "storage_ok st" "s < length (bp_symbols st)"
    and "\<forall>j < mcols (bp_C st). entry (bp_C st) s j = X s j"
    and "\<forall>e \<in> set L. e < length (bp_equations st)"
    and "\<forall>e < length (bp_equations st). equation_ok X st e (M e + replicate_mset (count (mset L) e) s)" "queue_ok st L"
  shows "\<exists>st'. propagate fuel s i st = Inr st' \<and> storage_ok st' \<and>
    bp_C st' = bp_C st \<and> bp_symbols st' = bp_symbols st \<and> ready_symbols st' = ready_symbols st \<and> bp_edges st' = bp_edges st \<and>
    length (bp_equations st') = length (bp_equations st) \<and>
    (\<forall>e < length (bp_equations st). equation_ok X st' e (M e)) \<and> queue_ok st' []"
  using assms
proof (induction arbitrary: fuel st rule: edge_chain.induct)
  case edge_end
  then show ?case by simp
next
  case (edge_next i e k L)
  obtain f where f: "fuel = Suc f" "length L \<le> f" using edge_next.prems(2) by (cases fuel) auto
  have e: "e < length (bp_equations st)" using edge_next.prems(6) by simp
  then have "0 < symbols_count (bp_equations st ! e)" using edge_next.prems(7) by (simp add: equation_ok_def)
  then obtain D where D: "changes_row (bp_D st) e (\<lambda>j. entry (bp_D st) e j + X s j) D"
    "propagate fuel s i st = propagate f s k (visit s e D st)"
    using propagate_step [of st s i e k X f] edge_next.hyps(1,2,3) edge_next.prems(1,3,4,5) e f(1) by auto
  let ?v = "visit s e D st"
  have v: "bp_edges ?v = bp_edges st" "bp_C ?v = bp_C st" "bp_symbols ?v = bp_symbols st" "ready_symbols ?v = ready_symbols st"
    "length (bp_equations ?v) = length (bp_equations st)"
    by (simp_all add: visit_def Let_def)
  note ok = visit_ok [OF edge_next.prems(3) e D(1) edge_next.prems(7,8)]
  show ?case
    unfolding D(2) using edge_next.IH [of ?v f] v ok f(2) edge_next.prems(1,4-6) by simp
qed

section \<open>The loop keeps the invariant and stops when nothing can be found\<close>

definition bp_inv :: "(nat \<Rightarrow> nat \<Rightarrow> octet) \<Rightarrow> nat multiset list \<Rightarrow> bp_state \<Rightarrow> bool" where
  "bp_inv X ids st =
     (storage_ok st \<and> symbols_ok X st \<and> length ids = length (bp_equations st) \<and> edges_ok ids st \<and>
      (\<forall>e < length (bp_equations st). equation_ok X st e (waiting st (ids ! e))) \<and>
      (\<forall>M \<in> set ids. \<forall>s \<in># M. s < length (bp_symbols st)) \<and> queue_ok st [])"

text \<open>The state when the symbol \<open>s\<close> has been found, before its equations are visited.\<close>

definition found :: "nat \<Rightarrow> gf256_matrix \<Rightarrow> bp_state \<Rightarrow> bp_state" where
  "found s C st =
     st\<lparr>ready_equations := butlast (ready_equations st), bp_C := C,
        bp_symbols := (bp_symbols st)[s := (bp_symbols st ! s)\<lparr>is_ready := True\<rparr>],
        ready_symbols := ready_symbols st @ [s]\<rparr>"

lemma found_ready:
  "s < length (bp_symbols st) \<Longrightarrow> t < length (bp_symbols st) \<Longrightarrow>
    is_ready (bp_symbols (found s C st) ! t) \<longleftrightarrow> t = s \<or> is_ready (bp_symbols st ! t)"
  "t < length (bp_symbols st) \<Longrightarrow> head (bp_symbols (found s C st) ! t) = head (bp_symbols st ! t)"
  by (auto simp: found_def nth_list_update) (cases "s = t"; simp)

lemma found_waiting:
  assumes "s < length (bp_symbols st)" "\<not> is_ready (bp_symbols st ! s)" "\<forall>t \<in># M. t < length (bp_symbols st)"
  shows "waiting st M = waiting (found s C st) M + replicate_mset (count M s) s"
proof (rule multiset_eqI)
  fix t
  show "count (waiting st M) t = count (waiting (found s C st) M + replicate_mset (count M s) s) t"
  proof (cases "t \<in># M")
    case True
    with assms show ?thesis by (auto simp: waiting_def found_ready)
  qed (auto simp: waiting_def not_in_iff)
qed

lemma found_ok:
  assumes inv: "bp_inv X ids st" and s: "s < length (bp_symbols st)" "\<not> is_ready (bp_symbols st ! s)"
    and C: "changes_row (bp_C st) s (X s) C"
  shows "storage_ok (found s C st)" "symbols_ok X (found s C st)" "edges_ok ids (found s C st)"
proof -
  note i = inv [unfolded bp_inv_def]
  show "storage_ok (found s C st)" using i C by (simp add: storage_ok_def found_def changes_row_def)
  have "mrows (bp_C st) = length (bp_symbols st)" using i by (simp add: storage_ok_def)
  then have "entry C t j = (if t = s then X s j else entry (bp_C st) t j)" "mcols C = mcols (bp_C st)"
    if "t < length (bp_symbols st)" "j < mcols (bp_C st)" for t j
    using C that by (auto simp: changes_row_def)
  moreover have "symbols_ok X st" using i by simp
  ultimately show "symbols_ok X (found s C st)"
    using s C by (auto simp: symbols_ok_def found_def nth_list_update changes_row_def)
  have "edges_ok ids st" using i by simp
  moreover have "bp_edges (found s C st) = bp_edges st" "length (bp_symbols (found s C st)) = length (bp_symbols st)"
    by (simp_all add: found_def)
  ultimately show "edges_ok ids (found s C st)" using s(1) by (simp add: edges_ok_def found_ready)
qed

lemma in_butlast: "x \<in> set xs \<Longrightarrow> x \<in> set (butlast xs) \<or> x = last xs"
  by (cases xs rule: rev_cases) auto

lemma found_propagate:
  assumes inv: "bp_inv X ids st" and s: "s < length (bp_symbols st)" "\<not> is_ready (bp_symbols st ! s)"
    and C: "changes_row (bp_C st) s (X s) C" and e: "ready_equations st \<noteq> []" "s \<in># ids ! last (ready_equations st)"
  shows "\<exists>st'. propagate (length (bp_edges st)) s (head (bp_symbols st ! s)) (found s C st) = Inr st' \<and> bp_inv X ids st' \<and>
    length (bp_equations st') = length (bp_equations st)"
proof -
  let ?f = "found s C st" and ?l = "last (ready_equations st)"
  note i = inv [unfolded bp_inv_def] and fok = found_ok [OF inv s C]
  have same: "bp_equations ?f = bp_equations st" "bp_D ?f = bp_D st" "bp_edges ?f = bp_edges st" "bp_C ?f = C"
    "length (bp_symbols ?f) = length (bp_symbols st)" "ready_equations ?f = butlast (ready_equations st)"
    by (simp_all add: found_def)
  obtain L where L: "edge_chain (bp_edges st) (head (bp_symbols st ! s)) L" "\<forall>e \<in> set L. e < length ids"
    "\<forall>e < length ids. count (mset L) e = count (ids ! e) s"
    using i s unfolding edges_ok_def by blast
  have "length L \<le> length (bp_edges st)" using edge_chain_length [OF L(1)] by auto
  moreover have "\<forall>j < mcols (bp_C ?f). entry (bp_C ?f) s j = X s j"
    using C i s by (simp add: same changes_row_def storage_ok_def)
  moreover have "\<forall>f < length (bp_equations ?f). equation_ok X ?f f (waiting ?f (ids ! f) + replicate_mset (count (mset L) f) s)"
  proof (intro allI impI)
    fix f assume "f < length (bp_equations ?f)"
    then have f: "f < length ids" using i by (simp add: same)
    then have "\<forall>t \<in># ids ! f. t < length (bp_symbols st)" using i nth_mem [OF f] by blast
    then have "waiting st (ids ! f) = waiting ?f (ids ! f) + replicate_mset (count (mset L) f) s"
      using f found_waiting [OF s, of "ids ! f" C] L(3) by simp
    moreover have "equation_ok X st f (waiting st (ids ! f))" using i f by simp
    ultimately show "equation_ok X ?f f (waiting ?f (ids ! f) + replicate_mset (count (mset L) f) s)"
      by (simp add: equation_ok_def same)
  qed
  moreover have "queue_ok ?f L"
  proof -
    have "?l \<in> set (ready_equations st)" using e(1) by simp
    then have "?l < length ids" using i by (auto simp: queue_ok_def)
    then have "?l \<in> set L" using L(3) e(2) by (metis count_greater_zero_iff set_mset_mset)
    then show ?thesis using i by (auto simp: queue_ok_def same dest: in_butlast in_set_butlastD)
  qed
  ultimately obtain st' where st': "propagate (length (bp_edges st)) s (head (bp_symbols st ! s)) ?f = Inr st'" "storage_ok st'"
    "bp_C st' = bp_C ?f" "bp_symbols st' = bp_symbols ?f" "ready_symbols st' = ready_symbols ?f" "bp_edges st' = bp_edges ?f"
    "length (bp_equations st') = length (bp_equations ?f)"
    "\<forall>f < length (bp_equations ?f). equation_ok X st' f (waiting ?f (ids ! f))" "queue_ok st' []"
    using propagate_ok [OF L(1) same(3), of "length (bp_edges st)" s X "\<lambda>f. waiting ?f (ids ! f)"] fok(1) s L(2) i
    by (auto simp: same)
  have w: "waiting st' M = waiting ?f M" for M by (simp add: waiting_def st'(4))
  have "symbols_ok X st'" using fok(2) st'(3-5) by (simp add: symbols_ok_def)
  moreover have "edges_ok ids st'" using fok(3) st'(4,6) by (simp add: edges_ok_def)
  ultimately have "bp_inv X ids st'" using i st' by (simp add: bp_inv_def same w)
  with st' show ?thesis by (simp add: same)
qed


definition settled :: "bp_state \<Rightarrow> bool" where
  "settled st = (bp_is_ready st \<or> ready_equations st = [])"

lemma single_waiting:
  assumes inv: "bp_inv X ids st" and e: "e < length (bp_equations st)" "symbols_count (bp_equations st ! e) = 1"
  shows "\<exists>s. symbols_xor (bp_equations st ! e) = s \<and> s \<in># ids ! e \<and> s < length (bp_symbols st) \<and> \<not> is_ready (bp_symbols st ! s) \<and>
    (\<forall>j < mcols (bp_D st). entry (bp_D st) e j = X s j)"
proof -
  note i = inv [unfolded bp_inv_def]
  have ok: "equation_ok X st e (waiting st (ids ! e))" using i e(1) by simp
  then have "size (waiting st (ids ! e)) = 1" using e(2) by (simp add: equation_ok_def)
  then obtain s where s: "waiting st (ids ! e) = {#s#}" using size_1_singleton_mset by blast
  then have "s \<in># waiting st (ids ! e)" by simp
  then have m: "s \<in># ids ! e" "\<not> is_ready (bp_symbols st ! s)" by (simp_all add: waiting_def)
  moreover have "ids ! e \<in> set ids" using i e(1) by simp
  ultimately have "s < length (bp_symbols st)" using i by blast
  with m ok s show ?thesis by (auto simp: equation_ok_def symbol_sum_def)
qed

lemma queue_irrelevant:
  "storage_ok (st\<lparr>ready_equations := q\<rparr>) = storage_ok st" "symbols_ok X (st\<lparr>ready_equations := q\<rparr>) = symbols_ok X st"
  "edges_ok ids (st\<lparr>ready_equations := q\<rparr>) = edges_ok ids st" "waiting (st\<lparr>ready_equations := q\<rparr>) M = waiting st M"
  "equation_ok X (st\<lparr>ready_equations := q\<rparr>) e M = equation_ok X st e M"
  by (simp_all add: storage_ok_def symbols_ok_def edges_ok_def equation_ok_def waiting_def)

lemma bp_round_ok:
  assumes inv: "bp_inv X ids st"
  shows "case bp_round st of
      Inl f \<Rightarrow> False
    | Inr None \<Rightarrow> settled st
    | Inr (Some st') \<Rightarrow> bp_inv X ids st' \<and> length (bp_equations st') = length (bp_equations st)"
proof (cases "settled st")
  case True
  then show ?thesis by (simp add: bp_round_def settled_def)
next
  case False
  note i = inv [unfolded bp_inv_def]
  let ?e = "last (ready_equations st)"
  have ne: "ready_equations st \<noteq> []" "\<not> bp_is_ready st" using False by (auto simp: settled_def)
  then have "?e \<in> set (ready_equations st)" by simp
  then have e: "?e < length (bp_equations st)" "symbols_count (bp_equations st ! ?e) \<le> 1" using i by (auto simp: queue_ok_def)
  then consider "symbols_count (bp_equations st ! ?e) = 0" | "symbols_count (bp_equations st ! ?e) = 1" by linarith
  then show ?thesis
  proof cases
    case 1
    let ?st = "st\<lparr>ready_equations := butlast (ready_equations st)\<rparr>"
    have "bp_round st = Inr (Some ?st)" using 1 e ne by (simp add: bp_round_def table_at_def Let_def)
    moreover have "e \<in> set (butlast (ready_equations st))"
      if "e < length (bp_equations st)" "symbols_count (bp_equations st ! e) = 1" for e
      using i 1 that in_butlast [of e "ready_equations st"] by (auto simp: queue_ok_def)
    then have "queue_ok ?st []" using i by (auto simp: queue_ok_def dest: in_set_butlastD)
    then have "bp_inv X ids ?st" using i by (simp add: bp_inv_def queue_irrelevant)
    ultimately show ?thesis by simp
  next
    case 2
    obtain s where s: "symbols_xor (bp_equations st ! ?e) = s" "s \<in># ids ! ?e" "s < length (bp_symbols st)"
      "\<not> is_ready (bp_symbols st ! s)" "\<forall>j < mcols (bp_D st). entry (bp_D st) ?e j = X s j"
      using single_waiting [OF inv e(1) 2] by blast
    have rows: "?e < mrows (bp_D st)" "s < mrows (bp_C st)" "matrix_ok (bp_C st)" "mcols (bp_C st) = mcols (bp_D st)"
      "length (matrix (bp_D st) ! ?e) = mcols (bp_D st)"
      using i e s matrix_ok_row [of "bp_D st" ?e] by (auto simp: storage_ok_def)
    obtain C where C: "row_set (bp_C st) s (matrix (bp_D st) ! ?e) = Inr C" "changes_row (bp_C st) s (\<lambda>j. Octet (matrix (bp_D st) ! ?e ! j)) C"
      using row_set_changes [of "bp_C st" s "matrix (bp_D st) ! ?e"] rows by auto
    then have "changes_row (bp_C st) s (X s) C" using s(5) rows by (simp add: changes_row_def entry_def)
    from found_propagate [OF inv s(3,4) this ne(1) s(2)] obtain st' where
      "propagate (length (bp_edges st)) s (head (bp_symbols st ! s)) (found s C st) = Inr st'" "bp_inv X ids st'"
      "length (bp_equations st') = length (bp_equations st)" by blast
    moreover have "bp_round st = rbind (propagate (length (bp_edges st)) s (head (bp_symbols st ! s)) (found s C st)) (\<lambda>st'. Inr (Some st'))"
      using 2 e ne s C(1) rows by (simp add: bp_round_def table_at_def Let_def row_at_def found_def)
    ultimately show ?thesis by simp
  qed
qed

lemma bp_loop_ok:
  "bp_inv X ids st \<Longrightarrow>
    \<exists>st'. bp_loop st = Inr st' \<and> bp_inv X ids st' \<and> settled st' \<and> length (bp_equations st') = length (bp_equations st)"
proof (induction st rule: bp_loop.induct)
  case (1 st)
  from bp_round_ok [OF 1(2)] show ?case
  proof (cases "bp_round st")
    case (Inr r)
    then show ?thesis
      using bp_round_ok [OF 1(2)] 1 by (cases r) (auto simp: bp_loop.simps [of st])
  qed simp
qed


section \<open>Adding an equation keeps the invariant\<close>

lemma bp_inv_equations_kept:
  assumes inv: "bp_inv X ids st" and D: "matrix_ok D" "mcols D = mcols (bp_D st)" "length (bp_equations st) \<le> mrows D"
    "\<And>e j. e < length (bp_equations st) \<Longrightarrow> j < mcols D \<Longrightarrow> entry D e j = entry (bp_D st) e j"
  shows "bp_inv X ids (st\<lparr>bp_D := D\<rparr>)"
proof -
  note i = inv [unfolded bp_inv_def]
  have "waiting (st\<lparr>bp_D := D\<rparr>) M = waiting st M" "edges_ok ids (st\<lparr>bp_D := D\<rparr>) = edges_ok ids st" for M
    by (simp_all add: waiting_def edges_ok_def)
  then show ?thesis
    using i D by (auto simp: bp_inv_def storage_ok_def symbols_ok_def equation_ok_def queue_ok_def)
qed

lemma grow_equations_ok:
  assumes inv: "bp_inv X ids st" and pos: "0 < mrows (bp_D st)"
  shows "\<exists>D. grow_equations st = Inr (st\<lparr>bp_D := D\<rparr>) \<and> bp_inv X ids (st\<lparr>bp_D := D\<rparr>) \<and> length (bp_equations st) < mrows D \<and>
    mcols D = mcols (bp_D st)"
proof (cases "length (bp_equations st) \<ge> mrows (bp_D st)")
  case True
  let ?new = "new_matrix (mrows (bp_D st) * 2) (mcols (bp_D st))"
  have st: "storage_ok st" using inv by (simp add: bp_inv_def)
  have new: "mrows ?new = mrows (bp_D st) * 2" "mcols ?new = mcols (bp_D st)" by (simp_all add: new_matrix_def)
  obtain D where D: "set_from ?new (bp_D st) 0 0 = Inr D" "matrix_ok D" "mrows D = mrows (bp_D st) * 2" "mcols D = mcols (bp_D st)"
    "\<forall>i < mrows (bp_D st). matrix D ! i = matrix (bp_D st) ! i"
    using set_from_copies [of ?new "bp_D st"] st new by (auto simp: new_matrix_ok storage_ok_def)
  then have "bp_inv X ids (st\<lparr>bp_D := D\<rparr>)" using st by (intro bp_inv_equations_kept [OF inv]) (auto simp: entry_def storage_ok_def)
  with True D st pos show ?thesis by (intro exI [of _ D]) (simp add: grow_equations_def storage_ok_def)
next
  case False
  then show ?thesis using inv by (intro exI [of _ "bp_D st"]) (simp add: grow_equations_def)
qed

text \<open>
  While the symbols of a new equation are added: \<open>N\<close> are the unknown symbols among those added, \<open>rest\<close> the symbols to come.
\<close>

definition values_ok :: "(nat \<Rightarrow> nat \<Rightarrow> octet) \<Rightarrow> nat multiset list \<Rightarrow> bp_state \<Rightarrow> bool" where
  "values_ok X ids st =
     (storage_ok st \<and> symbols_ok X st \<and> length ids = length (bp_equations st) \<and>
      (\<forall>e < length (bp_equations st). equation_ok X st e (waiting st (ids ! e))) \<and>
      (\<forall>M \<in> set ids. \<forall>s \<in># M. s < length (bp_symbols st)) \<and> queue_ok st [])"

definition adding :: "(nat \<Rightarrow> nat \<Rightarrow> octet) \<Rightarrow> nat multiset list \<Rightarrow> bp_state \<Rightarrow> bp_equation \<Rightarrow> nat multiset \<Rightarrow> nat list \<Rightarrow> bool" where
  "adding X ids st equation N rest =
     (values_ok X ids st \<and> edges_ok (ids @ [N]) st \<and> length ids < mrows (bp_D st) \<and>
      (\<forall>s \<in># N. s < length (bp_symbols st) \<and> \<not> is_ready (bp_symbols st ! s)) \<and>
      symbols_count equation = size N \<and> symbols_xor equation = xor_of N \<and>
      (\<forall>j < mcols (bp_D st). entry (bp_D st) (length ids) j = symbol_sum X N j + symbol_sum X (mset rest) j))"

lemma bp_inv_values: "bp_inv X ids st = (values_ok X ids st \<and> edges_ok ids st)"
  by (auto simp: bp_inv_def values_ok_def)

lemma values_ok_equations_kept:
  assumes "values_ok X ids st" "changes_row (bp_D st) (length ids) f D"
  shows "values_ok X ids (st\<lparr>bp_D := D\<rparr>)"
proof -
  have "waiting (st\<lparr>bp_D := D\<rparr>) M = waiting st M" for M by (simp add: waiting_def)
  with assms show ?thesis
    by (auto simp: values_ok_def storage_ok_def symbols_ok_def equation_ok_def queue_ok_def changes_row_def)
qed

lemma symbol_sum_simps [simp]: "symbol_sum X {#} j = 0" "symbol_sum X (add_mset s M) j = X s j + symbol_sum X M j"
  by (simp_all add: symbol_sum_def)

lemma oct_two [simp]: "(2 :: octet) = 0"
  by (metis one_add_one oct_self_add)

lemma add_ready_symbol:
  assumes ok: "adding X ids st equation N (s # rest)" and s: "s < length (bp_symbols st)" "is_ready (bp_symbols st ! s)"
  shows "\<exists>D. add_symbol_id (length ids) (st, equation) s = Inr (st\<lparr>bp_D := D\<rparr>, equation) \<and>
    adding X ids (st\<lparr>bp_D := D\<rparr>) equation N rest \<and> mcols D = mcols (bp_D st)"
proof -
  have v: "values_ok X ids st" "storage_ok st" "symbols_ok X st" "length ids < mrows (bp_D st)"
    using ok by (simp_all add: adding_def values_ok_def)
  have len: "length (matrix (bp_C st) ! s) = mcols (bp_D st)" "s < mrows (bp_C st)"
    using v s matrix_ok_row [of "bp_C st" s] by (auto simp: storage_ok_def)
  obtain D where D: "row_add_slice (bp_D st) (length ids) (matrix (bp_C st) ! s) = Inr D"
    "changes_row (bp_D st) (length ids) (\<lambda>j. entry (bp_D st) (length ids) j + Octet (matrix (bp_C st) ! s ! j)) D"
    using row_add_slice_changes [of "bp_D st" "length ids" "matrix (bp_C st) ! s"] v len by (auto simp: storage_ok_def)
  have "Octet (matrix (bp_C st) ! s ! j) = X s j" if "j < mcols (bp_D st)" for j
    using v s that by (simp add: symbols_ok_def storage_ok_def entry_def)
  then have "entry D (length ids) j = symbol_sum X N j + symbol_sum X (mset rest) j" if "j < mcols (bp_D st)" for j
    using ok that D(2) v(4) by (simp add: adding_def changes_row_def add.left_commute [of "X s j"])
  moreover have "edges_ok (ids @ [N]) (st\<lparr>bp_D := D\<rparr>) = edges_ok (ids @ [N]) st" by (simp add: edges_ok_def)
  ultimately have "adding X ids (st\<lparr>bp_D := D\<rparr>) equation N rest"
    using ok D(2) values_ok_equations_kept [OF v(1) D(2)] by (simp add: adding_def changes_row_def)
  then show ?thesis using D s len by (auto simp: row_at_def changes_row_def)
qed

lemma edges_ok_push:
  assumes ok: "edges_ok (ids @ [N]) st" and s: "s < length (bp_symbols st)" "\<not> is_ready (bp_symbols st ! s)"
  shows "edges_ok (ids @ [add_mset s N])
    (st\<lparr>bp_edges := bp_edges st @ [(length ids, head (bp_symbols st ! s))],
        bp_symbols := (bp_symbols st)[s := (bp_symbols st ! s)\<lparr>head := length (bp_edges st)\<rparr>]\<rparr>)"
    (is "edges_ok ?ids ?st")
proof -
  have "\<exists>L. edge_chain (bp_edges ?st) (head (bp_symbols ?st ! t)) L \<and> (\<forall>e \<in> set L. e < length ?ids) \<and>
      (\<forall>e < length ?ids. count (mset L) e = count (?ids ! e) t)"
    if t: "t < length (bp_symbols st)" "\<not> is_ready (bp_symbols ?st ! t)" for t
  proof -
    have "\<not> is_ready (bp_symbols st ! t)" using t s by (auto simp: nth_list_update split: if_splits)
    then obtain L where L: "edge_chain (bp_edges st) (head (bp_symbols st ! t)) L" "\<forall>e \<in> set L. e < length (ids @ [N])"
      "\<forall>e < length (ids @ [N]). count (mset L) e = count ((ids @ [N]) ! e) t"
      using ok t(1) unfolding edges_ok_def by blast
    note app = edge_chain_append [OF L(1), of "[(length ids, head (bp_symbols st ! s))]"]
    have "bp_edges st \<noteq> []" using ok by (simp add: edges_ok_def)
    then have "head (bp_symbols st ! t) < length (bp_edges st)" using edge_chain_length [OF L(1)] by auto
    then have "edge_chain (bp_edges ?st) (length (bp_edges st)) (length ids # L)" if "t = s"
      using that app by (intro edge_next) (auto simp: nth_append)
    then show ?thesis
      using L(2,3) app t(1) s(1)
      by (cases "t = s", intro exI [of _ "length ids # L"]) (auto simp: nth_append less_Suc_eq intro!: exI [of _ L])
  qed
  then show ?thesis by (simp add: edges_ok_def)
qed


lemma values_ok_heads:
  "values_ok X ids (st\<lparr>bp_edges := E, bp_symbols := (bp_symbols st)[s := (bp_symbols st ! s)\<lparr>head := h\<rparr>]\<rparr>) = values_ok X ids st"
  (is "values_ok X ids ?st = _")
proof -
  have ready: "is_ready (bp_symbols ?st ! t) = is_ready (bp_symbols st ! t)" for t
    by (cases "s < length (bp_symbols st)") (simp_all add: nth_list_update list_update_beyond)
  moreover have "waiting ?st M = waiting st M" for M using ready by (simp add: waiting_def)
  ultimately show ?thesis
    by (auto simp: values_ok_def storage_ok_def symbols_ok_def equation_ok_def queue_ok_def)
qed

lemma add_unknown_symbol:
  assumes ok: "adding X ids st equation N (s # rest)" and s: "s < length (bp_symbols st)" "\<not> is_ready (bp_symbols st ! s)"
  shows "\<exists>st' equation'. add_symbol_id (length ids) (st, equation) s = Inr (st', equation') \<and>
    adding X ids st' equation' (add_mset s N) rest \<and> ready_equations st' = ready_equations st \<and> bp_is_ready st' = bp_is_ready st \<and>
    map is_ready (bp_symbols st') = map is_ready (bp_symbols st) \<and> mcols (bp_D st') = mcols (bp_D st)"
proof -
  let ?st = "st\<lparr>bp_edges := bp_edges st @ [(length ids, head (bp_symbols st ! s))],
        bp_symbols := (bp_symbols st)[s := (bp_symbols st ! s)\<lparr>head := length (bp_edges st)\<rparr>]\<rparr>"
  let ?eq = "\<lparr>symbols_xor = symbols_xor equation XOR s, symbols_count = symbols_count equation + 1\<rparr>"
  have "edges_ok (ids @ [add_mset s N]) ?st" using ok s by (intro edges_ok_push) (simp_all add: adding_def)
  then have "adding X ids ?st ?eq (add_mset s N) rest"
    using ok s by (simp add: adding_def values_ok_heads nth_list_update xor.commute add.assoc add.left_commute)
  moreover have "add_symbol_id (length ids) (st, equation) s = Inr (?st, ?eq)" using s by (simp add: Let_def)
  moreover have "map is_ready (bp_symbols ?st) = map is_ready (bp_symbols st)"
    using s by (auto simp: map_update intro!: list_update_same_conv [THEN iffD2])
  ultimately show ?thesis by (intro exI [of _ ?st] exI [of _ ?eq]) (simp add: bp_is_ready_def)
qed

lemma waiting_same_ready: "map is_ready (bp_symbols st') = map is_ready (bp_symbols st) \<Longrightarrow>
    \<forall>s \<in># M. s < length (bp_symbols st) \<Longrightarrow> waiting st' M = waiting st M"
  unfolding waiting_def by (intro filter_mset_cong refl) (metis length_map nth_map)

lemma add_symbols_ok:
  "adding X ids st equation N rest \<Longrightarrow> \<forall>s \<in> set rest. s < length (bp_symbols st) \<Longrightarrow>
    \<exists>st' equation'. rfold (add_symbol_id (length ids)) (st, equation) rest = Inr (st', equation') \<and>
      adding X ids st' equation' (N + waiting st (mset rest)) [] \<and> ready_equations st' = ready_equations st \<and>
      bp_is_ready st' = bp_is_ready st \<and> map is_ready (bp_symbols st') = map is_ready (bp_symbols st) \<and> mcols (bp_D st') = mcols (bp_D st)"
proof (induction rest arbitrary: st equation N)
  case Nil
  then show ?case by (simp add: waiting_def)
next
  case (Cons s rest)
  have s: "s < length (bp_symbols st)" using Cons.prems by simp
  obtain st1 eq1 N1 where step: "add_symbol_id (length ids) (st, equation) s = Inr (st1, eq1)" "adding X ids st1 eq1 N1 rest"
      "ready_equations st1 = ready_equations st" "bp_is_ready st1 = bp_is_ready st" "mcols (bp_D st1) = mcols (bp_D st)"
      "map is_ready (bp_symbols st1) = map is_ready (bp_symbols st)" "N + waiting st (mset (s # rest)) = N1 + waiting st (mset rest)"
  proof (cases "is_ready (bp_symbols st ! s)")
    case True
    note t = that
    from add_ready_symbol [OF Cons.prems(1) s True] obtain D where D: "add_symbol_id (length ids) (st, equation) s = Inr (st\<lparr>bp_D := D\<rparr>, equation)"
      "adding X ids (st\<lparr>bp_D := D\<rparr>) equation N rest" "mcols D = mcols (bp_D st)" by blast
    show ?thesis by (rule t [OF D(1,2)]) (use D True in \<open>simp_all add: bp_is_ready_def waiting_def\<close>)
  next
    case False
    note t = that
    from add_unknown_symbol [OF Cons.prems(1) s False] obtain st' eq' where D: "add_symbol_id (length ids) (st, equation) s = Inr (st', eq')"
      "adding X ids st' eq' (add_mset s N) rest" "ready_equations st' = ready_equations st" "bp_is_ready st' = bp_is_ready st"
      "mcols (bp_D st') = mcols (bp_D st)" "map is_ready (bp_symbols st') = map is_ready (bp_symbols st)" by blast
    show ?thesis by (rule t [OF D]) (use False in \<open>simp add: waiting_def\<close>)
  qed
  have len: "length (bp_symbols st1) = length (bp_symbols st)" using step(6) by (metis length_map)
  then have "waiting st1 (mset rest) = waiting st (mset rest)" using step(6) Cons.prems(2) by (intro waiting_same_ready) simp_all
  with Cons.IH [OF step(2)] len Cons.prems(2) step show ?case by auto
qed


lemma adding_start:
  assumes inv: "bp_inv X ids st" and "length ids < mrows (bp_D st)" and D: "changes_row (bp_D st) (length ids) f D"
    and f: "\<And>j. j < mcols (bp_D st) \<Longrightarrow> f j = symbol_sum X (mset q) j"
  shows "adding X ids (st\<lparr>bp_D := D\<rparr>) \<lparr>symbols_xor = 0, symbols_count = 0\<rparr> {#} q"
proof -
  have v: "values_ok X ids st" "edges_ok ids st" using inv by (simp_all add: bp_inv_values)
  have "edges_ok (ids @ [{#}]) (st\<lparr>bp_D := D\<rparr>)" unfolding edges_ok_def
  proof (intro conjI allI impI)
    fix s assume "s < length (bp_symbols (st\<lparr>bp_D := D\<rparr>))" "\<not> is_ready (bp_symbols (st\<lparr>bp_D := D\<rparr>) ! s)"
    then obtain L where "edge_chain (bp_edges st) (head (bp_symbols st ! s)) L" "\<forall>e \<in> set L. e < length ids"
      "\<forall>e < length ids. count (mset L) e = count (ids ! e) s"
      using v(2) by (auto simp: edges_ok_def)
    then show "\<exists>L. edge_chain (bp_edges (st\<lparr>bp_D := D\<rparr>)) (head (bp_symbols (st\<lparr>bp_D := D\<rparr>) ! s)) L \<and>
        (\<forall>e \<in> set L. e < length (ids @ [{#}])) \<and> (\<forall>e < length (ids @ [{#}]). count (mset L) e = count ((ids @ [{#}]) ! e) s)"
      by (intro exI [of _ L]) (auto simp: nth_append less_Suc_eq count_list_0_iff [symmetric] simp del: count_list_0_iff)
  qed (use v in \<open>simp add: edges_ok_def\<close>)
  then show ?thesis
    using assms values_ok_equations_kept [OF v(1) D] by (simp add: adding_def changes_row_def)
qed

lemma edges_ok_waiting:
  assumes "edges_ok (ids @ [waiting st M]) st"
  shows "edges_ok (ids @ [M]) st" "waiting st M = {#} \<Longrightarrow> edges_ok ids st"
proof -
  have eq: "count (waiting st M) s = count M s" if "\<not> is_ready (bp_symbols st ! s)" for s using that by (simp add: waiting_def)
  show "edges_ok (ids @ [M]) st" unfolding edges_ok_def
  proof (intro conjI allI impI)
    fix s assume s: "s < length (bp_symbols st)" "\<not> is_ready (bp_symbols st ! s)"
    then obtain L where "edge_chain (bp_edges st) (head (bp_symbols st ! s)) L" "\<forall>e \<in> set L. e < length (ids @ [waiting st M])"
      "\<forall>e < length (ids @ [waiting st M]). count (mset L) e = count ((ids @ [waiting st M]) ! e) s"
      using assms unfolding edges_ok_def by blast
    then show "\<exists>L. edge_chain (bp_edges st) (head (bp_symbols st ! s)) L \<and> (\<forall>e \<in> set L. e < length (ids @ [M])) \<and>
        (\<forall>e < length (ids @ [M]). count (mset L) e = count ((ids @ [M]) ! e) s)"
      using eq [OF s(2)] by (intro exI [of _ L]) (auto simp: nth_append split: if_splits)
  qed (use assms in \<open>simp add: edges_ok_def\<close>)
  show "edges_ok ids st" if none: "waiting st M = {#}" unfolding edges_ok_def
  proof (intro conjI allI impI)
    fix s assume s: "s < length (bp_symbols st)" "\<not> is_ready (bp_symbols st ! s)"
    then obtain L where L: "edge_chain (bp_edges st) (head (bp_symbols st ! s)) L" "\<forall>e \<in> set L. e < Suc (length ids)"
      "\<forall>e < Suc (length ids). count (mset L) e = count ((ids @ [{#}]) ! e) s"
      using assms none by (auto simp: edges_ok_def)
    have "count (mset L) (length ids) = 0" using L(3) by simp
    then have "length ids \<notin> set L" by (simp add: count_eq_zero_iff)
    then have "\<forall>e \<in> set L. e < length ids" using L(2) by (auto simp: less_Suc_eq)
    with L show "\<exists>L. edge_chain (bp_edges st) (head (bp_symbols st ! s)) L \<and> (\<forall>e \<in> set L. e < length ids) \<and>
        (\<forall>e < length ids. count (mset L) e = count (ids ! e) s)"
      by (intro exI [of _ L]) (auto simp: nth_append)
  qed (use assms in \<open>simp add: edges_ok_def\<close>)
qed

lemma adding_end:
  assumes ok: "adding X ids st equation (waiting st M) []" and M: "\<forall>s \<in># M. s < length (bp_symbols st)"
    and q: "q = (if symbols_count equation = 1 then ready_equations st @ [length ids] else ready_equations st)"
  shows "bp_inv X (ids @ [M]) (st\<lparr>bp_equations := bp_equations st @ [equation], ready_equations := q\<rparr>)" (is "bp_inv X ?ids ?st")
proof -
  have v: "values_ok X ids st" "edges_ok (ids @ [M]) st" "length ids < mrows (bp_D st)"
    using ok edges_ok_waiting by (auto simp: adding_def)
  then have len: "length ids = length (bp_equations st)" by (simp add: values_ok_def)
  have w: "waiting ?st N = waiting st N" for N by (simp add: waiting_def)
  have "edges_ok ?ids ?st" using v(2) by (simp add: edges_ok_def)
  moreover have "equation_ok X ?st e (waiting st (?ids ! e))" if "e < Suc (length ids)" for e
    using that v(1) ok len by (auto simp: values_ok_def equation_ok_def adding_def nth_append less_Suc_eq)
  moreover have "queue_ok st []" using v(1) by (simp add: values_ok_def)
  then have "queue_ok ?st []" using len q
    by (auto simp: queue_ok_def nth_append less_Suc_eq split: if_splits)
  ultimately show ?thesis
    using v M len w by (auto simp: bp_inv_def values_ok_def storage_ok_def symbols_ok_def)
qed


text \<open>What the loop keeps whatever the equations are: the sizes, and the symbols that were found.\<close>

definition extends :: "bp_state \<Rightarrow> bp_state \<Rightarrow> bool" where
  "extends st st' =
     (mcols (bp_C st') = mcols (bp_C st) \<and> length (bp_symbols st') = length (bp_symbols st) \<and>
      (\<forall>s < length (bp_symbols st). is_ready (bp_symbols st ! s) \<longrightarrow> is_ready (bp_symbols st' ! s)))"

lemma extends_trans: "extends a b \<Longrightarrow> extends b c \<Longrightarrow> extends a c"
  by (simp add: extends_def)

lemma propagate_C: "propagate fuel s i st = Inr st' \<Longrightarrow> bp_C st' = bp_C st \<and> bp_symbols st' = bp_symbols st"
  by (induction fuel s i st rule: propagate.induct) (auto simp: rsimps Let_def split: if_splits)

lemma row_set_cols: "row_set m a b = Inr m' \<Longrightarrow> mcols m' = mcols m"
  by (auto simp: row_set_def rsimps split: if_splits)

lemma bp_round_extends: "bp_round st = Inr (Some st') \<Longrightarrow> extends st st'"
  by (auto simp: bp_round_def Let_def rsimps extends_def nth_list_update dest!: propagate_C row_set_cols split: if_splits)

lemma bp_loop_extends: "bp_loop st = Inr st' \<Longrightarrow> extends st st'"
proof (induction st rule: bp_loop.induct)
  case (1 st)
  obtain r where r: "bp_round st = Inr r" using 1(2) by (auto simp: bp_loop.simps [of st] rsimps)
  then show ?case
  proof (cases r)
    case None
    then show ?thesis using 1(2) r by (simp add: bp_loop.simps [of st] extends_def)
  next
    case (Some st1)
    then have "bp_loop st1 = Inr st'" using 1(2) r by (simp add: bp_loop.simps [of st])
    then show ?thesis using 1(1) r Some bp_round_extends extends_trans by blast
  qed
qed

lemma waiting_none: "waiting st M = {#} \<longleftrightarrow> (\<forall>s \<in># M. is_ready (bp_symbols st ! s))"
  by (induction M) (auto simp: waiting_def)

lemma waiting_extends: "extends st st' \<Longrightarrow> \<forall>s \<in># M. s < length (bp_symbols st) \<Longrightarrow> waiting st M = {#} \<Longrightarrow> waiting st' M = {#}"
  by (simp add: waiting_none extends_def)

lemma add_equation_ok:
  assumes inv: "bp_inv X ids st" "settled st" "0 < mrows (bp_D st)" and q: "q \<noteq> []" "\<forall>s \<in> set q. s < length (bp_symbols st)"
    and data: "length data = mcols (bp_C st)" "\<forall>j < mcols (bp_C st). Octet (data ! j) = symbol_sum X (mset q) j"
  shows "\<exists>st' ids'. add_equation q data st = Inr st' \<and> bp_inv X ids' st' \<and> settled st' \<and> 0 < mrows (bp_D st') \<and> extends st st' \<and>
    set ids \<subseteq> set ids' \<and> (waiting st' (mset q) = {#} \<or> mset q \<in> set ids')"
proof -
  obtain D0 where D0: "grow_equations st = Inr (st\<lparr>bp_D := D0\<rparr>)" "bp_inv X ids (st\<lparr>bp_D := D0\<rparr>)"
      "length (bp_equations st) < mrows D0" using grow_equations_ok [OF inv(1,3)] by blast
  have len: "length ids = length (bp_equations st)" and D0c: "matrix_ok D0" "mcols D0 = mcols (bp_C st)"
    using D0(2) by (simp_all add: bp_inv_def storage_ok_def)
  obtain D where D: "row_set D0 (length ids) data = Inr D" "changes_row D0 (length ids) (\<lambda>j. Octet (data ! j)) D"
    using row_set_changes [of D0 "length ids" data] D0(3) D0c len data by auto
  let ?st = "st\<lparr>bp_D := D\<rparr>"
  have "adding X ids ?st \<lparr>symbols_xor = 0, symbols_count = 0\<rparr> {#} q"
    using adding_start [OF D0(2), of "\<lambda>j. Octet (data ! j)" D q] D(2) D0(3) D0c len data by simp
  then obtain st1 eq where st1: "rfold (add_symbol_id (length ids)) (?st, \<lparr>symbols_xor = 0, symbols_count = 0\<rparr>) q = Inr (st1, eq)"
      "adding X ids st1 eq (waiting ?st (mset q)) []" "ready_equations st1 = ready_equations st" "bp_is_ready st1 = bp_is_ready st"
      "map is_ready (bp_symbols st1) = map is_ready (bp_symbols st)" "mcols (bp_D st1) = mcols D"
    using add_symbols_ok [of X ids ?st "\<lparr>symbols_xor = 0, symbols_count = 0\<rparr>" "{#}" q] q(2) by (auto simp: bp_is_ready_def)
  have sl: "length (bp_symbols st1) = length (bp_symbols st)" using st1(5) by (metis length_map)
  have w: "waiting ?st (mset q) = waiting st1 (mset q)" using st1(5) q(2) by (intro waiting_same_ready [symmetric]) simp_all
  note ok = st1(2) [unfolded w]
  have "mcols (bp_C st1) = mcols (bp_C st)"
    using ok st1(6) D(2) D0c by (simp add: adding_def values_ok_def storage_ok_def changes_row_def)
  then have ext: "extends st st1" using sl st1(5) unfolding extends_def by (metis nth_map)
  have set1: "settled st1" using inv(2) st1(3,4) by (simp add: settled_def)
  define st2 where "st2 = st1\<lparr>bp_equations := bp_equations st1 @ [eq],
    ready_equations := (if symbols_count eq = 1 then ready_equations st1 @ [length ids] else ready_equations st1)\<rparr>"
  have ext2: "extends st st2" using ext by (simp add: extends_def st2_def)
  have inv2: "bp_inv X (ids @ [mset q]) st2" unfolding st2_def using ok q(2) sl by (intro adding_end) simp_all
  then have pos: "0 < length (bp_equations st2)" "length (bp_equations st2) \<le> mrows (bp_D st2)"
    by (simp_all add: bp_inv_def storage_ok_def st2_def)
  have step: "add_equation q data st =
      (if symbols_count eq = 0 then Inr st1 else if symbols_count eq = 1 then bp_loop st2 else Inr st2)"
    using D0(1) q(1) len D(1) st1(1) by (simp add: add_equation_def Let_def st2_def)
  consider "symbols_count eq = 0" | "symbols_count eq = 1" | "symbols_count eq > 1" by linarith
  then show ?thesis
  proof cases
    case 1
    then have none: "waiting st1 (mset q) = {#}" using ok by (simp add: adding_def)
    then have "bp_inv X ids st1" using ok edges_ok_waiting(2) [of ids st1 "mset q"] by (simp add: adding_def bp_inv_values)
    moreover have "0 < mrows (bp_D st1)" using ok by (simp add: adding_def)
    ultimately show ?thesis using 1 step none set1 ext by auto
  next
    case 2
    from bp_loop_ok [OF inv2] obtain st' where st': "bp_loop st2 = Inr st'" "bp_inv X (ids @ [mset q]) st'" "settled st'"
      "length (bp_equations st') = length (bp_equations st2)" by blast
    then have "0 < mrows (bp_D st')" using pos by (simp add: bp_inv_def storage_ok_def)
    then show ?thesis using 2 step st' extends_trans [OF ext2 bp_loop_extends [OF st'(1)]] by (intro exI [of _ st'] exI [of _ "ids @ [mset q]"]) auto
  next
    case 3
    then have "settled st2" using set1 by (simp add: settled_def st2_def bp_is_ready_def)
    moreover have "0 < mrows (bp_D st2)" using pos by linarith
    ultimately show ?thesis using 3 step inv2 ext2 by (intro exI [of _ st2] exI [of _ "ids @ [mset q]"]) auto
  qed
qed


section \<open>Decoding a list of equations\<close>

text \<open>\<open>S s\<close> are the bytes of symbol \<open>s\<close>; an equation tells the sum of the symbols with the given numbers.\<close>

definition byte_of :: "u8 list list \<Rightarrow> nat \<Rightarrow> nat \<Rightarrow> octet" where
  "byte_of S s j = Octet (S ! s ! j)"

definition tells :: "u8 list list \<Rightarrow> nat \<Rightarrow> nat list \<times> u8 list \<Rightarrow> bool" where
  "tells S symbol_size = (\<lambda>(symbol_ids, data).
     symbol_ids \<noteq> [] \<and> list_all (\<lambda>s. s < length S) symbol_ids \<and>
     data = foldr (\<lambda>s acc. map2 (XOR) (S ! s) acc) symbol_ids (replicate symbol_size 0))"

definition add_equations :: "(nat list \<times> u8 list) list \<Rightarrow> bp_state \<Rightarrow> fec_fault + bp_state" where
  "add_equations eqs st = rfold (\<lambda>st (symbol_ids, data). add_equation symbol_ids data st) st eqs"

definition unknowns :: "bp_state \<Rightarrow> nat list \<Rightarrow> nat list" where
  "unknowns st symbol_ids = filter (\<lambda>s. \<not> is_ready (bp_symbols st ! s)) symbol_ids"

lemma told_sum:
  assumes "list_all (\<lambda>r. length r = symbol_size) S" "list_all (\<lambda>s. s < length S) q"
  shows "length (foldr (\<lambda>s acc. map2 (XOR) (S ! s) acc) q (replicate symbol_size 0)) = symbol_size \<and>
    (\<forall>j < symbol_size. Octet (foldr (\<lambda>s acc. map2 (XOR) (S ! s) acc) q (replicate symbol_size 0) ! j) = symbol_sum (byte_of S) (mset q) j)"
  using assms(2)
proof (induction q)
  case Nil
  then show ?case by (simp add: zero_octet_def)
next
  case (Cons s q)
  then have "length (S ! s) = symbol_size" using assms(1) by (simp add: list_all_iff)
  moreover have "Octet a + Octet b = Octet (a XOR b)" for a b by (simp add: plus_octet_def del: oct_add_plus)
  ultimately show ?case using Cons by (simp add: byte_of_def [of S s]) (metis)
qed

definition decoding :: "u8 list list \<Rightarrow> nat \<Rightarrow> nat list list \<Rightarrow> bp_state \<Rightarrow> bool" where
  "decoding S symbol_size qs st =
     (\<exists>ids. bp_inv (byte_of S) ids st \<and> settled st \<and> 0 < mrows (bp_D st) \<and> mcols (bp_C st) = symbol_size \<and>
        length (bp_symbols st) = length S \<and>
        (\<forall>q \<in> set qs. list_all (\<lambda>s. s < length S) q \<and> (waiting st (mset q) = {#} \<or> mset q \<in> set ids)))"

lemma decoding_init: "0 < m \<Longrightarrow> decoding S symbol_size [] (bp_init m (length S) symbol_size)"
proof -
  assume m: "0 < m"
  let ?st = "bp_init m (length S) symbol_size"
  have "edges_ok [] ?st" by (auto simp: edges_ok_def bp_init_def intro: edge_end)
  then have "bp_inv (byte_of S) [] ?st"
    by (simp add: bp_inv_def storage_ok_def symbols_ok_def queue_ok_def bp_init_def new_matrix_ok) (simp add: new_matrix_def)
  then show ?thesis using m by (auto simp: decoding_def bp_init_def settled_def new_matrix_def)
qed

lemma decoding_step:
  assumes d: "decoding S symbol_size qs st" and S: "list_all (\<lambda>r. length r = symbol_size) S" and t: "tells S symbol_size (q, data)"
  shows "\<exists>st'. add_equation q data st = Inr st' \<and> decoding S symbol_size (q # qs) st'"
proof -
  obtain ids where i: "bp_inv (byte_of S) ids st" "settled st" "0 < mrows (bp_D st)" "mcols (bp_C st) = symbol_size"
      "length (bp_symbols st) = length S"
      and qs: "\<forall>q \<in> set qs. list_all (\<lambda>s. s < length S) q \<and> (waiting st (mset q) = {#} \<or> mset q \<in> set ids)"
    using d unfolding decoding_def by blast
  have q: "q \<noteq> []" "list_all (\<lambda>s. s < length S) q" using t by (simp_all add: tells_def)
  have data: "length data = symbol_size" "\<forall>j < symbol_size. Octet (data ! j) = symbol_sum (byte_of S) (mset q) j"
    using told_sum [OF S q(2)] t by (simp_all add: tells_def)
  from add_equation_ok [OF i(1-3) q(1), of data] obtain st' ids' where st': "add_equation q data st = Inr st'"
      "bp_inv (byte_of S) ids' st'" "settled st'" "0 < mrows (bp_D st')" "extends st st'" "set ids \<subseteq> set ids'"
      "waiting st' (mset q) = {#} \<or> mset q \<in> set ids'"
    using q(2) data i(4,5) by (auto simp: list_all_iff)
  have "list_all (\<lambda>s. s < length S) p \<and> (waiting st' (mset p) = {#} \<or> mset p \<in> set ids')" if "p \<in> set qs" for p
    using qs that st'(6) waiting_extends [OF st'(5), of "mset p"] i(5) by (auto simp: list_all_iff)
  then have "decoding S symbol_size (q # qs) st'"
    unfolding decoding_def using st' q(2) i(4,5) by (intro exI [of _ ids']) (auto simp: extends_def)
  with st'(1) show ?thesis by blast
qed

lemma decoding_steps:
  "decoding S symbol_size qs st \<Longrightarrow> list_all (\<lambda>r. length r = symbol_size) S \<Longrightarrow> list_all (tells S symbol_size) eqs \<Longrightarrow>
    \<exists>st'. add_equations eqs st = Inr st' \<and> decoding S symbol_size (rev (map fst eqs) @ qs) st'"
proof (induction eqs arbitrary: st qs)
  case Nil
  then show ?case by (simp add: add_equations_def)
next
  case (Cons e eqs)
  obtain q data where e: "e = (q, data)" by (cases e)
  with Cons.prems decoding_step [of S symbol_size qs st q data] obtain st1 where
    "add_equation q data st = Inr st1" "decoding S symbol_size (q # qs) st1" by auto
  with Cons.IH [of "q # qs" st1] Cons.prems e show ?case by (auto simp: add_equations_def)
qed


lemma bp_is_ready_all:
  assumes "symbols_ok X st" "storage_ok st"
  shows "bp_is_ready st = list_all is_ready (bp_symbols st)"
proof -
  have s: "set (ready_symbols st) = {s. s < length (bp_symbols st) \<and> is_ready (bp_symbols st ! s)}" "distinct (ready_symbols st)"
    using assms(1) by (simp_all add: symbols_ok_def)
  then have "length (ready_symbols st) = card {s. s < length (bp_symbols st) \<and> is_ready (bp_symbols st ! s)}"
    by (metis distinct_card)
  then have "bp_is_ready st = (card {s. s < length (bp_symbols st) \<and> is_ready (bp_symbols st ! s)} = card {..<length (bp_symbols st)})"
    using assms(2) by (simp add: bp_is_ready_def storage_ok_def)
  also have "\<dots> = ({s. s < length (bp_symbols st) \<and> is_ready (bp_symbols st ! s)} = {..<length (bp_symbols st)})"
    using card_subset_eq [of "{..<length (bp_symbols st)}"] by (metis (no_types, lifting) finite_lessThan lessThan_iff mem_Collect_eq subsetI)
  also have "\<dots> = list_all is_ready (bp_symbols st)" by (auto simp: list_all_length)
  finally show ?thesis .
qed

lemma size_waiting: "size (waiting st (mset q)) = length (unknowns st q)"
  by (simp add: waiting_def unknowns_def mset_filter [symmetric] del: mset_filter)

lemma decoding_settled:
  assumes d: "decoding S symbol_size qs st" and q: "q \<in> set qs" and n: "\<not> bp_is_ready st"
  shows "length (unknowns st q) \<noteq> 1"
proof -
  obtain ids where i: "bp_inv (byte_of S) ids st" "settled st" "waiting st (mset q) = {#} \<or> mset q \<in> set ids"
    using d q unfolding decoding_def by blast
  show ?thesis
  proof (cases "waiting st (mset q) = {#}")
    case True
    then show ?thesis by (simp flip: size_waiting)
  next
    case False
    then obtain e where e: "e < length ids" "ids ! e = mset q" using i(3) by (auto simp: in_set_conv_nth)
    then have eq: "e < length (bp_equations st)" "symbols_count (bp_equations st ! e) = length (unknowns st q)"
      using i(1) by (auto simp: bp_inv_def equation_ok_def size_waiting)
    have "ready_equations st = []" using i(2) n by (simp add: settled_def)
    then show ?thesis using i(1) eq by (auto simp: bp_inv_def queue_ok_def)
  qed
qed

text \<open>
  C22. Whatever equations that hold of the symbols are added, in whatever order and with whatever repetitions, no check of the
  decoder fails; every symbol that it reports as found is the right one, and the others are refused.
\<close>

theorem decoded_symbols_right:
  assumes "0 < max_equation_count" "list_all (\<lambda>r. length r = symbol_size) S" "list_all (tells S symbol_size) eqs"
  shows "case add_equations eqs (bp_init max_equation_count (length S) symbol_size) of
      Inl f \<Rightarrow> False
    | Inr st \<Rightarrow> \<forall>s < length S. get_symbol st s = (if is_ready (bp_symbols st ! s) then Inr (S ! s) else Inl Check_failed)"
proof -
  obtain st where st: "add_equations eqs (bp_init max_equation_count (length S) symbol_size) = Inr st"
      "decoding S symbol_size (rev (map fst eqs) @ []) st"
    using decoding_steps [OF decoding_init [OF assms(1)] assms(2,3)] by blast
  then obtain ids where i: "bp_inv (byte_of S) ids st" "mcols (bp_C st) = symbol_size" "length (bp_symbols st) = length S"
    unfolding decoding_def by blast
  have "get_symbol st s = Inr (S ! s)" if s: "s < length S" "is_ready (bp_symbols st ! s)" for s
  proof -
    have C: "matrix_ok (bp_C st)" "s < mrows (bp_C st)" using i s by (simp_all add: bp_inv_def storage_ok_def)
    have "entry (bp_C st) s j = byte_of S s j" if "j < symbol_size" for j using i s that by (simp add: bp_inv_def symbols_ok_def)
    then have "matrix (bp_C st) ! s = S ! s"
      using matrix_ok_row [OF C] i(2) s(1) assms(2) by (intro nth_equalityI) (auto simp: entry_def byte_of_def list_all_length)
    then show ?thesis using C s i(3) by (simp add: get_symbol_def table_at_def row_at_def)
  qed
  then show ?thesis using st(1) i(3) by (simp add: get_symbol_def table_at_def)
qed

theorem decoded_symbols_right_witness:
  "case add_equations [([0, 1], [3, 9]), ([1, 2], [7, 12]), ([2], [4, 4])] (bp_init 1 3 2) of
      Inl f \<Rightarrow> False
    | Inr st \<Rightarrow> get_symbol st 0 = (if is_ready (bp_symbols st ! 0) then Inr [0, 1] else Inl Check_failed) \<and> is_ready (bp_symbols st ! 0)"
proof -
  let ?S = "[[0, 1], [3, 8], [4, 4]] :: u8 list list"
  let ?eqs = "[([0, 1], [3, 9]), ([1, 2], [7, 12]), ([2], [4, 4])] :: (nat list \<times> u8 list) list"
  have "list_all (tells ?S 2) ?eqs" by code_simp
  then have "case add_equations ?eqs (bp_init 1 (length ?S) 2) of
      Inl f \<Rightarrow> False
    | Inr st \<Rightarrow> \<forall>s < length ?S. get_symbol st s = (if is_ready (bp_symbols st ! s) then Inr (?S ! s) else Inl Check_failed)"
    by (intro decoded_symbols_right) simp_all
  moreover have "case add_equations ?eqs (bp_init 1 3 2) of Inl f \<Rightarrow> False | Inr st \<Rightarrow> is_ready (bp_symbols st ! 0)" by code_simp
  ultimately show ?thesis by (simp add: numeral_3_eq_3 split: sum.splits)
qed

text \<open>
  C23. The decoder finds whatever substitution can find: after any such equations either every symbol is known and the decoder says
  so, or it says that it is not ready and none of the equations that were added has exactly one unknown symbol left.
\<close>

theorem peeling_exhaustive:
  assumes "0 < max_equation_count" "list_all (\<lambda>r. length r = symbol_size) S" "list_all (tells S symbol_size) eqs"
  shows "\<exists>st. add_equations eqs (bp_init max_equation_count (length S) symbol_size) = Inr st \<and>
    (if bp_is_ready st then list_all is_ready (bp_symbols st)
     else list_ex (\<lambda>s. \<not> is_ready s) (bp_symbols st) \<and> list_all (\<lambda>(symbol_ids, _). length (unknowns st symbol_ids) \<noteq> 1) eqs)"
proof -
  obtain st where st: "add_equations eqs (bp_init max_equation_count (length S) symbol_size) = Inr st"
      "decoding S symbol_size (rev (map fst eqs) @ []) st"
    using decoding_steps [OF decoding_init [OF assms(1)] assms(2,3)] by blast
  then have "symbols_ok (byte_of S) st" "storage_ok st" by (auto simp: decoding_def bp_inv_def)
  then have "bp_is_ready st = list_all is_ready (bp_symbols st)" by (rule bp_is_ready_all)
  moreover have "list_all (\<lambda>(symbol_ids, _). length (unknowns st symbol_ids) \<noteq> 1) eqs" if "\<not> bp_is_ready st"
    using decoding_settled [OF st(2) _ that] by (force simp: list_all_iff)
  ultimately show ?thesis using st(1) by (auto simp: list_all_iff list_ex_iff)
qed

theorem peeling_exhaustive_witness:
  "\<exists>st. add_equations [([0, 1], [3, 9]), ([0, 1, 2], [7, 13])] (bp_init 1 4 2) = Inr st \<and>
    (if bp_is_ready st then list_all is_ready (bp_symbols st)
     else list_ex (\<lambda>s. \<not> is_ready s) (bp_symbols st) \<and>
       list_all (\<lambda>(symbol_ids, _). length (unknowns st symbol_ids) \<noteq> 1) [([0, 1], [3, 9]), ([0, 1, 2], [7, 13 :: u8])])"
proof -
  let ?S = "[[0, 1], [3, 8], [4, 4], [5, 6]] :: u8 list list"
  have "list_all (tells ?S 2) [([0, 1], [3, 9]), ([0, 1, 2], [7, 13])]" by code_simp
  from peeling_exhaustive [OF _ _ this, of 1] show ?thesis by (simp add: eval_nat_numeral)
qed

end
