(* ===== verification/Spec2Isabelle.thy ===== *)
theory Spec2Isabelle
  imports Shard Simplex_Network VM_Cp0 Bigint_Props Fec_Belief
begin

text \<open>
  A verification library for the TON node (C++ sources under \<^verbatim>\<open>src/\<close>).

  \<^bold>\<open>The parts of the program.\<close>  Validators agree on blocks with the Simplex consensus; blocks belong to shards of a workchain; what
  a block does to an account is computed by the TON virtual machine, whose integers have 257 bits; blocks and messages travel
  through the network in pieces with forward error correction.  The development models these four parts, each from its state and
  data up to the operations that are called from outside.  They meet in the node, and not in each other's code:
  the theories of a part import only the prelude and theories of the same part.

  \<^bold>\<open>Conventions\<close> (\<^verbatim>\<open>Ton_Prelude\<close>).  A C++ function that can throw, fail a \<^verbatim>\<open>CHECK\<close> or leave a container is a
  function into a sum: \<open>Inl\<close> is the failure, \<open>Inr\<close> the result, \<open>rbind\<close> the sequence of statements.  Member functions
  take the object as a record and return it updated.  A loop is a recursive function with a proof of termination; where the number of
  rounds depends on the data, it has fuel and a theorem that the fuel is enough.

  \<^bold>\<open>Shards\<close> (\<^verbatim>\<open>ton/ton-shard.h\<close>, \<^verbatim>\<open>tdutils/td/utils/bits.h\<close>): \<^verbatim>\<open>Shard\<close> has the operations on 64-bit identifiers over
  machine words, and shows that they are the operations on bit strings that the identifiers stand for.

  \<^bold>\<open>Simplex consensus\<close> (\<^verbatim>\<open>validator/consensus/simplex\<close>).
  \<^item> \<^verbatim>\<open>Simplex_Types\<close>: votes, certificates and their validation (\<^verbatim>\<open>votes.h\<close>, \<^verbatim>\<open>certificate.cpp\<close>, \<^verbatim>\<open>bus.h\<close>);
  \<^item> \<^verbatim>\<open>Simplex_State\<close>: the table of slots (\<^verbatim>\<open>state.h\<close>);
  \<^item> \<^verbatim>\<open>Simplex_Pool\<close>: the actor that counts votes (\<^verbatim>\<open>pool.cpp\<close>), one definition for each handler;
  \<^item> \<^verbatim>\<open>Simplex_Consensus\<close>: the actor that votes (\<^verbatim>\<open>consensus.cpp\<close>), its coroutine as a task with a stage for each suspension;
  \<^item> \<^verbatim>\<open>Simplex_Intervals\<close>, \<^verbatim>\<open>Simplex_Slot_Inv\<close>, \<^verbatim>\<open>Simplex_Pool_Inv\<close>, \<^verbatim>\<open>Simplex_Pool_Certs\<close>, \<^verbatim>\<open>Simplex_Pool_Safe\<close>,
    \<^verbatim>\<open>Simplex_Consensus_Inv\<close>: the invariants of the two actors, and that no handler aborts;
  \<^item> \<^verbatim>\<open>Simplex_Pool_Run\<close>, \<^verbatim>\<open>Simplex_Pool_Props\<close>: runs of the pool and its properties;
  \<^item> \<^verbatim>\<open>Simplex_Node\<close>, \<^verbatim>\<open>Simplex_Network\<close>: nodes with their database, crashes and restarts, the network with faulty validators and an
    adversary that delivers messages, and the safety of finality, proved in the locale \<^verbatim>\<open>vote_protocol\<close> and interpreted on the network.

  Signing and the check of signatures are functions of the bus; the hypothesis is that signatures of honest validators are not forged.
  Slots and indices are natural numbers, weights are 64-bit words and shown not to wrap.  Messages may be lost, repeated and reordered;
  nothing is claimed about progress, which depends on timing.

  \<^bold>\<open>Virtual machine\<close> (\<^verbatim>\<open>crypto/vm\<close>).
  \<^item> \<^verbatim>\<open>VM_Stack\<close>: stack entries, the class \<^verbatim>\<open>Stack\<close>, gas (\<^verbatim>\<open>stack.hpp\<close>, \<^verbatim>\<open>stack.cpp\<close>, \<^verbatim>\<open>vm.h\<close>);
  \<^item> \<^verbatim>\<open>VM_Stack_Ops\<close>, \<^verbatim>\<open>VM_Tuple_Ops\<close>, \<^verbatim>\<open>VM_Arith\<close>: the instructions (\<^verbatim>\<open>stackops.cpp\<close>, \<^verbatim>\<open>tupleops.cpp\<close>, \<^verbatim>\<open>arithops.cpp\<close>);
  \<^item> \<^verbatim>\<open>VM_Opctable\<close>, \<^verbatim>\<open>VM_Dump\<close>: the table of opcodes, dispatch and disassembly (\<^verbatim>\<open>opctable.cpp\<close>), with the contract of an
    instruction set as the locale \<^verbatim>\<open>instruction_set\<close> and its extension \<^verbatim>\<open>linear_instruction_set\<close>;
  \<^item> \<^verbatim>\<open>VM_Arith_Table\<close>, \<^verbatim>\<open>VM_Cp0\<close>: the codepage of these groups, which interprets the locale;
  \<^item> \<^verbatim>\<open>VM_Stack_Props\<close>, \<^verbatim>\<open>VM_Arith_Props\<close> and the end of \<^verbatim>\<open>VM_Tuple_Ops\<close>: what the instructions compute.

  The theorems show that every opcode is decoded in one way, that no code and no stack lead to undefined behaviour, and that every run
  of straight-line code ends: \<^verbatim>\<open>run_code\<close> has fuel, and as many rounds as the code has bits are enough.  The statements on what
  an instruction computes assume a stack of less than \<open>2 ^ 31\<close> entries, as its \<^verbatim>\<open>int\<close> depth requires.  Kinds of entries that these
  instructions only move are values of a type parameter.

  \<^bold>\<open>Big integers\<close> (\<^verbatim>\<open>crypto/common/bigint.hpp\<close>, \<^verbatim>\<open>refint.cpp\<close>).  \<^verbatim>\<open>Bigint\<close> has the digits and their normalisation;
  \<^verbatim>\<open>Bigint_Mul\<close>, \<^verbatim>\<open>Bigint_Cmp\<close>, \<^verbatim>\<open>Bigint_Shift\<close>, \<^verbatim>\<open>Bigint_Logic\<close>, \<^verbatim>\<open>Bigint_Mod\<close> and \<^verbatim>\<open>Bigint_Size\<close> the groups of
  operations; \<^verbatim>\<open>Bigint_Props\<close> the statements that they compute the integer operations, that normal forms are unique, and where they do
  not.  Digits are integers; one theorem shows that they and the carries stay within signed 64-bit words.

  \<^bold>\<open>Forward error correction\<close> (\<^verbatim>\<open>tdfec/td/fec/algebra\<close>).
  \<^item> \<^verbatim>\<open>Fec_Octet\<close>, \<^verbatim>\<open>Fec_Field\<close>: the arithmetic of \<^verbatim>\<open>Octet.h\<close> by tables of logarithms, and that it is a field of the library;
  \<^item> \<^verbatim>\<open>Fec_Tables\<close>, \<^verbatim>\<open>Fec_Simd\<close>: the tables of \<^verbatim>\<open>Octet.cpp\<close> and the row operations of \<^verbatim>\<open>Simd.h\<close> with their contract, the locale
    \<^verbatim>\<open>row_operations\<close>, interpreted on the three implementations;
  \<^item> \<^verbatim>\<open>Fec_Matrix\<close>, \<^verbatim>\<open>Fec_Gauss\<close>: \<^verbatim>\<open>MatrixGF256.h\<close> and \<^verbatim>\<open>GaussianElimination.cpp\<close>, which solves a system or
    reports dependent columns;
  \<^item> \<^verbatim>\<open>Fec_Belief\<close>: \<^verbatim>\<open>BeliefPropagationDecoding.cpp\<close>, which finds right symbols only and all that substitution can find.

  Rows are lists of their bytes without the padding.  The visits along the edges of a symbol have as fuel the number
  of edges, which is enough since edges point to older ones.  The size that the decoder computes in floating point is a parameter.

  \<^bold>\<open>Not modelled.\<close>  The division of big integers and the instructions that use it estimate digits in floating point.  The
  other instruction groups, transactions, block production and block validation work on cells: trees with SHA-256 hashes that are loaded on
  demand, read and written through code generated from schemes that is not part of the sources.  The solvers of the RaptorQ and the
  online codes are built on the modelled algebra, but their parameters come from the tables of the standard.  Network protocols, storage,
  databases, clients and tools are input and output; compilers of contract languages are not part of the node.
\<close>

end
